(* ===== verification/OS_Prelude.thy ===== *)
theory OS_Prelude
  imports Main "HOL-Library.Word" "HOL-Library.Multiset"
begin

text \<open>
  Shared vocabulary of the development: the machine types of the C programs, the
  faults that undefined behaviour is turned into, results as sums, the reachable
  states of a transition system together with the interface every step relation of
  the development is plugged into, and the generic list lemmas the components share.
\<close>

unbundle bit_operations_syntax

section \<open>Machine types and results\<close>

type_synonym byte = "8 word"
type_synonym u16 = "16 word"
type_synonym u32 = "32 word"
type_synonym u64 = "64 word"

text \<open>
  C gives no meaning to some steps. The model stops there with a value of this type,
  so that a theorem about a result \<open>Inr\<close> is a theorem about executions that never
  leave defined behaviour.
\<close>

datatype fault =
    OutOfBounds        \<comment> \<open>an array or buffer accessed outside its extent\<close>
  | NullDeref          \<comment> \<open>a null or dangling pointer dereferenced\<close>
  | BadFree            \<comment> \<open>\<open>free\<close> of a pointer that is not a live allocation\<close>
  | Uninitialised      \<comment> \<open>an indeterminate value used\<close>
  | DivByZero          \<comment> \<open>an integer division by zero\<close>
  | AssertFailed       \<comment> \<open>an \<open>assert\<close> of the source fails\<close>

type_synonym 'a res = "fault + 'a"

definition bindE :: "'a res \<Rightarrow> ('a \<Rightarrow> 'b res) \<Rightarrow> 'b res" where
  "bindE r f = (case r of Inl e \<Rightarrow> Inl e | Inr x \<Rightarrow> f x)"

lemma bindE_simps [simp]:
  "bindE (Inl e) f = Inl e"
  "bindE (Inr x) f = f x"
  by (simp_all add: bindE_def)

lemma bindE_eq_Inr: "bindE r f = Inr y \<longleftrightarrow> (\<exists>x. r = Inr x \<and> f x = Inr y)"
  by (cases r) simp_all

lemma bindE_InrE:
  assumes "bindE r f = Inr y"
  obtains x where "r = Inr x" "f x = Inr y"
  using assms by (auto simp: bindE_eq_Inr)

definition ok :: "'a res \<Rightarrow> bool" where
  "ok r \<longleftrightarrow> (\<exists>x. r = Inr x)"

lemma ok_simps [simp]: "ok (Inr x)" "\<not> ok (Inl e)"
  by (auto simp: ok_def)

section \<open>Transition systems\<close>

inductive reach :: "('s \<Rightarrow> bool) \<Rightarrow> ('s \<Rightarrow> 's \<Rightarrow> bool) \<Rightarrow> 's \<Rightarrow> bool"
  for init :: "'s \<Rightarrow> bool" and stp :: "'s \<Rightarrow> 's \<Rightarrow> bool" where
  reach_init: "init s \<Longrightarrow> reach init stp s"
| reach_step: "reach init stp s \<Longrightarrow> stp s t \<Longrightarrow> reach init stp t"

text \<open>
  The interface of a step relation: an invariant that holds initially and that every
  step keeps. Everything reachable then satisfies it.
\<close>

locale invariant_system =
  fixes init :: "'s \<Rightarrow> bool"
    and stp :: "'s \<Rightarrow> 's \<Rightarrow> bool"
    and inv :: "'s \<Rightarrow> bool"
  assumes init_inv: "init s \<Longrightarrow> inv s"
    and step_inv: "inv s \<Longrightarrow> stp s t \<Longrightarrow> inv t"
begin

lemma reach_inv: "reach init stp s \<Longrightarrow> inv s"
  by (induction rule: reach.induct) (blast intro: init_inv step_inv)+

lemma steps_inv: "stp\<^sup>*\<^sup>* s t \<Longrightarrow> inv s \<Longrightarrow> inv t"
  by (induction rule: rtranclp_induct) (blast intro: step_inv)+

end

section \<open>Lists\<close>

lemma count_upd:
  assumes "i < length xs"
  shows "int (length (filter P (xs[i := x]))) =
    int (length (filter P xs)) - (if P (xs ! i) then 1 else 0) + (if P x then 1 else 0)"
  using assms
proof (induction xs arbitrary: i)
  case (Cons a xs)
  show ?case
  proof (cases i)
    case 0
    then show ?thesis by simp
  next
    case (Suc j)
    with Cons.prems Cons.IH [of j] show ?thesis by (simp split: if_splits)
  qed
qed simp

lemma takeWhile_prefix: "\<exists>zs. xs = takeWhile P xs @ zs"
  by (metis takeWhile_dropWhile_id)

end
