(* ===== verification/Mem_Pool.thy ===== *)
theory Mem_Pool
  imports OS_Prelude "HOL-Library.Monad_Syntax"
begin

text \<open>
  The memory pool of \<open>mem_pool/\<close> (\<open>mem_alloc.c\<close>, \<open>mem_pool_palloc.c\<close> and their headers).
  Addresses and sizes are 64-bit words, as \<open>uintptr_t\<close> and \<open>size_t\<close> are on the LP64
  platforms the program is built for. The heap is a record: the regions \<open>malloc\<close> has
  handed out and not taken back, and typed maps from addresses to the structures stored
  there. \<open>malloc\<close> itself is an argument (\<open>pick\<close>), with its contract in the locale
  \<open>allocator\<close>. Every operation returns an \<open>option\<close>: \<open>None\<close> means that the C call has no
  defined result (it dereferences a pointer to nothing, frees what is not allocated, writes
  outside its region, or loops for ever).
\<close>

section \<open>Constants and structures\<close>

definition SIZEOF_POOL_DATA :: u64 where "SIZEOF_POOL_DATA = 32"
definition SIZEOF_POOL :: u64 where "SIZEOF_POOL = 56"
definition SIZEOF_LARGE :: u64 where "SIZEOF_LARGE = 16"
definition NGX_ALIGNMENT :: u64 where "NGX_ALIGNMENT = 8"
definition NGX_POOL_ALIGNMENT :: u64 where "NGX_POOL_ALIGNMENT = 16"

definition NGX_OK :: int where "NGX_OK = 0"
definition NGX_DECLINED :: int where "NGX_DECLINED = -5"

lemmas pool_consts = SIZEOF_POOL_DATA_def SIZEOF_POOL_def SIZEOF_LARGE_def NGX_ALIGNMENT_def

record ngx_pool_data =
  d_last :: u64
  d_end :: u64
  d_next :: u64
  d_failed :: u64

record ngx_pool_large =
  l_next :: u64
  l_alloc :: u64

text \<open>The fields of \<open>ngx_pool_s\<close> after \<open>d\<close>; only the first block of a pool has them.\<close>

record ngx_pool_hdr =
  p_max :: u64
  p_current :: u64
  p_large :: u64

type_synonym region = "u64 \<times> u64"

record mem =
  live :: "region list"
  blk :: "u64 \<rightharpoonup> ngx_pool_data"
  hdr :: "u64 \<rightharpoonup> ngx_pool_hdr"
  lrg :: "u64 \<rightharpoonup> ngx_pool_large"
  zeroed :: "region list"

definition ngx_align :: "u64 \<Rightarrow> u64 \<Rightarrow> u64" where
  "ngx_align d a = (d + (a - 1)) AND NOT (a - 1)"

definition ngx_align_ptr :: "u64 \<Rightarrow> u64 \<Rightarrow> u64" where
  "ngx_align_ptr p a = (p + (a - 1)) AND NOT (a - 1)"

definition NGX_MIN_POOL_SIZE :: u64 where
  "NGX_MIN_POOL_SIZE = ngx_align (SIZEOF_POOL + 2 * SIZEOF_LARGE) NGX_POOL_ALIGNMENT"

definition NGX_MAX_ALLOC_FROM_POOL :: "u64 \<Rightarrow> u64" where
  "NGX_MAX_ALLOC_FROM_POOL ngx_pagesize = ngx_pagesize - 1"

section \<open>The allocator underneath\<close>

text \<open>\<open>pick L n\<close> is the address \<open>malloc(n)\<close> returns when the regions \<open>L\<close> are live, 0 for NULL.\<close>

type_synonym malloc = "region list \<Rightarrow> u64 \<Rightarrow> u64"

definition ngx_alloc :: "malloc \<Rightarrow> u64 \<Rightarrow> mem \<Rightarrow> u64 \<times> mem" where
  "ngx_alloc pick sz m =
     (let p = pick (live m) sz
      in if p = 0 then (0, m) else (p, m\<lparr>live := (p, sz) # live m\<rparr>))"

definition ngx_calloc :: "malloc \<Rightarrow> u64 \<Rightarrow> mem \<Rightarrow> u64 \<times> mem" where
  "ngx_calloc pick sz m =
     (let (p, m1) = ngx_alloc pick sz m
      in if p \<noteq> 0 then (p, m1\<lparr>zeroed := (p, sz) # zeroed m1\<rparr>) else (p, m1))"

text \<open>The macro of \<open>mem_alloc.h\<close> drops the alignment.\<close>

definition ngx_memalign :: "malloc \<Rightarrow> u64 \<Rightarrow> u64 \<Rightarrow> mem \<Rightarrow> u64 \<times> mem" where
  "ngx_memalign pick alignment sz m = ngx_alloc pick sz m"

definition rlo :: "region \<Rightarrow> nat" where "rlo r = unat (fst r)"
definition rhi :: "region \<Rightarrow> nat" where "rhi r = unat (fst r) + max 1 (unat (snd r))"

definition in_region :: "u64 \<Rightarrow> region \<Rightarrow> bool" where
  "in_region a r \<longleftrightarrow> rlo r \<le> unat a \<and> unat a < rhi r"

definition wipe :: "region \<Rightarrow> (u64 \<rightharpoonup> 'a) \<Rightarrow> (u64 \<rightharpoonup> 'a)" where
  "wipe r f = (\<lambda>a. if in_region a r then None else f a)"

definition ngx_free :: "u64 \<Rightarrow> mem \<Rightarrow> mem option" where
  "ngx_free p m =
     (if p = 0 then Some m
      else case map_of (live m) p of
        None \<Rightarrow> None
      | Some n \<Rightarrow> Some (m\<lparr>live := filter (\<lambda>r. fst r \<noteq> p) (live m),
          blk := wipe (p, n) (blk m), hdr := wipe (p, n) (hdr m), lrg := wipe (p, n) (lrg m)\<rparr>))"

section \<open>The pool operations\<close>

definition ngx_create_pool :: "malloc \<Rightarrow> u64 \<Rightarrow> u64 \<Rightarrow> mem \<Rightarrow> (u64 \<times> mem) option" where
  "ngx_create_pool pick ngx_pagesize sz m =
     (let (p, m1) = ngx_memalign pick NGX_POOL_ALIGNMENT sz m
      in if p = 0 then Some (0, m1)
         else if sz < SIZEOF_POOL then None  \<comment> \<open>the header is written past the region\<close>
         else
           let sz' = sz - SIZEOF_POOL;
               mx = (if sz' < NGX_MAX_ALLOC_FROM_POOL ngx_pagesize then sz'
                     else NGX_MAX_ALLOC_FROM_POOL ngx_pagesize)
           in Some (p, m1\<lparr>blk := (blk m1)(p \<mapsto> \<lparr>d_last = p + SIZEOF_POOL, d_end = p + sz,
                                           d_next = 0, d_failed = 0\<rparr>),
                         hdr := (hdr m1)(p \<mapsto> \<lparr>p_max = mx, p_current = p, p_large = 0\<rparr>)\<rparr>))"

text \<open>The \<open>do\<close>-\<open>while\<close> of \<open>ngx_palloc_small\<close>: the block with room and the address, or 0.\<close>

partial_function (option) palloc_scan ::
  "(u64 \<rightharpoonup> ngx_pool_data) \<Rightarrow> u64 \<Rightarrow> bool \<Rightarrow> u64 \<Rightarrow> (u64 \<times> u64) option" where
  "palloc_scan B sz align p =
     Option.bind (B p) (\<lambda>d.
       let m = (if align then ngx_align_ptr (d_last d) NGX_ALIGNMENT else d_last d)
       in if sz \<le> d_end d - m then Some (p, m)
          else if d_next d = 0 then Some (0, 0)
          else palloc_scan B sz align (d_next d))"

text \<open>The \<open>for\<close> of \<open>ngx_palloc_block\<close>: counts failures and moves \<open>current\<close> on.\<close>

partial_function (option) palloc_bump ::
  "(u64 \<rightharpoonup> ngx_pool_data) \<Rightarrow> u64 \<Rightarrow> u64 \<Rightarrow> ((u64 \<rightharpoonup> ngx_pool_data) \<times> u64 \<times> u64) option" where
  "palloc_bump B p cur =
     Option.bind (B p) (\<lambda>d.
       if d_next d = 0 then Some (B, cur, p)
       else palloc_bump (B(p \<mapsto> d\<lparr>d_failed := d_failed d + 1\<rparr>)) (d_next d)
              (if d_failed d > 4 then d_next d else cur))"

definition ngx_palloc_block :: "malloc \<Rightarrow> u64 \<Rightarrow> u64 \<Rightarrow> mem \<Rightarrow> (u64 \<times> mem) option" where
  "ngx_palloc_block pick pool sz m = do {
     d0 \<leftarrow> blk m pool;
     let psize = d_end d0 - pool;
     let (a, m1) = ngx_memalign pick NGX_POOL_ALIGNMENT psize m;
     if a = 0 then Some (0, m1)
     else do {
       let b = ngx_align_ptr (a + SIZEOF_POOL_DATA) NGX_ALIGNMENT;
       let B1 = (blk m1)(a \<mapsto> \<lparr>d_last = b + sz, d_end = a + psize, d_next = 0, d_failed = 0\<rparr>);
       h \<leftarrow> hdr m1 pool;
       (B2, cur, p) \<leftarrow> palloc_bump B1 (p_current h) (p_current h);
       d \<leftarrow> B2 p;
       Some (b, m1\<lparr>blk := B2(p \<mapsto> d\<lparr>d_next := a\<rparr>),
                   hdr := (hdr m1)(pool \<mapsto> h\<lparr>p_current := cur\<rparr>)\<rparr>)
     }
   }"

definition ngx_palloc_small :: "malloc \<Rightarrow> u64 \<Rightarrow> u64 \<Rightarrow> bool \<Rightarrow> mem \<Rightarrow> (u64 \<times> mem) option" where
  "ngx_palloc_small pick pool sz align m = do {
     h \<leftarrow> hdr m pool;
     (p, a) \<leftarrow> palloc_scan (blk m) sz align (p_current h);
     if p \<noteq> 0 then do {
       d \<leftarrow> blk m p;
       Some (a, m\<lparr>blk := (blk m)(p \<mapsto> d\<lparr>d_last := a + sz\<rparr>)\<rparr>)
     }
     else ngx_palloc_block pick pool sz m
   }"

text \<open>The search of \<open>ngx_palloc_large\<close> for a reusable list node; it gives up after five.\<close>

function large_scan :: "(u64 \<rightharpoonup> ngx_pool_large) \<Rightarrow> nat \<Rightarrow> u64 \<Rightarrow> u64 option" where
  "large_scan L n p =
     (if p = 0 then Some 0
      else case L p of
        None \<Rightarrow> None
      | Some l \<Rightarrow> if l_alloc l = 0 then Some p
                  else if n > 3 then Some 0
                  else large_scan L (n + 1) (l_next l))"
  by pat_completeness auto
termination
  by (relation "measure (\<lambda>(L, n, p). 5 - n)") auto

declare large_scan.simps [simp del]

definition large_push :: "malloc \<Rightarrow> u64 \<Rightarrow> u64 \<Rightarrow> mem \<Rightarrow> (u64 \<times> mem) option" where
  "large_push pick pool p m = do {
     (q, m2) \<leftarrow> ngx_palloc_small pick pool SIZEOF_LARGE True m;
     if q = 0 then do { m3 \<leftarrow> ngx_free p m2; Some (0, m3) }
     else do {
       h \<leftarrow> hdr m2 pool;
       Some (p, m2\<lparr>lrg := (lrg m2)(q \<mapsto> \<lparr>l_next = p_large h, l_alloc = p\<rparr>),
                   hdr := (hdr m2)(pool \<mapsto> h\<lparr>p_large := q\<rparr>)\<rparr>)
     }
   }"

definition ngx_palloc_large :: "malloc \<Rightarrow> u64 \<Rightarrow> u64 \<Rightarrow> mem \<Rightarrow> (u64 \<times> mem) option" where
  "ngx_palloc_large pick pool sz m =
     (let (p, m1) = ngx_alloc pick sz m
      in if p = 0 then Some (0, m1)
         else do {
           h \<leftarrow> hdr m1 pool;
           lp \<leftarrow> large_scan (lrg m1) 0 (p_large h);
           if lp \<noteq> 0 then do {
             l \<leftarrow> lrg m1 lp;
             Some (p, m1\<lparr>lrg := (lrg m1)(lp \<mapsto> l\<lparr>l_alloc := p\<rparr>)\<rparr>)
           }
           else large_push pick pool p m1
         })"

definition ngx_palloc :: "malloc \<Rightarrow> u64 \<Rightarrow> u64 \<Rightarrow> mem \<Rightarrow> (u64 \<times> mem) option" where
  "ngx_palloc pick pool sz m = do {
     h \<leftarrow> hdr m pool;
     if sz \<le> p_max h then ngx_palloc_small pick pool sz True m
     else ngx_palloc_large pick pool sz m
   }"

definition ngx_pnalloc :: "malloc \<Rightarrow> u64 \<Rightarrow> u64 \<Rightarrow> mem \<Rightarrow> (u64 \<times> mem) option" where
  "ngx_pnalloc pick pool sz m = do {
     h \<leftarrow> hdr m pool;
     if sz \<le> p_max h then ngx_palloc_small pick pool sz False m
     else ngx_palloc_large pick pool sz m
   }"

definition ngx_pmemalign :: "malloc \<Rightarrow> u64 \<Rightarrow> u64 \<Rightarrow> u64 \<Rightarrow> mem \<Rightarrow> (u64 \<times> mem) option" where
  "ngx_pmemalign pick pool sz alignment m =
     (let (p, m1) = ngx_memalign pick alignment sz m
      in if p = 0 then Some (0, m1) else large_push pick pool p m1)"

definition ngx_pcalloc :: "malloc \<Rightarrow> u64 \<Rightarrow> u64 \<Rightarrow> mem \<Rightarrow> (u64 \<times> mem) option" where
  "ngx_pcalloc pick pool sz m = do {
     (p, m1) \<leftarrow> ngx_palloc pick pool sz m;
     if p \<noteq> 0 then Some (p, m1\<lparr>zeroed := (p, sz) # zeroed m1\<rparr>) else Some (p, m1)
   }"

partial_function (option) pfree_loop :: "u64 \<Rightarrow> u64 \<Rightarrow> mem \<Rightarrow> (int \<times> mem) option" where
  "pfree_loop l p m =
     (if l = 0 then Some (NGX_DECLINED, m)
      else Option.bind (lrg m l) (\<lambda>x.
        if p = l_alloc x then
          Option.bind (ngx_free (l_alloc x) m) (\<lambda>m1.
            Some (NGX_OK, m1\<lparr>lrg := (lrg m1)(l \<mapsto> x\<lparr>l_alloc := 0\<rparr>)\<rparr>))
        else pfree_loop (l_next x) p m))"

definition ngx_pfree :: "u64 \<Rightarrow> u64 \<Rightarrow> mem \<Rightarrow> (int \<times> mem) option" where
  "ngx_pfree pool p m = do { h \<leftarrow> hdr m pool; pfree_loop (p_large h) p m }"

text \<open>The loop over \<open>pool->large\<close> that both \<open>ngx_reset_pool\<close> and \<open>ngx_destroy_pool\<close> have.\<close>

partial_function (option) free_larges :: "u64 \<Rightarrow> mem \<Rightarrow> mem option" where
  "free_larges l m =
     (if l = 0 then Some m
      else Option.bind (lrg m l) (\<lambda>x.
        Option.bind (if l_alloc x \<noteq> 0 then ngx_free (l_alloc x) m else Some m) (\<lambda>m1.
          Option.bind (lrg m1 l) (\<lambda>x1. free_larges (l_next x1) m1))))"

partial_function (option) free_blocks :: "u64 \<Rightarrow> u64 \<Rightarrow> mem \<Rightarrow> mem option" where
  "free_blocks p n m =
     Option.bind (ngx_free p m) (\<lambda>m1.
       if n = 0 then Some m1
       else Option.bind (blk m1 n) (\<lambda>d. free_blocks n (d_next d) m1))"

definition ngx_destroy_pool :: "u64 \<Rightarrow> mem \<Rightarrow> mem option" where
  "ngx_destroy_pool pool m = do {
     h \<leftarrow> hdr m pool;
     m1 \<leftarrow> free_larges (p_large h) m;
     d \<leftarrow> blk m1 pool;
     free_blocks pool (d_next d) m1
   }"

partial_function (option) reset_blocks :: "u64 \<Rightarrow> (u64 \<rightharpoonup> ngx_pool_data) \<Rightarrow> (u64 \<rightharpoonup> ngx_pool_data) option" where
  "reset_blocks p B =
     (if p = 0 then Some B
      else Option.bind (B p) (\<lambda>d.
        reset_blocks (d_next d) (B(p \<mapsto> d\<lparr>d_last := p + SIZEOF_POOL, d_failed := 0\<rparr>))))"

definition ngx_reset_pool :: "u64 \<Rightarrow> mem \<Rightarrow> mem option" where
  "ngx_reset_pool pool m = do {
     h \<leftarrow> hdr m pool;
     m1 \<leftarrow> free_larges (p_large h) m;
     B \<leftarrow> reset_blocks pool (blk m1);
     h1 \<leftarrow> hdr m1 pool;
     Some (m1\<lparr>blk := B, hdr := (hdr m1)(pool \<mapsto> h1\<lparr>p_current := pool, p_large := 0\<rparr>)\<rparr>)
   }"

end
