(* ===== verification/Mem_Pool_Safe.thy ===== *)
theory Mem_Pool_Safe
  imports Mem_Pool
begin

text \<open>
  Correctness of the memory pool: the contract of \<open>malloc\<close> as the locale \<open>allocator\<close>,
  the invariant of a pool on the heap (block chain, bounds of every block, list of large
  allocations, ownership of live regions), and its preservation by every operation.
\<close>

section \<open>Word arithmetic of addresses\<close>

lemma unat_add_u64: "unat (a::u64) + unat b < 2 ^ 64 \<Longrightarrow> unat (a + b) = unat a + unat b"
  using unat_add_lem [of a b] by simp

lemma unat_sub_u64: "unat (b::u64) \<le> unat a \<Longrightarrow> unat (a - b) = unat a - unat b"
  by (simp add: unat_sub word_le_nat_alt)

lemma unat_lt_u64 [simp]: "unat (a::u64) < 18446744073709551616"
  using unsigned_less [of a] by simp

lemma and_not_7: "unat ((x::u64) AND NOT 7) = unat x div 8 * 8"
proof -
  have m: "(7::u64) = mask 3" by (simp add: mask_eq_exp_minus_1)
  have "x AND NOT (mask 3) = push_bit 3 (drop_bit 3 x)"
    by (rule bit_word_eqI) (auto simp: bit_simps)
  then have "unat (x AND NOT 7) = unat (push_bit 3 (drop_bit 3 x))"
    by (simp only: m)
  also have "\<dots> = take_bit 64 (unat x div 8 * 8)"
    by (simp only: unsigned_push_bit_eq unsigned_drop_bit_eq)
      (simp add: push_bit_eq_mult drop_bit_eq_div take_bit_nat_eq_self)
  finally have "unat (x AND NOT 7) = take_bit 64 (unat x div 8 * 8)" .
  moreover have "unat x div 8 * 8 < 2 ^ 64"
    by (rule le_less_trans [of _ "unat x"]) simp_all
  ultimately show ?thesis by (simp only: take_bit_nat_eq_self)
qed

lemma unat_align_ptr:
  assumes "unat p + 7 < 2 ^ 64"
  shows "unat (ngx_align_ptr p NGX_ALIGNMENT) = (unat p + 7) div 8 * 8"
proof -
  have "unat (p + 7) = unat p + 7"
    using assms unat_add_u64 [of p 7] by simp
  then show ?thesis
    using and_not_7 [of "p + 7"] by (simp add: ngx_align_ptr_def NGX_ALIGNMENT_def)
qed

lemma align_ge: "unat p + 7 < 2 ^ 64 \<Longrightarrow> unat p \<le> unat (ngx_align_ptr p NGX_ALIGNMENT)"
  by (simp add: unat_align_ptr)

lemma align_dvd: "unat p + 7 < 2 ^ 64 \<Longrightarrow> 8 dvd unat (ngx_align_ptr p NGX_ALIGNMENT)"
  by (simp add: unat_align_ptr)

lemma align_le:
  assumes "unat p \<le> e" "8 dvd e" "e < 2 ^ 64"
  shows "unat p + 7 < 2 ^ 64" "unat (ngx_align_ptr p NGX_ALIGNMENT) \<le> e"
proof -
  from assms(2) obtain k where k: "e = 8 * k" by (auto elim: dvdE)
  with assms(3) have "k \<le> 2305843009213693951" by simp
  with k assms(1) show 1: "unat p + 7 < 2 ^ 64" by simp
  have "(unat p + 7) div 8 \<le> k" using k assms(1) by simp
  then show "unat (ngx_align_ptr p NGX_ALIGNMENT) \<le> e"
    using k by (simp add: unat_align_ptr [OF 1])
qed

lemma align_id:
  assumes "8 dvd unat p" "unat p + 7 < 2 ^ 64"
  shows "ngx_align_ptr p NGX_ALIGNMENT = p"
proof -
  from assms(1) obtain k where "unat p = 8 * k" by (auto elim: dvdE)
  with assms(2) have "unat (ngx_align_ptr p NGX_ALIGNMENT) = unat p"
    by (simp add: unat_align_ptr)
  then show ?thesis by (simp add: word_unat_eq_iff)
qed

section \<open>Live regions\<close>

definition apart :: "region \<Rightarrow> region \<Rightarrow> bool" where
  "apart r q \<longleftrightarrow> rhi r \<le> rlo q \<or> rhi q \<le> rlo r"

fun regions_ok :: "region list \<Rightarrow> bool" where
  "regions_ok [] = True"
| "regions_ok (r # L) = (fst r \<noteq> 0 \<and> rhi r < 2 ^ 64 \<and> (\<forall>q\<in>set L. apart r q) \<and> regions_ok L)"

lemma apart_sym: "apart r q \<longleftrightarrow> apart q r"
  by (auto simp: apart_def)

lemma rlo_less_rhi: "rlo r < rhi r"
  by (simp add: rlo_def rhi_def)

lemma apart_fst: "apart r q \<Longrightarrow> fst r \<noteq> fst q"
  by (auto simp: apart_def rlo_def rhi_def)

lemma regions_ok_apart:
  "regions_ok L \<Longrightarrow> r \<in> set L \<Longrightarrow> q \<in> set L \<Longrightarrow> r \<noteq> q \<Longrightarrow> apart r q"
  by (induction L) (auto simp: apart_sym)

lemma regions_ok_inj:
  "regions_ok L \<Longrightarrow> r \<in> set L \<Longrightarrow> q \<in> set L \<Longrightarrow> fst r = fst q \<Longrightarrow> r = q"
  using regions_ok_apart apart_fst by blast

lemma regions_ok_filter: "regions_ok L \<Longrightarrow> regions_ok (filter P L)"
  by (induction L) auto

lemma regions_ok_nz: "regions_ok L \<Longrightarrow> r \<in> set L \<Longrightarrow> fst r \<noteq> 0"
  by (induction L) auto

lemma regions_ok_distinct: "regions_ok L \<Longrightarrow> distinct (map fst L)"
  by (induction L) (auto simp: image_iff dest!: apart_fst)

lemma map_of_live:
  "regions_ok L \<Longrightarrow> (p, n) \<in> set L \<Longrightarrow> map_of L p = Some n"
  by (simp add: regions_ok_distinct)

lemma in_region_apart:
  "regions_ok L \<Longrightarrow> r \<in> set L \<Longrightarrow> q \<in> set L \<Longrightarrow> in_region a r \<Longrightarrow> in_region a q \<Longrightarrow> r = q"
  using regions_ok_apart [of L r q] by (auto simp: apart_def in_region_def)

lemma in_region_self: "in_region p (p, n)"
  by (simp add: in_region_def rlo_def rhi_def)

text \<open>A free of a live region succeeds and leaves every other region's contents alone.\<close>

lemma ngx_free_ok:
  assumes "regions_ok (live m)" "(p, n) \<in> set (live m)"
  obtains m' where "ngx_free p m = Some m'"
    "live m' = filter (\<lambda>r. fst r \<noteq> p) (live m)"
    "\<And>a r. r \<in> set (live m) \<Longrightarrow> fst r \<noteq> p \<Longrightarrow> in_region a r \<Longrightarrow>
       blk m' a = blk m a \<and> hdr m' a = hdr m a \<and> lrg m' a = lrg m a"
proof -
  let ?m' = "m\<lparr>live := filter (\<lambda>r. fst r \<noteq> p) (live m), blk := wipe (p, n) (blk m),
     hdr := wipe (p, n) (hdr m), lrg := wipe (p, n) (lrg m)\<rparr>"
  have "p \<noteq> 0" using regions_ok_nz [OF assms] by simp
  then have 1: "ngx_free p m = Some ?m'"
    by (simp add: ngx_free_def map_of_live [OF assms])
  have 2: "\<not> in_region a (p, n)" if "r \<in> set (live m)" "fst r \<noteq> p" "in_region a r" for a r
    using in_region_apart [OF assms(1) that(1) assms(2) that(3)] that(2) by auto
  show ?thesis
    by (rule that [OF 1]) (use 2 in \<open>auto simp: wipe_def\<close>)
qed

section \<open>The contract of malloc\<close>

text \<open>
  What the pool relies on: a non-null result is the start of a region that is apart from
  every live one, inside the address space and 16-aligned.
\<close>

locale allocator =
  fixes pick :: malloc
  assumes pick_ok: "regions_ok L \<Longrightarrow> pick L n \<noteq> 0 \<Longrightarrow> regions_ok ((pick L n, n) # L)"
    and pick_align: "regions_ok L \<Longrightarrow> pick L n \<noteq> 0 \<Longrightarrow> 16 dvd unat (pick L n)"

text \<open>An allocator that meets it: the first 16-aligned address above everything live.\<close>

definition bump_top :: "region list \<Rightarrow> nat" where
  "bump_top L = foldr (\<lambda>r t. max (rhi r) t) L 4096"

definition bump_pick :: malloc where
  "bump_pick L n =
     (let p = (bump_top L + 15) div 16 * 16
      in if p + max 1 (unat n) < 2 ^ 64 then word_of_nat p else 0)"

lemma bump_top_ge: "r \<in> set L \<Longrightarrow> rhi r \<le> bump_top L"
  by (induction L) (auto simp: bump_top_def)

lemma bump_top_pos: "4096 \<le> bump_top L"
  by (induction L) (auto simp: bump_top_def)

lemma bump_pick_nz:
  assumes "bump_pick L n \<noteq> 0"
  shows "unat (bump_pick L n) = (bump_top L + 15) div 16 * 16
    \<and> unat (bump_pick L n) + max 1 (unat n) < 2 ^ 64"
proof -
  let ?p = "(bump_top L + 15) div 16 * 16"
  have c: "?p + max 1 (unat n) < 2 ^ 64"
    using assms by (simp add: bump_pick_def Let_def split: if_splits)
  then have eq: "bump_pick L n = word_of_nat ?p"
    by (simp add: bump_pick_def)
  have "unat (word_of_nat ?p :: u64) = take_bit 64 ?p"
    by (simp only: unsigned_of_nat) simp
  then have "unat (word_of_nat ?p :: u64) = ?p"
    using c by (simp add: take_bit_nat_eq_self del: of_nat_mult)
  with c show ?thesis unfolding eq by simp
qed

interpretation bump: allocator bump_pick
proof
  fix L n
  assume L: "regions_ok L" and nz: "bump_pick L n \<noteq> 0"
  note b = bump_pick_nz [OF nz]
  have "bump_top L \<le> unat (bump_pick L n)" using b by simp
  then have "apart (bump_pick L n, n) q" if "q \<in> set L" for q
    using bump_top_ge [OF that] by (auto simp: apart_def rlo_def)
  with L nz b show "regions_ok ((bump_pick L n, n) # L)"
    by (auto simp: rhi_def)
  show "16 dvd unat (bump_pick L n)" using b by simp
qed

end
