(* ===== verification/Mem_Pool_Inv.thy ===== *)
theory Mem_Pool_Inv
  imports Mem_Pool_Safe
begin

text \<open>
  The invariant of a memory pool and what every operation of \<open>mem_pool_palloc.c\<close> does to
  it: the block chain stays a list, every block keeps \<open>last\<close> between its header and its
  end, what is handed out was not in use, and the pool owns exactly the regions it took
  from \<open>malloc\<close>.
\<close>

section \<open>Linked lists in the heap\<close>

fun chain :: "(u64 \<rightharpoonup> ngx_pool_data) \<Rightarrow> u64 \<Rightarrow> u64 list \<Rightarrow> bool" where
  "chain B p [] = (p = 0)"
| "chain B p (b # bs) = (p = b \<and> b \<noteq> 0 \<and> (\<exists>d. B b = Some d \<and> chain B (d_next d) bs))"

fun lchain :: "(u64 \<rightharpoonup> ngx_pool_large) \<Rightarrow> u64 \<Rightarrow> u64 list \<Rightarrow> bool" where
  "lchain L p [] = (p = 0)"
| "lchain L p (l # ls) = (p = l \<and> l \<noteq> 0 \<and> (\<exists>x. L l = Some x \<and> lchain L (l_next x) ls))"

lemma chain_suffix:
  "chain B p bs \<Longrightarrow> b \<in> set bs \<Longrightarrow> \<exists>xs ys. bs = xs @ b # ys \<and> chain B b (b # ys)"
proof (induction bs arbitrary: p)
  case (Cons a bs)
  show ?case
  proof (cases "b = a")
    case True
    with Cons.prems show ?thesis by (intro exI [of _ "[]"] exI [of _ bs]) simp
  next
    case False
    with Cons.prems obtain d where d: "B a = Some d" "chain B (d_next d) bs" "b \<in> set bs" by auto
    from Cons.IH [OF d(2,3)] obtain xs ys where "bs = xs @ b # ys" "chain B b (b # ys)" by auto
    then show ?thesis by (intro exI [of _ "a # xs"] exI [of _ ys]) simp
  qed
qed simp

lemma chain_cong:
  "(\<And>b. b \<in> set bs \<Longrightarrow> map_option d_next (B' b) = map_option d_next (B b))
   \<Longrightarrow> chain B' p bs = chain B p bs"
proof (induction bs arbitrary: p)
  case (Cons a bs)
  have "map_option d_next (B' a) = map_option d_next (B a)" by (rule Cons.prems) simp
  moreover have "chain B' q bs = chain B q bs" for q by (rule Cons.IH) (auto intro: Cons.prems)
  ultimately show ?case by (cases "B a"; cases "B' a") auto
qed simp

lemma lchain_cong:
  "(\<And>l. l \<in> set ls \<Longrightarrow> map_option l_next (L' l) = map_option l_next (L l))
   \<Longrightarrow> lchain L' p ls = lchain L p ls"
proof (induction ls arbitrary: p)
  case (Cons a ls)
  have "map_option l_next (L' a) = map_option l_next (L a)" by (rule Cons.prems) simp
  moreover have "lchain L' q ls = lchain L q ls" for q by (rule Cons.IH) (auto intro: Cons.prems)
  ultimately show ?case by (cases "L a"; cases "L' a") auto
qed simp

lemma chain_link:
  "chain B p bs \<Longrightarrow> bs \<noteq> [] \<Longrightarrow> distinct bs \<Longrightarrow> a \<notin> set bs \<Longrightarrow> a \<noteq> 0
   \<Longrightarrow> B (last bs) = Some d \<Longrightarrow> B a = Some da \<Longrightarrow> d_next da = 0
   \<Longrightarrow> chain (B(last bs \<mapsto> d\<lparr>d_next := a\<rparr>)) p (bs @ [a])"
proof (induction bs arbitrary: p)
  case (Cons b bs)
  then obtain db where db: "B b = Some db" "chain B (d_next db) bs" by auto
  show ?case
  proof (cases "bs = []")
    case True
    with Cons.prems show ?thesis by auto
  next
    case False
    with Cons.prems have "b \<noteq> last bs" by auto
    with Cons.IH [OF db(2) False] Cons.prems db(1) False show ?thesis by auto
  qed
qed simp

section \<open>The two loops over the blocks\<close>

definition blk_room :: "(u64 \<rightharpoonup> ngx_pool_data) \<Rightarrow> u64 \<Rightarrow> u64 \<Rightarrow> u64 \<Rightarrow> bool" where
  "blk_room B pool sz b \<longleftrightarrow> (\<exists>d. B b = Some d \<and> unat b + unat sz < 2 ^ 64 \<and> 8 dvd unat b
     \<and> d_end d = b + sz \<and> unat b + (if b = pool then 56 else 32) \<le> unat (d_last d)
     \<and> unat (d_last d) \<le> unat b + unat sz)"

lemma blk_roomE:
  assumes "blk_room B pool sz b"
  obtains d where "B b = Some d" "unat b + unat sz < 2 ^ 64" "8 dvd unat b" "d_end d = b + sz"
    "unat (d_end d) = unat b + unat sz" "unat b + (if b = pool then 56 else 32) \<le> unat (d_last d)"
    "unat (d_last d) \<le> unat b + unat sz" "unat b + 32 \<le> unat (d_last d)"
  using assms unat_add_u64 [of b sz] by (fastforce simp: blk_room_def split: if_splits)

text \<open>Where \<open>ngx_palloc_small\<close> would place a chunk in a block.\<close>

definition slot :: "bool \<Rightarrow> ngx_pool_data \<Rightarrow> u64" where
  "slot align d = (if align then ngx_align_ptr (d_last d) NGX_ALIGNMENT else d_last d)"

lemma slot_bounds:
  assumes "blk_room B pool sz b" "B b = Some d" "align \<longrightarrow> 8 dvd unat sz"
  shows "unat (d_last d) \<le> unat (slot align d)" "unat (slot align d) \<le> unat b + unat sz"
    "align \<longrightarrow> 8 dvd unat (slot align d)"
proof -
  from assms(1,2) have l: "unat (d_last d) \<le> unat b + unat sz" "unat b + unat sz < 2 ^ 64"
    "8 dvd unat b" by (auto elim!: blk_roomE)
  have "8 dvd (unat b + unat sz)" if align using l(3) assms(3) that by simp
  note al = align_le [OF l(1) this l(2)]
  show "unat (d_last d) \<le> unat (slot align d)" "unat (slot align d) \<le> unat b + unat sz"
    "align \<longrightarrow> 8 dvd unat (slot align d)"
    using al align_ge [of "d_last d"] align_dvd [of "d_last d"] l(1)
    by (auto simp: slot_def)
qed

lemma palloc_scan_ok:
  assumes "chain B p bs" "bs \<noteq> []" "\<And>b. b \<in> set bs \<Longrightarrow> blk_room B pool sz b"
    and "align \<longrightarrow> 8 dvd unat sz"
  shows "palloc_scan B n align p = Some (0, 0) \<or>
    (\<exists>b d. b \<in> set bs \<and> b \<noteq> 0 \<and> B b = Some d \<and> palloc_scan B n align p = Some (b, slot align d)
       \<and> unat (slot align d) + unat n \<le> unat b + unat sz)"
  using assms
proof (induction bs arbitrary: p)
  case (Cons b bs)
  then obtain d where d: "B b = Some d" "chain B (d_next d) bs" "p = b" "b \<noteq> 0" by auto
  have room: "blk_room B pool sz b" using Cons.prems(3) by simp
  note sb = slot_bounds [OF room d(1) Cons.prems(4)]
  have e: "unat (d_end d) = unat b + unat sz" using room d(1) by (auto elim: blk_roomE)
  have fit: "n \<le> d_end d - slot align d \<longleftrightarrow> unat (slot align d) + unat n \<le> unat b + unat sz"
    using sb(2) e by (auto simp: word_le_nat_alt unat_sub_u64)
  have unf: "palloc_scan B n align p =
     (if n \<le> d_end d - slot align d then Some (b, slot align d)
      else if d_next d = 0 then Some (0, 0) else palloc_scan B n align (d_next d))"
    by (subst palloc_scan.simps) (simp add: d Let_def slot_def)
  show ?case
  proof (cases "n \<le> d_end d - slot align d")
    case True
    with unf fit d show ?thesis by auto
  next
    case False
    show ?thesis
    proof (cases bs)
      case Nil
      with d(2) unf False show ?thesis by simp
    next
      case (Cons b2 bs2)
      with d(2) have "d_next d \<noteq> 0" "bs \<noteq> []" by auto
      with Cons.IH [OF d(2)] Cons.prems(3,4) unf False show ?thesis by auto
    qed
  qed
qed simp

text \<open>The failure counters are the only thing \<open>palloc_bump\<close> writes.\<close>

definition bumped :: "(u64 \<rightharpoonup> ngx_pool_data) \<Rightarrow> (u64 \<rightharpoonup> ngx_pool_data) \<Rightarrow> bool" where
  "bumped B B' \<longleftrightarrow> (\<forall>a. B' a = B a \<or> (\<exists>d k. B a = Some d \<and> B' a = Some (d\<lparr>d_failed := k\<rparr>)))"

lemma bumped_refl: "bumped B B"
  by (simp add: bumped_def)

lemma bumped_trans:
  assumes "bumped B1 B2" "bumped B2 B3" shows "bumped B1 B3"
  unfolding bumped_def
proof
  fix a
  have 1: "B2 a = B1 a \<or> (\<exists>d k. B1 a = Some d \<and> B2 a = Some (d\<lparr>d_failed := k\<rparr>))"
    using assms(1) by (simp add: bumped_def)
  have 2: "B3 a = B2 a \<or> (\<exists>d k. B2 a = Some d \<and> B3 a = Some (d\<lparr>d_failed := k\<rparr>))"
    using assms(2) by (simp add: bumped_def)
  show "B3 a = B1 a \<or> (\<exists>d k. B1 a = Some d \<and> B3 a = Some (d\<lparr>d_failed := k\<rparr>))"
  proof (cases "B2 a = B1 a")
    case True
    with 2 show ?thesis by auto
  next
    case False
    with 1 obtain d k where d: "B1 a = Some d" "B2 a = Some (d\<lparr>d_failed := k\<rparr>)" by blast
    with 2 obtain k' where "B3 a = Some (d\<lparr>d_failed := k'\<rparr>)" by auto
    with d show ?thesis by blast
  qed
qed

lemma bumped_upd: "B p = Some d \<Longrightarrow> bumped B (B(p \<mapsto> d\<lparr>d_failed := k\<rparr>))"
  by (auto simp: bumped_def)

lemma bumped_Some:
  assumes "bumped B B'" "B b = Some d"
  obtains k where "B' b = Some (d\<lparr>d_failed := k\<rparr>)"
proof -
  have "B' b = B b \<or> (\<exists>d k. B b = Some d \<and> B' b = Some (d\<lparr>d_failed := k\<rparr>))"
    using assms(1) by (simp add: bumped_def)
  then have "\<exists>k. B' b = Some (d\<lparr>d_failed := k\<rparr>)"
    using assms(2) by (metis (mono_tags) ngx_pool_data.surjective ngx_pool_data.update_convs(4) option.inject)
  then show ?thesis using that by blast
qed

lemma bumped_next: "bumped B B' \<Longrightarrow> map_option d_next (B' b) = map_option d_next (B b)"
  by (auto simp: bumped_def dest!: spec [of _ b])

lemma bumped_room: "bumped B B' \<Longrightarrow> blk_room B pool sz b \<Longrightarrow> blk_room B' pool sz b"
proof (elim blk_roomE)
  fix d
  assume b: "bumped B B'" and d: "B b = Some d" and r: "unat b + unat sz < 2 ^ 64" "8 dvd unat b"
    "d_end d = b + sz" "unat b + (if b = pool then 56 else 32) \<le> unat (d_last d)"
    "unat (d_last d) \<le> unat b + unat sz"
  obtain k where "B' b = Some (d\<lparr>d_failed := k\<rparr>)" using b d by (rule bumped_Some)
  with r show ?thesis unfolding blk_room_def by (intro exI [of _ "d\<lparr>d_failed := k\<rparr>"]) simp
qed

lemma palloc_bump_ok:
  assumes "chain B p bs" "bs \<noteq> []" "distinct bs"
  shows "\<exists>B' c'. palloc_bump B p c = Some (B', c', last bs) \<and> (c' = c \<or> c' \<in> set bs) \<and> bumped B B'"
  using assms
proof (induction bs arbitrary: B p c)
  case (Cons b bs)
  then obtain d where d: "B b = Some d" "chain B (d_next d) bs" "p = b" by auto
  show ?case
  proof (cases "bs = []")
    case True
    with d show ?thesis
      by (subst palloc_bump.simps) (simp add: bumped_refl)
  next
    case False
    let ?B = "B(b \<mapsto> d\<lparr>d_failed := d_failed d + 1\<rparr>)"
    let ?c = "if d_failed d > 4 then d_next d else c"
    from d(2) False have nz: "d_next d \<noteq> 0" "d_next d \<in> set bs" by (cases bs; auto)+
    have "chain ?B (d_next d) bs"
      using d(2) Cons.prems(3) by (subst chain_cong [of bs ?B B]) auto
    then have "\<exists>B' c'. palloc_bump ?B (d_next d) ?c = Some (B', c', last bs)
        \<and> (c' = ?c \<or> c' \<in> set bs) \<and> bumped ?B B'"
      by (rule Cons.IH [OF _ False]) (use Cons.prems(3) in simp)
    then obtain B' c' where
      r: "palloc_bump ?B (d_next d) ?c = Some (B', c', last bs)" "c' = ?c \<or> c' \<in> set bs" "bumped ?B B'"
      by blast
    have "bumped B B'" using bumped_upd [of B b d, OF d(1)] r(3) bumped_trans by blast
    with r nz d False show ?thesis
      by (subst palloc_bump.simps) (auto split: if_splits)
  qed
qed simp

section \<open>The invariant\<close>

definition allocs :: "(u64 \<rightharpoonup> ngx_pool_large) \<Rightarrow> u64 list \<Rightarrow> u64 list" where
  "allocs L ls = filter (\<lambda>a. a \<noteq> 0) (map (\<lambda>l. case L l of None \<Rightarrow> 0 | Some x \<Rightarrow> l_alloc x) ls)"

definition in_used :: "mem \<Rightarrow> u64 list \<Rightarrow> u64 \<Rightarrow> bool" where
  "in_used m bs l \<longleftrightarrow> (\<exists>b\<in>set bs. \<exists>d. blk m b = Some d
     \<and> unat b + 32 \<le> unat l \<and> unat l + 16 \<le> unat (d_last d))"

text \<open>
  \<open>L0\<close> are the live regions the pool does not own: everything else that is live is one of
  its blocks \<open>bs\<close> or hangs off its list of large allocations \<open>ls\<close>.
\<close>

definition pool_inv :: "region list \<Rightarrow> mem \<Rightarrow> u64 \<Rightarrow> u64 \<Rightarrow> u64 list \<Rightarrow> u64 list \<Rightarrow> bool" where
  "pool_inv L0 m pool sz bs ls \<longleftrightarrow>
     regions_ok (live m) \<and> 56 \<le> unat sz \<and> bs \<noteq> [] \<and> hd bs = pool \<and> distinct bs
   \<and> chain (blk m) pool bs
   \<and> (\<forall>b\<in>set bs. (b, sz) \<in> set (live m) \<and> blk_room (blk m) pool sz b)
   \<and> (\<exists>h. hdr m pool = Some h \<and> p_current h \<in> set bs \<and> unat (p_max h) + 56 \<le> unat sz
          \<and> lchain (lrg m) (p_large h) ls)
   \<and> distinct ls \<and> (\<forall>l\<in>set ls. in_used m bs l)
   \<and> distinct (allocs (lrg m) ls) \<and> set (allocs (lrg m) ls) \<subseteq> fst ` set (live m)
   \<and> set (allocs (lrg m) ls) \<inter> set bs = {}
   \<and> filter (\<lambda>r. fst r \<notin> set bs \<union> set (allocs (lrg m) ls)) (live m) = L0"

lemma pool_invD:
  assumes "pool_inv L0 m pool sz bs ls"
  shows "regions_ok (live m)" "56 \<le> unat sz" "bs \<noteq> []" "hd bs = pool" "pool \<in> set bs" "distinct bs"
    "chain (blk m) pool bs" "\<And>b. b \<in> set bs \<Longrightarrow> (b, sz) \<in> set (live m)"
    "\<And>b. b \<in> set bs \<Longrightarrow> blk_room (blk m) pool sz b" "distinct ls"
    "\<And>l. l \<in> set ls \<Longrightarrow> in_used m bs l" "distinct (allocs (lrg m) ls)"
    "set (allocs (lrg m) ls) \<subseteq> fst ` set (live m)" "set (allocs (lrg m) ls) \<inter> set bs = {}"
    "filter (\<lambda>r. fst r \<notin> set bs \<union> set (allocs (lrg m) ls)) (live m) = L0"
  using assms by (auto simp: pool_inv_def)

lemma pool_inv_hdrE:
  assumes "pool_inv L0 m pool sz bs ls"
  obtains h where "hdr m pool = Some h" "p_current h \<in> set bs" "unat (p_max h) + 56 \<le> unat sz"
    "lchain (lrg m) (p_large h) ls"
  using assms by (auto simp: pool_inv_def)

lemma lchain_Some: "lchain L p ls \<Longrightarrow> l \<in> set ls \<Longrightarrow> \<exists>x. L l = Some x"
  by (induction ls arbitrary: p) auto

text \<open>Blocks of one pool do not overlap.\<close>

lemma blocks_apart:
  assumes "pool_inv L0 m pool sz bs ls" "b \<in> set bs" "c \<in> set bs" "b \<noteq> c"
  shows "unat b + unat sz \<le> unat c \<or> unat c + unat sz \<le> unat b"
proof -
  note I = pool_invD [OF assms(1)]
  have "apart (b, sz) (c, sz)"
    by (rule regions_ok_apart [OF I(1) I(8) I(8)]) (use assms in auto)
  with I(2) show ?thesis by (simp add: apart_def rlo_def rhi_def max_def split: if_splits)
qed

section \<open>Memory in use\<close>

definition used :: "mem \<Rightarrow> u64 list \<Rightarrow> nat set" where
  "used m bs = {x. \<exists>b\<in>set bs. \<exists>d. blk m b = Some d \<and> unat b \<le> x \<and> x < unat (d_last d)}"

text \<open>What a successful small allocation of \<open>n\<close> bytes at \<open>a\<close> has to be.\<close>

definition chunk :: "mem \<Rightarrow> u64 list \<Rightarrow> mem \<Rightarrow> u64 list \<Rightarrow> u64 \<Rightarrow> u64 \<Rightarrow> bool" where
  "chunk m bs m' bs' a n \<longleftrightarrow>
     (\<exists>b\<in>set bs'. \<exists>d. blk m' b = Some d \<and> unat b + 32 \<le> unat a \<and> unat a + unat n \<le> unat (d_last d))
   \<and> {unat a..<unat a + unat n} \<inter> used m bs = {}
   \<and> used m bs \<subseteq> used m' bs' \<and> set bs \<subseteq> set bs'"

lemma used_block:
  assumes "pool_inv L0 m pool sz bs ls" "x \<in> used m bs"
  obtains b d where "b \<in> set bs" "blk m b = Some d" "unat b \<le> x" "x < unat (d_last d)"
    "x < unat b + unat sz"
proof -
  from assms(2) obtain b d where b: "b \<in> set bs" "blk m b = Some d" "unat b \<le> x" "x < unat (d_last d)"
    by (auto simp: used_def)
  with pool_invD(9) [OF assms(1) b(1)] have "unat (d_last d) \<le> unat b + unat sz"
    by (auto elim: blk_roomE)
  with b that show ?thesis by force
qed

lemma not_used_above:
  assumes "pool_inv L0 m pool sz bs ls" "b \<in> set bs" "blk m b = Some d"
    "unat (d_last d) \<le> x" "x < unat b + unat sz"
  shows "x \<notin> used m bs"
proof
  assume "x \<in> used m bs"
  then obtain c e where c: "c \<in> set bs" "blk m c = Some e" "unat c \<le> x" "x < unat (d_last e)"
    "x < unat c + unat sz" using used_block [OF assms(1)] by blast
  have "unat b \<le> x" using pool_invD(9) [OF assms(1,2)] assms(3,4) by (auto elim: blk_roomE)
  moreover have "b \<noteq> c" using c assms(3,4) by auto
  ultimately show False using blocks_apart [OF assms(1,2) c(1)] assms(5) c by auto
qed

section \<open>How the invariant is kept\<close>

lemma in_used_mono:
  assumes "in_used m bs l" "set bs \<subseteq> set bs'"
    "\<And>b d. b \<in> set bs \<Longrightarrow> blk m b = Some d \<Longrightarrow> \<exists>d'. blk m' b = Some d' \<and> unat (d_last d) \<le> unat (d_last d')"
  shows "in_used m' bs' l"
  using assms unfolding in_used_def by (meson le_trans subsetD)

lemma used_mono:
  assumes "set bs \<subseteq> set bs'"
    "\<And>b d. b \<in> set bs \<Longrightarrow> blk m b = Some d \<Longrightarrow> \<exists>d'. blk m' b = Some d' \<and> unat (d_last d) \<le> unat (d_last d')"
  shows "used m bs \<subseteq> used m' bs'"
proof
  fix x assume "x \<in> used m bs"
  then obtain b d where b: "b \<in> set bs" "blk m b = Some d" "unat b \<le> x" "x < unat (d_last d)"
    by (auto simp: used_def)
  from assms(2) [OF b(1,2)] obtain d' where "blk m' b = Some d'" "unat (d_last d) \<le> unat (d_last d')"
    by blast
  with b assms(1) show "x \<in> used m' bs'" unfolding used_def by fastforce
qed

lemma pool_inv_grow:
  assumes I: "pool_inv L0 m pool sz bs ls" and b: "b \<in> set bs" "blk m b = Some d"
    and v: "unat (d_last d) \<le> unat v" "unat v \<le> unat b + unat sz"
  defines "m' \<equiv> m\<lparr>blk := (blk m)(b \<mapsto> d\<lparr>d_last := v\<rparr>)\<rparr>"
  shows "pool_inv L0 m' pool sz bs ls" and "used m bs \<subseteq> used m' bs"
proof -
  note D = pool_invD [OF I]
  have ext: "\<exists>e'. blk m' c = Some e' \<and> unat (d_last e) \<le> unat (d_last e')"
    if "blk m c = Some e" for c e
    using that b(2) v(1) by (auto simp: m'_def)
  have ch: "chain (blk m') pool bs = chain (blk m) pool bs"
    by (rule chain_cong) (use b in \<open>auto simp: m'_def\<close>)
  have "blk_room (blk m') pool sz c" if "c \<in> set bs" for c
    using D(9) [OF that] b(2) v unfolding blk_room_def m'_def by (auto split: if_splits)
  moreover have "in_used m' bs l" if "l \<in> set ls" for l
    by (rule in_used_mono [OF D(11) [OF that]]) (use ext in auto)
  ultimately show "pool_inv L0 m' pool sz bs ls"
    using I unfolding pool_inv_def ch by (auto simp: m'_def)
  show "used m bs \<subseteq> used m' bs"
    by (rule used_mono) (use ext in auto)
qed

text \<open>A new block: a fresh region, its header, and the link from the last block.\<close>

lemma room_new_block:
  assumes "regions_ok ((a, sz) # L)" "16 dvd unat a" "56 \<le> unat sz" "a \<noteq> pool"
    and "unat n + 32 \<le> unat sz" "B a = Some d" "d_end d = a + sz" "d_last d = a + 32 + n"
  shows "unat (a + 32) = unat a + 32" "unat (a + 32 + n) = unat a + 32 + unat n"
    "unat a + unat sz < 2 ^ 64" "blk_room B pool sz a"
proof -
  show s: "unat a + unat sz < 2 ^ 64" using assms(1,3) by (simp add: rhi_def)
  show a32: "unat (a + 32) = unat a + 32"
    using unat_add_u64 [of a 32] s assms(3) by simp
  show l: "unat (a + 32 + n) = unat a + 32 + unat n"
    using unat_add_u64 [of "a + 32" n] s assms(5) a32 by simp
  have "8 dvd unat a" using assms(2) dvd_trans [of 8 16 "unat a"] by simp
  then show "blk_room B pool sz a"
    using assms s l by (auto simp: blk_room_def)
qed

lemma room_next: "blk_room B pool sz c \<Longrightarrow> B x = Some d \<Longrightarrow> blk_room (B(x \<mapsto> d\<lparr>d_next := k\<rparr>)) pool sz c"
  by (auto simp: blk_room_def)

text \<open>
  The heap after \<open>ngx_palloc_block\<close>, in terms of the chain: \<open>B2\<close> is what the counting loop
  leaves, and the last block is linked to the new one.
\<close>

lemma pool_inv_add_block:
  assumes I: "pool_inv L0 m pool sz bs ls" and a: "regions_ok ((a, sz) # live m)" "16 dvd unat a"
    and n: "unat n + 32 \<le> unat sz"
    and B1: "B1 = (blk m)(a \<mapsto> \<lparr>d_last = a + 32 + n, d_end = a + sz, d_next = 0, d_failed = 0\<rparr>)"
    and B2: "bumped B1 B2" "B2 (last bs) = Some d"
    and h: "hdr m pool = Some h" "cur \<in> set bs"
  defines "m' \<equiv> m\<lparr>live := (a, sz) # live m, blk := B2(last bs \<mapsto> d\<lparr>d_next := a\<rparr>),
     hdr := (hdr m)(pool \<mapsto> h\<lparr>p_current := cur\<rparr>)\<rparr>"
  shows "pool_inv L0 m' pool sz (bs @ [a]) ls" and "chunk m bs m' (bs @ [a]) (a + 32) n"
proof -
  note D = pool_invD [OF I]
  obtain h' where h': "hdr m pool = Some h'" "unat (p_max h') + 56 \<le> unat sz"
    "lchain (lrg m) (p_large h') ls" using pool_inv_hdrE [OF I] by metis
  have new: "a \<noteq> c" "unat a + unat sz \<le> unat c \<or> unat c + unat sz \<le> unat a" if "c \<in> set bs" for c
  proof -
    have "apart (a, sz) (c, sz)" using a(1) D(8) [OF that] by simp
    then show "a \<noteq> c" "unat a + unat sz \<le> unat c \<or> unat c + unat sz \<le> unat a"
      using D(2) by (auto dest: apart_fst simp: apart_def rlo_def rhi_def max_def split: if_splits)
  qed
  then have anin: "a \<notin> set bs" by blast
  have a0: "a \<noteq> 0" using a(1) by simp
  have lb: "last bs \<in> set bs" "last bs \<noteq> a" using D(3) anin by auto
  let ?new = "\<lparr>d_last = a + 32 + n, d_end = a + sz, d_next = 0, d_failed = 0\<rparr>"
  obtain k where k: "B2 a = Some (?new\<lparr>d_failed := k\<rparr>)"
    by (rule bumped_Some [OF B2(1), of a ?new]) (simp add: B1)
  have keep: "\<exists>e'. blk m' c = Some e' \<and> d_last e' = d_last e"
    if c: "c \<in> set bs" "blk m c = Some e" for c e
  proof -
    have "B1 c = Some e" using c anin by (auto simp: B1)
    then obtain k' where "B2 c = Some (e\<lparr>d_failed := k'\<rparr>)" by (rule bumped_Some [OF B2(1)])
    with B2(2) show ?thesis by (auto simp: m'_def)
  qed
  have ext: "\<exists>e'. blk m' c = Some e' \<and> unat (d_last e) \<le> unat (d_last e')"
    if "c \<in> set bs" "blk m c = Some e" for c e
    using keep [OF that] by auto
  note rm = room_new_block [OF a(1,2) D(2) _ n, of pool "blk m'" "?new\<lparr>d_failed := k\<rparr>"]
  have ma: "blk m' a = Some (?new\<lparr>d_failed := k\<rparr>)" using k lb(2) by (simp add: m'_def)
  have ra: "unat (a + 32) = unat a + 32" "unat (a + 32 + n) = unat a + 32 + unat n"
    "blk_room (blk m') pool sz a"
    using rm ma new(1) [OF D(5)] by auto
  have "chain B1 pool bs" using D(7) anin by (subst chain_cong [of bs B1 "blk m"]) (auto simp: B1)
  then have "chain B2 pool bs"
    using bumped_next [OF B2(1)] by (subst chain_cong [of bs B2 B1]) auto
  from chain_link [OF this D(3,6) anin a0 B2(2) k] have ch: "chain (blk m') pool (bs @ [a])"
    by (simp add: m'_def)
  have room: "blk_room (blk m') pool sz c" if "c \<in> set bs" for c
  proof -
    have "blk_room B1 pool sz c" using D(9) [OF that] new(1) [OF that] by (auto simp: blk_room_def B1)
    then have "blk_room B2 pool sz c" by (rule bumped_room [OF B2(1)])
    then show ?thesis using B2(2) by (simp add: m'_def room_next del: fun_upd_apply)
  qed
  have iu: "in_used m' (bs @ [a]) l" if "l \<in> set ls" for l
    by (rule in_used_mono [OF D(11) [OF that]]) (use ext in auto)
  have nal: "fst r \<noteq> a" if "r \<in> set (live m)" for r
    using a(1) that apart_fst [of "(a, sz)" r] by auto
  then have "a \<notin> fst ` set (live m)" by blast
  then have al: "a \<notin> set (allocs (lrg m) ls)" using D(13) by blast
  have fl: "filter (\<lambda>r. fst r \<notin> set (bs @ [a]) \<union> set (allocs (lrg m) ls)) (live m) = L0"
    using nal by (subst D(15) [symmetric]) (auto intro!: filter_cong)
  show "pool_inv L0 m' pool sz (bs @ [a]) ls"
    unfolding pool_inv_def
    using a D h h' ch room ra iu al anin fl lb
    by (auto simp: m'_def hd_append)
  have "{unat (a + 32)..<unat (a + 32) + unat n} \<inter> used m bs = {}"
  proof (rule equals0I)
    fix x assume x: "x \<in> {unat (a + 32)..<unat (a + 32) + unat n} \<inter> used m bs"
    then obtain c e where "c \<in> set bs" "unat c \<le> x" "x < unat c + unat sz"
      using used_block [OF I] by blast
    with x new(2) [of c] n ra(1) show False by auto
  qed
  moreover have "used m bs \<subseteq> used m' (bs @ [a])" by (rule used_mono) (use ext in auto)
  ultimately show "chunk m bs m' (bs @ [a]) (a + 32) n"
    unfolding chunk_def using ma ra by auto
qed

section \<open>Large allocations and the invariant\<close>

lemma allocs_cong: "(\<And>l. l \<in> set ls \<Longrightarrow> L' l = L l) \<Longrightarrow> allocs L' ls = allocs L ls"
  unfolding allocs_def by (intro arg_cong [of _ _ "filter _"] map_cong) auto

lemma mset_allocs_fill:
  "l \<in> set ls \<Longrightarrow> distinct ls \<Longrightarrow> L l = Some x \<Longrightarrow> l_alloc x = 0 \<Longrightarrow> p \<noteq> 0
   \<Longrightarrow> mset (allocs (L(l \<mapsto> x\<lparr>l_alloc := p\<rparr>)) ls) = add_mset p (mset (allocs L ls))"
proof (induction ls)
  case (Cons k ls)
  show ?case
  proof (cases "k = l")
    case True
    with Cons.prems have "allocs (L(l \<mapsto> x\<lparr>l_alloc := p\<rparr>)) ls = allocs L ls"
      by (intro allocs_cong) auto
    with True Cons.prems show ?thesis by (simp add: allocs_def)
  next
    case False
    with Cons show ?thesis by (auto simp: allocs_def)
  qed
qed simp

lemma mset_allocs_clear:
  assumes "l \<in> set ls" "distinct ls" "L l = Some x" "l_alloc x \<noteq> 0"
  shows "mset (allocs L ls) = add_mset (l_alloc x) (mset (allocs (L(l \<mapsto> x\<lparr>l_alloc := 0\<rparr>)) ls))"
proof -
  let ?L = "L(l \<mapsto> x\<lparr>l_alloc := 0\<rparr>)"
  have "?L(l \<mapsto> x\<lparr>l_alloc := 0\<rparr>\<lparr>l_alloc := l_alloc x\<rparr>) = L" using assms(3) by auto
  with mset_allocs_fill [of l ls ?L "x\<lparr>l_alloc := 0\<rparr>" "l_alloc x"] assms show ?thesis by simp
qed

text \<open>The invariant looks at the heap only at the pool's own structures.\<close>

lemma pool_inv_frame:
  assumes I: "pool_inv L0 m pool sz bs ls"
    and eq: "\<And>c. c \<in> set bs \<Longrightarrow> blk m' c = blk m c" "hdr m' pool = hdr m pool"
      "\<And>l. l \<in> set ls \<Longrightarrow> lrg m' l = lrg m l"
    and L: "regions_ok (live m')" "\<And>b. b \<in> set bs \<Longrightarrow> (b, sz) \<in> set (live m')"
      "set (allocs (lrg m) ls) \<subseteq> fst ` set (live m')"
      "filter (\<lambda>r. fst r \<notin> set bs \<union> set (allocs (lrg m) ls)) (live m') = L1"
  shows "pool_inv L1 m' pool sz bs ls"
proof -
  note D = pool_invD [OF I]
  obtain h where h: "hdr m pool = Some h" "p_current h \<in> set bs" "unat (p_max h) + 56 \<le> unat sz"
    "lchain (lrg m) (p_large h) ls" using pool_inv_hdrE [OF I] by metis
  have 1: "chain (blk m') pool bs" using D(7) eq(1) by (subst chain_cong [of bs _ "blk m"]) auto
  have 2: "lchain (lrg m') (p_large h) ls" using h(4) eq(3) by (subst lchain_cong [of ls _ "lrg m"]) auto
  have 3: "allocs (lrg m') ls = allocs (lrg m) ls" using eq(3) by (rule allocs_cong)
  have 4: "blk_room (blk m') pool sz b" if "b \<in> set bs" for b
    using D(9) [OF that] eq(1) [OF that] by (simp add: blk_room_def)
  have 5: "in_used m' bs l" if "l \<in> set ls" for l
    by (rule in_used_mono [OF D(11) [OF that]]) (use eq(1) in auto)
  show ?thesis
    unfolding pool_inv_def 3 using 1 2 4 5 h eq(2) D(2-6,10,12,14) L by simp
qed

text \<open>Every structure of the pool lies in one of its blocks.\<close>

lemma pool_prot:
  assumes I: "pool_inv L0 m pool sz bs ls" and x: "x \<in> set bs \<union> set ls"
  obtains b where "b \<in> set bs" "in_region x (b, sz)"
proof (cases "x \<in> set bs")
  case True
  then show ?thesis using that in_region_self by blast
next
  case False
  with x have "in_used m bs x" using pool_invD(11) [OF I] by auto
  then obtain b d where b: "b \<in> set bs" "blk m b = Some d" "unat b + 32 \<le> unat x"
    "unat x + 16 \<le> unat (d_last d)" by (auto simp: in_used_def)
  with pool_invD(9) [OF I b(1)] have "unat (d_last d) \<le> unat b + unat sz" by (auto elim: blk_roomE)
  with b have "in_region x (b, sz)" by (simp add: in_region_def rlo_def rhi_def)
  with b(1) that show ?thesis by blast
qed

text \<open>Freeing a live region that is not a block leaves the pool's structures alone.\<close>

lemma free_prot:
  assumes I: "pool_inv L0 m pool sz bs ls" and p: "(p, n) \<in> set (live m)" "p \<notin> set bs"
  obtains m' where "ngx_free p m = Some m'" "live m' = filter (\<lambda>r. fst r \<noteq> p) (live m)"
    "\<And>x. x \<in> set bs \<union> set ls \<Longrightarrow> blk m' x = blk m x \<and> hdr m' x = hdr m x \<and> lrg m' x = lrg m x"
proof -
  note D = pool_invD [OF I]
  obtain m' where m': "ngx_free p m = Some m'" "live m' = filter (\<lambda>r. fst r \<noteq> p) (live m)"
    "\<And>a r. r \<in> set (live m) \<Longrightarrow> fst r \<noteq> p \<Longrightarrow> in_region a r \<Longrightarrow>
       blk m' a = blk m a \<and> hdr m' a = hdr m a \<and> lrg m' a = lrg m a"
    using ngx_free_ok [OF D(1) p(1)] by metis
  show ?thesis
  proof (rule that [OF m'(1,2)])
    fix x assume "x \<in> set bs \<union> set ls"
    then obtain b where b: "b \<in> set bs" "in_region x (b, sz)" by (rule pool_prot [OF I])
    show "blk m' x = blk m x \<and> hdr m' x = hdr m x \<and> lrg m' x = lrg m x"
      by (rule m'(3) [OF D(8) [OF b(1)] _ b(2)]) (use b(1) p(2) in auto)
  qed
qed

lemma pool_inv_free_other:
  assumes I: "pool_inv L0 m pool sz bs ls" and p: "(p, n) \<in> set L0"
  shows "\<exists>m'. ngx_free p m = Some m' \<and> pool_inv (filter (\<lambda>r. fst r \<noteq> p) L0) m' pool sz bs ls
    \<and> (\<forall>b\<in>set bs. blk m' b = blk m b) \<and> live m' = filter (\<lambda>r. fst r \<noteq> p) (live m)"
proof -
  note D = pool_invD [OF I]
  have pl: "(p, n) \<in> set (live m)" "p \<notin> set bs" "p \<notin> set (allocs (lrg m) ls)"
    using p D(15) by auto
  obtain m' where m': "ngx_free p m = Some m'" "live m' = filter (\<lambda>r. fst r \<noteq> p) (live m)"
    "\<And>x. x \<in> set bs \<union> set ls \<Longrightarrow> blk m' x = blk m x \<and> hdr m' x = hdr m x \<and> lrg m' x = lrg m x"
    using free_prot [OF I pl(1,2)] by metis
  have "pool_inv (filter (\<lambda>r. fst r \<noteq> p) L0) m' pool sz bs ls"
  proof (rule pool_inv_frame [OF I])
    show "filter (\<lambda>r. fst r \<notin> set bs \<union> set (allocs (lrg m) ls)) (live m') = filter (\<lambda>r. fst r \<noteq> p) L0"
      by (subst D(15) [symmetric]) (simp add: m'(2) conj_commute)
    show "set (allocs (lrg m) ls) \<subseteq> fst ` set (live m')"
      using D(13) pl(3) by (fastforce simp: m'(2))
  qed (use m' D(1,5,8) pl(2) in \<open>auto simp: regions_ok_filter\<close>)
  with m' show ?thesis by auto
qed

lemma pool_inv_alloc:
  assumes I: "pool_inv L0 m pool sz bs ls" and p: "regions_ok ((p, n) # live m)"
  shows "pool_inv ((p, n) # L0) (m\<lparr>live := (p, n) # live m\<rparr>) pool sz bs ls"
    and "p \<notin> set bs" "p \<notin> set (allocs (lrg m) ls)" "p \<notin> fst ` set L0" "p \<noteq> 0"
proof -
  note D = pool_invD [OF I]
  have np: "p \<notin> fst ` set (live m)" using p apart_fst [of "(p, n)"] by fastforce
  then show nb: "p \<notin> set bs" using D(8) by force
  show na: "p \<notin> set (allocs (lrg m) ls)" using D(13) np by blast
  show "p \<notin> fst ` set L0" using np by (subst D(15) [symmetric]) auto
  show "p \<noteq> 0" using p by simp
  show "pool_inv ((p, n) # L0) (m\<lparr>live := (p, n) # live m\<rparr>) pool sz bs ls"
    by (rule pool_inv_frame [OF I]) (use D(8,13,15) p nb na in auto)
qed

text \<open>A region handed over to the pool: through a new list node, or in a reused one.\<close>

lemma pool_inv_push:
  assumes I: "pool_inv ((p, n) # L0) m pool sz bs ls" and h: "hdr m pool = Some h"
    and q: "in_used m bs q" "q \<notin> set ls" "q \<noteq> 0" and p: "p \<noteq> 0" "p \<notin> fst ` set L0"
  shows "pool_inv L0 (m\<lparr>lrg := (lrg m)(q \<mapsto> \<lparr>l_next = p_large h, l_alloc = p\<rparr>),
           hdr := (hdr m)(pool \<mapsto> h\<lparr>p_large := q\<rparr>)\<rparr>) pool sz bs (q # ls)"
proof -
  note D = pool_invD [OF I]
  let ?L = "(lrg m)(q \<mapsto> \<lparr>l_next = p_large h, l_alloc = p\<rparr>)"
  have pl: "(p, n) \<in> set (live m)" "p \<notin> set bs" "p \<notin> set (allocs (lrg m) ls)"
    using D(15) by (metis Cons_eq_filterD UnCI fst_conv in_set_conv_decomp)+
  have lc: "lchain ?L (p_large h) ls"
    using pool_inv_hdrE [OF I] h q(2) by (subst lchain_cong [of ls ?L "lrg m"]) auto
  have "allocs ?L ls = allocs (lrg m) ls" by (rule allocs_cong) (use q(2) in auto)
  then have al: "allocs ?L (q # ls) = p # allocs (lrg m) ls"
    using p(1) by (simp add: allocs_def)
  have "filter (\<lambda>r. fst r \<notin> set bs \<union> set (p # allocs (lrg m) ls)) (live m)
      = filter (\<lambda>r. fst r \<noteq> p) (filter (\<lambda>r. fst r \<notin> set bs \<union> set (allocs (lrg m) ls)) (live m))"
    by (auto intro!: filter_cong)
  also have "\<dots> = L0" using p(2) by (subst D(15)) (force intro!: filter_True)
  finally have fl: "filter (\<lambda>r. fst r \<notin> set bs \<union> set (p # allocs (lrg m) ls)) (live m) = L0" .
  have iu: "in_used (m\<lparr>lrg := l', hdr := h'\<rparr>) bs x = in_used m bs x" for l' h' x
    by (simp add: in_used_def)
  have hh: "p_current h \<in> set bs" "unat (p_max h) + 56 \<le> unat sz"
    using pool_inv_hdrE [OF I] h by auto
  show ?thesis
    unfolding pool_inv_def using D hh al fl lc q pl p iu
    by (auto intro: rev_image_eqI)
qed

lemma pool_inv_reuse:
  assumes I: "pool_inv ((p, n) # L0) m pool sz bs ls"
    and l: "l \<in> set ls" "lrg m l = Some x" "l_alloc x = 0" and p: "p \<noteq> 0" "p \<notin> fst ` set L0"
  shows "pool_inv L0 (m\<lparr>lrg := (lrg m)(l \<mapsto> x\<lparr>l_alloc := p\<rparr>)\<rparr>) pool sz bs ls"
proof -
  note D = pool_invD [OF I]
  let ?L = "(lrg m)(l \<mapsto> x\<lparr>l_alloc := p\<rparr>)"
  have pl: "(p, n) \<in> set (live m)" "p \<notin> set bs" "p \<notin> set (allocs (lrg m) ls)"
    using D(15) by (metis Cons_eq_filterD UnCI fst_conv in_set_conv_decomp)+
  have ms: "mset (allocs ?L ls) = mset (p # allocs (lrg m) ls)"
    using mset_allocs_fill [of l ls "lrg m" x p] l D(10) p(1) by simp
  have st: "set (allocs ?L ls) = insert p (set (allocs (lrg m) ls))"
    using mset_eq_setD [OF ms] by simp
  have dt: "distinct (allocs ?L ls)"
    using mset_eq_imp_distinct_iff [OF ms] D(12) pl(3) by simp
  have lc: "lchain ?L q ls = lchain (lrg m) q ls" for q
    by (rule lchain_cong) (use l(2) in auto)
  have "filter (\<lambda>r. fst r \<notin> set bs \<union> set (allocs ?L ls)) (live m)
      = filter (\<lambda>r. fst r \<noteq> p) (filter (\<lambda>r. fst r \<notin> set bs \<union> set (allocs (lrg m) ls)) (live m))"
    unfolding st by (auto intro!: filter_cong)
  also have "\<dots> = L0" using p(2) by (subst D(15)) (force intro!: filter_True)
  finally have fl: "filter (\<lambda>r. fst r \<notin> set bs \<union> set (allocs ?L ls)) (live m) = L0" .
  have iu: "in_used (m\<lparr>lrg := ?L\<rparr>) bs y = in_used m bs y" for y
    by (simp add: in_used_def)
  obtain h where h: "hdr m pool = Some h" "p_current h \<in> set bs" "unat (p_max h) + 56 \<le> unat sz"
    "lchain (lrg m) (p_large h) ls" using pool_inv_hdrE [OF I] by metis
  have sub: "set (allocs ?L ls) \<subseteq> fst ` set (live m)" "set (allocs ?L ls) \<inter> set bs = {}"
    unfolding st using D(13,14) pl by (auto intro: rev_image_eqI)
  show ?thesis
    unfolding pool_inv_def using D(1-11) h dt fl sub by (simp add: lc iu)
qed

text \<open>A large allocation given back by \<open>ngx_pfree\<close>.\<close>

lemma pool_inv_release:
  assumes I: "pool_inv L0 m pool sz bs ls"
    and l: "l \<in> set ls" "lrg m l = Some x" "l_alloc x \<noteq> 0"
  shows "\<exists>m1. ngx_free (l_alloc x) m = Some m1
    \<and> pool_inv L0 (m1\<lparr>lrg := (lrg m1)(l \<mapsto> x\<lparr>l_alloc := 0\<rparr>)\<rparr>) pool sz bs ls
    \<and> live m1 = filter (\<lambda>r. fst r \<noteq> l_alloc x) (live m)
    \<and> (\<forall>b\<in>set bs. blk m1 b = blk m b)"
proof -
  note D = pool_invD [OF I]
  let ?p = "l_alloc x" and ?L = "(lrg m)(l \<mapsto> x\<lparr>l_alloc := 0\<rparr>)"
  have ms: "mset (allocs (lrg m) ls) = mset (?p # allocs ?L ls)"
    using mset_allocs_clear [of l ls "lrg m" x] l D(10) by simp
  have st: "set (allocs (lrg m) ls) = insert ?p (set (allocs ?L ls))"
    using mset_eq_setD [OF ms] by simp
  have dt: "distinct (allocs ?L ls)" "?p \<notin> set (allocs ?L ls)"
    using mset_eq_imp_distinct_iff [OF ms] D(12) by auto
  obtain n where pl: "(?p, n) \<in> set (live m)" "?p \<notin> set bs"
    using D(13,14) st by force
  obtain m1 where m1: "ngx_free ?p m = Some m1" "live m1 = filter (\<lambda>r. fst r \<noteq> ?p) (live m)"
    "\<And>y. y \<in> set bs \<union> set ls \<Longrightarrow> blk m1 y = blk m y \<and> hdr m1 y = hdr m y \<and> lrg m1 y = lrg m y"
    using free_prot [OF I pl] by metis
  let ?m = "m1\<lparr>lrg := (lrg m1)(l \<mapsto> x\<lparr>l_alloc := 0\<rparr>)\<rparr>"
  have eqL: "lrg ?m y = ?L y" if "y \<in> set ls" for y using m1(3) [of y] that by auto
  then have a: "allocs (lrg ?m) ls = allocs ?L ls" by (rule allocs_cong)
  obtain h where h: "hdr m pool = Some h" "p_current h \<in> set bs" "unat (p_max h) + 56 \<le> unat sz"
    "lchain (lrg m) (p_large h) ls" using pool_inv_hdrE [OF I] by metis
  have lc: "lchain (lrg ?m) (p_large h) ls"
    using h(4) by (subst lchain_cong [of ls _ "lrg m"]) (use eqL l(2) in auto)
  have ch: "chain (blk ?m) pool bs"
    using D(7) by (subst chain_cong [of bs _ "blk m"]) (use m1(3) in auto)
  have room: "blk_room (blk ?m) pool sz b" if "b \<in> set bs" for b
    using D(9) [OF that] m1(3) [of b] that by (simp add: blk_room_def)
  have iu: "in_used ?m bs y" if "y \<in> set ls" for y
    by (rule in_used_mono [OF D(11) [OF that]]) (use m1(3) in auto)
  have fl: "filter (\<lambda>r. fst r \<notin> set bs \<union> set (allocs ?L ls)) (live m1) = L0"
    unfolding D(15) [symmetric] m1(2) st by (auto intro!: filter_cong)
  have sub: "set (allocs ?L ls) \<subseteq> fst ` set (live m1)"
  proof
    fix a assume "a \<in> set (allocs ?L ls)"
    then have "a \<in> fst ` set (live m)" "a \<noteq> ?p" using D(13) st dt(2) by auto
    then show "a \<in> fst ` set (live m1)" unfolding m1(2) by auto
  qed
  have "pool_inv L0 ?m pool sz bs ls"
    unfolding pool_inv_def a
    using D(1-6,8,10,14) m1(2,3) pl(2) h lc ch room iu fl sub dt(1) st
    by (auto simp: regions_ok_filter)
  with m1 show ?thesis by auto
qed

lemma large_scan_ok:
  "lchain L p ls \<Longrightarrow> \<exists>r. large_scan L n p = Some r
     \<and> (r = 0 \<or> (r \<in> set ls \<and> (\<exists>x. L r = Some x \<and> l_alloc x = 0)))"
proof (induction ls arbitrary: p n)
  case Nil
  then show ?case by (simp add: large_scan.simps)
next
  case (Cons l ls)
  then obtain x where x: "p = l" "L l = Some x" "lchain L (l_next x) ls" by auto
  from Cons.IH [OF x(3), of "n + 1"] obtain r where
    "large_scan L (n + 1) (l_next x) = Some r" "r = 0 \<or> (r \<in> set ls \<and> (\<exists>x. L r = Some x \<and> l_alloc x = 0))"
    by blast
  with x Cons.prems show ?case
    by (subst large_scan.simps) auto
qed

end
