(* ===== verification/Mem_Pool_Ops.thy ===== *)
theory Mem_Pool_Ops
  imports Mem_Pool_Inv
begin

text \<open>
  Every operation of the pool on a heap that satisfies the invariant: it has a defined
  result, keeps the invariant, and does to memory what the C function promises. The lemmas
  live in the locale \<open>allocator\<close>, that is for every \<open>malloc\<close> that keeps its contract.
\<close>

section \<open>Small allocations\<close>

definition small_post ::
  "region list \<Rightarrow> u64 \<Rightarrow> u64 \<Rightarrow> u64 list \<Rightarrow> u64 list \<Rightarrow> u64 \<Rightarrow> mem \<Rightarrow> u64 \<Rightarrow> mem \<Rightarrow> u64 list \<Rightarrow> bool" where
  "small_post L0 pool sz bs ls n m a m' bs' \<longleftrightarrow>
     pool_inv L0 m' pool sz bs' ls \<and> lrg m' = lrg m \<and> zeroed m' = zeroed m
   \<and> map_option p_large (hdr m' pool) = map_option p_large (hdr m pool)
   \<and> set (live m) \<subseteq> set (live m') \<and> set bs' \<inter> fst ` set (live m) \<subseteq> set bs
   \<and> (a = 0 \<and> m' = m \<and> bs' = bs \<or> a \<noteq> 0 \<and> chunk m bs m' bs' a n)"

lemma chunk_nonzero: "chunk m bs m' bs' a n \<Longrightarrow> a \<noteq> 0"
  by (auto simp: chunk_def)

context allocator
begin

lemma palloc_block_ok:
  assumes I: "pool_inv L0 m pool sz bs ls" and n: "unat n + 32 \<le> unat sz"
  shows "\<exists>a m' bs'. ngx_palloc_block pick pool n m = Some (a, m')
    \<and> small_post L0 pool sz bs ls n m a m' bs' \<and> (a \<noteq> 0 \<longrightarrow> 8 dvd unat a)"
proof -
  note D = pool_invD [OF I]
  obtain h where h: "hdr m pool = Some h" "p_current h \<in> set bs" "unat (p_max h) + 56 \<le> unat sz"
    "lchain (lrg m) (p_large h) ls" using pool_inv_hdrE [OF I] by metis
  obtain d0 where d0: "blk m pool = Some d0" "d_end d0 = pool + sz"
    using D(9) [OF D(5)] by (auto elim: blk_roomE)
  let ?a = "pick (live m) sz"
  have psz: "d_end d0 - pool = sz" using d0(2) by simp
  show ?thesis
  proof (cases "?a = 0")
    case True
    then have "ngx_palloc_block pick pool n m = Some (0, m)"
      by (simp add: ngx_palloc_block_def ngx_memalign_def ngx_alloc_def d0(1) psz)
    with I show ?thesis by (auto simp: small_post_def)
  next
    case False
    have R: "regions_ok ((?a, sz) # live m)" and al: "16 dvd unat ?a"
      using pick_ok [OF D(1) False] pick_align [OF D(1) False] by auto
    have nl: "?a \<notin> fst ` set (live m)" using R apart_fst [of "(?a, sz)"] by fastforce
    have nb: "?a \<notin> set bs"
      using R D(8) apart_fst by fastforce
    let ?new = "\<lparr>d_last = ?a + 32 + n, d_end = ?a + sz, d_next = 0, d_failed = 0\<rparr>"
    let ?B1 = "(blk m)(?a \<mapsto> ?new)"
    note rm = room_new_block [OF R al D(2) _ n, of pool ?B1 ?new]
    have "?a \<noteq> pool" using nb D(5) by auto
    with rm have rb: "unat (?a + 32) = unat ?a + 32" "unat ?a + unat sz < 2 ^ 64" by auto
    have al8: "8 dvd unat (?a + 32)"
      using al dvd_trans [of 8 16 "unat ?a"] rb(1) by simp
    have aid: "ngx_align_ptr (?a + 32) NGX_ALIGNMENT = ?a + 32"
      by (rule align_id [OF al8]) (use rb D(2) in simp)
    have ch: "chain ?B1 pool bs"
      using D(7) nb by (subst chain_cong [of bs ?B1 "blk m"]) auto
    from chain_suffix [OF this h(2)] obtain xs ys where ys: "bs = xs @ p_current h # ys"
      "chain ?B1 (p_current h) (p_current h # ys)" by blast
    have "\<exists>B' c'. palloc_bump ?B1 (p_current h) (p_current h) = Some (B', c', last (p_current h # ys))
        \<and> (c' = p_current h \<or> c' \<in> set (p_current h # ys)) \<and> bumped ?B1 B'"
      by (rule palloc_bump_ok [OF ys(2)]) (use D(6) ys(1) in auto)
    then obtain B2 cur where b: "palloc_bump ?B1 (p_current h) (p_current h) = Some (B2, cur, last bs)"
      "cur \<in> set bs" "bumped ?B1 B2" using ys(1) by auto
    have lb: "last bs \<in> set bs" using D(3) by simp
    obtain e where "blk m (last bs) = Some e" using D(9) [OF lb] by (rule blk_roomE)
    then have "?B1 (last bs) = Some e" using lb nb by auto
    then obtain k where "B2 (last bs) = Some (e\<lparr>d_failed := k\<rparr>)" by (rule bumped_Some [OF b(3)])
    then obtain d where d: "B2 (last bs) = Some d" by blast
    let ?m' = "m\<lparr>live := (?a, sz) # live m, blk := B2(last bs \<mapsto> d\<lparr>d_next := ?a\<rparr>),
     hdr := (hdr m)(pool \<mapsto> h\<lparr>p_current := cur\<rparr>)\<rparr>"
    note post = pool_inv_add_block [OF I R al n refl b(3) d h(1) b(2)]
    have r: "ngx_palloc_block pick pool n m = Some (?a + 32, ?m')"
      using False b(1) d
      by (simp add: ngx_palloc_block_def ngx_memalign_def ngx_alloc_def d0(1) psz h(1)
          SIZEOF_POOL_DATA_def aid Let_def)
    have "small_post L0 pool sz bs ls n m (?a + 32) ?m' (bs @ [?a])"
      unfolding small_post_def using post chunk_nonzero [OF post(2)] h(1) nl by auto
    with r al8 show ?thesis by blast
  qed
qed

lemma palloc_small_ok:
  assumes I: "pool_inv L0 m pool sz bs ls" and n: "unat n + 32 \<le> unat sz"
    and al: "align \<longrightarrow> 8 dvd unat sz"
  shows "\<exists>a m' bs'. ngx_palloc_small pick pool n align m = Some (a, m')
    \<and> small_post L0 pool sz bs ls n m a m' bs' \<and> (a \<noteq> 0 \<and> align \<longrightarrow> 8 dvd unat a)"
proof -
  note D = pool_invD [OF I]
  obtain h where h: "hdr m pool = Some h" "p_current h \<in> set bs"
    using pool_inv_hdrE [OF I] by metis
  from chain_suffix [OF D(7) h(2)] obtain xs ys where ys: "bs = xs @ p_current h # ys"
    "chain (blk m) (p_current h) (p_current h # ys)" by blast
  have "palloc_scan (blk m) n align (p_current h) = Some (0, 0) \<or>
    (\<exists>b d. b \<in> set (p_current h # ys) \<and> b \<noteq> 0 \<and> blk m b = Some d
      \<and> palloc_scan (blk m) n align (p_current h) = Some (b, slot align d)
      \<and> unat (slot align d) + unat n \<le> unat b + unat sz)"
    by (rule palloc_scan_ok [OF ys(2) _ _ al]) (use D(9) ys(1) in auto)
  then consider
      (full) "palloc_scan (blk m) n align (p_current h) = Some (0, 0)"
    | (fit) b d where "b \<in> set bs" "b \<noteq> 0" "blk m b = Some d"
        "palloc_scan (blk m) n align (p_current h) = Some (b, slot align d)"
        "unat (slot align d) + unat n \<le> unat b + unat sz"
    using ys(1) by auto
  then show ?thesis
  proof cases
    case full
    then have "ngx_palloc_small pick pool n align m = ngx_palloc_block pick pool n m"
      by (simp add: ngx_palloc_small_def h(1))
    with palloc_block_ok [OF I n] show ?thesis by metis
  next
    case fit
    let ?a = "slot align d"
    let ?m' = "m\<lparr>blk := (blk m)(b \<mapsto> d\<lparr>d_last := ?a + n\<rparr>)\<rparr>"
    have r: "ngx_palloc_small pick pool n align m = Some (?a, ?m')"
      using fit h(1) by (simp add: ngx_palloc_small_def)
    note sb = slot_bounds [OF D(9) [OF fit(1)] fit(3) al]
    have b64: "unat b + unat sz < 2 ^ 64" "unat b + 32 \<le> unat (d_last d)"
      using D(9) [OF fit(1)] fit(3) by (auto elim: blk_roomE)
    have an: "unat (?a + n) = unat ?a + unat n"
      by (rule unat_add_u64) (use fit(5) b64 in simp)
    note g = pool_inv_grow [OF I fit(1,3), of "?a + n"]
    have "x \<notin> used m bs" if "unat ?a \<le> x" "x < unat ?a + unat n" for x
      by (rule not_used_above [OF I fit(1,3)]) (use that sb fit(5) in auto)
    then have c: "chunk m bs ?m' bs ?a n"
      unfolding chunk_def using fit an sb b64 g by auto
    have "small_post L0 pool sz bs ls n m ?a ?m' bs"
      unfolding small_post_def using g an sb fit(5) c chunk_nonzero [OF c] by auto
    with r sb(3) show ?thesis by blast
  qed
qed

end

section \<open>Large allocations\<close>

text \<open>
  What an allocation promises: a non-null result is a fresh chunk of a block or a fresh
  region of its own that the pool remembers; memory handed out before stays in use.
\<close>

definition alloc_post ::
  "region list \<Rightarrow> u64 \<Rightarrow> u64 \<Rightarrow> u64 list \<Rightarrow> mem \<Rightarrow> u64 \<Rightarrow> u64 \<Rightarrow> mem \<Rightarrow> u64 list \<Rightarrow> u64 list \<Rightarrow> bool" where
  "alloc_post L0 pool sz bs m n a m' bs' ls' \<longleftrightarrow>
     pool_inv L0 m' pool sz bs' ls' \<and> used m bs \<subseteq> used m' bs' \<and> set bs \<subseteq> set bs'
   \<and> set (live m) \<subseteq> set (live m') \<and> set bs' \<inter> fst ` set (live m) \<subseteq> set bs
   \<and> (a \<noteq> 0 \<longrightarrow> chunk m bs m' bs' a n
        \<or> ((a, n) \<in> set (live m') \<and> a \<in> set (allocs (lrg m') ls') \<and> a \<notin> fst ` set (live m)))"

lemma alloc_postD:
  assumes "alloc_post L0 pool sz bs m n a m' bs' ls'"
  shows "pool_inv L0 m' pool sz bs' ls'" "used m bs \<subseteq> used m' bs'" "set bs \<subseteq> set bs'"
    "set (live m) \<subseteq> set (live m')" "set bs' \<inter> fst ` set (live m) \<subseteq> set bs"
    "a \<noteq> 0 \<Longrightarrow> chunk m bs m' bs' a n
        \<or> ((a, n) \<in> set (live m') \<and> a \<in> set (allocs (lrg m') ls') \<and> a \<notin> fst ` set (live m))"
  using assms unfolding alloc_post_def by simp_all

lemma small_post_alloc:
  "small_post L0 pool sz bs ls n m a m' bs' \<Longrightarrow> alloc_post L0 pool sz bs m n a m' bs' ls"
  by (auto simp: small_post_def alloc_post_def chunk_def)

lemma used_live_upd [simp]:
  "used (m\<lparr>live := l\<rparr>) bs = used m bs"
  "used (m\<lparr>lrg := g\<rparr>) bs = used m bs"
  "used (m\<lparr>hdr := h\<rparr>) bs = used m bs"
  "used (m\<lparr>zeroed := z\<rparr>) bs = used m bs"
  by (simp_all add: used_def)

lemma used_cong: "(\<And>b. b \<in> set bs \<Longrightarrow> blk m' b = blk m b) \<Longrightarrow> used m' bs = used m bs"
  by (auto simp: used_def)

lemma pool_inv_zeroed:
  assumes "pool_inv L0 m pool sz bs ls"
  shows "pool_inv L0 (m\<lparr>zeroed := z\<rparr>) pool sz bs ls"
  by (rule pool_inv_frame [OF assms]) (use pool_invD [OF assms] in simp_all)

lemma alloc_post_zeroed:
  "alloc_post L0 pool sz bs m n a m' bs' ls' \<Longrightarrow> alloc_post L0 pool sz bs m n a (m'\<lparr>zeroed := z\<rparr>) bs' ls'"
  by (auto simp: alloc_post_def chunk_def pool_inv_zeroed)

text \<open>A list node carved out of the pool is not one of the nodes already there.\<close>

lemma chunk_node:
  assumes I: "pool_inv L0 m pool sz bs ls" and c: "chunk m bs m' bs' q SIZEOF_LARGE"
  shows "in_used m' bs' q" "q \<notin> set ls"
proof -
  show "in_used m' bs' q" using c by (simp add: chunk_def in_used_def SIZEOF_LARGE_def)
  show "q \<notin> set ls"
  proof
    assume "q \<in> set ls"
    then have "in_used m bs q" by (rule pool_invD(11) [OF I])
    then have "unat q \<in> used m bs" by (fastforce simp: in_used_def used_def)
    then have "unat q \<in> {unat q..<unat q + unat SIZEOF_LARGE} \<inter> used m bs"
      by (simp add: SIZEOF_LARGE_def)
    with c show False unfolding chunk_def by blast
  qed
qed

definition push_post ::
  "region list \<Rightarrow> u64 \<Rightarrow> u64 \<Rightarrow> u64 list \<Rightarrow> mem \<Rightarrow> u64 \<Rightarrow> u64 \<Rightarrow> u64 \<Rightarrow> mem \<Rightarrow> u64 list \<Rightarrow> u64 list \<Rightarrow> bool" where
  "push_post L0 pool sz bs m p n a m' bs' ls' \<longleftrightarrow> pool_inv L0 m' pool sz bs' ls'
    \<and> used m bs \<subseteq> used m' bs' \<and> set bs \<subseteq> set bs' \<and> {r \<in> set (live m). fst r \<noteq> p} \<subseteq> set (live m')
    \<and> set bs' \<inter> fst ` set (live m) \<subseteq> set bs
    \<and> (a \<noteq> 0 \<longrightarrow> a = p \<and> (p, n) \<in> set (live m') \<and> p \<in> set (allocs (lrg m') ls'))"

lemma push_post_alloc:
  assumes "push_post L0 pool sz bs (m\<lparr>live := (p, n) # live m\<rparr>) p n a m' bs' ls'"
    and fresh: "p \<notin> fst ` set (live m)"
  shows "alloc_post L0 pool sz bs m n a m' bs' ls'" "a \<noteq> 0 \<Longrightarrow> a = p"
proof -
  have P: "pool_inv L0 m' pool sz bs' ls'" "used m bs \<subseteq> used m' bs'" "set bs \<subseteq> set bs'"
    "{r \<in> insert (p, n) (set (live m)). fst r \<noteq> p} \<subseteq> set (live m')"
    "set bs' \<inter> insert p (fst ` set (live m)) \<subseteq> set bs"
    "a \<noteq> 0 \<longrightarrow> a = p \<and> (p, n) \<in> set (live m') \<and> p \<in> set (allocs (lrg m') ls')"
    using assms(1) unfolding push_post_def by auto
  have "set (live m) \<subseteq> set (live m')" using P(4) fresh by force
  then show "alloc_post L0 pool sz bs m n a m' bs' ls'"
    unfolding alloc_post_def using P(1-3,5,6) fresh by blast
  show "a \<noteq> 0 \<Longrightarrow> a = p" using P(6) by blast
qed

context allocator
begin

lemma large_push_ok:
  assumes I: "pool_inv ((p, n) # L0) m pool sz bs ls" and p: "p \<noteq> 0" "p \<notin> fst ` set L0"
    and s8: "8 dvd unat sz"
  shows "\<exists>a m' bs' ls'. large_push pick pool p m = Some (a, m')
    \<and> push_post L0 pool sz bs m p n a m' bs' ls'"
proof -
  have "unat SIZEOF_LARGE + 32 \<le> unat sz"
    using pool_invD(2) [OF I] by (simp add: SIZEOF_LARGE_def)
  from palloc_small_ok [OF I this, of True] s8 obtain q m2 bs2 where
    q: "ngx_palloc_small pick pool SIZEOF_LARGE True m = Some (q, m2)"
    "small_post ((p, n) # L0) pool sz bs ls SIZEOF_LARGE m q m2 bs2" by auto
  then have I2: "pool_inv ((p, n) # L0) m2 pool sz bs2 ls" and lr: "lrg m2 = lrg m"
    and qc: "q = 0 \<and> m2 = m \<and> bs2 = bs \<or> q \<noteq> 0 \<and> chunk m bs m2 bs2 q SIZEOF_LARGE"
    by (auto simp: small_post_def)
  show ?thesis
  proof (cases "q = 0")
    case True
    with qc chunk_nonzero have m2: "m2 = m" by blast
    obtain m3 where m3: "ngx_free p m = Some m3"
      "pool_inv (filter (\<lambda>r. fst r \<noteq> p) ((p, n) # L0)) m3 pool sz bs ls"
      "\<forall>b\<in>set bs. blk m3 b = blk m b" "live m3 = filter (\<lambda>r. fst r \<noteq> p) (live m)"
      using pool_inv_free_other [OF I, of p n] by auto
    moreover have "filter (\<lambda>r. fst r \<noteq> p) ((p, n) # L0) = L0"
      using p(2) by (force intro!: filter_True)
    moreover have "used m3 bs = used m bs" by (rule used_cong) (use m3(3) in auto)
    ultimately have "push_post L0 pool sz bs m p n 0 m3 bs ls" by (auto simp: push_post_def)
    moreover have "large_push pick pool p m = Some (0, m3)"
      using q(1) True m2 m3(1) by (simp add: large_push_def)
    ultimately show ?thesis by blast
  next
    case False
    with qc have c: "chunk m bs m2 bs2 q SIZEOF_LARGE" by simp
    note nd = chunk_node [OF I c]
    obtain h where h: "hdr m2 pool = Some h" using pool_inv_hdrE [OF I2] by metis
    let ?m' = "m2\<lparr>lrg := (lrg m2)(q \<mapsto> \<lparr>l_next = p_large h, l_alloc = p\<rparr>),
           hdr := (hdr m2)(pool \<mapsto> h\<lparr>p_large := q\<rparr>)\<rparr>"
    have J: "pool_inv L0 ?m' pool sz bs2 (q # ls)" by (rule pool_inv_push [OF I2 h nd False p])
    have "(p, n) \<in> set (filter (\<lambda>r. fst r \<notin> set bs2 \<union> set (allocs (lrg m2) ls)) (live m2))"
      by (simp only: pool_invD(15) [OF I2] list.set_intros)
    then have 1: "(p, n) \<in> set (live ?m')" by simp
    have 2: "large_push pick pool p m = Some (p, ?m')"
      using q(1) False h by (simp add: large_push_def)
    have 3: "used m bs \<subseteq> used ?m' bs2" "set bs \<subseteq> set bs2" using c by (simp_all add: chunk_def)
    have 5: "{r \<in> set (live m). fst r \<noteq> p} \<subseteq> set (live ?m')"
      "set bs2 \<inter> fst ` set (live m) \<subseteq> set bs" using q(2) by (auto simp: small_post_def)
    have 4: "p \<in> set (allocs (lrg ?m') (q # ls))"
      using p(1) by (simp add: allocs_def)
    have "push_post L0 pool sz bs m p n p ?m' bs2 (q # ls)"
      unfolding push_post_def using 1 3 4 5 J by blast
    with 2 show ?thesis by blast
  qed
qed

lemma palloc_large_ok:
  assumes I: "pool_inv L0 m pool sz bs ls" and s8: "8 dvd unat sz"
  shows "\<exists>a m' bs' ls'. ngx_palloc_large pick pool n m = Some (a, m')
    \<and> alloc_post L0 pool sz bs m n a m' bs' ls' \<and> (a \<noteq> 0 \<longrightarrow> 16 dvd unat a)"
proof -
  let ?p = "pick (live m) n"
  show ?thesis
  proof (cases "?p = 0")
    case True
    then have "ngx_palloc_large pick pool n m = Some (0, m)"
      by (simp add: ngx_palloc_large_def ngx_alloc_def)
    with I show ?thesis by (auto simp: alloc_post_def)
  next
    case False
    have R: "regions_ok ((?p, n) # live m)" and al: "16 dvd unat ?p"
      using pick_ok [OF pool_invD(1) [OF I] False] pick_align [OF pool_invD(1) [OF I] False] by auto
    note A = pool_inv_alloc [OF I R]
    have fresh: "?p \<notin> fst ` set (live m)" using R apart_fst [of "(?p, n)"] by fastforce
    let ?m1 = "m\<lparr>live := (?p, n) # live m\<rparr>"
    obtain h where h: "hdr m pool = Some h" "lchain (lrg m) (p_large h) ls"
      using pool_inv_hdrE [OF I] by metis
    obtain lp where lp: "large_scan (lrg m) 0 (p_large h) = Some lp"
      "lp = 0 \<or> (lp \<in> set ls \<and> (\<exists>x. lrg m lp = Some x \<and> l_alloc x = 0))"
      using large_scan_ok [OF h(2)] by blast
    show ?thesis
    proof (cases "lp = 0")
      case True
      then have eq: "ngx_palloc_large pick pool n m = large_push pick pool ?p ?m1"
        using False h(1) lp(1) by (simp add: ngx_palloc_large_def ngx_alloc_def Let_def)
      obtain a m' bs' ls' where r: "ngx_palloc_large pick pool n m = Some (a, m')"
        "push_post L0 pool sz bs ?m1 ?p n a m' bs' ls'"
        using large_push_ok [OF A(1) A(5,4) s8, folded eq] by blast
      note R2 = push_post_alloc [OF r(2) fresh]
      then have "a \<noteq> 0 \<longrightarrow> 16 dvd unat a" using al by auto
      with r(1) R2(1) show ?thesis by blast
    next
      case nz: False
      then obtain x where x: "lp \<in> set ls" "lrg m lp = Some x" "l_alloc x = 0" using lp(2) by auto
      have J: "pool_inv L0 (?m1\<lparr>lrg := (lrg ?m1)(lp \<mapsto> x\<lparr>l_alloc := ?p\<rparr>)\<rparr>) pool sz bs ls"
        by (rule pool_inv_reuse [OF A(1) x(1) _ x(3) A(5,4)]) (use x(2) in simp)
      have "mset (allocs ((lrg m)(lp \<mapsto> x\<lparr>l_alloc := ?p\<rparr>)) ls) = add_mset ?p (mset (allocs (lrg m) ls))"
        using mset_allocs_fill [of lp ls "lrg m" x ?p] x pool_invD(10) [OF I] A(5) by simp
      then have "?p \<in># mset (allocs ((lrg m)(lp \<mapsto> x\<lparr>l_alloc := ?p\<rparr>)) ls)" by simp
      then have "?p \<in> set (allocs ((lrg m)(lp \<mapsto> x\<lparr>l_alloc := ?p\<rparr>)) ls)" by (simp only: set_mset_mset)
      moreover have "ngx_palloc_large pick pool n m
          = Some (?p, ?m1\<lparr>lrg := (lrg ?m1)(lp \<mapsto> x\<lparr>l_alloc := ?p\<rparr>)\<rparr>)"
        using False nz h(1) lp(1) x(2) by (simp add: ngx_palloc_large_def ngx_alloc_def Let_def)
      moreover have "alloc_post L0 pool sz bs m n ?p
          (?m1\<lparr>lrg := (lrg ?m1)(lp \<mapsto> x\<lparr>l_alloc := ?p\<rparr>)\<rparr>) bs ls"
        unfolding alloc_post_def using J fresh calculation(1) by auto
      ultimately show ?thesis using al by blast
    qed
  qed
qed

lemma palloc_gen_ok:
  assumes I: "pool_inv L0 m pool sz bs ls" and s8: "8 dvd unat sz"
    and r: "r = (if n \<le> p_max (the (hdr m pool)) then ngx_palloc_small pick pool n align m
                 else ngx_palloc_large pick pool n m)"
  shows "\<exists>a m' bs' ls'. r = Some (a, m') \<and> alloc_post L0 pool sz bs m n a m' bs' ls'
     \<and> (a \<noteq> 0 \<and> align \<longrightarrow> 8 dvd unat a)"
proof -
  obtain h where h: "hdr m pool = Some h" "unat (p_max h) + 56 \<le> unat sz"
    using pool_inv_hdrE [OF I] by metis
  show ?thesis
  proof (cases "n \<le> p_max h")
    case True
    then have "unat n + 32 \<le> unat sz" using h(2) by (simp add: word_le_nat_alt)
    from palloc_small_ok [OF I this, of align] s8 obtain a m' bs' where
      "ngx_palloc_small pick pool n align m = Some (a, m')"
      "small_post L0 pool sz bs ls n m a m' bs'" "a \<noteq> 0 \<and> align \<longrightarrow> 8 dvd unat a" by blast
    moreover from this have "alloc_post L0 pool sz bs m n a m' bs' ls" by (intro small_post_alloc)
    moreover have "r = ngx_palloc_small pick pool n align m" using True r h(1) by simp
    ultimately show ?thesis by metis
  next
    case False
    then have eq: "r = ngx_palloc_large pick pool n m" using r h(1) by simp
    have "8 dvd x" if "16 dvd x" for x :: nat using that dvd_trans [of 8 16 x] by simp
    with palloc_large_ok [OF I s8] show ?thesis unfolding eq by metis
  qed
qed

lemma palloc_ok:
  assumes "pool_inv L0 m pool sz bs ls" "8 dvd unat sz"
  shows "\<exists>a m' bs' ls'. ngx_palloc pick pool n m = Some (a, m')
    \<and> alloc_post L0 pool sz bs m n a m' bs' ls' \<and> (a \<noteq> 0 \<longrightarrow> 8 dvd unat a)"
proof -
  obtain h where "hdr m pool = Some h" using pool_inv_hdrE [OF assms(1)] by metis
  then have "ngx_palloc pick pool n m = (if n \<le> p_max (the (hdr m pool))
     then ngx_palloc_small pick pool n True m else ngx_palloc_large pick pool n m)"
    by (simp add: ngx_palloc_def)
  from palloc_gen_ok [OF assms this] show ?thesis by simp
qed

lemma pnalloc_ok:
  assumes "pool_inv L0 m pool sz bs ls" "8 dvd unat sz"
  shows "\<exists>a m' bs' ls'. ngx_pnalloc pick pool n m = Some (a, m')
    \<and> alloc_post L0 pool sz bs m n a m' bs' ls'"
proof -
  obtain h where "hdr m pool = Some h" using pool_inv_hdrE [OF assms(1)] by metis
  then have "ngx_pnalloc pick pool n m = (if n \<le> p_max (the (hdr m pool))
     then ngx_palloc_small pick pool n False m else ngx_palloc_large pick pool n m)"
    by (simp add: ngx_pnalloc_def)
  from palloc_gen_ok [OF assms this] show ?thesis by blast
qed

lemma pcalloc_ok:
  assumes "pool_inv L0 m pool sz bs ls" "8 dvd unat sz"
  shows "\<exists>a m' bs' ls'. ngx_pcalloc pick pool n m = Some (a, m') \<and> alloc_post L0 pool sz bs m n a m' bs' ls'
    \<and> (a \<noteq> 0 \<longrightarrow> (a, n) \<in> set (zeroed m'))"
proof -
  from palloc_ok [OF assms, of n] obtain a m' bs' ls' where
    r: "ngx_palloc pick pool n m = Some (a, m')" "alloc_post L0 pool sz bs m n a m' bs' ls'"
    by blast
  show ?thesis
  proof (cases "a = 0")
    case True
    with r show ?thesis by (simp add: ngx_pcalloc_def) blast
  next
    case False
    with r alloc_post_zeroed [OF r(2)] show ?thesis by (simp add: ngx_pcalloc_def) blast
  qed
qed

lemma pmemalign_ok:
  assumes I: "pool_inv L0 m pool sz bs ls" and s8: "8 dvd unat sz"
  shows "\<exists>a m' bs' ls'. ngx_pmemalign pick pool n al m = Some (a, m')
    \<and> alloc_post L0 pool sz bs m n a m' bs' ls'"
proof -
  let ?p = "pick (live m) n"
  show ?thesis
  proof (cases "?p = 0")
    case True
    then have "ngx_pmemalign pick pool n al m = Some (0, m)"
      by (simp add: ngx_pmemalign_def ngx_memalign_def ngx_alloc_def)
    with I show ?thesis by (auto simp: alloc_post_def)
  next
    case False
    have R: "regions_ok ((?p, n) # live m)" using pick_ok [OF pool_invD(1) [OF I] False] .
    note A = pool_inv_alloc [OF I R]
    have fresh: "?p \<notin> fst ` set (live m)" using R apart_fst [of "(?p, n)"] by fastforce
    let ?m1 = "m\<lparr>live := (?p, n) # live m\<rparr>"
    have eq: "ngx_pmemalign pick pool n al m = large_push pick pool ?p ?m1"
      using False by (simp add: ngx_pmemalign_def ngx_memalign_def ngx_alloc_def Let_def)
    obtain a m' bs' ls' where r: "ngx_pmemalign pick pool n al m = Some (a, m')"
      "push_post L0 pool sz bs ?m1 ?p n a m' bs' ls'"
      using large_push_ok [OF A(1) A(5,4) s8, folded eq] by blast
    with push_post_alloc [OF r(2) fresh] show ?thesis by blast
  qed
qed

end

end
