(* ===== verification/Mem_Pool_Life.thy ===== *)
theory Mem_Pool_Life
  imports Mem_Pool_Ops
begin

text \<open>
  Creation, release of single allocations, reset and destruction of a pool, and whole
  lifetimes: any sequence of operations between \<open>ngx_create_pool\<close> and
  \<open>ngx_destroy_pool\<close>.
\<close>

section \<open>Creation\<close>

context allocator
begin

lemma create_pool_ok:
  assumes L: "regions_ok (live m)" and sz: "56 \<le> unat sz"
  shows "\<exists>p m'. ngx_create_pool pick pg sz m = Some (p, m')
    \<and> (p = 0 \<and> m' = m \<or> p \<noteq> 0 \<and> pool_inv (live m) m' p sz [p] [])"
proof -
  let ?p = "pick (live m) sz"
  have nlt: "\<not> sz < SIZEOF_POOL" using sz by (simp add: SIZEOF_POOL_def word_less_nat_alt)
  show ?thesis
  proof (cases "?p = 0")
    case True
    then show ?thesis
      by (simp add: ngx_create_pool_def ngx_memalign_def ngx_alloc_def)
  next
    case False
    have R: "regions_ok ((?p, sz) # live m)" and al: "16 dvd unat ?p"
      using pick_ok [OF L False] pick_align [OF L False] by auto
    have np: "?p \<notin> fst ` set (live m)" using R apart_fst [of "(?p, sz)"] by fastforce
    have b: "unat ?p + unat sz < 2 ^ 64" using R sz by (simp add: rhi_def)
    have p56: "unat (?p + 56) = unat ?p + 56" using unat_add_u64 [of ?p 56] b sz by simp
    have al8: "8 dvd unat ?p" using al dvd_trans [of 8 16 "unat ?p"] by simp
    define mx where "mx = (if sz - SIZEOF_POOL < NGX_MAX_ALLOC_FROM_POOL pg then sz - SIZEOF_POOL
                           else NGX_MAX_ALLOC_FROM_POOL pg)"
    have "unat mx \<le> unat (sz - SIZEOF_POOL)"
      by (auto simp: mx_def word_less_nat_alt)
    moreover have "unat (sz - SIZEOF_POOL) = unat sz - 56"
      using unat_sub_u64 [of SIZEOF_POOL sz] sz by (simp add: SIZEOF_POOL_def)
    ultimately have mx: "unat mx + 56 \<le> unat sz" using sz by simp
    let ?d = "\<lparr>d_last = ?p + SIZEOF_POOL, d_end = ?p + sz, d_next = 0, d_failed = 0\<rparr>"
    let ?m' = "m\<lparr>live := (?p, sz) # live m, blk := (blk m)(?p \<mapsto> ?d),
      hdr := (hdr m)(?p \<mapsto> \<lparr>p_max = mx, p_current = ?p, p_large = 0\<rparr>)\<rparr>"
    have r: "ngx_create_pool pick pg sz m = Some (?p, ?m')"
      using False nlt
      by (simp add: ngx_create_pool_def ngx_memalign_def ngx_alloc_def mx_def Let_def)
    have "blk_room (blk ?m') ?p sz ?p"
      using b al8 p56 sz by (simp add: blk_room_def SIZEOF_POOL_def)
    moreover have "filter (\<lambda>r. fst r \<noteq> ?p) (live m) = live m"
      using np by (force intro!: filter_True)
    ultimately have "pool_inv (live m) ?m' ?p sz [?p] []"
      using R sz mx False by (simp add: pool_inv_def allocs_def)
    with r False show ?thesis by blast
  qed
qed

end

section \<open>ngx\_pfree\<close>

lemma pfree_loop_ok:
  assumes I: "pool_inv L0 m pool sz bs ls" and "lchain (lrg m) l ks" "set ks \<subseteq> set ls"
  shows "\<exists>r m'. pfree_loop l p m = Some (r, m') \<and> pool_inv L0 m' pool sz bs ls
    \<and> (r = NGX_OK \<and> live m' = filter (\<lambda>r. fst r \<noteq> p) (live m) \<and> (\<forall>b\<in>set bs. blk m' b = blk m b)
       \<or> r = NGX_DECLINED \<and> m' = m \<and> p \<notin> set (allocs (lrg m) ks))"
  using assms(2,3)
proof (induction ks arbitrary: l)
  case Nil
  with I show ?case by (subst pfree_loop.simps) (simp add: allocs_def)
next
  case (Cons k ks)
  then obtain x where x: "l = k" "l \<noteq> 0" "lrg m l = Some x" "lchain (lrg m) (l_next x) ks" "l \<in> set ls"
    by auto
  show ?case
  proof (cases "p = l_alloc x")
    case True
    show ?thesis
    proof (cases "p = 0")
      case p0: True
      have "(lrg m)(l \<mapsto> x\<lparr>l_alloc := 0\<rparr>) = lrg m" using x(3) True p0 by auto
      then have "pfree_loop l p m = Some (NGX_OK, m)"
        using x(2,3) True p0 by (subst pfree_loop.simps) (simp add: ngx_free_def)
      moreover have "filter (\<lambda>r. fst r \<noteq> 0) (live m) = live m"
        using regions_ok_nz [OF pool_invD(1) [OF I]] by (force intro!: filter_True)
      ultimately show ?thesis using I p0 by auto
    next
      case False
      with pool_inv_release [OF I x(5,3)] True obtain m1 where m1: "ngx_free p m = Some m1"
        "pool_inv L0 (m1\<lparr>lrg := (lrg m1)(l \<mapsto> x\<lparr>l_alloc := 0\<rparr>)\<rparr>) pool sz bs ls"
        "live m1 = filter (\<lambda>r. fst r \<noteq> p) (live m)" "\<forall>b\<in>set bs. blk m1 b = blk m b" by auto
      then have "pfree_loop l p m = Some (NGX_OK, m1\<lparr>lrg := (lrg m1)(l \<mapsto> x\<lparr>l_alloc := 0\<rparr>)\<rparr>)"
        using x(2,3) True by (subst pfree_loop.simps) simp
      with m1 show ?thesis by simp
    qed
  next
    case False
    then have "pfree_loop l p m = pfree_loop (l_next x) p m"
      using x(2,3) by (subst pfree_loop.simps) simp
    moreover have "p \<notin> set (allocs (lrg m) (k # ks))" if "p \<notin> set (allocs (lrg m) ks)"
      using that False x(1,3) by (simp add: allocs_def)
    ultimately show ?thesis using Cons.IH [OF x(4)] Cons.prems(2) by auto
  qed
qed

lemma pfree_ok:
  assumes I: "pool_inv L0 m pool sz bs ls"
  shows "\<exists>r m'. ngx_pfree pool p m = Some (r, m') \<and> pool_inv L0 m' pool sz bs ls
    \<and> (r = NGX_OK \<and> live m' = filter (\<lambda>r. fst r \<noteq> p) (live m) \<and> (\<forall>b\<in>set bs. blk m' b = blk m b)
       \<or> r = NGX_DECLINED \<and> m' = m \<and> p \<notin> set (allocs (lrg m) ls))"
proof -
  obtain h where h: "hdr m pool = Some h" "lchain (lrg m) (p_large h) ls"
    using pool_inv_hdrE [OF I] by metis
  then have "ngx_pfree pool p m = pfree_loop (p_large h) p m" by (simp add: ngx_pfree_def)
  with pfree_loop_ok [OF I h(2)] show ?thesis by simp
qed

section \<open>Freeing the large allocations\<close>

lemma free_larges_ok:
  assumes "lchain (lrg m) l ls" "regions_ok (live m)" "distinct (allocs (lrg m) ls)"
    "set (allocs (lrg m) ls) \<subseteq> fst ` set (live m)" "set ls \<subseteq> P"
    "\<And>x. x \<in> P \<Longrightarrow> \<exists>r\<in>set (live m). in_region x r \<and> fst r \<notin> set (allocs (lrg m) ls)"
  shows "\<exists>m'. free_larges l m = Some m'
    \<and> live m' = filter (\<lambda>r. fst r \<notin> set (allocs (lrg m) ls)) (live m)
    \<and> (\<forall>x\<in>P. blk m' x = blk m x \<and> hdr m' x = hdr m x \<and> lrg m' x = lrg m x)"
  using assms
proof (induction ls arbitrary: l m)
  case Nil
  then show ?case by (subst free_larges.simps) (simp add: allocs_def)
next
  case (Cons k ls)
  then obtain x where x: "l = k" "l \<noteq> 0" "lrg m l = Some x" "lchain (lrg m) (l_next x) ls" by auto
  have al: "allocs (lrg m) (k # ls) = (if l_alloc x = 0 then [] else [l_alloc x]) @ allocs (lrg m) ls"
    using x(1,3) by (simp add: allocs_def)
  show ?case
  proof (cases "l_alloc x = 0")
    case True
    then have "free_larges l m = free_larges (l_next x) m"
      using x(2,3) by (subst free_larges.simps) simp
    with Cons.IH [OF x(4)] Cons.prems al True show ?thesis by simp
  next
    case False
    let ?p = "l_alloc x"
    have pn: "?p \<notin> set (allocs (lrg m) ls)" using Cons.prems(3) al False by simp
    obtain n where n: "(?p, n) \<in> set (live m)" using Cons.prems(4) al False by auto
    obtain m1 where m1: "ngx_free ?p m = Some m1" "live m1 = filter (\<lambda>r. fst r \<noteq> ?p) (live m)"
      "\<And>a r. r \<in> set (live m) \<Longrightarrow> fst r \<noteq> ?p \<Longrightarrow> in_region a r \<Longrightarrow>
         blk m1 a = blk m a \<and> hdr m1 a = hdr m a \<and> lrg m1 a = lrg m a"
      using ngx_free_ok [OF Cons.prems(2) n] by metis
    have P: "blk m1 y = blk m y \<and> hdr m1 y = hdr m y \<and> lrg m1 y = lrg m y" if y: "y \<in> P" for y
    proof -
      obtain r where "r \<in> set (live m)" "in_region y r" "fst r \<notin> set (allocs (lrg m) (k # ls))"
        using Cons.prems(6) [OF y] by blast
      then show ?thesis using m1(3) [of r y] al False by auto
    qed
    have kP: "k \<in> P" and lsP: "set ls \<subseteq> P" using Cons.prems(5) by auto
    have a1: "allocs (lrg m1) ls = allocs (lrg m) ls"
      by (rule allocs_cong) (use P lsP in auto)
    have "\<exists>m'. free_larges (l_next x) m1 = Some m'
      \<and> live m' = filter (\<lambda>r. fst r \<notin> set (allocs (lrg m1) ls)) (live m1)
      \<and> (\<forall>y\<in>P. blk m' y = blk m1 y \<and> hdr m' y = hdr m1 y \<and> lrg m' y = lrg m1 y)"
    proof (rule Cons.IH)
      show "lchain (lrg m1) (l_next x) ls"
        using x(4) by (subst lchain_cong [of ls _ "lrg m"]) (use P lsP in auto)
      show "regions_ok (live m1)" using Cons.prems(2) m1(2) by (simp add: regions_ok_filter)
      show "distinct (allocs (lrg m1) ls)" using Cons.prems(3) al a1 by simp
      show "set (allocs (lrg m1) ls) \<subseteq> fst ` set (live m1)"
      proof
        fix y assume "y \<in> set (allocs (lrg m1) ls)"
        then have "y \<in> fst ` set (live m)" "y \<noteq> ?p" using Cons.prems(4) al a1 pn by auto
        then show "y \<in> fst ` set (live m1)" unfolding m1(2) by auto
      qed
      show "set ls \<subseteq> P" by (rule lsP)
      show "\<exists>r\<in>set (live m1). in_region y r \<and> fst r \<notin> set (allocs (lrg m1) ls)" if y: "y \<in> P" for y
      proof -
        obtain r where "r \<in> set (live m)" "in_region y r" "fst r \<notin> set (allocs (lrg m) (k # ls))"
          using Cons.prems(6) [OF y] by blast
        then show ?thesis using al False a1 m1(2) by (intro bexI [of _ r]) auto
      qed
    qed
    then obtain m' where m': "free_larges (l_next x) m1 = Some m'"
      "live m' = filter (\<lambda>r. fst r \<notin> set (allocs (lrg m) ls)) (live m1)"
      "\<forall>y\<in>P. blk m' y = blk m y \<and> hdr m' y = hdr m y \<and> lrg m' y = lrg m y"
      using a1 P by auto
    have "free_larges l m = Some m'"
      using x(1-3) False m1(1) m'(1) P [OF kP] by (subst free_larges.simps) simp
    moreover have "live m' = filter (\<lambda>r. fst r \<notin> set (allocs (lrg m) (k # ls))) (live m)"
      unfolding m'(2) m1(2) al using False by (auto intro!: filter_cong)
    ultimately show ?thesis using m'(3) by auto
  qed
qed

lemma pool_free_larges:
  assumes I: "pool_inv L0 m pool sz bs ls" and h: "hdr m pool = Some h"
  obtains m' where "free_larges (p_large h) m = Some m'"
    "live m' = filter (\<lambda>r. fst r \<notin> set (allocs (lrg m) ls)) (live m)"
    "\<And>x. x \<in> set bs \<Longrightarrow> blk m' x = blk m x \<and> hdr m' x = hdr m x"
proof -
  note D = pool_invD [OF I]
  have lc: "lchain (lrg m) (p_large h) ls" using pool_inv_hdrE [OF I] h by auto
  have "\<exists>m'. free_larges (p_large h) m = Some m'
    \<and> live m' = filter (\<lambda>r. fst r \<notin> set (allocs (lrg m) ls)) (live m)
    \<and> (\<forall>x\<in>set bs \<union> set ls. blk m' x = blk m x \<and> hdr m' x = hdr m x \<and> lrg m' x = lrg m x)"
  proof (rule free_larges_ok [OF lc D(1,12,13)])
    show "set ls \<subseteq> set bs \<union> set ls" by simp
    fix x assume "x \<in> set bs \<union> set ls"
    then obtain b where "b \<in> set bs" "in_region x (b, sz)" by (rule pool_prot [OF I])
    with D(8,14) show "\<exists>r\<in>set (live m). in_region x r \<and> fst r \<notin> set (allocs (lrg m) ls)"
      by (intro bexI [of _ "(b, sz)"]) auto
  qed
  with that show ?thesis by auto
qed

section \<open>Destruction\<close>

lemma free_blocks_ok:
  assumes "regions_ok (live m)" "distinct (p # bs)" "chain (blk m) n bs"
    "\<And>b. b \<in> set (p # bs) \<Longrightarrow> (b, sz) \<in> set (live m)"
  shows "\<exists>m'. free_blocks p n m = Some m' \<and> live m' = filter (\<lambda>r. fst r \<notin> set (p # bs)) (live m)"
  using assms
proof (induction bs arbitrary: p n m)
  case Nil
  have "(p, sz) \<in> set (live m)" using Nil.prems(4) by simp
  then obtain m1 where "ngx_free p m = Some m1" "live m1 = filter (\<lambda>r. fst r \<noteq> p) (live m)"
    using ngx_free_ok [OF Nil.prems(1)] by metis
  with Nil.prems(3) show ?case by (subst free_blocks.simps) simp
next
  case (Cons b bs)
  obtain d where d: "n = b" "b \<noteq> 0" "blk m b = Some d" "chain (blk m) (d_next d) bs"
    using Cons.prems(3) by auto
  have "(p, sz) \<in> set (live m)" using Cons.prems(4) by simp
  then obtain m1 where m1: "ngx_free p m = Some m1" "live m1 = filter (\<lambda>r. fst r \<noteq> p) (live m)"
    "\<And>a r. r \<in> set (live m) \<Longrightarrow> fst r \<noteq> p \<Longrightarrow> in_region a r \<Longrightarrow>
       blk m1 a = blk m a \<and> hdr m1 a = hdr m a \<and> lrg m1 a = lrg m a"
    using ngx_free_ok [OF Cons.prems(1)] by metis
  have same: "blk m1 c = blk m c" if "c \<in> set (b # bs)" for c
    using m1(3) [of "(c, sz)" c] Cons.prems(2,4) that in_region_self by auto
  have "\<exists>m'. free_blocks b (d_next d) m1 = Some m' \<and> live m' = filter (\<lambda>r. fst r \<notin> set (b # bs)) (live m1)"
  proof (rule Cons.IH)
    show "chain (blk m1) (d_next d) bs"
      using d(4) by (subst chain_cong [of bs _ "blk m"]) (use same in auto)
  qed (use Cons.prems m1(2) in \<open>auto simp: regions_ok_filter\<close>)
  then obtain m' where m': "free_blocks b (d_next d) m1 = Some m'"
    "live m' = filter (\<lambda>r. fst r \<notin> set (b # bs)) (live m1)" by blast
  have "free_blocks p n m = Some m'"
    using m1(1) m'(1) d(1-3) same [of b] by (subst free_blocks.simps) simp
  moreover have "live m' = filter (\<lambda>r. fst r \<notin> set (p # b # bs)) (live m)"
    unfolding m'(2) m1(2) by (auto intro!: filter_cong)
  ultimately show ?case by blast
qed

lemma destroy_pool_ok:
  assumes I: "pool_inv L0 m pool sz bs ls"
  shows "\<exists>m'. ngx_destroy_pool pool m = Some m' \<and> live m' = L0"
proof -
  note D = pool_invD [OF I]
  obtain h where h: "hdr m pool = Some h" using pool_inv_hdrE [OF I] by metis
  obtain m1 where m1: "free_larges (p_large h) m = Some m1"
    "live m1 = filter (\<lambda>r. fst r \<notin> set (allocs (lrg m) ls)) (live m)"
    "\<And>x. x \<in> set bs \<Longrightarrow> blk m1 x = blk m x \<and> hdr m1 x = hdr m x"
    using pool_free_larges [OF I h] by metis
  obtain rest where bs: "bs = pool # rest" using D(3,4) by (cases bs) auto
  have ch: "chain (blk m1) pool bs"
    using D(7) by (subst chain_cong [of bs _ "blk m"]) (use m1(3) in auto)
  then obtain d where d: "blk m1 pool = Some d" "chain (blk m1) (d_next d) rest" using bs by auto
  have "\<exists>m'. free_blocks pool (d_next d) m1 = Some m'
     \<and> live m' = filter (\<lambda>r. fst r \<notin> set (pool # rest)) (live m1)"
  proof (rule free_blocks_ok [OF _ _ d(2)])
    show "(b, sz) \<in> set (live m1)" if "b \<in> set (pool # rest)" for b
      using that D(8,14) m1(2) bs by auto
  qed (use D(1,6) m1(2) bs in \<open>auto simp: regions_ok_filter\<close>)
  then obtain m' where m': "free_blocks pool (d_next d) m1 = Some m'"
    "live m' = filter (\<lambda>r. fst r \<notin> set bs) (live m1)" using bs by auto
  have "live m' = L0"
    unfolding m'(2) m1(2) D(15) [symmetric] by (auto intro!: filter_cong)
  moreover have "ngx_destroy_pool pool m = Some m'"
    using h m1(1) d(1) m'(1) by (simp add: ngx_destroy_pool_def)
  ultimately show ?thesis by blast
qed

section \<open>Reset\<close>

lemma reset_blocks_ok:
  "chain B p bs \<Longrightarrow> distinct bs \<Longrightarrow>
   \<exists>B'. reset_blocks p B = Some B' \<and> (\<forall>b. B' b = (if b \<in> set bs
      then map_option (\<lambda>d. d\<lparr>d_last := b + SIZEOF_POOL, d_failed := 0\<rparr>) (B b) else B b))"
proof (induction bs arbitrary: B p)
  case Nil
  then show ?case by (subst reset_blocks.simps) simp
next
  case (Cons c bs)
  then obtain d where d: "p = c" "c \<noteq> 0" "B c = Some d" "chain B (d_next d) bs" by auto
  let ?B = "B(c \<mapsto> d\<lparr>d_last := c + SIZEOF_POOL, d_failed := 0\<rparr>)"
  have ch: "chain ?B (d_next d) bs"
    using d(4) by (subst chain_cong [of bs _ B]) (use Cons.prems(2) in auto)
  obtain B' where B': "reset_blocks (d_next d) ?B = Some B'"
    "\<forall>b. B' b = (if b \<in> set bs
      then map_option (\<lambda>d. d\<lparr>d_last := b + SIZEOF_POOL, d_failed := 0\<rparr>) (?B b) else ?B b)"
    using Cons.IH [OF ch] Cons.prems(2) unfolding distinct.simps by blast
  have "reset_blocks p B = Some B'"
    using d B'(1) by (subst reset_blocks.simps) simp
  moreover have "B' b = (if b \<in> set (c # bs)
      then map_option (\<lambda>d. d\<lparr>d_last := b + SIZEOF_POOL, d_failed := 0\<rparr>) (B b) else B b)" for b
    using B'(2) d(3) Cons.prems(2) by auto
  ultimately show ?case by blast
qed

lemma reset_pool_ok:
  assumes I: "pool_inv L0 m pool sz bs ls"
  shows "\<exists>m'. ngx_reset_pool pool m = Some m' \<and> pool_inv L0 m' pool sz bs []
    \<and> live m' = filter (\<lambda>r. fst r \<notin> set (allocs (lrg m) ls)) (live m)
    \<and> used m' bs = (\<Union>b\<in>set bs. {unat b..<unat b + 56})"
proof -
  note D = pool_invD [OF I]
  obtain h where h: "hdr m pool = Some h" "unat (p_max h) + 56 \<le> unat sz"
    using pool_inv_hdrE [OF I] by metis
  obtain m1 where m1: "free_larges (p_large h) m = Some m1"
    "live m1 = filter (\<lambda>r. fst r \<notin> set (allocs (lrg m) ls)) (live m)"
    "\<And>x. x \<in> set bs \<Longrightarrow> blk m1 x = blk m x \<and> hdr m1 x = hdr m x"
    using pool_free_larges [OF I h(1)] by metis
  have ch: "chain (blk m1) pool bs"
    using D(7) by (subst chain_cong [of bs _ "blk m"]) (use m1(3) in auto)
  obtain B where B: "reset_blocks pool (blk m1) = Some B"
    "\<And>b. B b = (if b \<in> set bs
      then map_option (\<lambda>d. d\<lparr>d_last := b + SIZEOF_POOL, d_failed := 0\<rparr>) (blk m1 b) else blk m1 b)"
    using reset_blocks_ok [OF ch D(6)] by blast
  let ?m' = "m1\<lparr>blk := B, hdr := (hdr m1)(pool \<mapsto> h\<lparr>p_current := pool, p_large := 0\<rparr>)\<rparr>"
  have r: "ngx_reset_pool pool m = Some ?m'"
    using h(1) m1(1) B(1) m1(3) [OF D(5)] by (simp add: ngx_reset_pool_def)
  have b56: "unat (b + SIZEOF_POOL) = unat b + 56" if "b \<in> set bs" for b
    using unat_add_u64 [of b 56] D(9) [OF that] D(2) by (auto simp: SIZEOF_POOL_def elim: blk_roomE)
  have Bb: "\<exists>d e. blk m b = Some d \<and> B b = Some e \<and> d_end e = d_end d \<and> d_next e = d_next d
      \<and> d_last e = b + SIZEOF_POOL" if "b \<in> set bs" for b
    using D(9) [OF that] B(2) [of b] m1(3) [OF that] that by (auto elim!: blk_roomE)
  have ch': "chain B pool bs"
    using ch by (subst chain_cong [of bs B "blk m1"])
      (use B(2) in \<open>auto simp: option.map_comp comp_def\<close>)
  have room: "blk_room B pool sz b" if "b \<in> set bs" for b
    using Bb [OF that] D(9) [OF that] b56 [OF that] D(2) by (auto simp: blk_room_def)
  have "filter (\<lambda>r. fst r \<notin> set bs) (live m1) = L0"
    unfolding D(15) [symmetric] m1(2) by (auto intro!: filter_cong)
  then have "pool_inv L0 ?m' pool sz bs []"
    unfolding pool_inv_def
    using D(1-8,14) m1(2) ch' room h by (auto simp: regions_ok_filter allocs_def)
  moreover have "used ?m' bs = (\<Union>b\<in>set bs. {unat b..<unat b + 56})"
    using Bb b56 by (fastforce simp: used_def)
  ultimately show ?thesis using r m1(2) by auto
qed

end
