(* ===== verification/Mem_Pool_Props.thy ===== *)
theory Mem_Pool_Props
  imports Mem_Pool_Life
begin

text \<open>
  Whole lifetimes of a pool as a client sees them: a sequence of calls, the chunks that are
  outstanding, and the properties of \<open>mem_pool/\<close> that follow.
\<close>

section \<open>Clients\<close>

datatype pool_op = Palloc u64 | Pnalloc u64 | Pcalloc u64 | Pmemalign u64 u64 | Pfree u64 | Preset

definition got :: "(u64 \<times> mem) option \<Rightarrow> u64 \<Rightarrow> region list \<Rightarrow> (mem \<times> region list) option" where
  "got r n os = do { (a, m) \<leftarrow> r; Some (m, if a = 0 then os else (a, n) # os) }"

text \<open>One call; the second component lists the chunks the client still holds.\<close>

fun pool_step :: "malloc \<Rightarrow> u64 \<Rightarrow> pool_op \<Rightarrow> mem \<times> region list \<Rightarrow> (mem \<times> region list) option" where
  "pool_step pick pool (Palloc n) (m, os) = got (ngx_palloc pick pool n m) n os"
| "pool_step pick pool (Pnalloc n) (m, os) = got (ngx_pnalloc pick pool n m) n os"
| "pool_step pick pool (Pcalloc n) (m, os) = got (ngx_pcalloc pick pool n m) n os"
| "pool_step pick pool (Pmemalign n al) (m, os) = got (ngx_pmemalign pick pool n al m) n os"
| "pool_step pick pool (Pfree p) (m, os) =
     do { (r, m1) \<leftarrow> ngx_pfree pool p m;
          Some (m1, if r = NGX_OK then filter (\<lambda>c. fst c \<noteq> p) os else os) }"
| "pool_step pick pool Preset (m, os) = do { m1 \<leftarrow> ngx_reset_pool pool m; Some (m1, []) }"

fun pool_run :: "malloc \<Rightarrow> u64 \<Rightarrow> pool_op list \<Rightarrow> mem \<times> region list \<Rightarrow> (mem \<times> region list) option" where
  "pool_run pick pool [] s = Some s"
| "pool_run pick pool (x # xs) s = do { s1 \<leftarrow> pool_step pick pool x s; pool_run pick pool xs s1 }"

definition bytes :: "region \<Rightarrow> nat set" where
  "bytes c = {unat (fst c)..<unat (fst c) + unat (snd c)}"

fun apart_all :: "region list \<Rightarrow> bool" where
  "apart_all [] = True"
| "apart_all (c # os) = ((\<forall>d\<in>set os. bytes c \<inter> bytes d = {}) \<and> apart_all os)"

definition held :: "region list \<Rightarrow> mem \<Rightarrow> u64 list \<Rightarrow> region \<Rightarrow> bool" where
  "held L0 m bs c \<longleftrightarrow>
     bytes c \<subseteq> used m bs \<and> (\<forall>b\<in>set bs. bytes c \<inter> {unat b..<unat b + 32} = {})
   \<or> c \<in> set (live m) \<and> fst c \<notin> set bs \<and> c \<notin> set L0"

definition client_inv ::
  "region list \<Rightarrow> u64 \<Rightarrow> u64 \<Rightarrow> mem \<times> region list \<Rightarrow> bool" where
  "client_inv L0 pool sz s \<longleftrightarrow> (\<exists>bs ls. pool_inv L0 (fst s) pool sz bs ls
     \<and> apart_all (snd s) \<and> (\<forall>c\<in>set (snd s). held L0 (fst s) bs c))"

lemma apart_all_filter: "apart_all os \<Longrightarrow> apart_all (filter P os)"
  by (induction os) auto

lemma live_off_blocks:
  assumes I: "pool_inv L0 m pool sz bs ls" and c: "c \<in> set (live m)" "fst c \<notin> set bs"
    and b: "b \<in> set bs"
  shows "bytes c \<inter> {unat b..<unat b + unat sz} = {}"
proof -
  have "apart c (b, sz)"
    by (rule regions_ok_apart [OF pool_invD(1) [OF I] c(1) pool_invD(8) [OF I b]]) (use c(2) b in auto)
  then show ?thesis by (auto simp: apart_def bytes_def rlo_def rhi_def)
qed

lemma live_off_used:
  assumes "pool_inv L0 m pool sz bs ls" "c \<in> set (live m)" "fst c \<notin> set bs"
  shows "bytes c \<inter> used m bs = {}"
proof -
  have False if x: "x \<in> bytes c" "x \<in> used m bs" for x
  proof -
    obtain b d where b: "b \<in> set bs" "blk m b = Some d" "unat b \<le> x" "x < unat (d_last d)"
      "x < unat b + unat sz"
      by (rule used_block [OF assms(1) x(2)])
    have "x \<in> {unat b..<unat b + unat sz}" using b(3,5) by simp
    with x(1) live_off_blocks [OF assms b(1)] show False by blast
  qed
  then show ?thesis by blast
qed

lemma alloc_hdr_free:
  assumes I: "pool_inv L0 m pool sz bs ls" and P: "alloc_post L0 pool sz bs m n a m' bs' ls'"
    and x: "x \<in> used m bs" "\<And>b. b \<in> set bs \<Longrightarrow> x \<notin> {unat b..<unat b + 32}" and b: "b \<in> set bs'"
  shows "x \<notin> {unat b..<unat b + 32}"
proof (cases "b \<in> set bs")
  case True
  then show ?thesis by (rule x(2))
next
  case False
  obtain b0 d0 where b0: "b0 \<in> set bs" "blk m b0 = Some d0" "unat b0 \<le> x" "x < unat (d_last d0)"
    "x < unat b0 + unat sz"
    by (rule used_block [OF I x(1)])
  have "b0 \<in> set bs'" by (rule subsetD [OF alloc_postD(3) [OF P] b0(1)])
  moreover have "b \<noteq> b0" using False b0(1) by blast
  ultimately have "unat b + unat sz \<le> unat b0 \<or> unat b0 + unat sz \<le> unat b"
    by (rule blocks_apart [OF alloc_postD(1) [OF P] b])
  then have "x < unat b \<or> unat b + 32 \<le> x"
    using b0(3,5) pool_invD(2) [OF I] by linarith
  then show ?thesis by auto
qed

lemma alloc_held:
  assumes I: "pool_inv L0 m pool sz bs ls" and P: "alloc_post L0 pool sz bs m n a m' bs' ls'"
    and h: "held L0 m bs c"
  shows "held L0 m' bs' c"
proof (cases "c \<in> set (live m) \<and> fst c \<notin> set bs \<and> c \<notin> set L0")
  case True
  then have "fst c \<in> fst ` set (live m)" by (intro imageI) simp
  then have "fst c \<notin> set bs'" using True alloc_postD(5) [OF P] by blast
  moreover have "c \<in> set (live m')" using True by (intro subsetD [OF alloc_postD(4) [OF P]]) simp
  ultimately show ?thesis using True by (simp add: held_def)
next
  case False
  with h have h': "bytes c \<subseteq> used m bs" "\<forall>b\<in>set bs. bytes c \<inter> {unat b..<unat b + 32} = {}"
    by (simp_all add: held_def)
  then have c: "bytes c \<subseteq> used m bs" "\<And>b x. b \<in> set bs \<Longrightarrow> x \<in> bytes c \<Longrightarrow> x \<notin> {unat b..<unat b + 32}"
    by (simp, fast)
  have "x \<notin> {unat b..<unat b + 32}" if "x \<in> bytes c" "b \<in> set bs'" for x b
    by (rule alloc_hdr_free [OF I P subsetD [OF c(1) that(1)] c(2) [OF _ that(1)] that(2)])
  then have "bytes c \<inter> {unat b..<unat b + 32} = {}" if "b \<in> set bs'" for b
    using that by blast
  moreover have "bytes c \<subseteq> used m' bs'" by (rule subset_trans [OF c(1) alloc_postD(2) [OF P]])
  ultimately show ?thesis unfolding held_def by simp
qed

text \<open>A new chunk is held, and apart from everything held before.\<close>

lemma alloc_new:
  assumes I: "pool_inv L0 m pool sz bs ls" and P: "alloc_post L0 pool sz bs m n a m' bs' ls'"
    and a: "a \<noteq> 0"
  shows "held L0 m' bs' (a, n)" "held L0 m bs c \<Longrightarrow> bytes (a, n) \<inter> bytes c = {}"
proof -
  note J = alloc_postD(1) [OF P]
  consider (small) "chunk m bs m' bs' a n"
    | (large) "(a, n) \<in> set (live m')" "a \<in> set (allocs (lrg m') ls')" "a \<notin> fst ` set (live m)"
    using alloc_postD(6) [OF P a] by blast
  then have "held L0 m' bs' (a, n) \<and> (held L0 m bs c \<longrightarrow> bytes (a, n) \<inter> bytes c = {})"
  proof cases
    case small
    then obtain b d where b: "b \<in> set bs'" "blk m' b = Some d" "unat b + 32 \<le> unat a"
      "unat a + unat n \<le> unat (d_last d)" and free: "bytes (a, n) \<inter> used m bs = {}"
      by (auto simp: chunk_def bytes_def)
    have le: "unat (d_last d) \<le> unat b + unat sz"
      using pool_invD(9) [OF J b(1)] b(2) by (auto elim: blk_roomE)
    have us: "bytes (a, n) \<subseteq> used m' bs'"
    proof
      fix x assume "x \<in> bytes (a, n)"
      then have "unat b \<le> x" "x < unat (d_last d)" using b(3,4) by (auto simp: bytes_def)
      with b(1,2) show "x \<in> used m' bs'" unfolding used_def by blast
    qed
    have "x \<notin> {unat b'..<unat b' + 32}" if "b' \<in> set bs'" "x \<in> bytes (a, n)" for b' x
    proof (cases "b' = b")
      case True
      with that b(3) show ?thesis by (auto simp: bytes_def)
    next
      case False
      with blocks_apart [OF J that(1) b(1)] pool_invD(2) [OF J] that(2) b(3,4) le
      show ?thesis by (auto simp: bytes_def)
    qed
    then have "\<forall>b'\<in>set bs'. bytes (a, n) \<inter> {unat b'..<unat b' + 32} = {}" by blast
    with us have H: "held L0 m' bs' (a, n)" by (simp add: held_def)
    have "bytes (a, n) \<inter> bytes c = {}" if "held L0 m bs c"
    proof (cases "bytes c \<subseteq> used m bs")
      case True
      with free show ?thesis by blast
    next
      case False
      with that have c: "c \<in> set (live m)" "fst c \<notin> set bs" by (auto simp: held_def)
      then have "c \<in> set (live m')" using alloc_postD(4) [OF P] by blast
      moreover have "fst c \<in> fst ` set (live m)" using c(1) by (rule imageI)
      then have "fst c \<notin> set bs'" using c(2) alloc_postD(5) [OF P] by blast
      ultimately have "bytes c \<inter> used m' bs' = {}" by (rule live_off_used [OF J])
      with us show ?thesis by blast
    qed
    with H show ?thesis by blast
  next
    case large
    have nb: "fst (a, n) \<notin> set bs'" using large(2) pool_invD(14) [OF J] by auto
    note off = live_off_used [OF J large(1) nb]
    have nl: "(a, n) \<notin> set L0" using large(3) pool_invD(15) [OF I] by force
    have "bytes (a, n) \<inter> bytes c = {}" if "held L0 m bs c"
    proof (cases "bytes c \<subseteq> used m bs")
      case True
      with off alloc_postD(2) [OF P] show ?thesis by blast
    next
      case False
      with that have c: "c \<in> set (live m)" by (auto simp: held_def)
      then have "c \<noteq> (a, n)" using large(3) by (metis fst_conv imageI)
      moreover have "c \<in> set (live m')" using c alloc_postD(4) [OF P] by blast
      ultimately have "apart (a, n) c"
        using regions_ok_apart [OF pool_invD(1) [OF J] large(1)] by metis
      then show ?thesis by (auto simp: apart_def bytes_def rlo_def rhi_def)
    qed
    with large(1) nb nl show ?thesis by (auto simp: held_def)
  qed
  then show "held L0 m' bs' (a, n)" "held L0 m bs c \<Longrightarrow> bytes (a, n) \<inter> bytes c = {}" by blast+
qed

text \<open>Everything held lies in live memory of the pool, off the regions of others.\<close>

lemma alloc_client_inv:
  assumes I: "pool_inv L0 m pool sz bs ls" and P: "alloc_post L0 pool sz bs m n a m' bs' ls'"
    and os: "apart_all os" "\<forall>c\<in>set os. held L0 m bs c"
  shows "client_inv L0 pool sz (m', if a = 0 then os else (a, n) # os)"
proof -
  have 1: "\<forall>c\<in>set os. held L0 m' bs' c" using os(2) alloc_held [OF I P] by blast
  have 2: "held L0 m' bs' (a, n) \<and> (\<forall>c\<in>set os. bytes (a, n) \<inter> bytes c = {})" if "a \<noteq> 0"
    using alloc_new [OF I P that] os(2) by blast
  have "apart_all (if a = 0 then os else (a, n) # os)" using os(1) 2 by simp
  moreover have "\<forall>c\<in>set (if a = 0 then os else (a, n) # os). held L0 m' bs' c" using 1 2 by simp
  ultimately show ?thesis unfolding client_inv_def using alloc_postD(1) [OF P] by (metis fst_conv snd_conv)
qed

lemma pfree_held:
  assumes c: "held L0 m bs c" "fst c \<noteq> p"
    and l: "live m' = filter (\<lambda>r. fst r \<noteq> p) (live m)" and B: "\<forall>b\<in>set bs. blk m' b = blk m b"
  shows "held L0 m' bs c"
proof -
  have "used m' bs = used m bs" by (rule used_cong) (use B in blast)
  with c l show ?thesis by (auto simp: held_def)
qed

context allocator
begin

lemma pool_step_ok:
  assumes C: "client_inv L0 pool sz s" and s8: "8 dvd unat sz"
  shows "\<exists>s'. pool_step pick pool x s = Some s' \<and> client_inv L0 pool sz s'"
proof -
  obtain m os where s: "s = (m, os)" by (cases s)
  obtain bs ls where I: "pool_inv L0 m pool sz bs ls" and os: "apart_all os" "\<forall>c\<in>set os. held L0 m bs c"
    using C by (auto simp: client_inv_def s)
  show ?thesis
  proof (cases x)
    case (Palloc n)
    obtain a m' bs' ls' where r: "ngx_palloc pick pool n m = Some (a, m')"
      "alloc_post L0 pool sz bs m n a m' bs' ls'" using palloc_ok [OF I s8] by blast
    then show ?thesis using alloc_client_inv [OF I r(2) os] by (simp add: s Palloc got_def)
  next
    case (Pnalloc n)
    obtain a m' bs' ls' where r: "ngx_pnalloc pick pool n m = Some (a, m')"
      "alloc_post L0 pool sz bs m n a m' bs' ls'" using pnalloc_ok [OF I s8] by blast
    then show ?thesis using alloc_client_inv [OF I r(2) os] by (simp add: s Pnalloc got_def)
  next
    case (Pcalloc n)
    obtain a m' bs' ls' where r: "ngx_pcalloc pick pool n m = Some (a, m')"
      "alloc_post L0 pool sz bs m n a m' bs' ls'" using pcalloc_ok [OF I s8] by blast
    then show ?thesis using alloc_client_inv [OF I r(2) os] by (simp add: s Pcalloc got_def)
  next
    case (Pmemalign n al)
    obtain a m' bs' ls' where r: "ngx_pmemalign pick pool n al m = Some (a, m')"
      "alloc_post L0 pool sz bs m n a m' bs' ls'" using pmemalign_ok [OF I s8] by blast
    then show ?thesis using alloc_client_inv [OF I r(2) os] by (simp add: s Pmemalign got_def)
  next
    case (Pfree p)
    obtain r m' where r: "ngx_pfree pool p m = Some (r, m')" "pool_inv L0 m' pool sz bs ls"
      "r = NGX_OK \<and> live m' = filter (\<lambda>r. fst r \<noteq> p) (live m) \<and> (\<forall>b\<in>set bs. blk m' b = blk m b)
       \<or> r = NGX_DECLINED \<and> m' = m"
      using pfree_ok [OF I] by metis
    let ?os = "if r = NGX_OK then filter (\<lambda>c. fst c \<noteq> p) os else os"
    have "\<forall>c\<in>set ?os. held L0 m' bs c"
      using r(3) os(2) pfree_held [of L0 m bs _ p m'] by (auto simp: NGX_OK_def NGX_DECLINED_def)
    moreover have "apart_all ?os" using os(1) apart_all_filter by simp
    ultimately have "client_inv L0 pool sz (m', ?os)" using r(2) by (auto simp: client_inv_def)
    then show ?thesis using r(1) by (simp add: s Pfree)
  next
    case Preset
    obtain m' where r: "ngx_reset_pool pool m = Some m'" "pool_inv L0 m' pool sz bs []"
      using reset_pool_ok [OF I] by blast
    then have "client_inv L0 pool sz (m', [])" by (auto simp: client_inv_def)
    then show ?thesis using r(1) by (simp add: s Preset)
  qed
qed

lemma pool_run_ok:
  assumes "client_inv L0 pool sz s" and "8 dvd unat sz"
  shows "\<exists>s'. pool_run pick pool xs s = Some s' \<and> client_inv L0 pool sz s'"
  using assms(1)
proof (induction xs arbitrary: s)
  case (Cons x xs)
  obtain s1 where "pool_step pick pool x s = Some s1" "client_inv L0 pool sz s1"
    using pool_step_ok [OF Cons.prems assms(2)] by blast
  with Cons.IH [of s1] show ?case by simp
qed simp

lemma created:
  assumes "regions_ok (live m)" "56 \<le> unat sz" "ngx_create_pool pick pg sz m = Some (p, m0)" "p \<noteq> 0"
  shows "client_inv (live m) p sz (m0, [])"
  using create_pool_ok [OF assms(1,2), of pg] assms(3,4) by (auto simp: client_inv_def)

lemma run_inv:
  assumes "regions_ok (live m)" "56 \<le> unat sz" "8 dvd unat sz"
    "ngx_create_pool pick pg sz m = Some (p, m0)" "p \<noteq> 0" "pool_run pick p xs (m0, []) = Some s"
  shows "client_inv (live m) p sz s"
  using pool_run_ok [OF created [OF assms(1,2,4,5)] assms(3), of xs] assms(6) by simp

end

lemma pool_region_off: "pool_inv L0 m pool sz bs ls \<Longrightarrow> b \<in> set bs \<Longrightarrow> (b, sz) \<notin> set L0"
  using pool_invD(15) by fastforce

lemma held_owned:
  assumes I: "pool_inv L0 m pool sz bs ls" and h: "held L0 m bs c" and x: "x \<in> bytes c"
  shows "\<exists>r\<in>set (live m). r \<notin> set L0 \<and> rlo r \<le> x \<and> x < rhi r"
proof (cases "bytes c \<subseteq> used m bs")
  case True
  obtain b d where b: "b \<in> set bs" "blk m b = Some d" "unat b \<le> x" "x < unat (d_last d)"
    "x < unat b + unat sz"
    by (rule used_block [OF I subsetD [OF True x]])
  then have "rlo (b, sz) \<le> x \<and> x < rhi (b, sz)" by (auto simp: rlo_def rhi_def)
  with pool_invD(8) [OF I b(1)] pool_region_off [OF I b(1)] show ?thesis by blast
next
  case False
  with h have "c \<in> set (live m)" "c \<notin> set L0" by (auto simp: held_def)
  moreover have "rlo c \<le> x \<and> x < rhi c" using x by (auto simp: bytes_def rlo_def rhi_def)
  ultimately show ?thesis by blast
qed

end
