(* ===== verification/Mem_Pool_Thms.thy ===== *)
theory Mem_Pool_Thms
  imports Mem_Pool_Props
begin

text \<open>
  The program of \<open>mem_pool/main.c\<close>, and the properties of the pool: for every allocator that
  meets the contract, every client and every sequence of calls.
\<close>

section \<open>main.c\<close>

definition BLOCK_SIZE :: u64 where "BLOCK_SIZE = 16"
definition MEM_POOL_SIZE :: u64 where "MEM_POOL_SIZE = 1024 * 4"

fun palloc_times :: "malloc \<Rightarrow> u64 \<Rightarrow> nat \<Rightarrow> mem \<Rightarrow> mem option" where
  "palloc_times pick pool 0 m = Some m"
| "palloc_times pick pool (Suc i) m =
     do { (ptr, m1) \<leftarrow> ngx_palloc pick pool BLOCK_SIZE m; palloc_times pick pool i m1 }"

fun main_pool :: "malloc \<Rightarrow> u64 \<Rightarrow> nat \<Rightarrow> mem \<Rightarrow> mem option" where
  "main_pool pick ngx_pagesize 0 m = Some m"
| "main_pool pick ngx_pagesize (Suc k) m = do {
     (mem_pool, m0) \<leftarrow> ngx_create_pool pick ngx_pagesize MEM_POOL_SIZE m;
     m1 \<leftarrow> palloc_times pick mem_pool 1024 m0;
     m2 \<leftarrow> ngx_destroy_pool mem_pool m1;
     main_pool pick ngx_pagesize k m2
   }"

fun malloc_times :: "malloc \<Rightarrow> nat \<Rightarrow> mem \<Rightarrow> u64 list \<times> mem" where
  "malloc_times pick 0 m = ([], m)"
| "malloc_times pick (Suc i) m =
     (let (p, m1) = ngx_alloc pick BLOCK_SIZE m; (ps, m2) = malloc_times pick i m1 in (p # ps, m2))"

fun free_each :: "u64 list \<Rightarrow> mem \<Rightarrow> mem option" where
  "free_each [] m = Some m"
| "free_each (p # ps) m = do { m1 \<leftarrow> (if p \<noteq> 0 then ngx_free p m else Some m); free_each ps m1 }"

fun main_malloc :: "malloc \<Rightarrow> nat \<Rightarrow> mem \<Rightarrow> mem option" where
  "main_malloc pick 0 m = Some m"
| "main_malloc pick (Suc k) m =
     (let (ptr, m1) = malloc_times pick 1024 m
      in do { m2 \<leftarrow> free_each ptr m1; main_malloc pick k m2 })"

context allocator
begin

lemma palloc_times_run:
  "palloc_times pick pool i m = map_option fst (pool_run pick pool (replicate i (Palloc BLOCK_SIZE)) (m, os))"
proof (induction i arbitrary: m os)
  case (Suc i)
  show ?case
  proof (cases "ngx_palloc pick pool BLOCK_SIZE m")
    case (Some r)
    then show ?thesis
      using Suc.IH [of "snd r" "if fst r = 0 then os else (fst r, BLOCK_SIZE) # os"]
      by (cases r) (simp add: got_def)
  qed (simp add: got_def)
qed simp

lemma main_round_ok:
  assumes "regions_ok (live m)" "pick (live m) MEM_POOL_SIZE \<noteq> 0"
  obtains p m0 m1 m2 where "ngx_create_pool pick pg MEM_POOL_SIZE m = Some (p, m0)"
    "palloc_times pick p i m0 = Some m1" "ngx_destroy_pool p m1 = Some m2" "live m2 = live m"
proof -
  have sz: "56 \<le> unat MEM_POOL_SIZE" "8 dvd unat MEM_POOL_SIZE" "\<not> MEM_POOL_SIZE < SIZEOF_POOL"
    by (simp_all add: MEM_POOL_SIZE_def SIZEOF_POOL_def)
  obtain p m0 where c: "ngx_create_pool pick pg MEM_POOL_SIZE m = Some (p, m0)" "p \<noteq> 0"
    using assms(2) sz(3)
    by (auto simp: ngx_create_pool_def ngx_memalign_def ngx_alloc_def Let_def)
  obtain s where s: "pool_run pick p (replicate i (Palloc BLOCK_SIZE)) (m0, []) = Some s"
    "client_inv (live m) p MEM_POOL_SIZE s"
    using pool_run_ok [OF created [OF assms(1) sz(1) c] sz(2)] by blast
  then obtain bs ls where "pool_inv (live m) (fst s) p MEM_POOL_SIZE bs ls"
    by (auto simp: client_inv_def)
  then obtain m2 where "ngx_destroy_pool p (fst s) = Some m2" "live m2 = live m"
    using destroy_pool_ok by blast
  moreover have "palloc_times pick p i m0 = Some (fst s)"
    using s(1) by (simp add: palloc_times_run [of _ _ _ "[]"])
  ultimately show ?thesis using that c(1) by blast
qed

lemma main_pool_ok:
  "regions_ok (live m) \<Longrightarrow> pick (live m) MEM_POOL_SIZE \<noteq> 0 \<Longrightarrow>
     \<exists>m'. main_pool pick pg k m = Some m' \<and> live m' = live m"
proof (induction k arbitrary: m)
  case (Suc k)
  obtain p m0 m1 m2 where r: "ngx_create_pool pick pg MEM_POOL_SIZE m = Some (p, m0)"
    "palloc_times pick p 1024 m0 = Some m1" "ngx_destroy_pool p m1 = Some m2" "live m2 = live m"
    by (rule main_round_ok [OF Suc.prems])
  with Suc.IH [of m2] Suc.prems show ?case by simp
qed simp

lemma malloc_times_ok:
  "regions_ok (live m) \<Longrightarrow> malloc_times pick i m = (ps, m') \<Longrightarrow>
     regions_ok (live m') \<and> distinct (filter (\<lambda>p. p \<noteq> 0) ps)
   \<and> (\<exists>new. live m' = new @ live m \<and> fst ` set new = set ps - {0})"
proof (induction i arbitrary: m ps)
  case (Suc i)
  let ?p = "pick (live m) BLOCK_SIZE"
  let ?m1 = "if ?p = 0 then m else m\<lparr>live := (?p, BLOCK_SIZE) # live m\<rparr>"
  obtain qs where q: "malloc_times pick i ?m1 = (qs, m')" "ps = ?p # qs"
    using Suc.prems(2) by (auto simp: ngx_alloc_def Let_def split: prod.splits if_splits)
  have ok1: "regions_ok (live ?m1)" using pick_ok [OF Suc.prems(1)] Suc.prems(1) by simp
  obtain new where n: "regions_ok (live m')" "distinct (filter (\<lambda>p. p \<noteq> 0) qs)"
    "live m' = new @ live ?m1" "fst ` set new = set qs - {0}"
    using Suc.IH [OF ok1 q(1)] by blast
  show ?case
  proof (cases "?p = 0")
    case True
    with n q(2) show ?thesis by auto
  next
    case False
    have "distinct (map fst (live m'))" by (rule regions_ok_distinct [OF n(1)])
    then have "?p \<notin> set qs" using n(3,4) False by auto
    then have "distinct (filter (\<lambda>p. p \<noteq> 0) ps)" using n(2) q(2) by simp
    moreover have "fst ` set (new @ [(?p, BLOCK_SIZE)]) = set ps - {0}"
      using n(4) q(2) False by auto
    moreover have "live m' = (new @ [(?p, BLOCK_SIZE)]) @ live m" using n(3) False by simp
    ultimately show ?thesis using n(1) by blast
  qed
qed auto

end

lemma free_each_ok:
  "regions_ok (live m) \<Longrightarrow> distinct (filter (\<lambda>p. p \<noteq> 0) ps) \<Longrightarrow> set ps - {0} \<subseteq> fst ` set (live m) \<Longrightarrow>
     \<exists>m'. free_each ps m = Some m' \<and> live m' = filter (\<lambda>r. fst r \<notin> set ps - {0}) (live m)"
proof (induction ps arbitrary: m)
  case (Cons p ps)
  show ?case
  proof (cases "p = 0")
    case True
    with Cons show ?thesis by simp
  next
    case False
    with Cons.prems(3) obtain n where "(p, n) \<in> set (live m)" by force
    then obtain m1 where m1: "ngx_free p m = Some m1" "live m1 = filter (\<lambda>r. fst r \<noteq> p) (live m)"
      using ngx_free_ok [OF Cons.prems(1)] by blast
    have "p \<notin> set ps" using Cons.prems(2) False by auto
    then have "set ps - {0} \<subseteq> fst ` set (live m1)" using Cons.prems(3) unfolding m1(2) by force
    moreover have "distinct (filter (\<lambda>p. p \<noteq> 0) ps)" using Cons.prems(2) False by simp
    ultimately obtain m' where "free_each ps m1 = Some m'"
      "live m' = filter (\<lambda>r. fst r \<notin> set ps - {0}) (live m1)"
      using Cons.IH [of m1] regions_ok_filter [OF Cons.prems(1)] m1(2) by auto
    with m1 False show ?thesis by (auto intro!: filter_cong)
  qed
qed simp

context allocator
begin

lemma main_malloc_ok:
  "regions_ok (live m) \<Longrightarrow> \<exists>m'. main_malloc pick k m = Some m' \<and> live m' = live m"
proof (induction k arbitrary: m)
  case (Suc k)
  obtain ps m1 where r: "malloc_times pick 1024 m = (ps, m1)" by (cases "malloc_times pick 1024 m")
  obtain new where n: "regions_ok (live m1)" "distinct (filter (\<lambda>p. p \<noteq> 0) ps)"
    "live m1 = new @ live m" "fst ` set new = set ps - {0}"
    using malloc_times_ok [OF Suc.prems r] by blast
  obtain m2 where m2: "free_each ps m1 = Some m2"
    "live m2 = filter (\<lambda>r. fst r \<notin> set ps - {0}) (live m1)"
    using free_each_ok [OF n(1,2)] n(3,4) by auto
  have d: "distinct (map fst (new @ live m))" using regions_ok_distinct [OF n(1)] n(3) by simp
  have "filter (\<lambda>r. fst r \<notin> set ps - {0}) new = []" using n(4) by (auto simp: filter_empty_conv)
  moreover have "filter (\<lambda>r. fst r \<notin> set ps - {0}) (live m) = live m"
    using d unfolding n(4) [symmetric] by (auto simp: filter_id_conv)
  ultimately have "live m2 = live m" using m2(2) n(3) by simp
  with Suc.IH [of m2] Suc.prems r m2(1) show ?case by simp
qed simp

end

lemma pfree_loop_declines:
  "lchain (lrg m) l ks \<Longrightarrow> p \<noteq> 0 \<Longrightarrow> p \<notin> set (allocs (lrg m) ks) \<Longrightarrow>
     pfree_loop l p m = Some (NGX_DECLINED, m)"
proof (induction ks arbitrary: l)
  case Nil
  then show ?case by (subst pfree_loop.simps) simp
next
  case (Cons k ks)
  then obtain x where x: "l = k" "l \<noteq> 0" "lrg m l = Some x" "lchain (lrg m) (l_next x) ks" by auto
  have "p \<noteq> l_alloc x" "p \<notin> set (allocs (lrg m) ks)"
    using Cons.prems(2,3) x(1,3) by (auto simp: allocs_def split: if_splits)
  with Cons.IH [OF x(4) Cons.prems(2)] x(2,3) show ?case by (subst pfree_loop.simps) simp
qed

lemma pfree_gone:
  assumes I: "pool_inv L0 m pool sz bs ls" and p: "p \<noteq> 0" "p \<notin> fst ` set (live m)"
  shows "ngx_pfree pool p m = Some (NGX_DECLINED, m)"
proof -
  obtain h where h: "hdr m pool = Some h" "lchain (lrg m) (p_large h) ls"
    using pool_inv_hdrE [OF I] by metis
  have "p \<notin> set (allocs (lrg m) ls)" using p(2) pool_invD(13) [OF I] by blast
  from pfree_loop_declines [OF h(2) p(1) this] h(1) show ?thesis by (simp add: ngx_pfree_def)
qed

lemma reset_first_block:
  assumes I: "pool_inv L0 m pool sz bs []" and u: "used m bs = (\<Union>b\<in>set bs. {unat b..<unat b + 56})"
  obtains d where "blk m pool = Some d" "d_last d = pool + 56" "d_end d = pool + sz" "8 dvd unat pool"
    "unat pool + unat sz < 2 ^ 64"
proof -
  obtain d where d: "blk m pool = Some d" "unat pool + unat sz < 2 ^ 64" "8 dvd unat pool"
    "d_end d = pool + sz" "unat pool + 56 \<le> unat (d_last d)" "unat (d_last d) \<le> unat pool + unat sz"
    by (rule blk_roomE [OF pool_invD(9) [OF I pool_invD(5) [OF I]]]) (use that in auto)
  have "\<not> unat pool + 56 < unat (d_last d)"
  proof
    assume less: "unat pool + 56 < unat (d_last d)"
    then have "unat pool + 56 \<in> used m bs"
      using d(1) pool_invD(5) [OF I] unfolding used_def by fastforce
    then obtain b where b: "b \<in> set bs" "unat b \<le> unat pool + 56" "unat pool + 56 < unat b + 56"
      using u by auto
    then have "b \<noteq> pool" by auto
    from blocks_apart [OF I b(1) pool_invD(5) [OF I] this] b less d(6) pool_invD(2) [OF I]
    show False by linarith
  qed
  then have "unat (d_last d) = unat (pool + 56)"
    using d(2,5,6) unat_add_u64 [of pool 56] by simp
  then have "d_last d = pool + 56" by (rule unsigned_word_eqI)
  with d that show ?thesis by blast
qed

lemma palloc_first_block:
  assumes h: "hdr m pool = Some h" "p_current h = pool" "pool \<noteq> 0" and n: "n \<le> p_max h"
    and d: "blk m pool = Some d" "d_last d = pool + 56" "d_end d = pool + sz" "8 dvd unat pool"
      "unat pool + unat sz < 2 ^ 64" and mx: "unat (p_max h) + 56 \<le> unat sz"
  shows "\<exists>m'. ngx_palloc pick pool n m = Some (pool + 56, m') \<and> live m' = live m"
proof -
  have u: "unat (pool + 56) = unat pool + 56" "unat (pool + sz) = unat pool + unat sz"
    using unat_add_u64 [of pool 56] unat_add_u64 [of pool sz] d(5) mx by simp_all
  obtain k where "unat pool = 8 * k" using d(4) by (auto elim: dvdE)
  then have "unat pool + 63 < 2 ^ 64" using d(5) mx by simp presburger
  then have "ngx_align_ptr (pool + 56) NGX_ALIGNMENT = pool + 56"
    by (intro align_id) (use u(1) d(4) in simp_all)
  moreover have "n \<le> (pool + sz) - (pool + 56)"
    using unat_sub_u64 [of "pool + 56" "pool + sz"] u mx n by (simp add: word_le_nat_alt)
  ultimately have "palloc_scan (blk m) n True pool = Some (pool, pool + 56)"
    using d by (subst palloc_scan.simps) (simp add: Let_def)
  then show ?thesis using h n d(1) by (simp add: ngx_palloc_def ngx_palloc_small_def)
qed

section \<open>Properties\<close>

text \<open>C1: whatever sequence of allocations, frees and resets a client performs on a pool it has
  created, no call leaves defined behaviour, and \<open>ngx_destroy_pool\<close> afterwards returns
  exactly the memory the pool took: the live regions are those from before the creation.\<close>

theorem pool_lifetime:
  assumes "allocator pick" "regions_ok (live m)" "56 \<le> unat sz" "8 dvd unat sz"
    "ngx_create_pool pick pg sz m = Some (p, m0)" "p \<noteq> 0"
  shows "\<exists>m1 os m2. pool_run pick p xs (m0, []) = Some (m1, os)
    \<and> ngx_destroy_pool p m1 = Some m2 \<and> live m2 = live m"
proof -
  note allocator.pool_run_ok [OF assms(1) allocator.created [OF assms(1,2,3,5,6)] assms(4), of xs]
  then obtain s where s: "pool_run pick p xs (m0, []) = Some s" "client_inv (live m) p sz s" by blast
  then obtain bs ls where "pool_inv (live m) (fst s) p sz bs ls" by (auto simp: client_inv_def)
  with destroy_pool_ok s(1) show ?thesis by (cases s) fastforce
qed


definition empty_mem :: mem where
  "empty_mem = \<lparr>live = [], blk = Map.empty, hdr = Map.empty, lrg = Map.empty, zeroed = []\<rparr>"

definition first_pool :: mem where
  "first_pool = \<lparr>live = [(4096, 4096)],
     blk = [4096 \<mapsto> \<lparr>d_last = 4152, d_end = 8192, d_next = 0, d_failed = 0\<rparr>],
     hdr = [4096 \<mapsto> \<lparr>p_max = 4040, p_current = 4096, p_large = 0\<rparr>],
     lrg = Map.empty, zeroed = []\<rparr>"

lemma first_pool_created: "ngx_create_pool bump_pick 4096 4096 empty_mem = Some (4096, first_pool)"
  by (simp add: ngx_create_pool_def ngx_memalign_def ngx_alloc_def empty_mem_def bump_pick_def
      bump_top_def first_pool_def SIZEOF_POOL_def NGX_MAX_ALLOC_FROM_POOL_def)

lemma empty_mem_ok: "regions_ok (live empty_mem)"
  by (simp add: empty_mem_def)

theorem pool_lifetime_witness:
  "\<exists>m1 os m2. pool_run bump_pick 4096 [Palloc 16, Pnalloc 5000, Pfree 8192, Preset, Pcalloc 8] (first_pool, [])
      = Some (m1, os) \<and> ngx_destroy_pool 4096 m1 = Some m2 \<and> live m2 = live empty_mem"
  by (rule pool_lifetime [OF bump.allocator_axioms empty_mem_ok _ _ first_pool_created]) simp_all

text \<open>C2: at every moment of a client's run the chunks it holds do not overlap each other, and
  every byte of them lies in a live region that the pool owns.\<close>

theorem pool_chunks_apart:
  assumes "allocator pick" "regions_ok (live m)" "56 \<le> unat sz" "8 dvd unat sz"
    "ngx_create_pool pick pg sz m = Some (p, m0)" "p \<noteq> 0"
    "pool_run pick p xs (m0, []) = Some (m1, os)"
  shows "apart_all os \<and> (\<forall>c\<in>set os. \<forall>x\<in>bytes c.
    \<exists>r\<in>set (live m1). r \<notin> set (live m) \<and> rlo r \<le> x \<and> x < rhi r)"
proof -
  from allocator.run_inv [OF assms] obtain bs ls where
    I: "pool_inv (live m) m1 p sz bs ls" "apart_all os" "\<forall>c\<in>set os. held (live m) m1 bs c"
    by (auto simp: client_inv_def)
  with held_owned [OF I(1)] show ?thesis by blast
qed

lemma first_run:
  "pool_run bump_pick 4096 [Palloc 16, Pnalloc 3, Palloc 16] (first_pool, []) = Some
     (first_pool\<lparr>blk := [4096 \<mapsto> \<lparr>d_last = 4192, d_end = 8192, d_next = 0, d_failed = 0\<rparr>]\<rparr>,
      [(4176, 16), (4168, 3), (4152, 16)])"
  by (simp add: first_pool_def ngx_palloc_def ngx_pnalloc_def ngx_palloc_small_def palloc_scan.simps
      got_def ngx_align_ptr_def NGX_ALIGNMENT_def Let_def)

theorem pool_chunks_apart_witness:
  "apart_all [(4176, 16), (4168, 3), (4152, 16)]"
  using pool_chunks_apart [OF bump.allocator_axioms empty_mem_ok _ _ first_pool_created _ first_run]
  by simp

text \<open>C13: in every reachable state \<open>ngx_palloc\<close> returns NULL or an address aligned to 8,
  and \<open>ngx_pcalloc\<close> moreover zeroes what it returns.\<close>

theorem palloc_aligned:
  assumes "allocator pick" "regions_ok (live m)" "56 \<le> unat sz" "8 dvd unat sz"
    "ngx_create_pool pick pg sz m = Some (p, m0)" "p \<noteq> 0"
    "pool_run pick p xs (m0, []) = Some (m1, os)"
  shows "(\<exists>a m2. ngx_palloc pick p n m1 = Some (a, m2) \<and> 8 dvd unat a)
    \<and> (\<exists>a m2. ngx_pcalloc pick p n m1 = Some (a, m2) \<and> (a \<noteq> 0 \<longrightarrow> (a, n) \<in> set (zeroed m2)))"
proof -
  from allocator.run_inv [OF assms] obtain bs ls where I: "pool_inv (live m) m1 p sz bs ls"
    by (auto simp: client_inv_def)
  obtain a m2 where "ngx_palloc pick p n m1 = Some (a, m2)" "a \<noteq> 0 \<longrightarrow> 8 dvd unat a"
    using allocator.palloc_ok [OF assms(1) I assms(4)] by blast
  moreover from this(2) have "8 dvd unat a" by (cases "a = 0") simp_all
  moreover obtain a' m3 where "ngx_pcalloc pick p n m1 = Some (a', m3)"
    "a' \<noteq> 0 \<longrightarrow> (a', n) \<in> set (zeroed m3)"
    using allocator.pcalloc_ok [OF assms(1) I assms(4)] by blast
  ultimately show ?thesis by blast
qed

theorem palloc_aligned_witness:
  "\<exists>a m2. ngx_palloc bump_pick 4096 100 (fst (the (pool_run bump_pick 4096
     [Palloc 16, Pnalloc 3, Palloc 16] (first_pool, [])))) = Some (a, m2) \<and> 8 dvd unat a"
  unfolding first_run option.sel fst_conv
  using palloc_aligned [OF bump.allocator_axioms empty_mem_ok _ _ first_pool_created _ first_run, of 100]
  by auto


text \<open>\<open>ngx_pfree\<close> of a non-null pointer either declines and changes nothing, or frees exactly the region that
  starts at the pointer; after it has succeeded once, a second call on the same pointer
  declines, so no region is freed twice.\<close>

theorem pfree_once:
  assumes "allocator pick" "regions_ok (live m)" "56 \<le> unat sz" "8 dvd unat sz"
    "ngx_create_pool pick pg sz m = Some (p, m0)" "p \<noteq> 0"
    "pool_run pick p xs (m0, []) = Some (m1, os)" "q \<noteq> 0"
  shows "ngx_pfree p q m1 = Some (NGX_DECLINED, m1)
    \<or> (\<exists>m2. ngx_pfree p q m1 = Some (NGX_OK, m2) \<and> live m2 = filter (\<lambda>r. fst r \<noteq> q) (live m1)
        \<and> ngx_pfree p q m2 = Some (NGX_DECLINED, m2))"
proof -
  from allocator.run_inv [OF assms(1-7)] obtain bs ls where I: "pool_inv (live m) m1 p sz bs ls"
    by (auto simp: client_inv_def)
  obtain r m2 where r: "ngx_pfree p q m1 = Some (r, m2)" "pool_inv (live m) m2 p sz bs ls"
    "r = NGX_OK \<and> live m2 = filter (\<lambda>r. fst r \<noteq> q) (live m1) \<or> r = NGX_DECLINED \<and> m2 = m1"
    using pfree_ok [OF I, of q] by metis
  show ?thesis
  proof (cases "r = NGX_OK")
    case True
    then have "live m2 = filter (\<lambda>r. fst r \<noteq> q) (live m1)"
      using r(3) by (simp add: NGX_OK_def NGX_DECLINED_def)
    moreover from this have "q \<notin> fst ` set (live m2)" by auto
    ultimately show ?thesis using True r(1) pfree_gone [OF r(2) assms(8)] by blast
  next
    case False
    with r show ?thesis by auto
  qed
qed

lemma first_large:
  "pool_run bump_pick 4096 [Palloc 5000] (first_pool, []) = Some
     (first_pool\<lparr>live := [(8192, 5000), (4096, 4096)],
        blk := [4096 \<mapsto> \<lparr>d_last = 4168, d_end = 8192, d_next = 0, d_failed = 0\<rparr>],
        hdr := [4096 \<mapsto> \<lparr>p_max = 4040, p_current = 4096, p_large = 4152\<rparr>],
        lrg := [4152 \<mapsto> \<lparr>l_next = 0, l_alloc = 8192\<rparr>]\<rparr>, [(8192, 5000)])"
  by (simp add: first_pool_def ngx_palloc_def ngx_palloc_large_def large_push_def ngx_alloc_def
      large_scan.simps ngx_palloc_small_def palloc_scan.simps bump_pick_def bump_top_def rhi_def
      got_def ngx_align_ptr_def NGX_ALIGNMENT_def SIZEOF_LARGE_def Let_def)

theorem pfree_once_witness:
  "\<exists>m2. ngx_pfree 4096 8192 (fst (the (pool_run bump_pick 4096 [Palloc 5000] (first_pool, []))))
      = Some (NGX_OK, m2) \<and> live m2 = [(4096, 4096)] \<and> ngx_pfree 4096 8192 m2 = Some (NGX_DECLINED, m2)"
proof -
  have "ngx_pfree 4096 8192 (fst (the (pool_run bump_pick 4096 [Palloc 5000] (first_pool, []))))
      \<noteq> Some (NGX_DECLINED, fst (the (pool_run bump_pick 4096 [Palloc 5000] (first_pool, []))))"
    unfolding first_large option.sel fst_conv
    by (simp add: first_pool_def ngx_pfree_def pfree_loop.simps ngx_free_def NGX_OK_def NGX_DECLINED_def)
  then show ?thesis
    using pfree_once [OF bump.allocator_axioms empty_mem_ok _ _ first_pool_created _ first_large, of 8192]
    unfolding first_large option.sel fst_conv by (simp add: first_pool_def)
qed


text \<open>\<open>ngx_reset_pool\<close> gives back every large allocation and keeps only whole blocks of
  the pool; the memory of the first block can then be handed out again from its start,
  without a call of the underlying allocator.\<close>

theorem reset_reuses:
  assumes "allocator pick" "regions_ok (live m)" "56 \<le> unat sz" "8 dvd unat sz"
    "ngx_create_pool pick pg sz m = Some (p, m0)" "p \<noteq> 0"
    "pool_run pick p xs (m0, []) = Some (m1, os)"
  shows "\<exists>m2 h. ngx_reset_pool p m1 = Some m2 \<and> hdr m2 p = Some h
    \<and> (\<forall>r\<in>set (live m2). r \<in> set (live m) \<or> snd r = sz)
    \<and> (\<forall>n\<le>p_max h. \<exists>m3. ngx_palloc pick p n m2 = Some (p + 56, m3) \<and> live m3 = live m2)"
proof -
  from allocator.run_inv [OF assms] obtain bs ls where I: "pool_inv (live m) m1 p sz bs ls"
    by (auto simp: client_inv_def)
  obtain m2 where m2: "ngx_reset_pool p m1 = Some m2" "pool_inv (live m) m2 p sz bs []"
    "used m2 bs = (\<Union>b\<in>set bs. {unat b..<unat b + 56})"
    using reset_pool_ok [OF I] by blast
  obtain h where h: "hdr m2 p = Some h" "unat (p_max h) + 56 \<le> unat sz" using pool_inv_hdrE [OF m2(2)] by metis
  have cur: "p_current h = p" using m2(1) h(1) by (auto simp: ngx_reset_pool_def bind_eq_Some_conv)
  obtain d where d: "blk m2 p = Some d" "d_last d = p + 56" "d_end d = p + sz" "8 dvd unat p"
    "unat p + unat sz < 2 ^ 64"
    by (rule reset_first_block [OF m2(2,3)])
  have "r \<in> set (live m) \<or> snd r = sz" if "r \<in> set (live m2)" for r
  proof (cases "fst r \<in> set bs")
    case True
    from regions_ok_inj [OF pool_invD(1) [OF m2(2)] that pool_invD(8) [OF m2(2) True]]
    show ?thesis by (metis fst_conv snd_conv)
  next
    case False
    with that show ?thesis unfolding pool_invD(15) [OF m2(2), symmetric] by (simp add: allocs_def)
  qed
  moreover have "\<exists>m3. ngx_palloc pick p n m2 = Some (p + 56, m3) \<and> live m3 = live m2" if "n \<le> p_max h" for n
    by (rule palloc_first_block [OF h(1) cur assms(6) that d h(2)])
  ultimately show ?thesis using m2(1) h(1) by blast
qed

theorem reset_reuses_witness:
  "\<exists>m2 m3. ngx_reset_pool 4096 (fst (the (pool_run bump_pick 4096 [Palloc 5000] (first_pool, [])))) = Some m2
     \<and> ngx_palloc bump_pick 4096 0 m2 = Some (4152, m3) \<and> live m3 = live m2"
  unfolding first_large option.sel fst_conv
  using reset_reuses [OF bump.allocator_axioms empty_mem_ok _ _ first_pool_created _ first_large]
  by fastforce

text \<open>the program of \<open>main.c\<close>, with or without the pool and for any number of rounds,
  completes without undefined behaviour and gives all memory back, provided the allocator
  can serve the first pool.\<close>

theorem main_returns_memory:
  assumes "allocator pick" "regions_ok (live m)" "pick (live m) MEM_POOL_SIZE \<noteq> 0"
  shows "(\<exists>m'. main_pool pick pg k m = Some m' \<and> live m' = live m)
    \<and> (\<exists>m'. main_malloc pick k m = Some m' \<and> live m' = live m)"
  using allocator.main_pool_ok [OF assms] allocator.main_malloc_ok [OF assms(1,2)] by blast

theorem main_returns_memory_witness:
  "\<exists>m'. main_pool bump_pick 4096 512000 empty_mem = Some m' \<and> live m' = []"
  using main_returns_memory [OF bump.allocator_axioms empty_mem_ok, of 4096 512000]
  by (simp add: empty_mem_def bump_pick_def bump_top_def MEM_POOL_SIZE_def)


end
