(* ===== verification/Thread_Queue.thy ===== *)
theory Thread_Queue
  imports OS_Prelude
begin

text \<open>
  The task queue of \<open>threadpool/\<close> and the wrappers around the pthread calls. The queue is the
  linked list of \<open>thread_pool_queue_t\<close>: \<open>first\<close> points to a task, and \<open>last\<close> is a pointer to
  the link that the next task is stored through, which is either \<open>first\<close> itself or the
  \<open>next\<close> field of a task. The interface \<open>fifo\<close> says what the pool relies on; the linked
  list is shown to provide it.
\<close>

section \<open>thread\_mutex.c, thread\_cond.c\<close>

definition OK :: int where "OK = 0"
definition ERROR :: int where "ERROR = -1"

text \<open>Each wrapper turns the error number of one pthread call into \<open>OK\<close> or \<open>ERROR\<close>.\<close>

definition pthread_rc :: "int \<Rightarrow> int" where
  "pthread_rc err = (if err = 0 then OK else ERROR)"

definition thread_mutex_lock :: "int \<Rightarrow> int" where "thread_mutex_lock err = pthread_rc err"
definition thread_mutex_unlock :: "int \<Rightarrow> int" where "thread_mutex_unlock err = pthread_rc err"
definition thread_mutex_destroy :: "int \<Rightarrow> int" where "thread_mutex_destroy err = pthread_rc err"
definition thread_cond_create :: "int \<Rightarrow> int" where "thread_cond_create err = pthread_rc err"
definition thread_cond_destroy :: "int \<Rightarrow> int" where "thread_cond_destroy err = pthread_rc err"
definition thread_cond_signal :: "int \<Rightarrow> int" where "thread_cond_signal err = pthread_rc err"
definition thread_cond_wait :: "int \<Rightarrow> int" where "thread_cond_wait err = pthread_rc err"

text \<open>
  \<open>thread_mutex_create\<close> makes four calls; a failure of the last one is only reported. The
  second component says whether the attribute object is left undestroyed.
\<close>

definition thread_mutex_create :: "int \<Rightarrow> int \<Rightarrow> int \<Rightarrow> int \<Rightarrow> int \<times> bool" where
  "thread_mutex_create attr_init settype mutex_init attr_destroy =
     (if attr_init \<noteq> 0 then (ERROR, False)
      else if settype \<noteq> 0 then (ERROR, True)
      else if mutex_init \<noteq> 0 then (ERROR, True)
      else (OK, attr_destroy \<noteq> 0))"

lemmas wrapper_defs = pthread_rc_def thread_mutex_lock_def thread_mutex_unlock_def
  thread_mutex_destroy_def thread_cond_create_def thread_cond_destroy_def
  thread_cond_signal_def thread_cond_wait_def OK_def ERROR_def

section \<open>Tasks and the queue\<close>

text \<open>What a task does when it is run: the client's function, or the pool's exit handler.\<close>

datatype handler = User | Exit_handler

record task =
  t_next :: u64
  t_id :: u64
  t_handler :: handler

datatype link = Q_first | Next_of u64

record tqueue =
  first :: u64
  q_last :: link

type_synonym theap = "u64 \<rightharpoonup> task"

definition thread_pool_queue_init :: tqueue where
  "thread_pool_queue_init = \<lparr>first = 0, q_last = Q_first\<rparr>"

text \<open>\<open>*tp->queue.last = task; tp->queue.last = &task->next;\<close>\<close>

definition enqueue :: "u64 \<Rightarrow> tqueue \<times> theap \<Rightarrow> (tqueue \<times> theap) option" where
  "enqueue t qh = (let (q, h) = qh in case q_last q of
       Q_first \<Rightarrow> Some (\<lparr>first = t, q_last = Next_of t\<rparr>, h)
     | Next_of p \<Rightarrow> (case h p of
           None \<Rightarrow> None
         | Some k \<Rightarrow> Some (q\<lparr>q_last := Next_of t\<rparr>, h(p \<mapsto> k\<lparr>t_next := t\<rparr>))))"

text \<open>
  The removal of the first task in \<open>thread_pool_cycle\<close>; \<open>first\<close> has been tested against NULL.
\<close>

definition dequeue :: "tqueue \<times> theap \<Rightarrow> (u64 \<times> tqueue \<times> theap) option" where
  "dequeue qh = (let (q, h) = qh in case h (first q) of
       None \<Rightarrow> None
     | Some k \<Rightarrow> Some (first q, \<lparr>first = t_next k,
         q_last = (if t_next k = 0 then Q_first else q_last q)\<rparr>, h))"

section \<open>The interface\<close>

text \<open>
  A first-in first-out queue of objects that live in a store: \<open>rep q xs\<close> says that \<open>q\<close>
  represents the list \<open>xs\<close>, \<open>ready q a\<close> that \<open>a\<close> may be added.
\<close>

locale fifo =
  fixes rep :: "'q \<Rightarrow> 'a list \<Rightarrow> bool"
    and ready :: "'q \<Rightarrow> 'a \<Rightarrow> bool"
    and nonempty :: "'q \<Rightarrow> bool"
    and enq :: "'a \<Rightarrow> 'q \<Rightarrow> 'q option"
    and deq :: "'q \<Rightarrow> ('a \<times> 'q) option"
  assumes rep_nonempty: "rep q xs \<Longrightarrow> nonempty q \<longleftrightarrow> xs \<noteq> []"
    and rep_enq: "rep q xs \<Longrightarrow> ready q a \<Longrightarrow> a \<notin> set xs \<Longrightarrow> \<exists>q'. enq a q = Some q' \<and> rep q' (xs @ [a])"
    and rep_deq: "rep q (x # xs) \<Longrightarrow> \<exists>q'. deq q = Some (x, q') \<and> rep q' xs"
begin

text \<open>Two representations of one queue state agree, so the list is a function of the queue.\<close>

fun drain :: "nat \<Rightarrow> 'q \<Rightarrow> 'a list" where
  "drain 0 q = []"
| "drain (Suc n) q = (if nonempty q then (case deq q of None \<Rightarrow> [] | Some (x, q') \<Rightarrow> x # drain n q') else [])"

lemma drain_rep: "rep q xs \<Longrightarrow> length xs \<le> n \<Longrightarrow> drain n q = xs"
proof (induction n arbitrary: q xs)
  case (Suc n)
  show ?case
  proof (cases xs)
    case Nil
    with rep_nonempty [OF Suc.prems(1)] show ?thesis by simp
  next
    case (Cons x ys)
    with rep_deq [of q x ys] Suc.prems(1) obtain q' where "deq q = Some (x, q')" "rep q' ys" by blast
    moreover from this Suc have "drain n q' = ys" using Cons by simp
    ultimately show ?thesis using rep_nonempty [OF Suc.prems(1)] Cons by simp
  qed
qed simp

lemma rep_unique: "rep q xs \<Longrightarrow> rep q ys \<Longrightarrow> xs = ys"
  using drain_rep [of q xs "max (length xs) (length ys)"] drain_rep [of q ys "max (length xs) (length ys)"]
  by simp

end

section \<open>The linked list provides it\<close>

fun tchain :: "theap \<Rightarrow> u64 \<Rightarrow> u64 list \<Rightarrow> bool" where
  "tchain h p [] = (p = 0)"
| "tchain h p (t # ts) = (p = t \<and> t \<noteq> 0 \<and> (\<exists>k. h t = Some k \<and> tchain h (t_next k) ts))"

definition tail_link :: "u64 list \<Rightarrow> link" where
  "tail_link ts = (if ts = [] then Q_first else Next_of (last ts))"

definition qrep :: "tqueue \<times> theap \<Rightarrow> u64 list \<Rightarrow> bool" where
  "qrep qh ts \<longleftrightarrow> tchain (snd qh) (first (fst qh)) ts \<and> q_last (fst qh) = tail_link ts \<and> distinct ts"

definition task_ready :: "tqueue \<times> theap \<Rightarrow> u64 \<Rightarrow> bool" where
  "task_ready qh t \<longleftrightarrow> t \<noteq> 0 \<and> (\<exists>k. snd qh t = Some k \<and> t_next k = 0)"

lemma tchain_frame:
  assumes "\<And>t. t \<in> set ts \<Longrightarrow> map_option t_next (h' t) = map_option t_next (h t)"
  shows "tchain h' p ts = tchain h p ts"
  using assms
proof (induction ts arbitrary: p)
  case (Cons t ts)
  from Cons.prems [of t] have "map_option t_next (h' t) = map_option t_next (h t)" by simp
  moreover have "tchain h' q ts = tchain h q ts" for q using Cons by simp
  ultimately show ?case by (cases "h t"; cases "h' t") simp_all
qed simp

lemma tchain_append:
  "tchain h p ts \<Longrightarrow> ts \<noteq> [] \<Longrightarrow> distinct ts \<Longrightarrow> t \<notin> set ts \<Longrightarrow> t \<noteq> 0 \<Longrightarrow> h t = Some k \<Longrightarrow> t_next k = 0 \<Longrightarrow>
     \<exists>l. h (last ts) = Some l \<and> tchain (h(last ts \<mapsto> l\<lparr>t_next := t\<rparr>)) p (ts @ [t])"
proof (induction ts arbitrary: p)
  case (Cons a ts)
  from Cons.prems(1) obtain x where x: "p = a" "a \<noteq> 0" "h a = Some x" "tchain h (t_next x) ts" by auto
  show ?case
  proof (cases "ts = []")
    case True
    with x Cons.prems show ?thesis by auto
  next
    case False
    have d: "distinct ts" "t \<notin> set ts" using Cons.prems(3,4) by simp_all
    from Cons.IH [OF x(4) False d Cons.prems(5-7)] obtain l where
      l: "h (last ts) = Some l" "tchain (h(last ts \<mapsto> l\<lparr>t_next := t\<rparr>)) (t_next x) (ts @ [t])"
      by blast
    have "a \<noteq> last ts" using Cons.prems(3) False by auto
    with l x False show ?thesis by (simp add: fun_upd_def)
  qed
qed simp

lemma tchain_dom: "tchain h p ts \<Longrightarrow> t \<in> set ts \<Longrightarrow> \<exists>k. h t = Some k"
  by (induction ts arbitrary: p) auto

lemma qrep_frame:
  assumes "qrep (q, h) ts" "\<And>t. t \<in> set ts \<Longrightarrow> map_option t_next (h' t) = map_option t_next (h t)"
  shows "qrep (q, h') ts"
  using assms tchain_frame [of ts h' h] by (simp add: qrep_def)

lemma qrep_init: "qrep (thread_pool_queue_init, h) []"
  by (simp add: qrep_def thread_pool_queue_init_def tail_link_def)

lemma enqueue_next:
  assumes "enqueue t (q, h) = Some (q', h')"
  shows "map_option (\<lambda>k. (t_id k, t_handler k)) (h' x) = map_option (\<lambda>k. (t_id k, t_handler k)) (h x)"
    "dom h' = dom h"
  using assms by (auto simp: enqueue_def split: link.splits option.splits if_splits)

interpretation lq: fifo qrep task_ready "\<lambda>qh. first (fst qh) \<noteq> 0" enqueue dequeue
proof
  fix qh :: "tqueue \<times> theap" and ts t
  obtain q h where qh: "qh = (q, h)" by (cases qh)
  show "first (fst qh) \<noteq> 0 \<longleftrightarrow> ts \<noteq> []" if "qrep qh ts"
    using that by (cases ts) (auto simp: qrep_def)
  assume R: "qrep qh ts" and t: "task_ready qh t" "t \<notin> set ts"
  show "\<exists>q'. enqueue t qh = Some q' \<and> qrep q' (ts @ [t])"
  proof (cases "ts = []")
    case True
    with R t show ?thesis by (auto simp: qh qrep_def task_ready_def enqueue_def tail_link_def)
  next
    case False
    with R t tchain_append [of h "first q" ts t] obtain l where
      "h (last ts) = Some l" "tchain (h(last ts \<mapsto> l\<lparr>t_next := t\<rparr>)) (first q) (ts @ [t])"
      by (auto simp: qh qrep_def task_ready_def)
    with R t False show ?thesis by (auto simp: qh qrep_def enqueue_def tail_link_def)
  qed
next
  fix qh :: "tqueue \<times> theap" and t ts
  assume R: "qrep qh (t # ts)"
  obtain q h where qh: "qh = (q, h)" by (cases qh)
  from R obtain k where k: "first q = t" "h t = Some k" "tchain h (t_next k) ts" by (auto simp: qh qrep_def)
  have "t_next k = 0 \<longleftrightarrow> ts = []" using k(3) by (cases ts) auto
  with R k show "\<exists>q'. dequeue qh = Some (t, q') \<and> qrep q' ts"
    by (auto simp: qh qrep_def dequeue_def tail_link_def)
qed

end
