(* ===== verification/Thread_Pool.thy ===== *)
theory Thread_Pool
  imports Thread_Queue
begin

text \<open>
  The thread pool of \<open>threadpool/thread_pool.c\<close> as a step relation. A state holds the
  structure \<open>thread_pool_t\<close>, the tasks in memory and the program counter of every worker
  (\<open>thread_pool_cycle\<close>) and every client (\<open>thread_task_post\<close>, \<open>thread_pool_destroy\<close>); a step
  is one statement of one thread, the two statements that relink the queue being one.
  \<open>posted\<close> and \<open>taken\<close> are history variables.
\<close>

section \<open>Threads\<close>

datatype tid = Wk nat | Cl nat

text \<open>Where a worker is in \<open>thread_pool_cycle\<close>.\<close>

datatype wpc =
    W_lock            \<comment> \<open>about to lock the mutex at the head of the loop\<close>
  | W_dec             \<comment> \<open>\<open>tp->waiting--\<close>\<close>
  | W_test            \<comment> \<open>\<open>while (tp->queue.first == NULL)\<close>\<close>
  | W_wait            \<comment> \<open>about to call \<open>thread_cond_wait\<close>\<close>
  | W_blocked bool    \<comment> \<open>inside it; the flag says whether the thread has been woken\<close>
  | W_take            \<comment> \<open>about to unlink the first task\<close>
  | W_unlock u64
  | W_run u64         \<comment> \<open>\<open>task->handler(task->ctx)\<close>\<close>
  | W_free u64        \<comment> \<open>\<open>task->next = NULL; free(task)\<close>\<close>
  | W_exit

text \<open>Where \<open>thread_task_post\<close> returns to: a client, or round \<open>n\<close> of \<open>thread_pool_destroy\<close>.\<close>

datatype caller = Client | Destroyer nat

datatype cpc =
    C_idle
  | P_lock u64 caller
  | P_full u64 caller     \<comment> \<open>\<open>if (tp->waiting >= tp->max_queue)\<close>\<close>
  | P_id u64 caller       \<comment> \<open>\<open>task->id = thread_pool_task_id++; task->next = NULL\<close>\<close>
  | P_signal u64 caller
  | P_link u64 caller
  | P_inc caller          \<comment> \<open>\<open>tp->waiting++\<close>\<close>
  | P_unlock int caller   \<comment> \<open>unlock, then return the value\<close>
  | D_loop nat
  | D_spin nat            \<comment> \<open>\<open>while (lock)\<close>\<close>
  | D_return

record tpool =
  mtx :: "tid option"
  que :: tqueue
  waiting :: int
  max_queue :: int
  task_id :: u64
  heap :: theap
  dlock :: bool
  wk :: "wpc list"
  cl :: "cpc list"
  destroyer :: "nat option"
  freed :: bool
  bad :: bool
  posted :: "u64 list"
  taken :: "u64 list"

text \<open>The address of the local variable \<open>task\<close> of \<open>thread_pool_destroy\<close>.\<close>

definition exit_task :: u64 where "exit_task = 1"

definition setw :: "nat \<Rightarrow> wpc \<Rightarrow> tpool \<Rightarrow> tpool" where
  "setw i pc s = s\<lparr>wk := (wk s)[i := pc]\<rparr>"

definition setc :: "nat \<Rightarrow> cpc \<Rightarrow> tpool \<Rightarrow> tpool" where
  "setc j pc s = s\<lparr>cl := (cl s)[j := pc]\<rparr>"

definition fail :: "tpool \<Rightarrow> tpool" where
  "fail s = s\<lparr>bad := True\<rparr>"

text \<open>
  The mutex is of type ERRORCHECK: locking it twice and unlocking it without owning it are
  errors. A result of None means that the thread blocks.
\<close>

definition EDEADLK :: int where "EDEADLK = 35"
definition EPERM :: int where "EPERM = 1"

definition mutex_lock :: "tid \<Rightarrow> tpool \<Rightarrow> (int \<times> tpool) option" where
  "mutex_lock t s = (case mtx s of
       None \<Rightarrow> Some (thread_mutex_lock 0, s\<lparr>mtx := Some t\<rparr>)
     | Some t' \<Rightarrow> if t' = t then Some (thread_mutex_lock EDEADLK, s) else None)"

definition mutex_unlock :: "tid \<Rightarrow> tpool \<Rightarrow> int \<times> tpool" where
  "mutex_unlock t s = (if mtx s = Some t then (thread_mutex_unlock 0, s\<lparr>mtx := None\<rparr>)
     else (thread_mutex_unlock EPERM, s))"

section \<open>Workers\<close>

text \<open>Every statement that touches the pool structure goes wrong once it is freed.\<close>

definition on_tp :: "tpool \<Rightarrow> tpool option \<Rightarrow> tpool option" where
  "on_tp s r = (if freed s then Some (fail s) else r)"

fun wk_body :: "nat \<Rightarrow> wpc \<Rightarrow> tpool \<Rightarrow> tpool option" where
  "wk_body i W_lock s = on_tp s (case mutex_lock (Wk i) s of
      None \<Rightarrow> None
    | Some (rc, s1) \<Rightarrow> Some (setw i (if rc \<noteq> OK then W_exit else W_dec) s1))"
| "wk_body i W_dec s = on_tp s (Some (setw i W_test (s\<lparr>waiting := waiting s - 1\<rparr>)))"
| "wk_body i W_test s = on_tp s (Some (setw i (if first (que s) = 0 then W_wait else W_take) s))"
| "wk_body i W_wait s = on_tp s
     (let (rc, s1) = mutex_unlock (Wk i) s
      in Some (setw i (if rc \<noteq> OK then W_exit else W_blocked False) s1))"
| "wk_body i (W_blocked woken) s = on_tp s
     (if woken then (case mutex_lock (Wk i) s of
        None \<Rightarrow> None
      | Some (rc, s1) \<Rightarrow> Some (setw i (if rc \<noteq> OK then W_exit else W_test) s1))
      else None)"
| "wk_body i W_take s = on_tp s (case dequeue (que s, heap s) of
      None \<Rightarrow> Some (fail s)
    | Some (t, q, h) \<Rightarrow> Some (setw i (W_unlock t) (s\<lparr>que := q, heap := h, taken := taken s @ [t]\<rparr>)))"
| "wk_body i (W_unlock t) s = on_tp s
     (let (rc, s1) = mutex_unlock (Wk i) s in Some (setw i (if rc \<noteq> OK then W_exit else W_run t) s1))"
| "wk_body i (W_run t) s = (case heap s t of
      None \<Rightarrow> Some (fail s)
    | Some k \<Rightarrow> (case t_handler k of
          User \<Rightarrow> Some (setw i (W_free t) s)
        | Exit_handler \<Rightarrow> Some (setw i W_exit (s\<lparr>dlock := False\<rparr>))))"
| "wk_body i (W_free t) s = (if heap s t = None \<or> t = exit_task then Some (fail s)
     else Some (setw i W_lock (s\<lparr>heap := (heap s)(t := None)\<rparr>)))"
| "wk_body i W_exit s = None"

definition worker_step :: "nat \<Rightarrow> tpool \<Rightarrow> tpool option" where
  "worker_step i s = (if i < length (wk s) then wk_body i (wk s ! i) s else None)"

section \<open>Clients\<close>

text \<open>
  What a client may choose: at \<open>C_idle\<close>, to allocate a task at a fresh address (0 when
  \<open>calloc\<close> fails) and post it, or to destroy the pool; at the signal, which blocked worker
  is woken, or that the call fails. A client that is told to destroy the pool is the only one inside its calls.
\<close>

datatype choice = Go | Alloc_post u64 | Destroy | Wake nat | Signal_fails

definition post_return :: "nat \<Rightarrow> int \<Rightarrow> caller \<Rightarrow> tpool \<Rightarrow> tpool" where
  "post_return j rc c s = (case c of
      Client \<Rightarrow> setc j C_idle s
    | Destroyer n \<Rightarrow> if rc \<noteq> OK then setc j D_return (s\<lparr>heap := (heap s)(exit_task := None)\<rparr>)
                     else setc j (D_spin n) s)"

definition thread_cond_signal_to :: "nat \<Rightarrow> tpool \<Rightarrow> tpool option" where
  "thread_cond_signal_to i s =
     (if W_blocked False \<in> set (wk s)
      then (if i < length (wk s) \<and> wk s ! i = W_blocked False then Some (setw i (W_blocked True) s) else None)
      else Some s)"

definition thread_task_alloc :: "u64 \<Rightarrow> tpool \<Rightarrow> tpool option" where
  "thread_task_alloc a s =
     (if a \<noteq> 0 \<and> a \<noteq> exit_task \<and> heap s a = None
      then Some (s\<lparr>heap := (heap s)(a \<mapsto> \<lparr>t_next = 0, t_id = 0, t_handler = User\<rparr>)\<rparr>) else None)"

fun cl_body :: "nat \<Rightarrow> choice \<Rightarrow> cpc \<Rightarrow> tpool \<Rightarrow> tpool option" where
  "cl_body j (Alloc_post a) C_idle s =
     (if destroyer s \<noteq> None then None
      else map_option (setc j (P_lock a Client)) (thread_task_alloc a s))"
| "cl_body j Destroy C_idle s =
     (if destroyer s \<noteq> None \<or> (\<exists>c\<in>set (cl s). c \<noteq> C_idle) then None
      else Some (setc j (D_loop 0) (s\<lparr>destroyer := Some j,
        heap := (heap s)(exit_task \<mapsto> \<lparr>t_next = 0, t_id = 0, t_handler = Exit_handler\<rparr>)\<rparr>)))"
| "cl_body j Go (P_lock t c) s = on_tp s (case mutex_lock (Cl j) s of
      None \<Rightarrow> None
    | Some (rc, s1) \<Rightarrow> Some (if rc \<noteq> OK then post_return j ERROR c s1 else setc j (P_full t c) s1))"
| "cl_body j Go (P_full t c) s = on_tp s
     (Some (setc j (if waiting s \<ge> max_queue s then P_unlock ERROR c else P_id t c) s))"
| "cl_body j Go (P_id t c) s = on_tp s (case heap s t of
      None \<Rightarrow> Some (fail s)
    | Some k \<Rightarrow> Some (setc j (P_signal t c) (s\<lparr>task_id := task_id s + 1,
        heap := (heap s)(t \<mapsto> k\<lparr>t_id := task_id s, t_next := 0\<rparr>)\<rparr>)))"
| "cl_body j (Wake i) (P_signal t c) s = on_tp s
     (map_option (setc j (P_link t c)) (thread_cond_signal_to i s))"
| "cl_body j Signal_fails (P_signal t c) s = on_tp s (Some (setc j (P_unlock ERROR c) s))"
| "cl_body j Go (P_link t c) s = on_tp s (case enqueue t (que s, heap s) of
      None \<Rightarrow> Some (fail s)
    | Some (q, h) \<Rightarrow> Some (setc j (P_inc c) (s\<lparr>que := q, heap := h, posted := posted s @ [t]\<rparr>)))"
| "cl_body j Go (P_inc c) s = on_tp s (Some (setc j (P_unlock OK c) (s\<lparr>waiting := waiting s + 1\<rparr>)))"
| "cl_body j Go (P_unlock rc c) s = on_tp s
     (let (_, s1) = mutex_unlock (Cl j) s in Some (post_return j rc c s1))"
| "cl_body j Go (D_loop n) s = on_tp s
     (if n < length (wk s) then Some (setc j (P_lock exit_task (Destroyer n)) (s\<lparr>dlock := True\<rparr>))
      else Some (setc j D_return (s\<lparr>freed := True, heap := (heap s)(exit_task := None)\<rparr>)))"
| "cl_body j Go (D_spin n) s = Some (if dlock s then s else setc j (D_loop (n + 1)) s)"
| "cl_body j _ _ s = None"

definition client_step :: "nat \<Rightarrow> choice \<Rightarrow> tpool \<Rightarrow> tpool option" where
  "client_step j x s = (if j < length (cl s) then cl_body j x (cl s ! j) s else None)"

section \<open>The system\<close>

text \<open>Blocked threads may also wake up spuriously.\<close>

inductive tp_step :: "tpool \<Rightarrow> tpool \<Rightarrow> bool" where
  worker: "worker_step i s = Some t \<Longrightarrow> tp_step s t"
| client: "client_step j x s = Some t \<Longrightarrow> tp_step s t"
| spurious: "i < length (wk s) \<Longrightarrow> wk s ! i = W_blocked False \<Longrightarrow> tp_step s (setw i (W_blocked True) s)"

inductive_cases tp_stepE: "tp_step s t"

text \<open>What a successful \<open>thread_pool_init\<close> leaves behind; \<open>calloc\<close> has zeroed the fields.\<close>

definition tp_start :: "nat \<Rightarrow> nat \<Rightarrow> int \<Rightarrow> tpool" where
  "tp_start threads clients mx = \<lparr>mtx = None, que = thread_pool_queue_init, waiting = 0,
     max_queue = mx, task_id = 0, heap = Map.empty, dlock = False,
     wk = replicate threads W_lock, cl = replicate clients C_idle, destroyer = None,
     freed = False, bad = False, posted = [], taken = []\<rparr>"

definition DEFAULT_THREADS_NUM :: nat where "DEFAULT_THREADS_NUM = 4"
definition DEFAULT_QUEUE_NUM :: int where "DEFAULT_QUEUE_NUM = 65535"

definition thread_pool_init_default :: "nat \<Rightarrow> tpool" where
  "thread_pool_init_default clients = tp_start DEFAULT_THREADS_NUM clients DEFAULT_QUEUE_NUM"

definition tp_init :: "nat \<Rightarrow> nat \<Rightarrow> int \<Rightarrow> tpool \<Rightarrow> bool" where
  "tp_init threads clients mx s \<longleftrightarrow> s = tp_start threads clients mx"

abbreviation tp_reach :: "nat \<Rightarrow> nat \<Rightarrow> int \<Rightarrow> tpool \<Rightarrow> bool" where
  "tp_reach threads clients mx \<equiv> reach (tp_init threads clients mx) tp_step"

end
