(* ===== verification/Thread_Pool_Inv.thy ===== *)
theory Thread_Pool_Inv
  imports Thread_Pool
begin

text \<open>
  The invariant of the thread pool, in six parts: the mutex, the history and the linked
  queue, the ownership of tasks, the counter \<open>waiting\<close>, the wakeups, and the rounds of
  \<open>thread_pool_destroy\<close>. Under it every step is one of a list of regular steps, none of
  which goes wrong, and each part is kept by each of them.
\<close>

section \<open>Counting threads\<close>

definition cnt :: "('a \<Rightarrow> bool) \<Rightarrow> 'a list \<Rightarrow> int" where
  "cnt P xs = int (length (filter P xs))"

lemma cnt_upd [simp]:
  "i < length xs \<Longrightarrow> cnt P (xs[i := x]) = cnt P xs - (if P (xs ! i) then 1 else 0) + (if P x then 1 else 0)"
  unfolding cnt_def by (rule count_upd)

lemma cnt_nonneg [simp]: "0 \<le> cnt P xs"
  by (simp add: cnt_def)

lemma cnt_le: "cnt P xs \<le> int (length xs)"
  by (simp add: cnt_def)

lemma cnt_mono: "(\<And>x. x \<in> set xs \<Longrightarrow> P x \<Longrightarrow> Q x) \<Longrightarrow> cnt P xs \<le> cnt Q xs"
  by (induction xs) (auto simp: cnt_def intro: order_trans)

lemma cnt_ge1: "i < length xs \<Longrightarrow> P (xs ! i) \<Longrightarrow> 1 \<le> cnt P xs"
  by (auto simp: cnt_def Suc_le_eq filter_empty_conv)

lemma cnt_ge1_in: "x \<in> set xs \<Longrightarrow> P x \<Longrightarrow> 1 \<le> cnt P xs"
  by (auto simp: in_set_conv_nth intro: cnt_ge1)

lemma cnt_0: "cnt P xs = 0 \<longleftrightarrow> (\<forall>x\<in>set xs. \<not> P x)"
  by (auto simp: cnt_def filter_empty_conv)

lemma cnt_all: "cnt P xs = int (length xs) \<Longrightarrow> x \<in> set xs \<Longrightarrow> P x"
  using length_filter_less [of x xs P] by (auto simp: cnt_def)

lemma cnt_replicate [simp]: "cnt P (replicate n x) = (if P x then int n else 0)"
  by (simp add: cnt_def)

section \<open>The parts of the invariant\<close>

fun wcrit :: "wpc \<Rightarrow> bool" where
  "wcrit W_dec = True" | "wcrit W_test = True" | "wcrit W_wait = True" | "wcrit W_take = True"
| "wcrit (W_unlock t) = True" | "wcrit _ = False"

fun ccrit :: "cpc \<Rightarrow> bool" where
  "ccrit (P_full t c) = True" | "ccrit (P_id t c) = True" | "ccrit (P_signal t c) = True"
| "ccrit (P_link t c) = True" | "ccrit (P_inc c) = True" | "ccrit (P_unlock r c) = True"
| "ccrit _ = False"

text \<open>The task a thread has in its hands.\<close>

fun whold :: "wpc \<Rightarrow> u64 option" where
  "whold (W_unlock t) = Some t" | "whold (W_run t) = Some t" | "whold (W_free t) = Some t"
| "whold _ = None"

fun chold :: "cpc \<Rightarrow> u64 option" where
  "chold (P_lock t c) = Some t" | "chold (P_full t c) = Some t" | "chold (P_id t c) = Some t"
| "chold (P_signal t c) = Some t" | "chold (P_link t c) = Some t" | "chold _ = None"

text \<open>Workers that have decremented \<open>waiting\<close> for a task they have not taken yet.\<close>

fun pend :: "wpc \<Rightarrow> bool" where
  "pend W_test = True" | "pend W_wait = True" | "pend (W_blocked b) = True" | "pend W_take = True"
| "pend _ = False"

fun is_link :: "cpc \<Rightarrow> bool" where "is_link (P_link t c) = True" | "is_link _ = False"
fun is_inc :: "cpc \<Rightarrow> bool" where "is_inc (P_inc c) = True" | "is_inc _ = False"

text \<open>Past the overflow test.\<close>

fun has_room :: "cpc \<Rightarrow> bool" where
  "has_room (P_id t c) = True" | "has_room (P_signal t c) = True" | "has_room (P_link t c) = True"
| "has_room (P_inc c) = True" | "has_room _ = False"

definition awake :: "wpc \<Rightarrow> bool" where "awake w \<longleftrightarrow> w \<noteq> W_blocked False \<and> w \<noteq> W_exit"

definition queued :: "tpool \<Rightarrow> u64 list" where
  "queued s = drop (length (taken s)) (posted s)"

definition own :: "tpool \<Rightarrow> u64 \<Rightarrow> int" where
  "own s x = int (count_list (queued s) x) + cnt (\<lambda>w. whold w = Some x) (wk s)
     + cnt (\<lambda>c. chold c = Some x) (cl s)"

definition exits :: "tpool \<Rightarrow> int" where "exits s = cnt (\<lambda>w. w = W_exit) (wk s)"

definition mtx_inv :: "tpool \<Rightarrow> bool" where
  "mtx_inv s \<longleftrightarrow> (\<forall>i<length (wk s). wcrit (wk s ! i) \<longleftrightarrow> mtx s = Some (Wk i))
     \<and> (\<forall>j<length (cl s). ccrit (cl s ! j) \<longleftrightarrow> mtx s = Some (Cl j))
     \<and> (\<forall>i. mtx s = Some (Wk i) \<longrightarrow> i < length (wk s)) \<and> (\<forall>j. mtx s = Some (Cl j) \<longrightarrow> j < length (cl s))"

definition que_inv :: "tpool \<Rightarrow> bool" where
  "que_inv s \<longleftrightarrow> posted s = taken s @ queued s \<and> qrep (que s, heap s) (queued s)
     \<and> (W_take \<in> set (wk s) \<longrightarrow> queued s \<noteq> []) \<and> (W_wait \<in> set (wk s) \<longrightarrow> queued s = [])"

definition own_inv :: "tpool \<Rightarrow> bool" where
  "own_inv s \<longleftrightarrow> (\<forall>x. own s x \<le> 1 \<and> (own s x > 0 \<longrightarrow> x \<noteq> 0 \<and> heap s x \<noteq> None))
     \<and> (\<forall>x k. heap s x = Some k \<longrightarrow> (t_handler k = Exit_handler \<longleftrightarrow> x = exit_task))
     \<and> W_free exit_task \<notin> set (wk s)
     \<and> (\<forall>t c. P_signal t c \<in> set (cl s) \<or> P_link t c \<in> set (cl s) \<longrightarrow> map_option t_next (heap s t) = Some 0)"

definition cnt_inv :: "tpool \<Rightarrow> bool" where
  "cnt_inv s \<longleftrightarrow> waiting s = int (length (queued s)) - cnt pend (wk s) - cnt is_inc (cl s)
     \<and> waiting s \<le> max_queue s
     \<and> (\<forall>c\<in>set (cl s). has_room c \<longrightarrow> waiting s < max_queue s)"

definition wake_inv :: "tpool \<Rightarrow> bool" where
  "wake_inv s \<longleftrightarrow> W_blocked False \<in> set (wk s) \<longrightarrow>
     int (length (queued s)) + cnt is_link (cl s) \<le> cnt awake (wk s)"

fun client_pc :: "cpc \<Rightarrow> bool" where
  "client_pc C_idle = True" | "client_pc (P_lock t c) = (c = Client)" | "client_pc (P_full t c) = (c = Client)"
| "client_pc (P_id t c) = (c = Client)" | "client_pc (P_signal t c) = (c = Client)"
| "client_pc (P_link t c) = (c = Client)" | "client_pc (P_inc c) = (c = Client)"
| "client_pc (P_unlock r c) = (c = Client)" | "client_pc _ = False"

text \<open>What holds when round \<open>n\<close> of \<open>thread_pool_destroy\<close> is about to link its task, and after.\<close>

definition d_posting :: "tpool \<Rightarrow> u64 \<Rightarrow> caller \<Rightarrow> bool" where
  "d_posting s t c \<longleftrightarrow> t = exit_task \<and> (\<exists>n. c = Destroyer n \<and> exits s = int n \<and> n < length (wk s)
     \<and> (0 < n \<longrightarrow> queued s = [])) \<and> dlock s \<and> \<not> freed s"

definition d_posted :: "tpool \<Rightarrow> caller \<Rightarrow> bool" where
  "d_posted s c \<longleftrightarrow> (\<exists>n. c = Destroyer n \<and> exits s = int n \<and> n < length (wk s)) \<and> dlock s \<and> \<not> freed s
     \<and> queued s \<noteq> [] \<and> last (queued s) = exit_task"

fun dest_ok :: "tpool \<Rightarrow> cpc \<Rightarrow> bool" where
  "dest_ok s (D_loop n) = (exits s = int n \<and> n \<le> length (wk s) \<and> own s exit_task = 0 \<and> \<not> freed s
     \<and> heap s exit_task \<noteq> None \<and> (0 < n \<longrightarrow> queued s = []))"
| "dest_ok s (P_lock t c) = d_posting s t c"
| "dest_ok s (P_full t c) = d_posting s t c"
| "dest_ok s (P_id t c) = d_posting s t c"
| "dest_ok s (P_signal t c) = d_posting s t c"
| "dest_ok s (P_link t c) = d_posting s t c"
| "dest_ok s (P_inc c) = d_posted s c"
| "dest_ok s (P_unlock r c) = (if r = OK then d_posted s c
     else (\<exists>n. c = Destroyer n) \<and> own s exit_task = 0 \<and> \<not> freed s)"
| "dest_ok s (D_spin n) = (\<not> freed s \<and> n < length (wk s) \<and> heap s exit_task \<noteq> None \<and>
     (if dlock s then exits s = int n \<and> (queued s \<noteq> [] \<and> last (queued s) = exit_task
          \<or> queued s = [] \<and> (\<exists>w\<in>set (wk s). whold w = Some exit_task))
      else exits s = int n + 1 \<and> own s exit_task = 0 \<and> queued s = []))"
| "dest_ok s D_return = (own s exit_task = 0 \<and> (freed s \<longrightarrow> exits s = int (length (wk s))
     \<and> (wk s \<noteq> [] \<longrightarrow> queued s = [])))"
| "dest_ok s C_idle = False"

definition dest_inv :: "tpool \<Rightarrow> bool" where
  "dest_inv s \<longleftrightarrow> (case destroyer s of
       None \<Rightarrow> own s exit_task = 0 \<and> exits s = 0 \<and> \<not> freed s \<and> (\<forall>c\<in>set (cl s). client_pc c)
     | Some d \<Rightarrow> d < length (cl s) \<and> (\<forall>j<length (cl s). j \<noteq> d \<longrightarrow> cl s ! j = C_idle) \<and> dest_ok s (cl s ! d))"

definition tp_inv :: "tpool \<Rightarrow> bool" where
  "tp_inv s \<longleftrightarrow> mtx_inv s \<and> que_inv s \<and> own_inv s \<and> cnt_inv s \<and> wake_inv s \<and> dest_inv s \<and> \<not> bad s"

lemma tp_invD:
  assumes "tp_inv s"
  shows "mtx_inv s" "que_inv s" "own_inv s" "cnt_inv s" "wake_inv s" "dest_inv s" "\<not> bad s"
  using assms by (simp_all add: tp_inv_def)

section \<open>The regular steps\<close>

inductive wk_ok :: "nat \<Rightarrow> tpool \<Rightarrow> tpool \<Rightarrow> bool" for i s where
  lock: "wk s ! i = W_lock \<Longrightarrow> mtx s = None \<Longrightarrow> wk_ok i s (setw i W_dec (s\<lparr>mtx := Some (Wk i)\<rparr>))"
| dec: "wk s ! i = W_dec \<Longrightarrow> wk_ok i s (setw i W_test (s\<lparr>waiting := waiting s - 1\<rparr>))"
| empty: "wk s ! i = W_test \<Longrightarrow> queued s = [] \<Longrightarrow> wk_ok i s (setw i W_wait s)"
| some: "wk s ! i = W_test \<Longrightarrow> queued s \<noteq> [] \<Longrightarrow> wk_ok i s (setw i W_take s)"
| wait: "wk s ! i = W_wait \<Longrightarrow> wk_ok i s (setw i (W_blocked False) (s\<lparr>mtx := None\<rparr>))"
| woken: "wk s ! i = W_blocked True \<Longrightarrow> mtx s = None \<Longrightarrow> wk_ok i s (setw i W_test (s\<lparr>mtx := Some (Wk i)\<rparr>))"
| take: "wk s ! i = W_take \<Longrightarrow> queued s = x # ts \<Longrightarrow> qrep (q, heap s) ts \<Longrightarrow>
    wk_ok i s (setw i (W_unlock x) (s\<lparr>que := q, taken := taken s @ [x]\<rparr>))"
| unlock: "wk s ! i = W_unlock x \<Longrightarrow> wk_ok i s (setw i (W_run x) (s\<lparr>mtx := None\<rparr>))"
| run: "wk s ! i = W_run x \<Longrightarrow> x \<noteq> exit_task \<Longrightarrow> wk_ok i s (setw i (W_free x) s)"
| exit: "wk s ! i = W_run exit_task \<Longrightarrow> wk_ok i s (setw i W_exit (s\<lparr>dlock := False\<rparr>))"
| free: "wk s ! i = W_free x \<Longrightarrow> x \<noteq> exit_task \<Longrightarrow> wk_ok i s (setw i W_lock (s\<lparr>heap := (heap s)(x := None)\<rparr>))"

inductive cl_ok :: "nat \<Rightarrow> tpool \<Rightarrow> tpool \<Rightarrow> bool" for j s where
  post: "cl s ! j = C_idle \<Longrightarrow> destroyer s = None \<Longrightarrow> a \<noteq> 0 \<Longrightarrow> a \<noteq> exit_task \<Longrightarrow> heap s a = None \<Longrightarrow>
    cl_ok j s (setc j (P_lock a Client) (s\<lparr>heap := (heap s)(a \<mapsto> \<lparr>t_next = 0, t_id = 0, t_handler = User\<rparr>)\<rparr>))"
| destroy: "cl s ! j = C_idle \<Longrightarrow> destroyer s = None \<Longrightarrow> (\<And>k. k < length (cl s) \<Longrightarrow> cl s ! k = C_idle) \<Longrightarrow>
    cl_ok j s (setc j (D_loop 0) (s\<lparr>destroyer := Some j,
      heap := (heap s)(exit_task \<mapsto> \<lparr>t_next = 0, t_id = 0, t_handler = Exit_handler\<rparr>)\<rparr>))"
| lock: "cl s ! j = P_lock t c \<Longrightarrow> mtx s = None \<Longrightarrow> cl_ok j s (setc j (P_full t c) (s\<lparr>mtx := Some (Cl j)\<rparr>))"
| full: "cl s ! j = P_full t c \<Longrightarrow> cl_ok j s (setc j (P_unlock ERROR c) s)"
| room: "cl s ! j = P_full t c \<Longrightarrow> waiting s < max_queue s \<Longrightarrow> cl_ok j s (setc j (P_id t c) s)"
| id: "cl s ! j = P_id t c \<Longrightarrow> heap s t = Some k \<Longrightarrow> cl_ok j s (setc j (P_signal t c)
    (s\<lparr>task_id := task_id s + 1, heap := (heap s)(t \<mapsto> k\<lparr>t_id := task_id s, t_next := 0\<rparr>)\<rparr>))"
| signal: "cl s ! j = P_signal t c \<Longrightarrow> W_blocked False \<notin> set (wk s) \<Longrightarrow> cl_ok j s (setc j (P_link t c) s)"
| wake: "cl s ! j = P_signal t c \<Longrightarrow> i < length (wk s) \<Longrightarrow> wk s ! i = W_blocked False \<Longrightarrow>
    cl_ok j s (setc j (P_link t c) (setw i (W_blocked True) s))"
| sigfail: "cl s ! j = P_signal t c \<Longrightarrow> cl_ok j s (setc j (P_unlock ERROR c) s)"
| link: "cl s ! j = P_link t c \<Longrightarrow> qrep (q, h) (queued s @ [t]) \<Longrightarrow> dom h = dom (heap s) \<Longrightarrow>
    (\<And>x. map_option t_handler (h x) = map_option t_handler (heap s x)) \<Longrightarrow>
    cl_ok j s (setc j (P_inc c) (s\<lparr>que := q, heap := h, posted := posted s @ [t]\<rparr>))"
| inc: "cl s ! j = P_inc c \<Longrightarrow> cl_ok j s (setc j (P_unlock OK c) (s\<lparr>waiting := waiting s + 1\<rparr>))"
| return: "cl s ! j = P_unlock r Client \<Longrightarrow> cl_ok j s (setc j C_idle (s\<lparr>mtx := None\<rparr>))"
| abort: "cl s ! j = P_unlock r (Destroyer n) \<Longrightarrow> r \<noteq> OK \<Longrightarrow>
    cl_ok j s (setc j D_return (s\<lparr>mtx := None, heap := (heap s)(exit_task := None)\<rparr>))"
| posted: "cl s ! j = P_unlock OK (Destroyer n) \<Longrightarrow> cl_ok j s (setc j (D_spin n) (s\<lparr>mtx := None\<rparr>))"
| round: "cl s ! j = D_loop n \<Longrightarrow> n < length (wk s) \<Longrightarrow>
    cl_ok j s (setc j (P_lock exit_task (Destroyer n)) (s\<lparr>dlock := True\<rparr>))"
| over: "cl s ! j = D_loop n \<Longrightarrow> n \<ge> length (wk s) \<Longrightarrow>
    cl_ok j s (setc j D_return (s\<lparr>freed := True, heap := (heap s)(exit_task := None)\<rparr>))"
| spin: "cl s ! j = D_spin n \<Longrightarrow> cl_ok j s s"
| spun: "cl s ! j = D_spin n \<Longrightarrow> \<not> dlock s \<Longrightarrow> cl_ok j s (setc j (D_loop (n + 1)) s)"

lemma setw_sel [simp]:
  "mtx (setw i w s) = mtx s" "que (setw i w s) = que s" "waiting (setw i w s) = waiting s"
  "max_queue (setw i w s) = max_queue s" "heap (setw i w s) = heap s" "dlock (setw i w s) = dlock s"
  "wk (setw i w s) = (wk s)[i := w]" "cl (setw i w s) = cl s" "destroyer (setw i w s) = destroyer s"
  "freed (setw i w s) = freed s" "bad (setw i w s) = bad s" "posted (setw i w s) = posted s"
  "taken (setw i w s) = taken s"
  by (simp_all add: setw_def)

lemma setc_sel [simp]:
  "mtx (setc i w s) = mtx s" "que (setc i w s) = que s" "waiting (setc i w s) = waiting s"
  "max_queue (setc i w s) = max_queue s" "heap (setc i w s) = heap s" "dlock (setc i w s) = dlock s"
  "cl (setc i w s) = (cl s)[i := w]" "wk (setc i w s) = wk s" "destroyer (setc i w s) = destroyer s"
  "freed (setc i w s) = freed s" "bad (setc i w s) = bad s" "posted (setc i w s) = posted s"
  "taken (setc i w s) = taken s"
  by (simp_all add: setc_def)

lemma not_freed_w:
  assumes "dest_inv s" "i < length (wk s)" "wk s ! i \<noteq> W_exit"
  shows "\<not> freed s"
proof
  assume f: "freed s"
  with assms(1) obtain d where "destroyer s = Some d" "dest_ok s (cl s ! d)"
    by (auto simp: dest_inv_def split: option.splits)
  with f have "exits s = int (length (wk s))"
    by (cases "cl s ! d") (auto simp: d_posting_def d_posted_def split: if_splits)
  with assms(2,3) show False using cnt_all [of "\<lambda>w. w = W_exit" "wk s" "wk s ! i"] by (simp add: exits_def)
qed

lemma not_freed_c:
  assumes "dest_inv s" "j < length (cl s)" "cl s ! j \<noteq> C_idle" "cl s ! j \<noteq> D_return"
  shows "\<not> freed s"
proof
  assume f: "freed s"
  with assms(1) obtain d where d: "destroyer s = Some d" "dest_ok s (cl s ! d)"
    "\<forall>j<length (cl s). j \<noteq> d \<longrightarrow> cl s ! j = C_idle"
    by (auto simp: dest_inv_def split: option.splits)
  with assms(2,3) have "j = d" by blast
  with d(2) f assms(3,4) show False
    by (cases "cl s ! d") (auto simp: d_posting_def d_posted_def split: if_splits)
qed

lemma held_heap:
  assumes "own_inv s" "i < length (wk s)" "whold (wk s ! i) = Some x"
  shows "heap s x \<noteq> None" "x \<noteq> 0"
proof -
  have "1 \<le> cnt (\<lambda>w. whold w = Some x) (wk s)" by (rule cnt_ge1) (use assms in simp_all)
  then have "0 < own s x" unfolding own_def
    using cnt_nonneg [of "\<lambda>c. chold c = Some x" "cl s"] by linarith
  with assms(1) show "heap s x \<noteq> None" "x \<noteq> 0" by (auto simp: own_inv_def)
qed

lemma chold_heap:
  assumes "own_inv s" "j < length (cl s)" "chold (cl s ! j) = Some x"
  shows "heap s x \<noteq> None" "x \<noteq> 0" "x \<notin> set (queued s)"
proof -
  have "1 \<le> cnt (\<lambda>c. chold c = Some x) (cl s)" by (rule cnt_ge1) (use assms in simp_all)
  then have 1: "int (count_list (queued s) x) + 1 \<le> own s x" unfolding own_def
    using cnt_nonneg [of "\<lambda>c. whold c = Some x" "wk s"] by linarith
  moreover have "own s x \<le> 1" using assms(1) by (simp add: own_inv_def)
  ultimately have "count_list (queued s) x = 0" by simp
  then show "x \<notin> set (queued s)" by (simp add: count_list_0_iff)
  from 1 assms(1) show "heap s x \<noteq> None" "x \<noteq> 0" by (auto simp: own_inv_def)
qed

lemma crit_mtx:
  "mtx_inv s \<Longrightarrow> i < length (wk s) \<Longrightarrow> wcrit (wk s ! i) \<longleftrightarrow> mtx s = Some (Wk i)"
  "mtx_inv s \<Longrightarrow> j < length (cl s) \<Longrightarrow> ccrit (cl s ! j) \<longleftrightarrow> mtx s = Some (Cl j)"
  by (simp_all add: mtx_inv_def)

lemma first_queued: "que_inv s \<Longrightarrow> first (que s) = 0 \<longleftrightarrow> queued s = []"
  using lq.rep_nonempty [of "(que s, heap s)" "queued s"] by (auto simp: que_inv_def)

lemmas rc_defs = mutex_lock_def mutex_unlock_def wrapper_defs EDEADLK_def EPERM_def

lemma worker_regular:
  assumes I: "tp_inv s" and st: "worker_step i s = Some t"
  shows "i < length (wk s) \<and> wk_ok i s t"
proof -
  note J = tp_invD [OF I]
  have i: "i < length (wk s)" and b: "wk_body i (wk s ! i) s = Some t"
    using st by (auto simp: worker_step_def split: if_splits)
  have m: "wcrit (wk s ! i) \<longleftrightarrow> mtx s = Some (Wk i)" by (rule crit_mtx(1) [OF J(1) i])
  have nf: "wk s ! i \<noteq> W_exit \<Longrightarrow> \<not> freed s" by (rule not_freed_w [OF J(6) i])
  have "wk_ok i s t"
  proof (cases "wk s ! i")
    case W_lock
    with b m nf show ?thesis
      by (auto simp: on_tp_def rc_defs split: option.splits if_splits intro: wk_ok.lock)
  next
    case W_dec
    with b nf show ?thesis by (auto simp: on_tp_def intro: wk_ok.dec)
  next
    case W_test
    with b nf first_queued [OF J(2)] show ?thesis
      by (auto simp: on_tp_def split: if_splits intro: wk_ok.empty wk_ok.some)
  next
    case W_wait
    with b m nf show ?thesis by (auto simp: on_tp_def rc_defs intro: wk_ok.wait)
  next
    case (W_blocked w)
    with b m nf show ?thesis
      by (auto simp: on_tp_def rc_defs split: option.splits if_splits intro: wk_ok.woken)
  next
    case W_take
    then have "W_take \<in> set (wk s)" using i by (metis nth_mem)
    then obtain x ts where q: "queued s = x # ts" using J(2) by (cases "queued s") (auto simp: que_inv_def)
    then obtain q' where "dequeue (que s, heap s) = Some (x, q')" "qrep q' ts"
      using lq.rep_deq [of "(que s, heap s)" x ts] J(2) by (auto simp: que_inv_def)
    moreover from this(1) obtain q1 where "q' = (q1, heap s)"
      by (auto simp: dequeue_def split: option.splits)
    ultimately show ?thesis using b W_take nf q by (auto simp: on_tp_def intro: wk_ok.take)
  next
    case (W_unlock x)
    with b m nf show ?thesis by (auto simp: on_tp_def rc_defs intro: wk_ok.unlock)
  next
    case (W_run x)
    then obtain k where k: "heap s x = Some k" using held_heap [OF J(3) i, of x] by auto
    then have "t_handler k = Exit_handler \<longleftrightarrow> x = exit_task" using J(3) by (auto simp: own_inv_def)
    with b W_run k show ?thesis by (cases "t_handler k") (auto intro: wk_ok.run wk_ok.exit)
  next
    case (W_free x)
    then have "W_free x \<in> set (wk s)" using i by (metis nth_mem)
    then have "x \<noteq> exit_task" using J(3) by (auto simp: own_inv_def)
    with b W_free held_heap [OF J(3) i, of x] show ?thesis by (auto intro: wk_ok.free)
  next
    case W_exit
    with b show ?thesis by simp
  qed
  with i show ?thesis by simp
qed

lemma client_regular:
  assumes I: "tp_inv s" and st: "client_step j x s = Some t"
  shows "j < length (cl s) \<and> cl_ok j s t"
proof -
  note J = tp_invD [OF I]
  have j: "j < length (cl s)" and b: "cl_body j x (cl s ! j) s = Some t"
    using st by (auto simp: client_step_def split: if_splits)
  have m: "ccrit (cl s ! j) \<longleftrightarrow> mtx s = Some (Cl j)" by (rule crit_mtx(2) [OF J(1) j])
  have nf: "cl s ! j \<noteq> C_idle \<Longrightarrow> cl s ! j \<noteq> D_return \<Longrightarrow> \<not> freed s" by (rule not_freed_c [OF J(6) j])
  have "cl_ok j s t"
  proof (cases "cl s ! j")
    case C_idle
    with b show ?thesis
      by (cases x) (auto simp: thread_task_alloc_def split: if_splits intro: cl_ok.post cl_ok.destroy)
  next
    case (P_lock y c)
    with b m nf show ?thesis
      by (cases x) (auto simp: on_tp_def rc_defs split: option.splits if_splits intro: cl_ok.lock)
  next
    case (P_full y c)
    then have "t = setc j (if waiting s \<ge> max_queue s then P_unlock ERROR c else P_id y c) s"
      using b nf by (cases x) (simp_all add: on_tp_def)
    then show ?thesis using cl_ok.full [of s j, OF P_full] cl_ok.room [of s j, OF P_full] by simp
  next
    case (P_id y c)
    with b nf chold_heap [OF J(3) j, of y] show ?thesis
      by (cases x) (auto simp: on_tp_def intro: cl_ok.id)
  next
    case (P_signal y c)
    with b nf show ?thesis
      by (cases x) (auto simp: on_tp_def thread_cond_signal_to_def split: if_splits
          intro: cl_ok.signal cl_ok.wake cl_ok.sigfail)
  next
    case (P_link y c)
    then have "P_link y c \<in> set (cl s)" using j by (metis nth_mem)
    then have "map_option t_next (heap s y) = Some 0" using J(3) by (auto simp: own_inv_def)
    with chold_heap [OF J(3) j, of y] P_link
    have y: "task_ready (que s, heap s) y" "y \<notin> set (queued s)" by (auto simp: task_ready_def)
    then obtain q h where q: "enqueue y (que s, heap s) = Some (q, h)" "qrep (q, h) (queued s @ [y])"
      using lq.rep_enq [of "(que s, heap s)" "queued s" y] J(2) by (auto simp: que_inv_def)
    have h: "map_option t_handler (h z) = map_option t_handler (heap s z)" for z
      using enqueue_next(1) [OF q(1), of z] by (cases "h z"; cases "heap s z") auto
    with b nf P_link q enqueue_next(2) [OF q(1)] show ?thesis
      by (cases x) (auto simp: on_tp_def intro!: cl_ok.link)
  next
    case (P_inc c)
    with b nf show ?thesis by (cases x) (auto simp: on_tp_def intro: cl_ok.inc)
  next
    case (P_unlock r c)
    with b m nf show ?thesis
      by (cases x; cases c) (auto simp: on_tp_def mutex_unlock_def post_return_def
          intro: cl_ok.return cl_ok.posted cl_ok.abort)
  next
    case (D_loop n)
    with b nf show ?thesis
      by (cases x) (auto simp: on_tp_def split: if_splits intro: cl_ok.round cl_ok.over)
  next
    case (D_spin n)
    with b show ?thesis by (cases x) (auto split: if_splits intro: cl_ok.spin cl_ok.spun [simplified])
  next
    case D_return
    with b show ?thesis by (cases x) auto
  qed
  with j show ?thesis by simp
qed

section \<open>Mutex and queue\<close>

lemma mtx_wk: "mtx_inv s \<Longrightarrow> i < length (wk s) \<Longrightarrow> wk_ok i s t \<Longrightarrow> mtx_inv t"
  by (erule wk_ok.cases) (auto simp: mtx_inv_def nth_list_update)

lemma mtx_cl: "mtx_inv s \<Longrightarrow> j < length (cl s) \<Longrightarrow> cl_ok j s t \<Longrightarrow> mtx_inv t"
  by (erule cl_ok.cases) (auto simp: mtx_inv_def nth_list_update)

lemma queued_upd [simp]:
  "queued (setw i w s) = queued s" "queued (setc j c s) = queued s"
  "queued (s\<lparr>mtx := m\<rparr>) = queued s" "queued (s\<lparr>waiting := n\<rparr>) = queued s"
  "queued (s\<lparr>dlock := b\<rparr>) = queued s" "queued (s\<lparr>heap := h\<rparr>) = queued s"
  "queued (s\<lparr>task_id := k\<rparr>) = queued s" "queued (s\<lparr>que := q\<rparr>) = queued s"
  "queued (s\<lparr>destroyer := d\<rparr>) = queued s" "queued (s\<lparr>freed := f\<rparr>) = queued s"
  "queued (s\<lparr>posted := p\<rparr>) = drop (length (taken s)) p"
  "queued (s\<lparr>taken := u\<rparr>) = drop (length u) (posted s)"
  by (simp_all add: queued_def setw_def setc_def)

lemma que_history: "que_inv s \<Longrightarrow> posted s = taken s @ queued s"
  by (simp add: que_inv_def)

lemma queued_post: "que_inv s \<Longrightarrow> drop (length (taken s)) (posted s @ [t]) = queued s @ [t]"
  using que_history [of s] by (metis append.assoc append_eq_conv_conj)

lemma queued_take:
  "que_inv s \<Longrightarrow> queued s = x # ts \<Longrightarrow> drop (Suc (length (taken s))) (posted s) = ts"
  using que_history [of s] by (metis drop_Suc queued_def list.sel(3) tl_drop)

lemma set_upd_cases: "x \<in> set (xs[i := y]) \<Longrightarrow> x = y \<or> x \<in> set xs"
  using set_update_subset_insert [of xs i y] by blast

lemma wcrit_only:
  assumes "mtx_inv s" "i < length (wk s)" "wcrit (wk s ! i)" "w \<in> set ((wk s)[i := v])" "wcrit w"
  shows "w = v"
proof -
  from assms(4) obtain k where k: "k < length (wk s)" "w = (wk s)[i := v] ! k"
    by (auto simp: in_set_conv_nth)
  show ?thesis
  proof (cases "k = i")
    case True
    with k assms(2) show ?thesis by simp
  next
    case False
    with k assms show ?thesis by (auto simp: mtx_inv_def)
  qed
qed

lemma ccrit_only:
  assumes "mtx_inv s" "j < length (cl s)" "ccrit (cl s ! j)" "c \<in> set ((cl s)[j := v])" "ccrit c"
  shows "c = v"
proof -
  from assms(4) obtain k where k: "k < length (cl s)" "c = (cl s)[j := v] ! k"
    by (auto simp: in_set_conv_nth)
  show ?thesis
  proof (cases "k = j")
    case True
    with k assms(2) show ?thesis by simp
  next
    case False
    with k assms show ?thesis by (auto simp: mtx_inv_def)
  qed
qed

lemma wcrit_not_ccrit: "mtx_inv s \<Longrightarrow> j < length (cl s) \<Longrightarrow> ccrit (cl s ! j) \<Longrightarrow> w \<in> set (wk s) \<Longrightarrow> \<not> wcrit w"
  by (auto simp: mtx_inv_def in_set_conv_nth)

lemma ccrit_not_wcrit: "mtx_inv s \<Longrightarrow> i < length (wk s) \<Longrightarrow> wcrit (wk s ! i) \<Longrightarrow> c \<in> set (cl s) \<Longrightarrow> \<not> ccrit c"
  by (auto simp: mtx_inv_def in_set_conv_nth)

lemma whold_not_queued:
  assumes "own_inv s" "i < length (wk s)" "whold (wk s ! i) = Some x"
  shows "x \<notin> set (queued s)"
proof -
  have "1 \<le> cnt (\<lambda>w. whold w = Some x) (wk s)" by (rule cnt_ge1) (use assms in simp_all)
  then have "int (count_list (queued s) x) + 1 \<le> own s x" unfolding own_def
    using cnt_nonneg [of "\<lambda>c. chold c = Some x" "cl s"] by linarith
  moreover have "own s x \<le> 1" using assms(1) by (simp add: own_inv_def)
  ultimately have "count_list (queued s) x = 0" by simp
  then show ?thesis by (simp add: count_list_0_iff)
qed

lemma que_wk:
  assumes Q: "que_inv s" and O: "own_inv s" and M: "mtx_inv s"
    and i: "i < length (wk s)" and st: "wk_ok i s t"
  shows "que_inv t"
proof -
  note only = wcrit_only [OF M i]
  note hist = que_history [OF Q]
  have R: "qrep (que s, heap s) (queued s)" using Q by (simp add: que_inv_def)
  have W: "W_take \<in> set (wk s) \<longrightarrow> queued s \<noteq> []" "W_wait \<in> set (wk s) \<longrightarrow> queued s = []"
    using Q by (simp_all add: que_inv_def)
  have new: "(W_take \<in> set ((wk s)[i := v]) \<longrightarrow> queued s \<noteq> []) \<and> (W_wait \<in> set ((wk s)[i := v]) \<longrightarrow> queued s = [])"
    if "v \<noteq> W_take" "v \<noteq> W_wait" for v
    using W that set_upd_cases by metis
  show ?thesis using st
  proof cases
    case (take x ts q)
    then have "W_take \<notin> set ((wk s)[i := W_unlock x])" "W_wait \<notin> set ((wk s)[i := W_unlock x])"
      using only [of _ "W_unlock x"] by fastforce+
    with hist take show ?thesis by (simp add: que_inv_def queued_take [OF Q])
  next
    case (free x)
    have "x \<notin> set (queued s)" by (rule whold_not_queued [OF O i]) (simp add: free)
    then have "qrep (que s, heap t) (queued s)" by (intro qrep_frame [OF R]) (use free in auto)
    then show ?thesis using hist free new [of W_lock] by (simp add: que_inv_def)
  next
    case empty
    have "W_take \<notin> set ((wk s)[i := W_wait])" using only [of W_take W_wait] empty by auto
    with empty hist R show ?thesis by (simp add: que_inv_def)
  next
    case some
    have "W_wait \<notin> set ((wk s)[i := W_take])" using only [of W_wait W_take] some by auto
    with some hist R show ?thesis by (simp add: que_inv_def)
  qed (simp add: que_inv_def R hist, rule new, simp, simp)+
qed

lemma own_0_queued: "own s x = 0 \<Longrightarrow> x \<notin> set (queued s)"
  using cnt_nonneg [of "\<lambda>w. whold w = Some x" "wk s"] cnt_nonneg [of "\<lambda>c. chold c = Some x" "cl s"]
  unfolding own_def by (metis add_nonneg_eq_0_iff add_nonneg_nonneg count_list_0_iff of_nat_0_le_iff of_nat_eq_0_iff)

text \<open>A thread inside \<open>thread_pool_destroy\<close> is the destroyer, and then all others are idle.\<close>

lemma dest_pc:
  assumes "dest_inv s" "j < length (cl s)" "\<not> client_pc (cl s ! j)"
  shows "destroyer s = Some j" "dest_ok s (cl s ! j)" "\<And>k. k < length (cl s) \<Longrightarrow> k \<noteq> j \<Longrightarrow> cl s ! k = C_idle"
proof -
  from assms obtain d where d: "destroyer s = Some d" "dest_ok s (cl s ! d)"
    "\<forall>k<length (cl s). k \<noteq> d \<longrightarrow> cl s ! k = C_idle"
    by (auto simp: dest_inv_def split: option.splits)
  with assms(2,3) have "j = d" by force
  with d show "destroyer s = Some j" "dest_ok s (cl s ! j)"
    "\<And>k. k < length (cl s) \<Longrightarrow> k \<noteq> j \<Longrightarrow> cl s ! k = C_idle" by auto
qed

lemma que_cl:
  assumes Q: "que_inv s" and O: "own_inv s" and M: "mtx_inv s" and D: "dest_inv s"
    and j: "j < length (cl s)" and st: "cl_ok j s t"
  shows "que_inv t"
proof -
  note hist = que_history [OF Q]
  have R: "qrep (que s, heap s) (queued s)" using Q by (simp add: que_inv_def)
  have W: "W_take \<in> set (wk s) \<longrightarrow> queued s \<noteq> []" "W_wait \<in> set (wk s) \<longrightarrow> queued s = []"
    using Q by (simp_all add: que_inv_def)
  have ex: "own s exit_task = 0 \<Longrightarrow> exit_task \<notin> set (queued s)" by (rule own_0_queued)
  have dom: "t \<in> set (queued s) \<Longrightarrow> heap s t \<noteq> None" for t
    using R tchain_dom by (fastforce simp: qrep_def)
  show ?thesis using st
  proof cases
    case (post a)
    then have "qrep (que s, heap t) (queued s)" by (intro qrep_frame [OF R]) (use dom in fastforce)
    with post W hist show ?thesis by (simp add: que_inv_def)
  next
    case destroy
    have "own s exit_task = 0" using D destroy by (simp add: dest_inv_def)
    then have "qrep (que s, heap t) (queued s)" by (intro qrep_frame [OF R]) (use destroy ex in auto)
    with destroy W hist show ?thesis by (simp add: que_inv_def)
  next
    case (id x c k)
    have "x \<notin> set (queued s)" by (rule chold_heap(3) [OF O j]) (simp add: id)
    then have "qrep (que s, heap t) (queued s)" by (intro qrep_frame [OF R]) (use id in auto)
    with id W hist show ?thesis by (simp add: que_inv_def)
  next
    case (link x c q h)
    have "W_wait \<notin> set (wk s)" using wcrit_not_ccrit [OF M j] link by fastforce
    with link W hist show ?thesis by (simp add: que_inv_def queued_post [OF Q])
  next
    case (abort r n)
    have "own s exit_task = 0" using dest_pc [OF D j] abort by (auto simp: OK_def)
    then have "qrep (que s, heap t) (queued s)" by (intro qrep_frame [OF R]) (use abort ex in auto)
    with abort W hist show ?thesis by (simp add: que_inv_def)
  next
    case (over n)
    have "own s exit_task = 0" using dest_pc [OF D j] over by auto
    then have "qrep (que s, heap t) (queued s)" by (intro qrep_frame [OF R]) (use over ex in auto)
    with over W hist show ?thesis by (simp add: que_inv_def)
  next
    case (wake x c i)
    with W have "W_take \<in> set (wk t) \<longrightarrow> queued s \<noteq> []" "W_wait \<in> set (wk t) \<longrightarrow> queued s = []"
      by (auto dest!: set_upd_cases)
    with wake R hist show ?thesis by (simp add: que_inv_def)
  qed (use R W hist in \<open>simp_all add: que_inv_def\<close>)
qed

section \<open>Ownership\<close>

lemma own_wk:
  assumes Q: "que_inv s" and i: "i < length (wk s)" and st: "wk_ok i s t"
  shows "own t x \<le> own s x"
  using st by cases (use i in \<open>auto simp: own_def queued_take [OF Q]\<close>)

lemma own_wk_drop:
  assumes i: "i < length (wk s)" and st: "wk_ok i s t" and w: "wk s ! i = W_free x \<or> wk s ! i = W_run x \<and> x = exit_task"
  shows "own t x = own s x - 1"
  using st by cases (use i w in \<open>auto simp: own_def\<close>)

lemma own_ge:
  "j < length (cl s) \<Longrightarrow> chold (cl s ! j) = Some x \<Longrightarrow> 1 \<le> own s x"
  "i < length (wk s) \<Longrightarrow> whold (wk s ! i) = Some x \<Longrightarrow> 1 \<le> own s x"
  "i < length (wk s) \<Longrightarrow> whold (wk s ! i) = Some x \<Longrightarrow> j < length (cl s) \<Longrightarrow> chold (cl s ! j) = Some x \<Longrightarrow> 2 \<le> own s x"
proof -
  note n = cnt_nonneg [of "\<lambda>w. whold w = Some x" "wk s"] cnt_nonneg [of "\<lambda>c. chold c = Some x" "cl s"]
  show "1 \<le> own s x" if "j < length (cl s)" "chold (cl s ! j) = Some x"
    using cnt_ge1 [of j "cl s" "\<lambda>c. chold c = Some x"] that n unfolding own_def by linarith
  show "1 \<le> own s x" if "i < length (wk s)" "whold (wk s ! i) = Some x"
    using cnt_ge1 [of i "wk s" "\<lambda>c. whold c = Some x"] that n unfolding own_def by linarith
  show "2 \<le> own s x" if "i < length (wk s)" "whold (wk s ! i) = Some x" "j < length (cl s)" "chold (cl s ! j) = Some x"
    using cnt_ge1 [of i "wk s" "\<lambda>c. whold c = Some x"] cnt_ge1 [of j "cl s" "\<lambda>c. chold c = Some x"] that
    unfolding own_def by linarith
qed

lemma own_inv_wk:
  assumes Q: "que_inv s" and O: "own_inv s" and i: "i < length (wk s)" and st: "wk_ok i s t"
  shows "own_inv t"
proof -
  have o: "own s x \<le> 1" "own s x > 0 \<Longrightarrow> x \<noteq> 0 \<and> heap s x \<noteq> None" for x
    using O by (simp_all add: own_inv_def)
  have h: "heap s x = Some k \<Longrightarrow> t_handler k = Exit_handler \<longleftrightarrow> x = exit_task" for x k
    using O by (simp add: own_inv_def)
  have n: "P_signal y c \<in> set (cl s) \<or> P_link y c \<in> set (cl s) \<Longrightarrow> map_option t_next (heap s y) = Some 0" for y c
    using O unfolding own_inv_def by blast
  have c: "cl t = cl s" using st by cases simp_all
  have le: "own t x \<le> own s x" for x by (rule own_wk [OF Q i st])
  have fr: "W_free exit_task \<notin> set (wk t)"
    using st O by cases (auto simp: own_inv_def dest!: set_upd_cases)
  show ?thesis
  proof (cases "\<exists>x. wk s ! i = W_free x")
    case True
    then obtain y where y: "wk s ! i = W_free y" by blast
    from st have ht: "heap t = (heap s)(y := None)" by cases (use y in simp_all)
    have "own t x > 0 \<Longrightarrow> x \<noteq> 0 \<and> heap t x \<noteq> None" for x
      using o(1) [of x] o(2) [of x] le [of x] own_wk_drop [OF i st, of y] y by (cases "x = y") (auto simp: ht)
    moreover have "own t x \<le> 1" for x using le [of x] o(1) [of x] by simp
    moreover have "map_option t_next (heap t z) = Some 0" if z: "P_signal z c \<in> set (cl t) \<or> P_link z c \<in> set (cl t)" for z c
    proof -
      from z c obtain j where j: "j < length (cl s)" "chold (cl s ! j) = Some z"
        by (metis chold.simps(4,5) in_set_conv_nth)
      have "z \<noteq> y" using own_ge(3) [OF i _ j, of] y o(1) [of z] by fastforce
      with n z c show ?thesis by (simp add: ht)
    qed
    moreover have "heap t x = Some k \<longrightarrow> (t_handler k = Exit_handler \<longleftrightarrow> x = exit_task)" for x k
      using h by (simp add: ht)
    ultimately show ?thesis using fr unfolding own_inv_def by blast
  next
    case False
    from st have ht: "heap t = heap s" by cases (use False in auto)
    have "own t x > 0 \<Longrightarrow> x \<noteq> 0 \<and> heap t x \<noteq> None" for x using o(2) [of x] le [of x] by (simp add: ht)
    moreover have "own t x \<le> 1" for x using le [of x] o(1) [of x] by simp
    ultimately show ?thesis using fr h n unfolding own_inv_def ht c by blast
  qed
qed

lemma own_0I: "own_inv s \<Longrightarrow> heap s x = None \<Longrightarrow> own s x = 0"
proof -
  assume "own_inv s" "heap s x = None"
  then have "\<not> 0 < own s x" by (auto simp: own_inv_def)
  moreover have "0 \<le> own s x" by (simp add: own_def)
  ultimately show ?thesis by linarith
qed

lemma own_cl:
  assumes Q: "que_inv s" and j: "j < length (cl s)" and st: "cl_ok j s t"
  shows "own t x \<le> own s x + (if chold (cl s ! j) = None \<and> chold (cl t ! j) = Some x then 1 else 0)"
  using st by cases (use j in \<open>auto simp: own_def queued_post [OF Q] nth_list_update simp del: drop_append\<close>)

lemma dest_own_0:
  assumes "dest_inv s" "j < length (cl s)"
    "cl s ! j = D_loop k \<or> cl s ! j = P_unlock r (Destroyer k) \<and> r \<noteq> OK"
  shows "own s exit_task = 0"
proof -
  have "\<not> client_pc (cl s ! j)" using assms(3) by auto
  with dest_pc(2) [OF assms(1,2)] assms(3) show ?thesis by auto
qed

text \<open>A client takes a task into its hands only when nobody has it.\<close>

lemma own_cl_new:
  assumes O: "own_inv s" and D: "dest_inv s" and j: "j < length (cl s)" and st: "cl_ok j s t"
    and y: "chold (cl s ! j) = None" "chold (cl t ! j) = Some y"
  shows "own s y = 0" "y \<noteq> 0" "heap t y \<noteq> None"
proof -
  have "own s y = 0 \<and> y \<noteq> 0 \<and> heap t y \<noteq> None" using st
  proof cases
    case (post a)
    then show ?thesis using y j own_0I [OF O, of a] by simp
  next
    case (round k)
    then have "heap s exit_task \<noteq> None" using dest_pc(2) [OF D j] by simp
    with round show ?thesis using y j dest_own_0 [OF D j, of k] by (simp add: exit_task_def)
  qed (use j y in simp_all)
  then show "own s y = 0" "y \<noteq> 0" "heap t y \<noteq> None" by simp_all
qed

lemma heap_cl_keep:
  assumes O: "own_inv s" and D: "dest_inv s" and j: "j < length (cl s)" and st: "cl_ok j s t"
    and x: "own s x > 0"
  shows "heap t x \<noteq> None"
proof -
  have h: "heap s x \<noteq> None" using O x by (simp add: own_inv_def)
  show ?thesis using st
  proof cases
    case (link y c q h)
    then have "dom (heap t) = dom (heap s)" by simp
    with h show ?thesis by (metis domIff)
  next
    case (abort r k)
    then have "x \<noteq> exit_task" using dest_own_0 [OF D j, of k r] x by auto
    with abort h show ?thesis by simp
  next
    case (over k)
    then have "x \<noteq> exit_task" using dest_own_0 [OF D j, of k] x by auto
    with over h show ?thesis by simp
  qed (use h in simp_all)
qed

lemma own_cl_bounds:
  assumes Q: "que_inv s" and O: "own_inv s" and D: "dest_inv s" and j: "j < length (cl s)"
    and st: "cl_ok j s t"
  shows "own t x \<le> 1" "own t x > 0 \<Longrightarrow> x \<noteq> 0 \<and> heap t x \<noteq> None"
proof -
  have o: "own s x \<le> 1" "own s x > 0 \<Longrightarrow> x \<noteq> 0" using O by (auto simp: own_inv_def)
  note le = own_cl [OF Q j st, of x]
  show "own t x \<le> 1" using le o(1) own_cl_new(1) [OF O D j st, of x] by (auto split: if_splits)
  show "x \<noteq> 0 \<and> heap t x \<noteq> None" if "own t x > 0"
  proof (cases "own s x > 0")
    case True
    with o(2) heap_cl_keep [OF O D j st True] show ?thesis by simp
  next
    case False
    with le that have "chold (cl s ! j) = None" "chold (cl t ! j) = Some x" by (auto split: if_splits)
    with own_cl_new(2,3) [OF O D j st] show ?thesis by simp
  qed
qed

lemma handlers_cl:
  assumes O: "own_inv s" and st: "cl_ok j s t" and x: "heap t x = Some k"
  shows "t_handler k = Exit_handler \<longleftrightarrow> x = exit_task"
proof -
  have h: "heap s x = Some k \<Longrightarrow> t_handler k = Exit_handler \<longleftrightarrow> x = exit_task" for x k
    using O by (simp add: own_inv_def)
  show ?thesis using st
  proof cases
    case (link y c q h')
    have "map_option t_handler (h' x) = Some (t_handler k)" using x link(1) by simp
    then have "map_option t_handler (heap s x) = Some (t_handler k)" unfolding link(5) .
    then obtain k' where "heap s x = Some k'" "t_handler k' = t_handler k" by auto
    with h show ?thesis by metis
  qed (use h x in \<open>auto simp: exit_task_def split: if_splits\<close>)
qed

lemma next_cl:
  assumes O: "own_inv s" and M: "mtx_inv s" and D: "dest_inv s" and j: "j < length (cl s)"
    and st: "cl_ok j s t" and y: "p \<in> set (cl t)" "p = P_signal y c \<or> p = P_link y c"
  shows "map_option t_next (heap t y) = Some 0"
proof -
  have n: "map_option t_next (heap s y) = Some 0" if "q \<in> set (cl s)" "q = P_signal y c \<or> q = P_link y c" for q
    using O that unfolding own_inv_def by blast
  have n0: "1 \<le> own s y" if "q \<in> set (cl s)" "q = P_signal y c \<or> q = P_link y c" for q
  proof -
    from that obtain k where "k < length (cl s)" "chold (cl s ! k) = Some y" by (auto simp: in_set_conv_nth)
    then show ?thesis by (rule own_ge(1))
  qed
  have cr: "ccrit p" using y(2) by auto
  have old: "p \<in> set (cl s)" if "cl t = (cl s)[j := v]" "p \<noteq> v" for v
    using y(1) that set_upd_cases by metis
  have only: "p = v" if "cl t = (cl s)[j := v]" "ccrit (cl s ! j)" for v
    using ccrit_only [OF M j that(2)] y(1) cr that(1) by metis
  show ?thesis using st
  proof cases
    case (post a)
    then have p: "p \<in> set (cl s)" using old [of "P_lock a Client"] y(2) by auto
    have "own s a = 0" by (rule own_0I [OF O]) (simp add: post)
    then have "y \<noteq> a" using n0 [OF p y(2)] by auto
    with n [OF p y(2)] post show ?thesis by simp
  next
    case destroy
    then have p: "p \<in> set (cl s)" using old [of "D_loop 0"] y(2) by auto
    with destroy(4) y(2) show ?thesis by (auto simp: in_set_conv_nth)
  next
    case (id x d k)
    then have "p = P_signal x d" by (intro only) simp_all
    with id y(2) show ?thesis by auto
  next
    case (link x d q h)
    then have "p = P_inc d" by (intro only) simp_all
    with y(2) show ?thesis by auto
  next
    case (abort r k)
    then have p: "p \<in> set (cl s)" using old [of D_return] y(2) by auto
    have "y \<noteq> exit_task" using n0 [OF p y(2)] dest_own_0 [OF D j, of k r] abort by auto
    with n [OF p y(2)] abort show ?thesis by simp
  next
    case (over k)
    then have p: "p \<in> set (cl s)" using old [of D_return] y(2) by auto
    have "y \<noteq> exit_task" using n0 [OF p y(2)] dest_own_0 [OF D j, of k] over by auto
    with n [OF p y(2)] over show ?thesis by simp
  next
    case (signal x d)
    then have p: "p = P_link x d" by (intro only) simp_all
    have "P_signal x d \<in> set (cl s)" using signal j by (metis nth_mem)
    with n p y(2) signal show ?thesis by auto
  next
    case (wake x d i)
    then have p: "p = P_link x d" by (intro only) simp_all
    have "P_signal x d \<in> set (cl s)" using wake j by (metis nth_mem)
    with n p y(2) wake show ?thesis by auto
  next
    case (spin k)
    with n [OF _ y(2)] y(1) show ?thesis by simp
  qed (use old n [OF _ y(2)] y(2) in \<open>auto\<close>)
qed

lemma own_inv_cl:
  assumes Q: "que_inv s" and O: "own_inv s" and M: "mtx_inv s" and D: "dest_inv s"
    and j: "j < length (cl s)" and st: "cl_ok j s t"
  shows "own_inv t"
proof -
  have w: "W_free exit_task \<notin> set (wk t)"
    using st O by cases (auto simp: own_inv_def dest!: set_upd_cases)
  show ?thesis unfolding own_inv_def
    using own_cl_bounds [OF Q O D j st] handlers_cl [OF O st] w next_cl [OF O M D j st] by blast
qed

lemma own_nonneg: "0 \<le> own s x"
  by (simp add: own_def)

section \<open>The counter and the wakeups\<close>

lemma cnt_inv_wk:
  assumes Q: "que_inv s" and C: "cnt_inv s" and i: "i < length (wk s)" and st: "wk_ok i s t"
  shows "cnt_inv t"
proof -
  have c: "waiting s = int (length (queued s)) - cnt pend (wk s) - cnt is_inc (cl s)"
    "waiting s \<le> max_queue s" "\<forall>c\<in>set (cl s). has_room c \<longrightarrow> waiting s < max_queue s"
    using C unfolding cnt_inv_def by blast+
  show ?thesis using st by cases (use i c in \<open>auto simp: cnt_inv_def queued_take [OF Q]\<close>)
qed

lemma cnt_inv_cl:
  assumes Q: "que_inv s" and M: "mtx_inv s" and C: "cnt_inv s" and j: "j < length (cl s)" and st: "cl_ok j s t"
  shows "cnt_inv t"
proof -
  have c: "waiting s = int (length (queued s)) - cnt pend (wk s) - cnt is_inc (cl s)"
    "waiting s \<le> max_queue s" and r: "\<And>c. c \<in> set (cl s) \<Longrightarrow> has_room c \<Longrightarrow> waiting s < max_queue s"
    using C unfolding cnt_inv_def by blast+
  have rj: "has_room (cl s ! j) \<Longrightarrow> waiting s < max_queue s" using r [of "cl s ! j"] j by simp
  have r': "waiting s < max_queue s" if "c \<in> set ((cl s)[j := v])" "has_room c" "\<not> has_room v \<or> has_room (cl s ! j)" for c v
    using set_upd_cases [OF that(1)] r rj that(2,3) by auto
  show ?thesis using st
  proof cases
    case (inc c)
    have n: "\<not> has_room d" if "d \<in> set ((cl s)[j := P_unlock OK c])" for d
    proof
      assume d: "has_room d"
      then have "ccrit d" by (cases d) simp_all
      with ccrit_only [OF M j _ that] inc have "d = P_unlock OK c" by simp
      with d show False by simp
    qed
    from rj inc have "waiting s < max_queue s" by simp
    with inc c n j show ?thesis by (auto simp: cnt_inv_def)
  next
    case (room x c)
    then show ?thesis using c j by (simp add: cnt_inv_def)
  next
    case (link x c q h)
    then show ?thesis using c j rj by (simp add: cnt_inv_def queued_post [OF Q] del: drop_append)
  next
    case (spin n)
    then show ?thesis using C by simp
  qed (use c j rj in \<open>auto simp: cnt_inv_def dest: r'\<close>)
qed

text \<open>The worker that has the exit task in its hands runs it while the destroyer spins.\<close>

lemma holds_exit:
  assumes O: "own_inv s" and D: "dest_inv s" and i: "i < length (wk s)" "whold (wk s ! i) = Some exit_task"
  obtains d n where "destroyer s = Some d" "d < length (cl s)" "cl s ! d = D_spin n" "dlock s" "queued s = []"
    "\<And>j. j < length (cl s) \<Longrightarrow> j \<noteq> d \<Longrightarrow> cl s ! j = C_idle" "exits s = int n" "n < length (wk s)"
proof -
  have 1: "1 \<le> own s exit_task" by (rule own_ge(2) [OF i])
  have 2: "own s exit_task \<le> 1" using O by (simp add: own_inv_def)
  have nq: "exit_task \<notin> set (queued s)" by (rule whold_not_queued [OF O i])
  have nc: "chold (cl s ! d) \<noteq> Some exit_task" if "d < length (cl s)" for d
    using own_ge(3) [OF i that] 2 by auto
  from 1 D obtain d where d: "destroyer s = Some d" "d < length (cl s)" "dest_ok s (cl s ! d)"
    "\<forall>j<length (cl s). j \<noteq> d \<longrightarrow> cl s ! j = C_idle"
    by (auto simp: dest_inv_def split: option.splits)
  have le: "queued s \<noteq> [] \<Longrightarrow> last (queued s) \<noteq> exit_task" using nq last_in_set [of "queued s"] by fastforce
  with d(3) 1 nc [OF d(2)] le obtain n where "cl s ! d = D_spin n"
    by (cases "cl s ! d") (auto simp: d_posting_def d_posted_def split: if_splits)
  moreover from this d(3) 1 le have "dlock s" "queued s = []" "exits s = int n" "n < length (wk s)"
    by (auto split: if_splits)
  ultimately show ?thesis using that d by blast
qed

lemma wake_inv_wk:
  assumes Q: "que_inv s" and O: "own_inv s" and M: "mtx_inv s" and D: "dest_inv s" and W: "wake_inv s"
    and i: "i < length (wk s)" and st: "wk_ok i s t"
  shows "wake_inv t"
proof -
  have w: "W_blocked False \<in> set (wk s) \<Longrightarrow> int (length (queued s)) + cnt is_link (cl s) \<le> cnt awake (wk s)"
    using W by (simp add: wake_inv_def)
  have old: "W_blocked False \<in> set ((wk s)[i := v]) \<Longrightarrow> v \<noteq> W_blocked False \<Longrightarrow> W_blocked False \<in> set (wk s)" for v
    using set_upd_cases by metis
  show ?thesis using st
  proof cases
    case wait
    then have "W_wait \<in> set (wk s)" using i by (metis nth_mem)
    then have "queued s = []" using Q by (simp add: que_inv_def)
    moreover have "cnt is_link (cl s) = 0"
      unfolding cnt_0 using ccrit_not_wcrit [OF M i] wait by (metis ccrit.simps(4) is_link.elims(2) wcrit.simps(3))
    ultimately show ?thesis using wait by (simp add: wake_inv_def del: cnt_upd)
  next
    case exit
    then have "whold (wk s ! i) = Some exit_task" by simp
    then obtain d n where d: "cl s ! d = D_spin n" "queued s = []" "\<And>j. j < length (cl s) \<Longrightarrow> j \<noteq> d \<Longrightarrow> cl s ! j = C_idle"
      using holds_exit [OF O D i] by metis
    have "\<not> is_link (cl s ! j)" if "j < length (cl s)" for j
      using d(1) d(3) [OF that] by (cases "j = d") simp_all
    then have "cnt is_link (cl s) = 0" unfolding cnt_0 by (auto simp: in_set_conv_nth)
    with d(2) exit show ?thesis by (simp add: wake_inv_def del: cnt_upd)
  next
    case (take x ts q)
    then show ?thesis using i w old [of "W_unlock x"] by (auto simp: wake_inv_def awake_def queued_take [OF Q])
  qed (use i w in \<open>auto simp: wake_inv_def awake_def dest!: old\<close>)
qed

lemma wake_inv_cl:
  assumes Q: "que_inv s" and W: "wake_inv s" and j: "j < length (cl s)" and st: "cl_ok j s t"
  shows "wake_inv t"
proof -
  have w: "W_blocked False \<in> set (wk s) \<Longrightarrow> int (length (queued s)) + cnt is_link (cl s) \<le> cnt awake (wk s)"
    using W by (simp add: wake_inv_def)
  show ?thesis using st
  proof cases
    case (wake x c i)
    then have "W_blocked False \<in> set (wk s)" by (metis nth_mem)
    with w wake j show ?thesis by (simp add: wake_inv_def awake_def)
  next
    case (link x c q h)
    then show ?thesis using w j by (simp add: wake_inv_def queued_post [OF Q] del: drop_append)
  qed (use w j in \<open>auto simp: wake_inv_def\<close>)
qed

lemma wake_inv_spurious:
  assumes "wake_inv s" "i < length (wk s)" "wk s ! i = W_blocked False"
  shows "wake_inv (setw i (W_blocked True) s)"
proof -
  have "W_blocked False \<in> set (wk s)" using assms(2,3) by (metis nth_mem)
  with assms show ?thesis by (simp add: wake_inv_def awake_def)
qed

section \<open>The rounds of thread\_pool\_destroy\<close>

lemma dest_ok_frame:
  assumes "dest_ok s c" "exits t = exits s" "queued t = queued s" "own t exit_task = own s exit_task"
    "heap t exit_task = None \<longrightarrow> heap s exit_task = None" "freed t = freed s" "dlock t = dlock s"
    "length (wk t) = length (wk s)"
    "(\<exists>w\<in>set (wk s). whold w = Some exit_task) \<Longrightarrow> (\<exists>w\<in>set (wk t). whold w = Some exit_task)"
  shows "dest_ok t c"
proof -
  have "wk t = [] \<longleftrightarrow> wk s = []" using assms(8) by (metis length_0_conv)
  with assms show ?thesis
    by (cases c) (auto simp: d_posting_def d_posted_def split: if_splits)
qed

lemma whold_upd:
  assumes "\<exists>w\<in>set ws. whold w = Some x" "i < length ws" "whold v = Some x \<or> whold (ws ! i) \<noteq> Some x"
  shows "\<exists>w\<in>set (ws[i := v]). whold w = Some x"
proof -
  from assms(1) obtain k where k: "k < length ws" "whold (ws ! k) = Some x" by (auto simp: in_set_conv_nth)
  show ?thesis
  proof (cases "k = i")
    case True
    with k assms have "whold v = Some x" by auto
    moreover have "v \<in> set (ws[i := v])" using assms(2) by (simp add: set_update_memI)
    ultimately show ?thesis by blast
  next
    case False
    with k have "ws[i := v] ! k = ws ! k" by simp
    with k show ?thesis by (metis length_list_update nth_mem)
  qed
qed

lemma own_wk_same:
  assumes Q: "que_inv s" and i: "i < length (wk s)" and st: "wk_ok i s t"
    and w: "wk s ! i \<noteq> W_free x" "wk s ! i \<noteq> W_run x \<or> x \<noteq> exit_task"
  shows "own t x = own s x"
  using st by cases (use i w in \<open>auto simp: own_def queued_take [OF Q]\<close>)

lemma dest_ok_wk:
  assumes Q: "que_inv s" and O: "own_inv s" and M: "mtx_inv s" and D: "dest_inv s"
    and i: "i < length (wk s)" and st: "wk_ok i s t"
    and d: "destroyer s = Some d"
  shows "dest_ok t (cl s ! d)"
proof -
  have dl: "d < length (cl s)" and ok: "dest_ok s (cl s ! d)" using D d by (simp_all add: dest_inv_def)
  show ?thesis
  proof (cases "wk s ! i = W_take \<or> wk s ! i = W_run exit_task")
    case False
    have "wk s ! i \<noteq> W_free exit_task" using O i by (auto simp: own_inv_def in_set_conv_nth)
    then have o: "own t exit_task = own s exit_task" using own_wk_same [OF Q i st] False by simp
    have f: "exits t = exits s \<and> queued t = queued s \<and> (heap t exit_task = None \<longrightarrow> heap s exit_task = None)
      \<and> freed t = freed s \<and> dlock t = dlock s \<and> length (wk t) = length (wk s)"
      using st by cases (use False i in \<open>auto simp: exits_def\<close>)
    have "\<exists>w\<in>set (wk t). whold w = Some exit_task" if "\<exists>w\<in>set (wk s). whold w = Some exit_task"
      using st by cases (use that False i whold_upd [OF that i] in auto)
    with dest_ok_frame [OF ok _ _ o] f show ?thesis by blast
  next
    case True
    from st show ?thesis
    proof cases
      case (take x ts q)
      have "W_take \<in> set (wk s)" using take i by (metis nth_mem)
      have qt: "queued t = ts" "exits t = exits s" "own t exit_task = own s exit_task" "freed t = freed s"
        "heap t = heap s" "dlock t = dlock s" "length (wk t) = length (wk s)"
        using take i own_wk_same [OF Q i st, of exit_task] by (simp_all add: queued_take [OF Q] exits_def)
      have "\<exists>w\<in>set (wk t). whold w = Some x"
        using take i by (auto intro!: bexI [of _ "W_unlock x"] simp: set_update_memI)
      moreover have "mtx s = Some (Wk i)" using crit_mtx(1) [OF M i] take by simp
      then have "\<not> ccrit (cl s ! d)" using crit_mtx(2) [OF M dl] by simp
      moreover have "\<not> freed s" by (rule not_freed_w [OF D i]) (simp add: take)
      ultimately show ?thesis using ok qt take(3)
        by (cases "cl s ! d") (auto simp: d_posting_def split: if_splits)
    next
      case exit
      then have "whold (wk s ! i) = Some exit_task" by simp
      from holds_exit [OF O D i this] obtain n where n: "cl s ! d = D_spin n" "queued s = []" "exits s = int n"
        "n < length (wk s)" using d by (metis option.inject)
      have "own t exit_task = own s exit_task - 1" by (rule own_wk_drop [OF i st]) (simp add: exit)
      moreover have "own s exit_task \<le> 1" "1 \<le> own s exit_task"
        using O own_ge(2) [OF i, of exit_task] exit by (simp_all add: own_inv_def)
      ultimately show ?thesis using ok n exit i by (auto simp: exits_def)
    qed (use True in simp_all)
  qed
qed

lemma dest_inv_wk:
  assumes Q: "que_inv s" and O: "own_inv s" and M: "mtx_inv s" and D: "dest_inv s"
    and i: "i < length (wk s)" and st: "wk_ok i s t"
  shows "dest_inv t"
proof -
  have c: "cl t = cl s" "destroyer t = destroyer s" "freed t = freed s" using st by (cases, simp_all)+
  show ?thesis
  proof (cases "destroyer s")
    case None
    then have n: "own s exit_task = 0" "exits s = 0" "\<not> freed s" "\<forall>c\<in>set (cl s). client_pc c"
      using D by (simp_all add: dest_inv_def)
    have "own t exit_task = 0" using own_wk [OF Q i st, of exit_task] n(1) own_nonneg [of t exit_task] by linarith
    moreover have w: "whold (wk s ! i) \<noteq> Some exit_task" using own_ge(2) [OF i, of exit_task] n(1) by auto
    from st have "exits t = 0" by cases (use w i n(2) in \<open>auto simp: exits_def\<close>)
    ultimately show ?thesis using None n c by (simp add: dest_inv_def)
  next
    case (Some d)
    with dest_ok_wk [OF Q O M D i st Some] D c show ?thesis by (simp add: dest_inv_def)
  qed
qed

lemma own_cl_gone:
  assumes j: "j < length (cl s)" and st: "cl_ok j s t"
    and x: "chold (cl s ! j) = Some x" "cl t ! j = P_unlock ERROR c"
  shows "own t x = own s x - 1"
  using st by cases (use j x in \<open>auto simp: own_def\<close>)

lemma own_cl_same:
  assumes Q: "que_inv s" and j: "j < length (cl s)" and st: "cl_ok j s t"
    and x: "chold (cl s ! j) = chold (cl t ! j)"
  shows "own t x = own s x"
  using st by cases (use j x in \<open>auto simp: own_def split: if_splits\<close>)

lemma dest_inv_cl_none:
  assumes O: "own_inv s" and Q: "que_inv s" and D: "dest_inv s" and j: "j < length (cl s)" and st: "cl_ok j s t"
    and d: "destroyer s = None"
  shows "dest_inv t"
proof -
  have n: "own s exit_task = 0" "exits s = 0" "\<not> freed s" and c: "\<And>k. k < length (cl s) \<Longrightarrow> client_pc (cl s ! k)"
    using D d by (auto simp: dest_inv_def)
  have cj: "client_pc (cl s ! j)" by (rule c [OF j])
  have set: "client_pc v \<Longrightarrow> \<forall>c\<in>set ((cl s)[j := v]). client_pc c" for v
    using c set_upd_cases by (metis in_set_conv_nth)
  have "\<not> (chold (cl s ! j) = None \<and> chold (cl t ! j) = Some exit_task)"
    using st by cases (use cj j in auto)
  then have "own t exit_task \<le> 0" using own_cl [OF Q j st, of exit_task] n(1) by (simp split: if_splits)
  then have o: "own t exit_task = 0" using own_nonneg [of t exit_task] by linarith
  show ?thesis using st
  proof cases
    case destroy
    with o n j show ?thesis by (auto simp: dest_inv_def exits_def)
  next
    case (wake x e i)
    with o n d cj show ?thesis by (auto simp: dest_inv_def exits_def intro!: set)
  qed (use o n d cj c in \<open>auto simp: dest_inv_def exits_def in_set_conv_nth intro!: set\<close>)
qed

lemma dest_ok_cl:
  assumes Q: "que_inv s" and O: "own_inv s" and j: "j < length (cl s)" and st: "cl_ok j s t"
    and ok: "dest_ok s (cl s ! j)" and d: "destroyer s \<noteq> None"
  shows "dest_ok t (cl t ! j)"
proof -
  have le: "own s exit_task \<le> 1" using O by (simp add: own_inv_def)
  note gone = own_cl_gone [OF j st, of exit_task] and same = own_cl_same [OF Q j st, of exit_task]
  show ?thesis using st
  proof cases
    case (full x c)
    then have "x = exit_task" "own s exit_task \<ge> 1"
      using ok own_ge(1) [OF j, of exit_task] by (auto simp: d_posting_def)
    with gone [of c] le own_nonneg [of t exit_task] full ok j show ?thesis
      by (auto simp: d_posting_def OK_def ERROR_def)
  next
    case (sigfail x c)
    then have "x = exit_task" "own s exit_task \<ge> 1"
      using ok own_ge(1) [OF j, of exit_task] by (auto simp: d_posting_def)
    with gone [of c] le own_nonneg [of t exit_task] sigfail ok j show ?thesis
      by (auto simp: d_posting_def OK_def ERROR_def)
  next
    case (link x c q h)
    with ok j show ?thesis
      by (auto simp: d_posting_def d_posted_def exits_def queued_post [OF Q] simp del: drop_append)
  next
    case (posted n)
    have "exit_task \<in> set (queued s)" using posted ok last_in_set [of "queued s"] by (auto simp: d_posted_def)
    then have "own s exit_task > 0" using own_0_queued [of s exit_task] own_nonneg [of s exit_task] by fastforce
    then have "heap s exit_task \<noteq> None" using O by (simp add: own_inv_def)
    with posted ok j show ?thesis by (auto simp: d_posted_def exits_def)
  next
    case (over n)
    with ok j same show ?thesis by (auto simp: exits_def)
  next
    case (return r)
    with ok show ?thesis by (simp add: d_posted_def split: if_splits)
  qed (use ok j d same in \<open>auto simp: d_posting_def d_posted_def exits_def\<close>)
qed

lemma dest_inv_cl:
  assumes Q: "que_inv s" and O: "own_inv s" and D: "dest_inv s" and j: "j < length (cl s)" and st: "cl_ok j s t"
  shows "dest_inv t"
proof (cases "destroyer s")
  case None
  then show ?thesis by (rule dest_inv_cl_none [OF O Q D j st])
next
  case (Some d)
  have idle: "cl s ! j \<noteq> C_idle" using st by cases (use Some in auto)
  with Some D j have dj: "d = j" "dest_ok s (cl s ! j)"
    "\<And>k. k < length (cl s) \<Longrightarrow> k \<noteq> j \<Longrightarrow> cl s ! k = C_idle"
    by (auto simp: dest_inv_def)
  have "dest_ok t (cl t ! j)" by (rule dest_ok_cl [OF Q O j st dj(2)]) (simp add: Some)
  moreover have "destroyer t = Some j \<and> length (cl t) = length (cl s) \<and> (\<forall>k. k \<noteq> j \<longrightarrow> cl t ! k = cl s ! k)"
    using st by cases (use Some dj(1) idle in auto)
  ultimately show ?thesis using dj(3) j by (simp add: dest_inv_def)
qed

section \<open>The invariant\<close>

lemma tp_inv_worker:
  assumes I: "tp_inv s" and st: "worker_step i s = Some t"
  shows "tp_inv t"
proof -
  note J = tp_invD [OF I]
  from worker_regular [OF I st] have i: "i < length (wk s)" and r: "wk_ok i s t" by simp_all
  have "bad t = bad s" using r by cases simp_all
  with J mtx_wk [OF J(1) i r] que_wk [OF J(2,3,1) i r] own_inv_wk [OF J(2,3) i r]
    cnt_inv_wk [OF J(2,4) i r] wake_inv_wk [OF J(2,3,1,6,5) i r] dest_inv_wk [OF J(2,3,1,6) i r]
  show ?thesis by (simp add: tp_inv_def)
qed

lemma tp_inv_client:
  assumes I: "tp_inv s" and st: "client_step j x s = Some t"
  shows "tp_inv t"
proof -
  note J = tp_invD [OF I]
  from client_regular [OF I st] have j: "j < length (cl s)" and r: "cl_ok j s t" by simp_all
  have "bad t = bad s" using r by cases simp_all
  with J mtx_cl [OF J(1) j r] que_cl [OF J(2,3,1,6) j r] own_inv_cl [OF J(2,3,1,6) j r]
    cnt_inv_cl [OF J(2,1,4) j r] wake_inv_cl [OF J(2,5) j r] dest_inv_cl [OF J(2,3,6) j r]
  show ?thesis by (simp add: tp_inv_def)
qed

lemma tp_inv_spurious:
  assumes I: "tp_inv s" and i: "i < length (wk s)" "wk s ! i = W_blocked False"
  shows "tp_inv (setw i (W_blocked True) s)"
proof -
  note J = tp_invD [OF I]
  let ?t = "setw i (W_blocked True) s"
  have "mtx_inv ?t" using J(1) i by (auto simp: mtx_inv_def nth_list_update)
  moreover have "que_inv ?t" using J(2) by (auto simp: que_inv_def dest!: set_upd_cases)
  moreover have o: "own ?t x = own s x" for x using i by (simp add: own_def)
  have "own_inv ?t" using J(3) by (auto simp: own_inv_def o dest!: set_upd_cases)
  moreover have "cnt_inv ?t" using J(4) i by (auto simp: cnt_inv_def)
  moreover have "wake_inv ?t" by (rule wake_inv_spurious [OF J(5) i])
  moreover have "dest_ok ?t c" if "dest_ok s c" for c
    by (rule dest_ok_frame [OF that]) (use i whold_upd [of "wk s"] in \<open>auto simp: exits_def o\<close>)
  then have "dest_inv ?t" using J(6) i by (auto simp: dest_inv_def o exits_def split: option.splits)
  ultimately show ?thesis using J(7) by (simp add: tp_inv_def)
qed

lemma tp_inv_init: "tp_init threads clients mx s \<Longrightarrow> 0 \<le> mx \<Longrightarrow> tp_inv s"
  by (auto simp: tp_init_def tp_start_def tp_inv_def mtx_inv_def que_inv_def own_inv_def cnt_inv_def
      wake_inv_def dest_inv_def queued_def own_def exits_def qrep_init)

text \<open>The numbers that never change.\<close>

definition tp_const :: "nat \<Rightarrow> int \<Rightarrow> tpool \<Rightarrow> bool" where
  "tp_const threads mx s \<longleftrightarrow> length (wk s) = threads \<and> max_queue s = mx"

lemma tp_const_step:
  assumes "tp_inv s" "tp_step s t"
  shows "length (wk t) = length (wk s) \<and> max_queue t = max_queue s"
  using assms(2)
proof cases
  case (worker i)
  have "wk_ok i s t" using worker_regular [OF assms(1) worker] by simp
  then show ?thesis by cases simp_all
next
  case (client j x)
  have "cl_ok j s t" using client_regular [OF assms(1) client] by simp
  then show ?thesis by cases simp_all
qed simp

lemma tp_inv_step: "tp_inv s \<Longrightarrow> tp_step s t \<Longrightarrow> tp_inv t"
  by (erule tp_stepE) (auto intro: tp_inv_worker tp_inv_client tp_inv_spurious)

interpretation tp: invariant_system "tp_init threads clients (int mx)" tp_step
    "\<lambda>s. tp_inv s \<and> tp_const threads (int mx) s"
proof
  fix s t
  show "tp_inv s \<and> tp_const threads (int mx) s" if "tp_init threads clients (int mx) s"
    using tp_inv_init [OF that] that by (simp add: tp_const_def tp_init_def tp_start_def)
  show "tp_inv t \<and> tp_const threads (int mx) t" if "tp_inv s \<and> tp_const threads (int mx) s" "tp_step s t"
    using tp_inv_step tp_const_step that unfolding tp_const_def by metis
qed

end
