(* ===== verification/Epoll_Comm.thy ===== *)
theory Epoll_Comm
  imports OS_Prelude
begin

text \<open>
  The event framework of \<open>epoll/epoll_framework\<close> (\<open>globals.h\<close>, \<open>comm.c\<close>, \<open>comm_epoll.c\<close>):
  the table of descriptors with their handlers and timers, the mirror of the kernel's
  interest set, and the loop body \<open>comm_select\<close>. The handlers are a parameter \<open>call\<close>; what
  an application has to promise about them is the locale \<open>event_app\<close>. Time is counted in
  microseconds where the code has doubles. Pointers to client data are object numbers, 0 is NULL.
\<close>

section \<open>globals.h\<close>

definition COMM_OK :: int where "COMM_OK = 0"
definition COMM_ERROR :: int where "COMM_ERROR = -1"
definition COMM_TIMEOUT :: int where "COMM_TIMEOUT = -4"

record 'h fde =
  fd_type :: u32
  local_port :: u16
  remote_port :: u16
  local_addr :: u32
  ipaddr :: "byte list"
  read_handler :: "'h option"
  read_data :: nat
  write_handler :: "'h option"
  write_data :: nat
  timeout_handler :: "'h option"
  timeout :: int
  timeout_data :: nat

text \<open>An entry after \<open>calloc\<close> or \<open>memset\<close>.\<close>

definition zero_fde :: "'h fde" where
  "zero_fde = \<lparr>fd_type = 0, local_port = 0, remote_port = 0, local_addr = 0, ipaddr = replicate 16 0,
     read_handler = None, read_data = 0, write_handler = None, write_data = 0,
     timeout_handler = None, timeout = 0, timeout_data = 0\<rparr>"

text \<open>
  The globals of the two C files, and of the kernel the descriptors that are open and the
  interest set of the epoll instance.
\<close>

record 'h comm =
  fd_table :: "'h fde list"
  Biggest_FD :: int
  epoll_state :: "u32 list"
  epoll_fds :: int
  sys_curtime :: int
  current_dtime :: int
  last_timeout :: int
  interest :: "int \<rightharpoonup> u32"
  openfds :: "int list"

section \<open>comm\_epoll.c\<close>

definition EPOLLIN :: u32 where "EPOLLIN = 1"
definition EPOLLOUT :: u32 where "EPOLLOUT = 4"
definition EPOLLERR :: u32 where "EPOLLERR = 8"
definition EPOLLHUP :: u32 where "EPOLLHUP = 16"

lemmas epoll_bits = EPOLLIN_def EPOLLOUT_def EPOLLERR_def EPOLLHUP_def

datatype ctl = EPOLL_CTL_ADD | EPOLL_CTL_DEL | EPOLL_CTL_MOD

text \<open>The numbers of the operations, and \<open>epolltype_atoi\<close>.\<close>

definition epolltype_atoi :: "int \<Rightarrow> string" where
  "epolltype_atoi x = (if x = 1 then ''EPOLL_CTL_ADD'' else if x = 2 then ''EPOLL_CTL_DEL''
     else if x = 3 then ''EPOLL_CTL_MOD'' else ''UNKNOWN_EPOLLCTL_OP'')"

fun ctl_number :: "ctl \<Rightarrow> int" where
  "ctl_number EPOLL_CTL_ADD = 1" | "ctl_number EPOLL_CTL_DEL = 2" | "ctl_number EPOLL_CTL_MOD = 3"

text \<open>\<open>epoll_ctl(2)\<close>: fails on a closed descriptor, on ADD when present, on MOD and DEL when absent.\<close>

fun epoll_ctl :: "ctl \<Rightarrow> int \<Rightarrow> u32 \<Rightarrow> ('h, 'x) comm_scheme \<Rightarrow> int \<times> ('h, 'x) comm_scheme" where
  "epoll_ctl EPOLL_CTL_ADD fd ev s =
     (if fd \<in> set (openfds s) \<and> interest s fd = None then (0, s\<lparr>interest := (interest s)(fd \<mapsto> ev)\<rparr>) else (-1, s))"
| "epoll_ctl EPOLL_CTL_MOD fd ev s =
     (if fd \<in> set (openfds s) \<and> interest s fd \<noteq> None then (0, s\<lparr>interest := (interest s)(fd \<mapsto> ev)\<rparr>) else (-1, s))"
| "epoll_ctl EPOLL_CTL_DEL fd ev s =
     (if fd \<in> set (openfds s) \<and> interest s fd \<noteq> None then (0, s\<lparr>interest := (interest s)(fd := None)\<rparr>) else (-1, s))"

text \<open>\<open>close(2)\<close> also takes the descriptor out of the interest set.\<close>

definition close_fd :: "int \<Rightarrow> ('h, 'x) comm_scheme \<Rightarrow> ('h, 'x) comm_scheme" where
  "close_fd fd s = s\<lparr>openfds := removeAll fd (openfds s), interest := (interest s)(fd := None)\<rparr>"

definition in_table :: "int \<Rightarrow> 'a list \<Rightarrow> bool" where
  "in_table fd xs \<longleftrightarrow> 0 \<le> fd \<and> nat fd < length xs"

definition events_of :: "bool \<Rightarrow> bool \<Rightarrow> u32" where
  "events_of need_read need_write =
     (let ev = (if need_read then EPOLLIN else 0) OR (if need_write then EPOLLOUT else 0)
      in if ev \<noteq> 0 then ev OR (EPOLLHUP OR EPOLLERR) else 0)"

definition ctl_of :: "u32 \<Rightarrow> u32 \<Rightarrow> ctl" where
  "ctl_of old ev = (if ev = 0 then EPOLL_CTL_DEL else if old \<noteq> 0 then EPOLL_CTL_MOD else EPOLL_CTL_ADD)"

definition epollSetEvents :: "int \<Rightarrow> bool \<Rightarrow> bool \<Rightarrow> ('h, 'x) comm_scheme \<Rightarrow> ('h, 'x) comm_scheme res" where
  "epollSetEvents fd need_read need_write s =
     (if fd < 0 then Inl AssertFailed
      else if \<not> in_table fd (epoll_state s) then Inl OutOfBounds
      else let ev = events_of need_read need_write; old = epoll_state s ! nat fd
           in if ev = old then Inr s
              else let t = ctl_of old ev;
                       s1 = s\<lparr>epoll_state := (epoll_state s)[nat fd := ev]\<rparr>;
                       (rc, s2) = epoll_ctl t fd ev s1
                   in Inr (case t of
                        EPOLL_CTL_ADD \<Rightarrow> s2\<lparr>epoll_fds := epoll_fds s2 + 1\<rparr>
                      | EPOLL_CTL_DEL \<Rightarrow> s2\<lparr>epoll_fds := epoll_fds s2 - 1\<rparr>
                      | EPOLL_CTL_MOD \<Rightarrow> s2))"

text \<open>A \<open>calloc\<close> that fails leaves a null table, in which no index is valid.\<close>

definition do_epoll_init :: "bool \<Rightarrow> int \<Rightarrow> ('h, 'x) comm_scheme \<Rightarrow> ('h, 'x) comm_scheme" where
  "do_epoll_init alloc_ok max_fd s =
     s\<lparr>interest := Map.empty, epoll_state := (if alloc_ok then replicate (nat max_fd) 0 else [])\<rparr>"

definition do_epoll_shutdown :: "('h, 'x) comm_scheme \<Rightarrow> ('h, 'x) comm_scheme" where
  "do_epoll_shutdown s = s\<lparr>interest := Map.empty, epoll_state := []\<rparr>"

section \<open>comm.c\<close>

definition MAX_POLL_TIME :: int where "MAX_POLL_TIME = 1000"

definition getCurrentTime :: "int \<Rightarrow> ('h, 'x) comm_scheme \<Rightarrow> ('h, 'x) comm_scheme" where
  "getCurrentTime usec s = s\<lparr>current_dtime := usec, sys_curtime := usec div 1000000\<rparr>"

definition comm_close :: "int \<Rightarrow> ('h, 'x) comm_scheme \<Rightarrow> ('h, 'x) comm_scheme res" where
  "comm_close fd s =
     (if \<not> 0 < fd then Inl AssertFailed
      else if \<not> in_table fd (fd_table s) then Inl OutOfBounds
      else bindE (epollSetEvents fd False False (s\<lparr>fd_table := (fd_table s)[nat fd := zero_fde]\<rparr>))
             (\<lambda>s1. Inr (close_fd fd s1)))"

definition comm_init :: "bool \<Rightarrow> bool \<Rightarrow> int \<Rightarrow> ('h, 'x) comm_scheme \<Rightarrow> ('h, 'x) comm_scheme" where
  "comm_init table_ok state_ok max_fd s =
     (let s1 = (if max_fd > 0 then s\<lparr>Biggest_FD := max_fd\<rparr> else s);
          s2 = s1\<lparr>fd_table := (if table_ok then replicate (nat (Biggest_FD s1)) zero_fde else [])\<rparr>
      in do_epoll_init state_ok (Biggest_FD s2) s2)"

definition comm_select_shutdown :: "('h, 'x) comm_scheme \<Rightarrow> ('h, 'x) comm_scheme" where
  "comm_select_shutdown s = (do_epoll_shutdown s)\<lparr>fd_table := []\<rparr>"

text \<open>A call of a handler: the function, its two arguments, and what the system answers to it.\<close>

type_synonym ('h, 'e, 'x) call = "'h \<Rightarrow> int \<Rightarrow> nat \<Rightarrow> 'e \<Rightarrow> ('h, 'x) comm_scheme \<Rightarrow> ('h, 'x) comm_scheme res"

definition comm_call_handlers ::
  "('h, 'e, 'x) call \<Rightarrow> int \<Rightarrow> u32 \<Rightarrow> u32 \<Rightarrow> 'e \<Rightarrow> 'e \<Rightarrow> ('h, 'x) comm_scheme \<Rightarrow> ('h, 'x) comm_scheme res" where
  "comm_call_handlers call fd read_event write_event e1 e2 s =
     (if \<not> in_table fd (fd_table s) then Inl OutOfBounds
      else let F = fd_table s ! nat fd
           in bindE (case read_handler F of
                None \<Rightarrow> Inr s
              | Some hdl \<Rightarrow> if read_event \<noteq> 0 then call hdl fd (read_data F) e1 s else Inr s)
              (\<lambda>s1. let F1 = fd_table s1 ! nat fd
                    in case write_handler F1 of
                      None \<Rightarrow> Inr s1
                    | Some hdl \<Rightarrow> if write_event \<noteq> 0 then call hdl fd (write_data F1) e2 s1 else Inr s1))"

definition commSetTimeout ::
  "int \<Rightarrow> int \<Rightarrow> 'h option \<Rightarrow> nat \<Rightarrow> ('h, 'x) comm_scheme \<Rightarrow> ('h, 'x) comm_scheme res" where
  "commSetTimeout fd tmo handler data s =
     (if \<not> (0 \<le> fd \<and> fd < Biggest_FD s) then Inl AssertFailed
      else if \<not> in_table fd (fd_table s) then Inl OutOfBounds
      else let F = fd_table s ! nat fd
           in if tmo < 0 then Inr (s\<lparr>fd_table := (fd_table s)[nat fd :=
                  F\<lparr>timeout_handler := None, timeout_data := 0, timeout := 0\<rparr>]\<rparr>)
              else if handler = None \<and> timeout_handler F = None then Inl AssertFailed
              else let F1 = (if handler \<noteq> None \<or> data \<noteq> 0
                     then F\<lparr>timeout_handler := handler, timeout_data := data\<rparr> else F)
                   in Inr (s\<lparr>fd_table := (fd_table s)[nat fd := F1\<lparr>timeout := sys_curtime s + tmo\<rparr>]\<rparr>))"

definition commUpdateReadHandler ::
  "int \<Rightarrow> 'h option \<Rightarrow> nat \<Rightarrow> ('h, 'x) comm_scheme \<Rightarrow> ('h, 'x) comm_scheme res" where
  "commUpdateReadHandler fd handler data s =
     (if \<not> in_table fd (fd_table s) then Inl OutOfBounds
      else epollSetEvents fd True False (s\<lparr>fd_table := (fd_table s)[nat fd :=
             (fd_table s ! nat fd)\<lparr>read_handler := handler, read_data := data\<rparr>]\<rparr>))"

definition commUpdateWriteHandler ::
  "int \<Rightarrow> 'h option \<Rightarrow> nat \<Rightarrow> ('h, 'x) comm_scheme \<Rightarrow> ('h, 'x) comm_scheme res" where
  "commUpdateWriteHandler fd handler data s =
     (if \<not> in_table fd (fd_table s) then Inl OutOfBounds
      else epollSetEvents fd False True (s\<lparr>fd_table := (fd_table s)[nat fd :=
             (fd_table s ! nat fd)\<lparr>write_handler := handler, write_data := data\<rparr>]\<rparr>))"

text \<open>One round of the loop of \<open>checkTimeouts\<close>.\<close>

definition check_fd :: "('h, 'e, 'x) call \<Rightarrow> 'e \<Rightarrow> int \<Rightarrow> ('h, 'x) comm_scheme \<Rightarrow> ('h, 'x) comm_scheme res" where
  "check_fd call e fd s =
     (let F = fd_table s ! nat fd
      in if timeout F = 0 \<or> timeout F > sys_curtime s then Inr s
         else case timeout_handler F of
           Some callback \<Rightarrow> call callback fd (timeout_data F) e
             (s\<lparr>fd_table := (fd_table s)[nat fd := F\<lparr>timeout_handler := None\<rparr>]\<rparr>)
         | None \<Rightarrow> comm_close fd s)"

text \<open>
  The loop runs to \<open>fd <= Biggest_FD\<close>, one entry past the table. \<open>past\<close> is what the timer field
  of the memory there reads as; the loop goes wrong when it looks like an expired timer.
\<close>

fun check_from :: "('h, 'e, 'x) call \<Rightarrow> (nat \<Rightarrow> 'e) \<Rightarrow> int \<Rightarrow> nat \<Rightarrow> nat \<Rightarrow> ('h, 'x) comm_scheme \<Rightarrow> ('h, 'x) comm_scheme res" where
  "check_from call env past fd 0 s =
     (if past = 0 \<or> past > sys_curtime s then Inr s else Inl OutOfBounds)"
| "check_from call env past fd (Suc n) s =
     (if \<not> fd < length (fd_table s) then Inl OutOfBounds
      else bindE (check_fd call (env fd) (int fd) s) (check_from call env past (Suc fd) n))"

definition checkTimeouts :: "('h, 'e, 'x) call \<Rightarrow> (nat \<Rightarrow> 'e) \<Rightarrow> int \<Rightarrow> ('h, 'x) comm_scheme \<Rightarrow> ('h, 'x) comm_scheme res" where
  "checkTimeouts call env past s = check_from call env past 0 (nat (Biggest_FD s)) s"

text \<open>Error numbers of Linux.\<close>

definition ignoreErrno :: "int \<Rightarrow> bool" where
  "ignoreErrno ierrno \<longleftrightarrow> ierrno = 115 \<or> ierrno = 11 \<or> ierrno = 114 \<or> ierrno = 4 \<or> ierrno = 85"

section \<open>The loop body\<close>

definition the_default :: "'a \<Rightarrow> 'a option \<Rightarrow> 'a" where
  "the_default d x = (case x of None \<Rightarrow> d | Some y \<Rightarrow> y)"

text \<open>What \<open>epoll_wait\<close> answers: an error number, or the ready descriptors with their events.\<close>

datatype 'e wait_result = Wait_error int | Ready "(int \<times> u32 \<times> 'e \<times> 'e) list"

fun dispatch :: "('h, 'e, 'x) call \<Rightarrow> (int \<times> u32 \<times> 'e \<times> 'e) list \<Rightarrow> ('h, 'x) comm_scheme \<Rightarrow> ('h, 'x) comm_scheme res" where
  "dispatch call [] s = Inr s"
| "dispatch call ((fd, ev, e1, e2) # evs) s =
     bindE (comm_call_handlers call fd (ev AND NOT EPOLLOUT) (ev AND NOT EPOLLIN) e1 e2 s) (dispatch call evs)"

text \<open>
  \<open>epoll_wait(2)\<close> reports registered descriptors only, at most \<open>MAX_EVENTS\<close> of them, and of
  their events those asked for, besides errors and hangups.
\<close>

definition MAX_EVENTS :: nat where "MAX_EVENTS = 256"

definition epoll_wait :: "'e wait_result \<Rightarrow> ('h, 'x) comm_scheme \<Rightarrow> 'e wait_result" where
  "epoll_wait w s = (case w of
       Wait_error errno \<Rightarrow> Wait_error errno
     | Ready evs \<Rightarrow> Ready (take MAX_EVENTS (filter (\<lambda>(fd, ev, e1, e2). interest s fd \<noteq> None \<and> ev \<noteq> 0)
         (map (\<lambda>(fd, ev, e1, e2). (fd, ev AND (the_default 0 (interest s fd) OR (EPOLLHUP OR EPOLLERR)), e1, e2)) evs))))"

definition do_epoll_select ::
  "('h, 'e, 'x) call \<Rightarrow> 'e wait_result \<Rightarrow> int \<Rightarrow> ('h, 'x) comm_scheme \<Rightarrow> (int \<times> ('h, 'x) comm_scheme) res" where
  "do_epoll_select call w now s = (case epoll_wait w s of
       Wait_error errno \<Rightarrow> Inr (if ignoreErrno errno then COMM_OK else COMM_ERROR, getCurrentTime now s)
     | Ready evs \<Rightarrow> if evs = [] then Inr (COMM_TIMEOUT, s)
                    else bindE (dispatch call evs s) (\<lambda>s1. Inr (COMM_OK, s1)))"

text \<open>The time \<open>comm_select\<close> lets \<open>epoll_wait\<close> sleep, in milliseconds, and whether it checks the timers.\<close>

definition select_wait :: "int \<Rightarrow> ('h, 'x) comm_scheme \<Rightarrow> int \<times> bool" where
  "select_wait msec s =
     (let m = (if msec > MAX_POLL_TIME then MAX_POLL_TIME else msec)
      in if last_timeout s + 999000 < current_dtime s then (m, True)
         else let max_timeout = (last_timeout s + 1000000 - current_dtime s) div 1000
              in (if max_timeout < m then max_timeout else m, False))"

definition comm_select ::
  "('h, 'e, 'x) call \<Rightarrow> (nat \<Rightarrow> 'e) \<Rightarrow> int \<Rightarrow> 'e wait_result \<Rightarrow> int \<Rightarrow> int
     \<Rightarrow> ('h, 'x) comm_scheme \<Rightarrow> (int \<times> ('h, 'x) comm_scheme) res" where
  "comm_select call env past w now msec s =
     bindE (if snd (select_wait msec s) then checkTimeouts call env past (s\<lparr>last_timeout := current_dtime s\<rparr>) else Inr s)
       (\<lambda>s1. bindE (do_epoll_select call w now s1) (\<lambda>(rc, s2). Inr (rc, getCurrentTime now s2)))"

end
