(* ===== verification/Epoll_App.thy ===== *)
theory Epoll_App
  imports Epoll_Comm
begin

text \<open>
  The invariant of the event framework (the table \<open>epoll_state\<close> mirrors the kernel's interest
  set), and the interface \<open>event_app\<close>: what the handlers of an application promise, and
  what the loop of the framework then guarantees.
\<close>

section \<open>The mirror of the interest set\<close>

definition epoll_mirror :: "('h, 'x) comm_scheme \<Rightarrow> bool" where
  "epoll_mirror s \<longleftrightarrow> length (epoll_state s) = nat (Biggest_FD s)
   \<and> (\<forall>fd m. interest s fd = Some m \<longrightarrow> m \<noteq> 0 \<and> in_table fd (epoll_state s) \<and> fd \<in> set (openfds s))
   \<and> (\<forall>i<length (epoll_state s). epoll_state s ! i = the_default 0 (interest s (int i)))
   \<and> epoll_fds s = int (card (dom (interest s)))"

lemma mirror_finite: "epoll_mirror s \<Longrightarrow> finite (dom (interest s))"
  by (rule finite_subset [of _ "{0..<Biggest_FD s}"])
    (auto simp: epoll_mirror_def in_table_def)

definition set_mask :: "u32 \<Rightarrow> u32 option" where
  "set_mask ev = (if ev = 0 then None else Some ev)"

definition registered :: "int \<Rightarrow> u32 \<Rightarrow> int \<Rightarrow> ('h, 'x) comm_scheme \<Rightarrow> ('h, 'x) comm_scheme" where
  "registered fd ev n s = s\<lparr>epoll_state := (epoll_state s)[nat fd := ev], epoll_fds := n,
     interest := (interest s)(fd := set_mask ev)\<rparr>"

lemma registered_sel [simp]:
  "fd_table (registered fd ev n s) = fd_table s" "Biggest_FD (registered fd ev n s) = Biggest_FD s"
  "sys_curtime (registered fd ev n s) = sys_curtime s" "openfds (registered fd ev n s) = openfds s"
  "last_timeout (registered fd ev n s) = last_timeout s"
  "current_dtime (registered fd ev n s) = current_dtime s"
  "interest (registered fd ev n s) = (interest s)(fd := set_mask ev)"
  "epoll_state (registered fd ev n s) = (epoll_state s)[nat fd := ev]"
  by (simp_all add: registered_def)

lemma mirror_registered:
  assumes M: "epoll_mirror s" and fd: "in_table fd (epoll_state s)" "ev \<noteq> 0 \<Longrightarrow> fd \<in> set (openfds s)"
    and n: "n = int (card (dom ((interest s)(fd := set_mask ev))))"
  shows "epoll_mirror (registered fd ev n s)"
  using M fd n
  by (auto simp: epoll_mirror_def registered_def set_mask_def the_default_def in_table_def nth_list_update)

lemma epollSetEvents_ok:
  assumes M: "epoll_mirror s" and fd: "in_table fd (epoll_state s)" "r \<or> w \<Longrightarrow> fd \<in> set (openfds s)"
  obtains n where "epollSetEvents fd r w s = Inr (registered fd (events_of r w) n s)"
    "epoll_mirror (registered fd (events_of r w) n s)"
proof -
  let ?ev = "events_of r w" and ?old = "epoll_state s ! nat fd"
  have fd0: "0 \<le> fd" "int (nat fd) = fd" "nat fd < length (epoll_state s)" using fd(1) by (auto simp: in_table_def)
  have old: "?old = the_default 0 (interest s fd)" using M fd0 by (auto simp: epoll_mirror_def)
  have evn: "?ev \<noteq> 0 \<Longrightarrow> r \<or> w" by (auto simp: events_of_def Let_def split: if_splits)
  have fin: "finite (dom (interest s))" by (rule mirror_finite [OF M])
  have cnt: "epoll_fds s = int (card (dom (interest s)))" using M by (simp add: epoll_mirror_def)
  have nz: "interest s fd = Some m \<Longrightarrow> m \<noteq> 0 \<and> fd \<in> set (openfds s)" for m using M by (simp add: epoll_mirror_def)
  let ?n = "int (card (dom ((interest s)(fd := set_mask ?ev))))"
  have m: "epoll_mirror (registered fd ?ev ?n s)"
    by (rule mirror_registered [OF M fd(1)]) (use fd(2) evn in auto)
  have "epollSetEvents fd r w s = Inr (registered fd ?ev ?n s)"
  proof (cases "?ev = ?old")
    case True
    have "(interest s)(fd := set_mask ?ev) = interest s"
      using True old nz by (cases "interest s fd") (auto simp: the_default_def set_mask_def fun_eq_iff)
    with True fd fd0(1,3) cnt show ?thesis
      by (simp add: epollSetEvents_def registered_def)
  next
    case False
    show ?thesis
    proof (cases "interest s fd")
      case None
      with old False have ev: "?ev \<noteq> 0" "?old = 0" by (auto simp: the_default_def)
      have "fd \<in> set (openfds s)" using fd(2) evn [OF ev(1)] by blast
      moreover have "?n = epoll_fds s + 1" using None fin ev cnt by (simp add: set_mask_def card_insert_if domIff)
      ultimately show ?thesis using ev None fd(1) fd0(1,3)
        by (simp add: epollSetEvents_def ctl_of_def registered_def set_mask_def Let_def)
    next
      case (Some k)
      with old nz have o: "?old = k" "k \<noteq> 0" "fd \<in> set (openfds s)" by (auto simp: the_default_def)
      show ?thesis
      proof (cases "?ev = 0")
        case True
        have "fd \<in> dom (interest s)" using Some by blast
        then have "?n = epoll_fds s - 1" using True fin cnt card_Diff_singleton [of fd "dom (interest s)"]
            card_gt_0_iff [of "dom (interest s)"] by (auto simp: set_mask_def of_nat_diff Suc_le_eq)
        with True Some o fd(1) fd0(1,3) show ?thesis
          by (simp add: epollSetEvents_def ctl_of_def registered_def set_mask_def Let_def)
      next
        case ev: False
        have "?n = epoll_fds s" using ev Some cnt by (auto simp: set_mask_def insert_absorb domIff)
        with ev Some o False fd(1) fd0(1,3) show ?thesis
          by (simp add: epollSetEvents_def ctl_of_def registered_def set_mask_def Let_def)
      qed
    qed
  qed
  with m show ?thesis using that by blast
qed

lemma mirror_close: "epoll_mirror s \<Longrightarrow> interest s fd = None \<Longrightarrow> epoll_mirror (close_fd fd s)"
  by (auto simp: epoll_mirror_def close_fd_def fun_upd_idem)

text \<open>What is left after \<open>comm_close\<close>.\<close>

definition closed :: "int \<Rightarrow> int \<Rightarrow> ('h, 'x) comm_scheme \<Rightarrow> ('h, 'x) comm_scheme" where
  "closed fd n s = close_fd fd (registered fd 0 n (s\<lparr>fd_table := (fd_table s)[nat fd := zero_fde]\<rparr>))"

lemma closed_sel [simp]:
  "fd_table (closed fd n s) = (fd_table s)[nat fd := zero_fde]" "Biggest_FD (closed fd n s) = Biggest_FD s"
  "sys_curtime (closed fd n s) = sys_curtime s" "openfds (closed fd n s) = removeAll fd (openfds s)"
  "interest (closed fd n s) = (interest s)(fd := None)"
  by (simp_all add: closed_def close_fd_def set_mask_def)

lemma mirror_fd_table [simp]: "epoll_mirror (s\<lparr>fd_table := T\<rparr>) = epoll_mirror s"
  by (simp add: epoll_mirror_def)

lemma comm_close_ok:
  assumes M: "epoll_mirror s" and fd: "0 < fd" "in_table fd (fd_table s)" "in_table fd (epoll_state s)"
  obtains n where "comm_close fd s = Inr (closed fd n s)" "epoll_mirror (closed fd n s)"
proof -
  let ?s = "s\<lparr>fd_table := (fd_table s)[nat fd := zero_fde]\<rparr>"
  have M': "epoll_mirror ?s" and t: "in_table fd (epoll_state ?s)" using M fd(3) by simp_all
  obtain n where n: "epollSetEvents fd False False ?s = Inr (registered fd (events_of False False) n ?s)"
    "epoll_mirror (registered fd (events_of False False) n ?s)"
    by (rule epollSetEvents_ok [OF M' t, of False False]) simp_all
  have z: "events_of False False = 0" by (simp add: events_of_def)
  have "comm_close fd s = Inr (closed fd n s)"
    using fd n(1) by (simp add: comm_close_def closed_def z)
  moreover have "epoll_mirror (closed fd n s)"
    unfolding closed_def by (rule mirror_close) (use n(2) z in \<open>simp_all add: set_mask_def\<close>)
  ultimately show ?thesis by (rule that)
qed

section \<open>The interface to an application\<close>

definition expired :: "('h, 'x) comm_scheme \<Rightarrow> nat \<Rightarrow> bool" where
  "expired s i \<longleftrightarrow> timeout (fd_table s ! i) \<noteq> 0 \<and> timeout (fd_table s ! i) \<le> sys_curtime s"

text \<open>
  \<open>good e\<close> says which answers of the system the application counts on. A timer callback is
  called with the entry's handler cleared; afterwards the timer of that descriptor has not
  expired any more and no other timer has come to be expired.
\<close>

locale event_app =
  fixes call :: "('h, 'e, 'x) call"
    and I :: "('h, 'x) comm_scheme \<Rightarrow> bool"
    and good :: "'e \<Rightarrow> bool"
  assumes I_table: "I s \<Longrightarrow> length (fd_table s) = nat (Biggest_FD s) \<and> epoll_mirror s"
    and read_ok: "I s \<Longrightarrow> in_table fd (fd_table s) \<Longrightarrow> read_handler (fd_table s ! nat fd) = Some h \<Longrightarrow> good e
      \<Longrightarrow> \<exists>s'. call h fd (read_data (fd_table s ! nat fd)) e s = Inr s' \<and> I s' \<and> Biggest_FD s' = Biggest_FD s"
    and write_ok: "I s \<Longrightarrow> in_table fd (fd_table s) \<Longrightarrow> write_handler (fd_table s ! nat fd) = Some h \<Longrightarrow> good e
      \<Longrightarrow> \<exists>s'. call h fd (write_data (fd_table s ! nat fd)) e s = Inr s' \<and> I s' \<and> Biggest_FD s' = Biggest_FD s"
    and timer_ok: "I s \<Longrightarrow> i < length (fd_table s) \<Longrightarrow> expired s i \<Longrightarrow> good e
      \<Longrightarrow> \<exists>s'. check_fd call e (int i) s = Inr s' \<and> I s' \<and> Biggest_FD s' = Biggest_FD s
        \<and> sys_curtime s' = sys_curtime s \<and> (\<forall>k<length (fd_table s). expired s' k \<longrightarrow> expired s k \<and> k \<noteq> i)"
    and time_ok: "I s \<Longrightarrow> 0 \<le> now \<Longrightarrow> I (getCurrentTime now s)" "I s \<Longrightarrow> I (s\<lparr>last_timeout := l\<rparr>)"
begin

lemma call_handlers_ok:
  assumes I: "I s" and fd: "in_table fd (fd_table s)" and e: "good e1" "good e2"
  shows "\<exists>s'. comm_call_handlers call fd r w e1 e2 s = Inr s' \<and> I s' \<and> Biggest_FD s' = Biggest_FD s"
proof -
  let ?F = "fd_table s ! nat fd"
  have "\<exists>s1. (case read_handler ?F of None \<Rightarrow> Inr s
      | Some hdl \<Rightarrow> if r \<noteq> 0 then call hdl fd (read_data ?F) e1 s else Inr s) = Inr s1
    \<and> I s1 \<and> Biggest_FD s1 = Biggest_FD s"
    using read_ok [OF I fd _ e(1)] I by (cases "read_handler ?F"; cases "r = 0") simp_all
  then obtain s1 where s1: "(case read_handler ?F of None \<Rightarrow> Inr s
      | Some hdl \<Rightarrow> if r \<noteq> 0 then call hdl fd (read_data ?F) e1 s else Inr s) = Inr s1"
    "I s1" "Biggest_FD s1 = Biggest_FD s" by blast
  have fd1: "in_table fd (fd_table s1)"
    using I_table [OF I] I_table [OF s1(2)] s1(3) fd by (simp add: in_table_def)
  let ?F1 = "fd_table s1 ! nat fd"
  have "\<exists>s2. (case write_handler ?F1 of None \<Rightarrow> Inr s1
      | Some hdl \<Rightarrow> if w \<noteq> 0 then call hdl fd (write_data ?F1) e2 s1 else Inr s1) = Inr s2
    \<and> I s2 \<and> Biggest_FD s2 = Biggest_FD s"
    using write_ok [OF s1(2) fd1 _ e(2)] s1(2,3) by (cases "write_handler ?F1"; cases "w = 0") simp_all
  then show ?thesis using fd s1(1) by (simp add: comm_call_handlers_def Let_def)
qed

lemma dispatch_ok:
  assumes "I s" "\<And>fd ev e1 e2. (fd, ev, e1, e2) \<in> set evs \<Longrightarrow> in_table fd (fd_table s) \<and> good e1 \<and> good e2"
  shows "\<exists>s'. dispatch call evs s = Inr s' \<and> I s' \<and> Biggest_FD s' = Biggest_FD s"
  using assms
proof (induction evs arbitrary: s)
  case (Cons x evs)
  obtain fd ev e1 e2 where x: "x = (fd, ev, e1, e2)" by (cases x)
  have h: "in_table fd (fd_table s)" "good e1" "good e2" using Cons.prems(2) [of fd ev e1 e2] by (auto simp: x)
  obtain s1 where s1: "comm_call_handlers call fd (ev AND NOT EPOLLOUT) (ev AND NOT EPOLLIN) e1 e2 s = Inr s1"
    "I s1" "Biggest_FD s1 = Biggest_FD s"
    using call_handlers_ok [OF Cons.prems(1) h] by blast
  have "length (fd_table s1) = length (fd_table s)"
    using I_table [OF Cons.prems(1)] I_table [OF s1(2)] s1(3) by simp
  then have "\<exists>s'. dispatch call evs s1 = Inr s' \<and> I s' \<and> Biggest_FD s' = Biggest_FD s1"
    by (intro Cons.IH [OF s1(2)]) (use Cons.prems(2) in \<open>auto simp: in_table_def\<close>)
  with s1 show ?case by (simp add: x)
qed simp

lemma check_from_ok:
  assumes "I s" "fd + n = length (fd_table s)" "\<And>k. good (env k)" "past = 0 \<or> past > sys_curtime s"
    "\<And>k. k < fd \<Longrightarrow> \<not> expired s k"
  shows "\<exists>s'. check_from call env past fd n s = Inr s' \<and> I s' \<and> Biggest_FD s' = Biggest_FD s
    \<and> (\<forall>k<length (fd_table s'). \<not> expired s' k)"
  using assms
proof (induction n arbitrary: fd s)
  case (Suc n)
  have lt: "fd < length (fd_table s)" using Suc.prems(2) by simp
  obtain s1 where s1: "check_fd call (env fd) (int fd) s = Inr s1" "I s1" "Biggest_FD s1 = Biggest_FD s"
    "sys_curtime s1 = sys_curtime s" "\<And>k. k < Suc fd \<Longrightarrow> \<not> expired s1 k"
  proof (cases "expired s fd")
    case True
    obtain s1 where "check_fd call (env fd) (int fd) s = Inr s1 \<and> I s1 \<and> Biggest_FD s1 = Biggest_FD s
        \<and> sys_curtime s1 = sys_curtime s \<and> (\<forall>k<length (fd_table s). expired s1 k \<longrightarrow> expired s k \<and> k \<noteq> fd)"
      using timer_ok [OF Suc.prems(1) lt True Suc.prems(3)] by blast
    moreover from this have "\<not> expired s1 k" if "k < Suc fd" for k
      using Suc.prems(5) [of k] lt that by (metis less_Suc_eq order_less_trans)
    ultimately show ?thesis by (intro that [of s1]) simp_all
  next
    case False
    then have "check_fd call (env fd) (int fd) s = Inr s"
      by (auto simp: check_fd_def expired_def Let_def)
    with Suc.prems(1,5) False show ?thesis by (intro that [of s]) (auto simp: less_Suc_eq)
  qed
  have "length (fd_table s1) = length (fd_table s)"
    using I_table [OF Suc.prems(1)] I_table [OF s1(2)] s1(3) by simp
  then have "Suc fd + n = length (fd_table s1)" using Suc.prems(2) by simp
  from Suc.IH [OF s1(2) this Suc.prems(3) _ s1(5)] Suc.prems(4) s1 lt show ?case by simp
qed auto

text \<open>The entry past the table is read all the same.\<close>

lemma check_from_past:
  assumes "I s" "fd + n = length (fd_table s)" "\<And>k. good (env k)" "past \<noteq> 0" "past \<le> sys_curtime s"
  shows "check_from call env past fd n s = Inl OutOfBounds"
  using assms
proof (induction n arbitrary: fd s)
  case (Suc n)
  have lt: "fd < length (fd_table s)" using Suc.prems(2) by simp
  obtain s1 where s1: "check_fd call (env fd) (int fd) s = Inr s1" "I s1" "Biggest_FD s1 = Biggest_FD s"
    "sys_curtime s1 = sys_curtime s"
  proof (cases "expired s fd")
    case True
    with timer_ok [OF Suc.prems(1) lt True Suc.prems(3)] that show ?thesis by blast
  next
    case False
    then have "check_fd call (env fd) (int fd) s = Inr s"
      by (auto simp: check_fd_def expired_def Let_def)
    with Suc.prems(1) show ?thesis by (intro that [of s]) simp_all
  qed
  have "length (fd_table s1) = length (fd_table s)"
    using I_table [OF Suc.prems(1)] I_table [OF s1(2)] s1(3) by simp
  then have "Suc fd + n = length (fd_table s1)" using Suc.prems(2) by simp
  from Suc.IH [OF s1(2) this Suc.prems(3,4)] Suc.prems(5) s1 lt show ?case by simp
qed auto

lemma checkTimeouts_ok:
  assumes "I s" "\<And>k. good (env k)" "past = 0 \<or> past > sys_curtime s"
  shows "\<exists>s'. checkTimeouts call env past s = Inr s' \<and> I s' \<and> Biggest_FD s' = Biggest_FD s
    \<and> (\<forall>k<length (fd_table s'). \<not> expired s' k)"
  unfolding checkTimeouts_def
  by (rule check_from_ok [OF assms(1) _ assms(2,3)]) (use I_table [OF assms(1)] in simp_all)

text \<open>What the system may answer during one round of the loop.\<close>

fun good_wait :: "'e wait_result \<Rightarrow> bool" where
  "good_wait (Wait_error n) = True"
| "good_wait (Ready evs) = (\<forall>(fd, ev, e1, e2)\<in>set evs. good e1 \<and> good e2)"

lemma do_epoll_select_ok:
  assumes I: "I s" and w: "good_wait w" "0 \<le> now"
  shows "\<exists>rc s'. do_epoll_select call w now s = Inr (rc, s') \<and> I s'"
proof (cases w)
  case (Wait_error n)
  with time_ok(1) [OF I w(2)] show ?thesis by (simp add: do_epoll_select_def epoll_wait_def)
next
  case (Ready evs)
  obtain evs' where evs': "epoll_wait w s = Ready evs'"
    "\<And>fd ev e1 e2. (fd, ev, e1, e2) \<in> set evs' \<Longrightarrow> interest s fd \<noteq> None \<and> good e1 \<and> good e2"
  proof
    show "epoll_wait w s = Ready (take MAX_EVENTS (filter (\<lambda>(fd, ev, e1, e2). interest s fd \<noteq> None \<and> ev \<noteq> 0)
         (map (\<lambda>(fd, ev, e1, e2). (fd, ev AND (the_default 0 (interest s fd) OR (EPOLLHUP OR EPOLLERR)), e1, e2)) evs)))"
      by (simp add: epoll_wait_def Ready)
  qed (use w(1) Ready in \<open>auto dest!: in_set_takeD\<close>)
  have "in_table fd (fd_table s)" if "(fd, ev, e1, e2) \<in> set evs'" for fd ev e1 e2
    using evs'(2) [OF that] I_table [OF I] by (fastforce simp: epoll_mirror_def in_table_def)
  then have "\<exists>s'. dispatch call evs' s = Inr s' \<and> I s' \<and> Biggest_FD s' = Biggest_FD s"
    by (intro dispatch_ok [OF I]) (use evs'(2) in blast)
  with I show ?thesis by (auto simp: do_epoll_select_def evs'(1))
qed

lemma comm_select_ok:
  assumes I: "I s" and env: "\<And>k. good (env k)" "past = 0 \<or> past > sys_curtime s" "good_wait w" "0 \<le> now"
  shows "\<exists>rc s'. comm_select call env past w now msec s = Inr (rc, s') \<and> I s'"
proof -
  have "I (s\<lparr>last_timeout := current_dtime s\<rparr>)" by (rule time_ok(2) [OF I])
  then have "\<exists>s'. checkTimeouts call env past (s\<lparr>last_timeout := current_dtime s\<rparr>) = Inr s' \<and> I s'"
    using checkTimeouts_ok [of "s\<lparr>last_timeout := current_dtime s\<rparr>" env past] env(1,2) by auto
  then have "\<exists>s1. (if snd (select_wait msec s)
      then checkTimeouts call env past (s\<lparr>last_timeout := current_dtime s\<rparr>) else Inr s) = Inr s1 \<and> I s1"
    using I by simp
  then obtain s1 where s1: "(if snd (select_wait msec s)
      then checkTimeouts call env past (s\<lparr>last_timeout := current_dtime s\<rparr>) else Inr s) = Inr s1" "I s1"
    by blast
  obtain rc s2 where "do_epoll_select call w now s1 = Inr (rc, s2)" "I s2"
    using do_epoll_select_ok [OF s1(2) env(3,4)] by blast
  with s1(1) time_ok(1) [of s2 now] env(4) show ?thesis by (simp add: comm_select_def)
qed

end

end
