(* ===== verification/Epoll_Echo.thy ===== *)
theory Epoll_Echo
  imports Epoll_App
begin

text \<open>
  The echo server of \<open>epoll/epoll_framework/main.c\<close> on the event framework. The answers of
  the system to one call of a handler are an \<open>app_env\<close>. \<open>stat_init\<close> has no \<open>return\<close>
  statement: what its caller receives is whatever the return register holds, a function
  \<open>ret_reg\<close> of the pointer the body has computed.
\<close>

section \<open>State\<close>

definition BUFLEN :: nat where "BUFLEN = 1024"

datatype eh = Accept_connection | Do_welcome_handler | Do_echo_handler | Do_echo_response | Do_echo_timeout

record conn_stat =
  st_fd :: int
  send_buf :: "byte list"
  st_handler :: "eh option"

text \<open>\<open>nofile\<close> is the process's limit on descriptors; \<open>written\<close> logs what goes out.\<close>

record echo = "eh comm" +
  stats :: "nat \<rightharpoonup> conn_stat"
  next_ptr :: nat
  nofile :: int
  lsock :: int
  written :: "(int \<times> byte list) list"
  ret_reg :: "nat \<Rightarrow> nat"

text \<open>What \<open>read\<close> has to deliver: bytes (none at the end of the stream) or an error.\<close>

datatype rd = Rd "byte list" | Rd_err

record app_env =
  a_accept :: int
  a_oom :: bool
  a_read :: rd
  a_write :: int

section \<open>System calls\<close>

definition sys_accept :: "app_env \<Rightarrow> echo \<Rightarrow> int \<times> echo" where
  "sys_accept e s = (let n = a_accept e
     in if n < 0 \<or> n \<ge> nofile s \<or> n \<in> set (openfds s) then (-1, s) else (n, s\<lparr>openfds := n # openfds s\<rparr>))"

text \<open>\<open>None\<close> is a result of -1.\<close>

fun sys_read :: "nat \<Rightarrow> rd \<Rightarrow> byte list option" where
  "sys_read n (Rd bs) = Some (take n bs)"
| "sys_read n Rd_err = None"

definition sys_write :: "int \<Rightarrow> byte list \<Rightarrow> app_env \<Rightarrow> echo \<Rightarrow> int \<times> echo" where
  "sys_write fd bs e s = (if a_write e < 0 then (-1, s)
     else let k = min (nat (a_write e)) (length bs)
          in (int k, s\<lparr>written := written s @ [(fd, take k bs)]\<rparr>))"

definition free_stat :: "nat \<Rightarrow> echo \<Rightarrow> echo res" where
  "free_stat p s = (if p = 0 then Inr s else if stats s p = None then Inl BadFree
     else Inr (s\<lparr>stats := (stats s)(p := None)\<rparr>))"

section \<open>Handlers\<close>

definition stat_init :: "int \<Rightarrow> app_env \<Rightarrow> echo \<Rightarrow> nat \<times> echo" where
  "stat_init fd e s =
     (if a_oom e then (0, s)
      else let p = next_ptr s
           in (ret_reg s p, s\<lparr>next_ptr := p + 1,
                stats := (stats s)(p \<mapsto> \<lparr>st_fd = fd, send_buf = replicate BUFLEN 0, st_handler = None\<rparr>)\<rparr>))"

definition WELCOME :: "byte list" where
  "WELCOME = [87, 101, 108, 99, 111, 109, 101, 46, 10]"

definition do_welcome_handler :: "int \<Rightarrow> nat \<Rightarrow> app_env \<Rightarrow> echo \<Rightarrow> echo res" where
  "do_welcome_handler fd data e s =
     (let (n, s1) = sys_write fd WELCOME e s
      in if n \<noteq> int (length WELCOME) then Inr s1
         else bindE (commUpdateReadHandler fd (Some Do_echo_handler) data s1)
                (commSetTimeout fd 10 (Some Do_echo_timeout) data))"

definition tolower :: "byte \<Rightarrow> byte" where
  "tolower c = (if 65 \<le> c \<and> c \<le> 90 then c + 32 else c)"

definition is_quit :: "byte list \<Rightarrow> bool" where
  "is_quit p \<longleftrightarrow> map tolower (take 4 p) = [113, 117, 105, 116]"

text \<open>The buffer after the prefix, the bytes read and the terminating zero have been stored.\<close>

definition fill_buf :: "byte list \<Rightarrow> byte list \<Rightarrow> byte list" where
  "fill_buf buf got = [45, 62] @ got @ [0] @ drop (3 + length got) buf"

definition close_and_free :: "int \<Rightarrow> nat \<Rightarrow> echo \<Rightarrow> echo res" where
  "close_and_free fd data s = bindE (comm_close fd s) (free_stat data)"

definition do_echo_handler :: "int \<Rightarrow> nat \<Rightarrow> app_env \<Rightarrow> echo \<Rightarrow> echo res" where
  "do_echo_handler fd data e s =
     (if data = 0 then Inl AssertFailed
      else case stats s data of
        None \<Rightarrow> Inl NullDeref
      | Some stat \<Rightarrow>
          let set_buf = (\<lambda>b. s\<lparr>stats := (stats s)(data \<mapsto> stat\<lparr>send_buf := b\<rparr>)\<rparr>)
          in case sys_read (BUFLEN - 2 - 1) (a_read e) of
               None \<Rightarrow> Inr (set_buf ([45, 62] @ drop 2 (send_buf stat)))
             | Some got \<Rightarrow>
                 if got = [] then close_and_free fd data (set_buf ([45, 62] @ drop 2 (send_buf stat)))
                 else let s1 = set_buf (fill_buf (send_buf stat) got)
                      in if is_quit (drop 2 (fill_buf (send_buf stat) got)) then close_and_free fd data s1
                         else bindE (commUpdateWriteHandler fd (Some Do_echo_response) data s1)
                                (commSetTimeout fd 10 (Some Do_echo_timeout) data))"

definition do_echo_response :: "int \<Rightarrow> nat \<Rightarrow> app_env \<Rightarrow> echo \<Rightarrow> echo res" where
  "do_echo_response fd data e s =
     (case stats s data of
        None \<Rightarrow> Inl NullDeref
      | Some stat \<Rightarrow>
          if 0 \<notin> set (send_buf stat) then Inl OutOfBounds
          else let (n, s1) = sys_write fd (takeWhile (\<lambda>c. c \<noteq> 0) (send_buf stat)) e s
               in if n > 0 then bindE (commSetTimeout fd 10 (Some Do_echo_timeout) data s1)
                                  (commUpdateReadHandler fd (Some Do_echo_handler) data)
                  else if n = 0 then close_and_free fd data s1
                  else Inr s1)"

definition accept_connection :: "int \<Rightarrow> nat \<Rightarrow> app_env \<Rightarrow> echo \<Rightarrow> echo res" where
  "accept_connection fd data e s =
     (let (new_fd, s1) = sys_accept e s
      in if new_fd > 0
         then let (stat, s2) = stat_init new_fd e s1
              in bindE (commUpdateWriteHandler new_fd (Some Do_welcome_handler) stat s2)
                   (commSetTimeout new_fd 30 (Some Do_echo_timeout) stat)
         else Inr s1)"

definition do_echo_timeout :: "int \<Rightarrow> nat \<Rightarrow> app_env \<Rightarrow> echo \<Rightarrow> echo res" where
  "do_echo_timeout fd data e s = close_and_free fd data s"

fun echo_call :: "eh \<Rightarrow> int \<Rightarrow> nat \<Rightarrow> app_env \<Rightarrow> echo \<Rightarrow> echo res" where
  "echo_call Accept_connection = accept_connection"
| "echo_call Do_welcome_handler = do_welcome_handler"
| "echo_call Do_echo_handler = do_echo_handler"
| "echo_call Do_echo_response = do_echo_response"
| "echo_call Do_echo_timeout = do_echo_timeout"

section \<open>main\<close>

text \<open>The process when \<open>startup\<close> has returned the listening socket; the globals of \<open>comm.c\<close>.\<close>

definition at_startup :: "(nat \<Rightarrow> nat) \<Rightarrow> int \<Rightarrow> int \<Rightarrow> echo" where
  "at_startup reg limit sock = \<lparr>fd_table = [], Biggest_FD = 1024, epoll_state = [], epoll_fds = 0,
     sys_curtime = 0, current_dtime = 0, last_timeout = 0, interest = Map.empty,
     openfds = [sock, 2, 1, 0], stats = Map.empty, next_ptr = 1, nofile = limit, lsock = sock,
     written = [], ret_reg = reg\<rparr>"

definition main_setup :: "bool \<Rightarrow> bool \<Rightarrow> app_env \<Rightarrow> echo \<Rightarrow> echo res" where
  "main_setup table_ok state_ok e s =
     (let s1 = comm_init table_ok state_ok 102400 s;
          (stat, s2) = stat_init (lsock s) e s1
      in commUpdateReadHandler (lsock s) (Some Accept_connection) stat s2)"

text \<open>The loop: a list of rounds, each with what the system answers in it.\<close>

record round =
  r_timers :: "nat \<Rightarrow> app_env"
  r_past :: int
  r_wait :: "app_env wait_result"
  r_now :: int

fun main_loop :: "round list \<Rightarrow> echo \<Rightarrow> echo res" where
  "main_loop [] s = Inr s"
| "main_loop (r # rs) s =
     bindE (comm_select echo_call (r_timers r) (r_past r) (r_wait r) (r_now r) 1000 s)
       (\<lambda>(rc, s1). main_loop rs s1)"

end
