(* ===== verification/Epoll_Echo_Inv.thy ===== *)
theory Epoll_Echo_Inv
  imports Epoll_Echo
begin

text \<open>
  The invariant of the echo server: every entry of the table is empty, the listening socket
  or a connection, and connections and client records belong to each other one to one. Each
  handler keeps it, so the server is an application in the sense of \<open>event_app\<close>.
\<close>

section \<open>The invariant\<close>

definition listen_fde :: "eh fde \<Rightarrow> bool" where
  "listen_fde F \<longleftrightarrow> read_handler F = Some Accept_connection \<and> write_handler F = None \<and> timeout F = 0"

definition conn_fde :: "nat \<Rightarrow> eh fde \<Rightarrow> bool" where
  "conn_fde p F \<longleftrightarrow>
     (read_handler F = None \<or> read_handler F = Some Do_echo_handler \<and> read_data F = p)
   \<and> (write_handler F = Some Do_welcome_handler \<or> write_handler F = Some Do_echo_response) \<and> write_data F = p
   \<and> timeout_handler F = Some Do_echo_timeout \<and> timeout_data F = p \<and> timeout F \<noteq> 0"

definition good_stat :: "conn_stat \<Rightarrow> bool" where
  "good_stat st \<longleftrightarrow> length (send_buf st) = BUFLEN \<and> send_buf st ! (BUFLEN - 1) = 0"

definition entry_ok :: "echo \<Rightarrow> nat \<Rightarrow> bool" where
  "entry_ok s i \<longleftrightarrow> fd_table s ! i = zero_fde
   \<or> int i = lsock s \<and> listen_fde (fd_table s ! i)
   \<or> i \<noteq> 0 \<and> int i \<noteq> lsock s \<and> int i \<in> set (openfds s)
     \<and> (\<exists>p st. conn_fde p (fd_table s ! i) \<and> stats s p = Some st \<and> st_fd st = int i)"

definition stat_ok :: "echo \<Rightarrow> nat \<Rightarrow> conn_stat \<Rightarrow> bool" where
  "stat_ok s p st \<longleftrightarrow> p \<noteq> 0 \<and> p < next_ptr s \<and> good_stat st
   \<and> (st_fd st = lsock s \<or> st_fd st \<noteq> lsock s \<and> in_table (st_fd st) (fd_table s) \<and> conn_fde p (fd_table s ! nat (st_fd st)))"

text \<open>The part that no handler changes but by \<open>accept\<close> and \<open>close\<close>.\<close>

definition base_ok :: "echo \<Rightarrow> bool" where
  "base_ok s \<longleftrightarrow> length (fd_table s) = nat (Biggest_FD s) \<and> epoll_mirror s
   \<and> 0 < lsock s \<and> lsock s \<in> set (openfds s) \<and> (\<forall>fd\<in>set (openfds s). 0 \<le> fd \<and> fd < nofile s)
   \<and> nofile s \<le> Biggest_FD s \<and> 0 \<le> sys_curtime s \<and> ret_reg s = (\<lambda>p. p) \<and> 0 < next_ptr s"

definition echo_inv :: "echo \<Rightarrow> bool" where
  "echo_inv s \<longleftrightarrow> base_ok s \<and> (\<forall>i<length (fd_table s). entry_ok s i)
   \<and> (\<forall>p st. stats s p = Some st \<longrightarrow> stat_ok s p st)"

lemma echo_invD:
  assumes "echo_inv s"
  shows "base_ok s" "\<And>i. i < length (fd_table s) \<Longrightarrow> entry_ok s i" "\<And>p st. stats s p = Some st \<Longrightarrow> stat_ok s p st"
  using assms by (simp_all add: echo_inv_def)

lemma base_okD:
  assumes "base_ok s"
  shows "length (fd_table s) = nat (Biggest_FD s)" "epoll_mirror s" "0 < lsock s" "lsock s \<in> set (openfds s)"
    "\<And>fd. fd \<in> set (openfds s) \<Longrightarrow> 0 \<le> fd \<and> fd < nofile s" "nofile s \<le> Biggest_FD s" "0 \<le> sys_curtime s"
    "ret_reg s = (\<lambda>p. p)" "0 < next_ptr s"
  using assms by (simp_all add: base_ok_def)

lemma tables_len: "base_ok s \<Longrightarrow> in_table fd (epoll_state s) = in_table fd (fd_table s)"
  by (simp add: base_ok_def epoll_mirror_def in_table_def)

lemma open_in_table: "base_ok s \<Longrightarrow> fd \<in> set (openfds s) \<Longrightarrow> in_table fd (fd_table s)"
  using base_okD [of s] by (fastforce simp: in_table_def)

section \<open>Connections\<close>

text \<open>Descriptor \<open>fd\<close> is a connection whose record is at \<open>p\<close>.\<close>

definition is_conn :: "echo \<Rightarrow> int \<Rightarrow> nat \<Rightarrow> bool" where
  "is_conn s fd p \<longleftrightarrow> 0 < fd \<and> in_table fd (fd_table s) \<and> fd \<noteq> lsock s \<and> fd \<in> set (openfds s)
     \<and> p \<noteq> 0 \<and> (\<exists>st. stats s p = Some st \<and> st_fd st = fd \<and> good_stat st)"

lemma entry_conn:
  assumes I: "echo_inv s" and fd: "in_table fd (fd_table s)"
    and F: "write_handler (fd_table s ! nat fd) \<noteq> None \<or> timeout (fd_table s ! nat fd) \<noteq> 0
      \<or> read_handler (fd_table s ! nat fd) = Some Do_echo_handler"
  obtains p where "conn_fde p (fd_table s ! nat fd)" "is_conn s fd p"
proof -
  have i: "nat fd < length (fd_table s)" "int (nat fd) = fd" using fd by (auto simp: in_table_def)
  have "entry_ok s (nat fd)" by (rule echo_invD(2) [OF I i(1)])
  with F i obtain p st where p: "nat fd \<noteq> 0" "fd \<noteq> lsock s" "fd \<in> set (openfds s)"
    "conn_fde p (fd_table s ! nat fd)" "stats s p = Some st" "st_fd st = fd"
    by (auto simp: entry_ok_def listen_fde_def zero_fde_def)
  moreover from p(5) have "stat_ok s p st" by (rule echo_invD(3) [OF I])
  ultimately show ?thesis using that fd by (auto simp: is_conn_def stat_ok_def)
qed

text \<open>Two records that differ belong to different descriptors.\<close>

lemma is_conn_unique:
  assumes "echo_inv s" "is_conn s fd p" "conn_fde q (fd_table s ! nat fd)"
  shows "q = p"
proof -
  from assms(2) obtain st where st: "stats s p = Some st" "st_fd st = fd" "fd \<noteq> lsock s"
    by (auto simp: is_conn_def)
  with echo_invD(3) [OF assms(1) st(1)] have "conn_fde p (fd_table s ! nat fd)" by (auto simp: stat_ok_def)
  with assms(3) show ?thesis by (simp add: conn_fde_def)
qed

text \<open>Rewriting the entry and the record of a connection keeps the invariant.\<close>

lemma echo_inv_update:
  assumes I: "echo_inv s" and c: "is_conn s fd p" and F: "conn_fde p F"
    and st: "st_fd st = fd" "good_stat st"
    and t: "fd_table t = (fd_table s)[nat fd := F]" "stats t = (stats s)(p \<mapsto> st)" "epoll_mirror t"
      "Biggest_FD t = Biggest_FD s" "openfds t = openfds s" "sys_curtime t = sys_curtime s"
      "next_ptr t = next_ptr s" "nofile t = nofile s" "lsock t = lsock s" "ret_reg t = ret_reg s"
  shows "echo_inv t"
proof -
  have fd: "0 < fd" "nat fd < length (fd_table s)" "int (nat fd) = fd" "fd \<noteq> lsock s" "fd \<in> set (openfds s)" "p \<noteq> 0"
    using c by (auto simp: is_conn_def in_table_def)
  obtain st0 where st0: "stats s p = Some st0" "st_fd st0 = fd" using c by (auto simp: is_conn_def)
  have base: "base_ok t" using echo_invD(1) [OF I] t by (simp add: base_ok_def)
  have entry: "entry_ok t i" if "i < length (fd_table t)" for i
  proof (cases "i = nat fd")
    case True
    with fd F st t show ?thesis by (auto simp: entry_ok_def)
  next
    case False
    then have "int i \<noteq> fd" using fd by auto
    with False echo_invD(2) [OF I, of i] that t st0 show ?thesis by (fastforce simp: entry_ok_def)
  qed
  have stat: "stat_ok t q sq" if "stats t q = Some sq" for q sq
  proof (cases "q = p")
    case True
    with that t fd F st echo_invD(3) [OF I st0(1)] show ?thesis by (auto simp: stat_ok_def in_table_def)
  next
    case False
    with that t have q: "stats s q = Some sq" by simp
    note ok = echo_invD(3) [OF I q]
    have "\<not> (st_fd sq = fd)"
    proof
      assume "st_fd sq = fd"
      with ok fd have "conn_fde q (fd_table s ! nat fd)" by (auto simp: stat_ok_def)
      from is_conn_unique [OF I c this] False show False by simp
    qed
    then have "nat (st_fd sq) \<noteq> nat fd \<or> \<not> in_table (st_fd sq) (fd_table s)" using fd by (auto simp: in_table_def)
    with ok t show ?thesis by (auto simp: stat_ok_def in_table_def)
  qed
  show ?thesis using base entry stat by (simp add: echo_inv_def)
qed

text \<open>Closing a connection and freeing its record keeps it.\<close>

lemma echo_inv_close:
  assumes I: "echo_inv s" and c: "is_conn s fd p"
    and t: "fd_table t = (fd_table s)[nat fd := zero_fde]" "stats t = (stats s)(p := None)" "epoll_mirror t"
      "Biggest_FD t = Biggest_FD s" "openfds t = removeAll fd (openfds s)" "sys_curtime t = sys_curtime s"
      "next_ptr t = next_ptr s" "nofile t = nofile s" "lsock t = lsock s" "ret_reg t = ret_reg s"
  shows "echo_inv t"
proof -
  have fd: "0 < fd" "nat fd < length (fd_table s)" "int (nat fd) = fd" "fd \<noteq> lsock s" "fd \<in> set (openfds s)" "p \<noteq> 0"
    using c by (auto simp: is_conn_def in_table_def)
  obtain st0 where st0: "stats s p = Some st0" "st_fd st0 = fd" using c by (auto simp: is_conn_def)
  have base: "base_ok t" using echo_invD(1) [OF I] t fd by (simp add: base_ok_def)
  have entry: "entry_ok t i" if "i < length (fd_table t)" for i
  proof (cases "i = nat fd")
    case True
    with fd t show ?thesis by (simp add: entry_ok_def)
  next
    case False
    then have ne: "int i \<noteq> fd" using fd by auto
    have "entry_ok s i" using echo_invD(2) [OF I, of i] that t by simp
    then consider "fd_table s ! i = zero_fde" | "int i = lsock s" "listen_fde (fd_table s ! i)"
      | q st where "i \<noteq> 0" "int i \<noteq> lsock s" "int i \<in> set (openfds s)" "conn_fde q (fd_table s ! i)"
          "stats s q = Some st" "st_fd st = int i"
      by (auto simp: entry_ok_def)
    then show ?thesis
    proof cases
      case 3
      then have "q \<noteq> p" using st0 ne by auto
      with 3 False ne t show ?thesis by (auto simp: entry_ok_def)
    qed (use False t in \<open>simp_all add: entry_ok_def\<close>)
  qed
  have stat: "stat_ok t q sq" if "stats t q = Some sq" for q sq
  proof -
    from that t have q: "q \<noteq> p" "stats s q = Some sq" by (auto split: if_splits)
    note ok = echo_invD(3) [OF I q(2)]
    have "\<not> (st_fd sq = fd)"
    proof
      assume "st_fd sq = fd"
      with ok fd have "conn_fde q (fd_table s ! nat fd)" by (auto simp: stat_ok_def)
      from is_conn_unique [OF I c this] q(1) show False by simp
    qed
    then have "nat (st_fd sq) \<noteq> nat fd \<or> \<not> in_table (st_fd sq) (fd_table s)" using fd by (auto simp: in_table_def)
    with ok t show ?thesis by (auto simp: stat_ok_def in_table_def)
  qed
  show ?thesis using base entry stat by (simp add: echo_inv_def)
qed

text \<open>A new connection: its descriptor was closed, so its entry is empty.\<close>

lemma closed_entry:
  assumes "echo_inv s" "in_table fd (fd_table s)" "fd \<notin> set (openfds s)"
  shows "fd_table s ! nat fd = zero_fde" "fd \<noteq> lsock s"
proof -
  have i: "nat fd < length (fd_table s)" "int (nat fd) = fd" using assms(2) by (auto simp: in_table_def)
  show "fd \<noteq> lsock s" using base_okD(4) [OF echo_invD(1) [OF assms(1)]] assms(3) by auto
  with echo_invD(2) [OF assms(1) i(1)] i assms(3) show "fd_table s ! nat fd = zero_fde"
    by (auto simp: entry_ok_def)
qed

lemma echo_inv_new:
  assumes I: "echo_inv s" and fd: "0 < fd" "in_table fd (fd_table s)" "fd \<notin> set (openfds s)" "fd < nofile s"
    and F: "conn_fde (next_ptr s) F"
    and t: "fd_table t = (fd_table s)[nat fd := F]"
      "stats t = (stats s)(next_ptr s \<mapsto> \<lparr>st_fd = fd, send_buf = replicate BUFLEN 0, st_handler = None\<rparr>)"
      "epoll_mirror t" "Biggest_FD t = Biggest_FD s" "openfds t = fd # openfds s" "sys_curtime t = sys_curtime s"
      "next_ptr t = next_ptr s + 1" "nofile t = nofile s" "lsock t = lsock s" "ret_reg t = ret_reg s"
  shows "echo_inv t"
proof -
  have fdn: "nat fd < length (fd_table s)" "int (nat fd) = fd" using fd(1,2) by (auto simp: in_table_def)
  note ce = closed_entry [OF I fd(2,3)]
  have base: "base_ok t" using echo_invD(1) [OF I] t fd by (simp add: base_ok_def)
  have fresh: "stats s (next_ptr s) = None"
    using echo_invD(3) [OF I, of "next_ptr s"] by (cases "stats s (next_ptr s)") (auto simp: stat_ok_def)
  have pos: "next_ptr s \<noteq> 0" using base_okD(9) [OF echo_invD(1) [OF I]] by simp
  have entry: "entry_ok t i" if "i < length (fd_table t)" for i
  proof (cases "i = nat fd")
    case True
    with fd fdn ce F t show ?thesis by (auto simp: entry_ok_def)
  next
    case False
    have "entry_ok s i" using echo_invD(2) [OF I, of i] that t by simp
    then consider "fd_table s ! i = zero_fde" | "int i = lsock s" "listen_fde (fd_table s ! i)"
      | q st where "i \<noteq> 0" "int i \<noteq> lsock s" "int i \<in> set (openfds s)" "conn_fde q (fd_table s ! i)"
          "stats s q = Some st" "st_fd st = int i"
      by (auto simp: entry_ok_def)
    then show ?thesis
    proof cases
      case 3
      then have "q \<noteq> next_ptr s" using fresh by auto
      with 3 False t show ?thesis by (auto simp: entry_ok_def)
    qed (use False t in \<open>simp_all add: entry_ok_def\<close>)
  qed
  have stat: "stat_ok t q sq" if "stats t q = Some sq" for q sq
  proof (cases "q = next_ptr s")
    case True
    with that t fd fdn ce F pos show ?thesis
      by (auto simp: stat_ok_def in_table_def good_stat_def BUFLEN_def)
  next
    case False
    with that t have q: "stats s q = Some sq" by simp
    note ok = echo_invD(3) [OF I q]
    have "st_fd sq \<noteq> fd"
    proof
      assume "st_fd sq = fd"
      with ok ce have "conn_fde q (fd_table s ! nat fd)" by (auto simp: stat_ok_def)
      with ce(1) show False by (simp add: conn_fde_def zero_fde_def)
    qed
    then have "nat (st_fd sq) \<noteq> nat fd \<or> \<not> in_table (st_fd sq) (fd_table s)" using fdn fd(1) by (auto simp: in_table_def)
    with ok t show ?thesis by (auto simp: stat_ok_def in_table_def)
  qed
  show ?thesis using base entry stat by (simp add: echo_inv_def)
qed

section \<open>The calls of the framework\<close>

lemma registered_echo_sel [simp]:
  "stats (registered fd ev n s) = stats s" "next_ptr (registered fd ev n s) = next_ptr s"
  "nofile (registered fd ev n s) = nofile s" "lsock (registered fd ev n s) = lsock s"
  "written (registered fd ev n s) = written s" "ret_reg (registered fd ev n s) = ret_reg s"
  by (simp_all add: registered_def)

lemma closed_echo_sel [simp]:
  "stats (closed fd n s) = stats s" "next_ptr (closed fd n s) = next_ptr s" "nofile (closed fd n s) = nofile s"
  "lsock (closed fd n s) = lsock s" "written (closed fd n s) = written s" "ret_reg (closed fd n s) = ret_reg s"
  by (simp_all add: closed_def close_fd_def)

lemma mirror_app [simp]:
  "epoll_mirror (s\<lparr>stats := x\<rparr>) = epoll_mirror s" "epoll_mirror (s\<lparr>written := w\<rparr>) = epoll_mirror s"
  "epoll_mirror (s\<lparr>next_ptr := n\<rparr>) = epoll_mirror s"
  by (simp_all add: epoll_mirror_def)

text \<open>Setting a handler and the timer, in either order, on an open descriptor.\<close>

definition armed :: "bool \<Rightarrow> eh \<Rightarrow> nat \<Rightarrow> int \<Rightarrow> eh fde \<Rightarrow> eh fde" where
  "armed r h p tmo F = (if r then F\<lparr>read_handler := Some h, read_data := p\<rparr>
     else F\<lparr>write_handler := Some h, write_data := p\<rparr>)
     \<lparr>timeout_handler := Some Do_echo_timeout, timeout_data := p, timeout := tmo\<rparr>"

definition arm_ok :: "echo \<Rightarrow> int \<Rightarrow> bool \<Rightarrow> eh \<Rightarrow> nat \<Rightarrow> int \<Rightarrow> echo \<Rightarrow> bool" where
  "arm_ok s fd r h p k t \<longleftrightarrow> epoll_mirror t
     \<and> fd_table t = (fd_table s)[nat fd := armed r h p (sys_curtime s + k) (fd_table s ! nat fd)]
     \<and> Biggest_FD t = Biggest_FD s \<and> openfds t = openfds s \<and> sys_curtime t = sys_curtime s
     \<and> stats t = stats s \<and> next_ptr t = next_ptr s \<and> nofile t = nofile s \<and> lsock t = lsock s
     \<and> written t = written s \<and> ret_reg t = ret_reg s"

lemma arm_read_ok:
  assumes M: "epoll_mirror s" and fd: "in_table fd (fd_table s)" "in_table fd (epoll_state s)" "fd < Biggest_FD s"
    "fd \<in> set (openfds s)" "p \<noteq> 0" and k: "0 \<le> k"
  shows "\<exists>t. bindE (commUpdateReadHandler fd (Some h) p s) (commSetTimeout fd k (Some Do_echo_timeout) p) = Inr t
     \<and> arm_ok s fd True h p k t"
proof -
  let ?s = "s\<lparr>fd_table := (fd_table s)[nat fd := (fd_table s ! nat fd)\<lparr>read_handler := Some h, read_data := p\<rparr>]\<rparr>"
  obtain n where n: "epollSetEvents fd True False ?s = Inr (registered fd (events_of True False) n ?s)"
    "epoll_mirror (registered fd (events_of True False) n ?s)"
    by (rule epollSetEvents_ok [of ?s fd True False]) (use M fd in simp_all)
  from fd have fd0: "0 \<le> fd" "nat fd < length (fd_table s)" by (auto simp: in_table_def)
  with n M fd k show ?thesis
    by (simp add: commUpdateReadHandler_def commSetTimeout_def arm_ok_def armed_def in_table_def)
qed

lemma arm_write_ok:
  assumes M: "epoll_mirror s" and fd: "in_table fd (fd_table s)" "in_table fd (epoll_state s)" "fd < Biggest_FD s"
    "fd \<in> set (openfds s)" "p \<noteq> 0" and k: "0 \<le> k"
  shows "\<exists>t. bindE (commUpdateWriteHandler fd (Some h) p s) (commSetTimeout fd k (Some Do_echo_timeout) p) = Inr t
     \<and> arm_ok s fd False h p k t"
proof -
  let ?s = "s\<lparr>fd_table := (fd_table s)[nat fd := (fd_table s ! nat fd)\<lparr>write_handler := Some h, write_data := p\<rparr>]\<rparr>"
  obtain n where n: "epollSetEvents fd False True ?s = Inr (registered fd (events_of False True) n ?s)"
    "epoll_mirror (registered fd (events_of False True) n ?s)"
    by (rule epollSetEvents_ok [of ?s fd False True]) (use M fd in simp_all)
  from fd have fd0: "0 \<le> fd" "nat fd < length (fd_table s)" by (auto simp: in_table_def)
  with n M fd k show ?thesis
    by (simp add: commUpdateWriteHandler_def commSetTimeout_def arm_ok_def armed_def in_table_def)
qed

lemma arm_timer_read_ok:
  assumes M: "epoll_mirror s" and fd: "in_table fd (fd_table s)" "in_table fd (epoll_state s)" "fd < Biggest_FD s"
    "fd \<in> set (openfds s)" "p \<noteq> 0" and k: "0 \<le> k"
  shows "\<exists>t. bindE (commSetTimeout fd k (Some Do_echo_timeout) p s) (commUpdateReadHandler fd (Some h) p) = Inr t
     \<and> arm_ok s fd True h p k t"
proof -
  let ?F = "fd_table s ! nat fd"
  let ?s1 = "s\<lparr>fd_table := (fd_table s)[nat fd := ?F\<lparr>timeout_handler := Some Do_echo_timeout, timeout_data := p,
      timeout := sys_curtime s + k\<rparr>]\<rparr>"
  let ?s = "s\<lparr>fd_table := (fd_table s)[nat fd := ?F\<lparr>timeout_handler := Some Do_echo_timeout, timeout_data := p,
      timeout := sys_curtime s + k, read_handler := Some h, read_data := p\<rparr>]\<rparr>"
  obtain n where n: "epollSetEvents fd True False ?s = Inr (registered fd (events_of True False) n ?s)"
    "epoll_mirror (registered fd (events_of True False) n ?s)"
    by (rule epollSetEvents_ok [of ?s fd True False]) (use M fd in simp_all)
  from fd have fd0: "0 \<le> fd" "nat fd < length (fd_table s)" by (auto simp: in_table_def)
  have "commSetTimeout fd k (Some Do_echo_timeout) p s = Inr ?s1"
    using fd fd0 k by (simp add: commSetTimeout_def)
  moreover have "commUpdateReadHandler fd (Some h) p ?s1 = Inr (registered fd (events_of True False) n ?s)"
    using fd fd0 n(1) by (simp add: commUpdateReadHandler_def in_table_def)
  moreover have "?F\<lparr>timeout_handler := Some Do_echo_timeout, timeout_data := p,
      timeout := sys_curtime s + k, read_handler := Some h, read_data := p\<rparr>
      = armed True h p (sys_curtime s + k) ?F"
    by (cases ?F) (simp add: armed_def)
  ultimately show ?thesis using n(2) M fd0 by (simp add: arm_ok_def)
qed

section \<open>The handlers\<close>

text \<open>What a handler called for a connection returns with.\<close>

definition handled :: "echo \<Rightarrow> echo res \<Rightarrow> bool" where
  "handled s r \<longleftrightarrow> (\<exists>t. r = Inr t \<and> echo_inv t \<and> Biggest_FD t = Biggest_FD s)"

lemma handled_Inr: "echo_inv t \<Longrightarrow> Biggest_FD t = Biggest_FD s \<Longrightarrow> handled s (Inr t)"
  by (simp add: handled_def)

lemma is_connD:
  assumes "is_conn s fd p" and "base_ok s"
  shows "0 < fd" "in_table fd (fd_table s)" "in_table fd (epoll_state s)" "fd < Biggest_FD s" "fd \<in> set (openfds s)" "p \<noteq> 0"
  using assms tables_len [OF assms(2)] base_okD(1,5,6) [OF assms(2)] by (fastforce simp: is_conn_def)+

lemma is_conn_stat:
  assumes "is_conn s fd p"
  obtains st where "stats s p = Some st" "st_fd st = fd" "good_stat st"
  using assms by (auto simp: is_conn_def)

lemma conn_armed:
  assumes "conn_fde p F" "tmo \<noteq> 0" "r \<longrightarrow> h = Do_echo_handler" "\<not> r \<longrightarrow> h = Do_echo_response"
  shows "conn_fde p (armed r h p tmo F)"
  using assms by (auto simp: conn_fde_def armed_def)

text \<open>Arming a connection whose record may just have been rewritten.\<close>

lemma armed_inv:
  assumes I: "echo_inv s" and c: "is_conn s fd p" and st: "st_fd st = fd" "good_stat st" "stats s1 = (stats s)(p \<mapsto> st)"
    and s1: "fd_table s1 = fd_table s" "Biggest_FD s1 = Biggest_FD s" "openfds s1 = openfds s"
      "sys_curtime s1 = sys_curtime s" "next_ptr s1 = next_ptr s" "nofile s1 = nofile s" "lsock s1 = lsock s"
      "ret_reg s1 = ret_reg s"
    and a: "arm_ok s1 fd r h p 10 t" and h: "r \<longrightarrow> h = Do_echo_handler" "\<not> r \<longrightarrow> h = Do_echo_response"
  shows "handled s (Inr t)"
proof -
  have b: "base_ok s" by (rule echo_invD(1) [OF I])
  obtain st0 where st0: "stats s p = Some st0" "st_fd st0 = fd" by (rule is_conn_stat [OF c])
  have "conn_fde p (fd_table s ! nat fd)"
    using echo_invD(3) [OF I st0(1)] st0(2) c by (auto simp: stat_ok_def is_conn_def)
  then have F: "conn_fde p (armed r h p (sys_curtime s + 10) (fd_table s ! nat fd))"
    by (rule conn_armed) (use base_okD(7) [OF b] h in auto)
  have "echo_inv t"
    by (rule echo_inv_update [OF I c F st(1,2)]) (use a st(3) s1 in \<open>simp_all add: arm_ok_def\<close>)
  with a s1 show ?thesis by (simp add: handled_Inr arm_ok_def)
qed

lemma close_and_free_ok:
  assumes I: "echo_inv s" and c: "is_conn s fd p"
    and s1: "fd_table s1 = (fd_table s)[nat fd := F]" "epoll_mirror s1" "length (epoll_state s1) = length (epoll_state s)"
      "Biggest_FD s1 = Biggest_FD s" "openfds s1 = openfds s" "sys_curtime s1 = sys_curtime s"
      "next_ptr s1 = next_ptr s" "nofile s1 = nofile s" "lsock s1 = lsock s" "ret_reg s1 = ret_reg s"
      "stats s1 = (stats s)(p := Some st)"
  shows "\<exists>t. close_and_free fd p s1 = Inr t \<and> echo_inv t \<and> Biggest_FD t = Biggest_FD s
    \<and> fd_table t = (fd_table s)[nat fd := zero_fde] \<and> sys_curtime t = sys_curtime s"
proof -
  note b = echo_invD(1) [OF I]
  note d = is_connD [OF c b]
  obtain n where n: "comm_close fd s1 = Inr (closed fd n s1)" "epoll_mirror (closed fd n s1)"
    by (rule comm_close_ok [OF s1(2) d(1)]) (use d s1 in \<open>simp_all add: in_table_def\<close>)
  let ?t = "closed fd n s1\<lparr>stats := (stats s1)(p := None)\<rparr>"
  have f: "free_stat p (closed fd n s1) = Inr ?t" using d(6) s1 by (simp add: free_stat_def)
  have "echo_inv ?t"
    by (rule echo_inv_close [OF I c]) (use n(2) s1 in simp_all)
  with n(1) f s1 show ?thesis by (simp add: close_and_free_def)
qed

lemma handled_close:
  assumes "echo_inv s" "is_conn s fd p" "stats s1 = (stats s)(p := Some st)" "s1 = s\<lparr>stats := x, written := w\<rparr>"
  shows "handled s (close_and_free fd p s1)"
proof -
  have "epoll_mirror s1" using base_okD(2) [OF echo_invD(1) [OF assms(1)]] assms(4) by simp
  then have "\<exists>t. close_and_free fd p s1 = Inr t \<and> echo_inv t \<and> Biggest_FD t = Biggest_FD s
    \<and> fd_table t = (fd_table s)[nat fd := zero_fde] \<and> sys_curtime t = sys_curtime s"
    by (intro close_and_free_ok [OF assms(1,2), where F = "fd_table s ! nat fd" and st = st]) (use assms(3,4) in simp_all)
  then show ?thesis by (auto simp: handled_def)
qed

lemma sys_write_sel:
  assumes "sys_write fd bs e s = (n, s1)"
  shows "s1 = s\<lparr>written := written s1\<rparr>"
  using assms by (auto simp: sys_write_def Let_def split: if_splits)

lemma sys_writeE:
  assumes "sys_write fd bs e s = (n, s1)"
  obtains w where "s1 = s\<lparr>written := w\<rparr>"
  by (rule that) (rule sys_write_sel [OF assms])

lemma echo_inv_written:
  assumes "echo_inv s"
  shows "echo_inv (s\<lparr>written := w\<rparr>)"
  using assms by (simp add: echo_inv_def base_ok_def entry_ok_def stat_ok_def)

lemma welcome_ok:
  assumes I: "echo_inv s" and c: "is_conn s fd p"
  shows "handled s (do_welcome_handler fd p e s)"
proof -
  obtain n s1 where w: "sys_write fd WELCOME e s = (n, s1)" by (cases "sys_write fd WELCOME e s")
  then obtain v where s1: "s1 = s\<lparr>written := v\<rparr>" by (rule sys_writeE)
  obtain st where st: "stats s p = Some st" "st_fd st = fd" "good_stat st" by (rule is_conn_stat [OF c])
  note b = echo_invD(1) [OF I]
  note d = is_connD [OF c b]
  show ?thesis
  proof (cases "n = int (length WELCOME)")
    case True
    obtain t where t: "bindE (commUpdateReadHandler fd (Some Do_echo_handler) p s1)
        (commSetTimeout fd 10 (Some Do_echo_timeout) p) = Inr t" "arm_ok s1 fd True Do_echo_handler p 10 t"
      using arm_read_ok [of s1 fd p 10 Do_echo_handler] base_okD(2) [OF b] d s1 by auto
    have "handled s (Inr t)"
      by (rule armed_inv [OF I c st(2,3) _ _ _ _ _ _ _ _ _ t(2)]) (use st(1) s1 in auto)
    with True w t(1) show ?thesis by (simp add: do_welcome_handler_def)
  next
    case False
    with w s1 echo_inv_written [OF I] show ?thesis
      by (simp add: do_welcome_handler_def handled_Inr)
  qed
qed

lemma fill_buf_good:
  assumes "length buf = BUFLEN" "buf ! (BUFLEN - 1) = 0" "length got \<le> BUFLEN - 2 - 1"
  shows "length (fill_buf buf got) = BUFLEN" "fill_buf buf got ! (BUFLEN - 1) = 0"
proof -
  show l: "length (fill_buf buf got) = BUFLEN" using assms(1,3) by (simp add: fill_buf_def BUFLEN_def)
  show "fill_buf buf got ! (BUFLEN - 1) = 0"
  proof (cases "length got = 1021")
    case True
    then show ?thesis by (simp add: fill_buf_def BUFLEN_def nth_append)
  next
    case False
    with assms(3) have lt: "length got < 1021" by (simp add: BUFLEN_def)
    with assms show ?thesis by (simp add: fill_buf_def BUFLEN_def nth_append nth_Cons')
  qed
qed

lemma prefix_buf_good:
  assumes "length buf = BUFLEN" "buf ! (BUFLEN - 1) = 0"
  shows "length ([45, 62] @ drop 2 buf) = BUFLEN" "([45, 62] @ drop 2 buf) ! (BUFLEN - 1) = 0"
  using assms by (simp_all add: BUFLEN_def nth_append)

lemma set_buf_good:
  assumes I: "echo_inv s" and c: "is_conn s fd p" and st: "stats s p = Some st" "st_fd st = fd"
    and b: "length b = BUFLEN" "b ! (BUFLEN - 1) = 0"
  shows "echo_inv (s\<lparr>stats := (stats s)(p \<mapsto> st\<lparr>send_buf := b\<rparr>)\<rparr>)"
proof -
  have "conn_fde p (fd_table s ! nat fd)"
    using echo_invD(3) [OF I st(1)] st(2) c by (auto simp: stat_ok_def is_conn_def)
  then show ?thesis
    by (intro echo_inv_update [OF I c, where st = "st\<lparr>send_buf := b\<rparr>" and F = "fd_table s ! nat fd"])
      (use st b base_okD(2) [OF echo_invD(1) [OF I]] in \<open>simp_all add: good_stat_def\<close>)
qed

lemma echo_handler_ok:
  assumes I: "echo_inv s" and c: "is_conn s fd p"
  shows "handled s (do_echo_handler fd p e s)"
proof -
  obtain st where st: "stats s p = Some st" "st_fd st = fd" "good_stat st" by (rule is_conn_stat [OF c])
  note b = echo_invD(1) [OF I]
  note d = is_connD [OF c b]
  have g: "length (send_buf st) = BUFLEN" "send_buf st ! (BUFLEN - 1) = 0" using st(3) by (simp_all add: good_stat_def)
  note pg = prefix_buf_good [OF g]
  show ?thesis
  proof (cases "sys_read (BUFLEN - 2 - 1) (a_read e)")
    case None
    have "echo_inv (s\<lparr>stats := (stats s)(p \<mapsto> st\<lparr>send_buf := [45, 62] @ drop 2 (send_buf st)\<rparr>)\<rparr>)"
      by (rule set_buf_good [OF I c st(1,2) pg])
    then have "handled s (Inr (s\<lparr>stats := (stats s)(p \<mapsto> st\<lparr>send_buf := [45, 62] @ drop 2 (send_buf st)\<rparr>)\<rparr>))"
      by (rule handled_Inr) simp
    with None st(1) d(6) show ?thesis by (simp add: do_echo_handler_def)
  next
    case (Some got)
    then have len: "length got \<le> BUFLEN - 2 - 1" by (cases "a_read e") auto
    note fg = fill_buf_good [OF g len]
    let ?s = "\<lambda>b. s\<lparr>stats := (stats s)(p \<mapsto> st\<lparr>send_buf := b\<rparr>)\<rparr>"
    have cl: "handled s (close_and_free fd p (?s x))" for x
      by (rule handled_close [OF I c, where st = "st\<lparr>send_buf := x\<rparr>" and w = "written s"]) simp_all
    show ?thesis
    proof (cases "got = [] \<or> is_quit (drop 2 (fill_buf (send_buf st) got))")
      case True
      then show ?thesis using Some st(1) d(6) cl by (auto simp: do_echo_handler_def Let_def)
    next
      case False
      let ?s1 = "?s (fill_buf (send_buf st) got)"
      obtain t where t: "bindE (commUpdateWriteHandler fd (Some Do_echo_response) p ?s1)
          (commSetTimeout fd 10 (Some Do_echo_timeout) p) = Inr t" "arm_ok ?s1 fd False Do_echo_response p 10 t"
        using arm_write_ok [of ?s1 fd p 10 Do_echo_response] base_okD(2) [OF b] d by auto
      have "handled s (Inr t)"
        by (rule armed_inv [OF I c _ _ _ _ _ _ _ _ _ _ _ t(2), where st = "st\<lparr>send_buf := fill_buf (send_buf st) got\<rparr>"])
          (use st fg in \<open>simp_all add: good_stat_def\<close>)
      with False Some st(1) d(6) t(1) show ?thesis by (simp add: do_echo_handler_def)
    qed
  qed
qed

lemma echo_response_ok:
  assumes I: "echo_inv s" and c: "is_conn s fd p"
  shows "handled s (do_echo_response fd p e s)"
proof -
  obtain st where st: "stats s p = Some st" "st_fd st = fd" "good_stat st" by (rule is_conn_stat [OF c])
  note b = echo_invD(1) [OF I]
  note d = is_connD [OF c b]
  have nul: "0 \<in> set (send_buf st)" using st(3) nth_mem [of "BUFLEN - 1" "send_buf st"]
    by (simp add: good_stat_def BUFLEN_def)
  let ?msg = "takeWhile (\<lambda>c. c \<noteq> 0) (send_buf st)"
  obtain n s1 where w: "sys_write fd ?msg e s = (n, s1)" by (cases "sys_write fd ?msg e s")
  then obtain v where s1: "s1 = s\<lparr>written := v\<rparr>" by (rule sys_writeE)
  consider "n > 0" | "n = 0" | "n < 0" by linarith
  then show ?thesis
  proof cases
    case 1
    obtain t where t: "bindE (commSetTimeout fd 10 (Some Do_echo_timeout) p s1)
        (commUpdateReadHandler fd (Some Do_echo_handler) p) = Inr t" "arm_ok s1 fd True Do_echo_handler p 10 t"
      using arm_timer_read_ok [of s1 fd p 10 Do_echo_handler] base_okD(2) [OF b] d s1 by auto
    have "handled s (Inr t)"
      by (rule armed_inv [OF I c st(2,3) _ _ _ _ _ _ _ _ _ t(2)]) (use st(1) s1 in auto)
    with 1 w t(1) st(1) nul show ?thesis by (simp add: do_echo_response_def)
  next
    case 2
    have "handled s (close_and_free fd p s1)"
      by (rule handled_close [OF I c, where st = st and x = "stats s" and w = v]) (use s1 st(1) in auto)
    with 2 w st(1) nul show ?thesis by (simp add: do_echo_response_def)
  next
    case 3
    with w s1 st(1) nul echo_inv_written [OF I] show ?thesis by (simp add: do_echo_response_def handled_Inr)
  qed
qed

lemma accept_ok:
  assumes I: "echo_inv s" and e: "\<not> a_oom e"
  shows "handled s (accept_connection fd p e s)"
proof -
  note b = echo_invD(1) [OF I]
  let ?n = "a_accept e"
  show ?thesis
  proof (cases "?n < 0 \<or> ?n \<ge> nofile s \<or> ?n \<in> set (openfds s)")
    case True
    then show ?thesis using I by (auto simp: accept_connection_def sys_accept_def handled_Inr)
  next
    case ok: False
    let ?s1 = "s\<lparr>openfds := ?n # openfds s\<rparr>"
    show ?thesis
    proof (cases "?n = 0")
      case True
      have "epoll_mirror ?s1" using base_okD(2) [OF b] by (simp add: epoll_mirror_def)
      then have "base_ok ?s1" using b ok True by (simp add: base_ok_def)
      moreover have "entry_ok ?s1 i" if "i < length (fd_table s)" for i
        using echo_invD(2) [OF I that] by (auto simp: entry_ok_def)
      moreover have "stat_ok ?s1 q sq" if "stats s q = Some sq" for q sq
        using echo_invD(3) [OF I that] by (auto simp: stat_ok_def)
      ultimately have "echo_inv ?s1" by (simp add: echo_inv_def)
      with ok True show ?thesis by (simp add: accept_connection_def sys_accept_def handled_Inr Let_def)
    next
      case False
      with ok have n: "0 < ?n" "?n \<notin> set (openfds s)" "?n < nofile s" by auto
      let ?p = "next_ptr s"
      let ?s2 = "?s1\<lparr>next_ptr := ?p + 1, stats := (stats s)(?p \<mapsto> \<lparr>st_fd = ?n, send_buf = replicate BUFLEN 0, st_handler = None\<rparr>)\<rparr>"
      have tab: "in_table ?n (fd_table s)" using n base_okD(1,6) [OF b] by (simp add: in_table_def)
      have M: "epoll_mirror ?s2" using base_okD(2) [OF b] by (simp add: epoll_mirror_def)
      obtain t where t: "bindE (commUpdateWriteHandler ?n (Some Do_welcome_handler) ?p ?s2)
          (commSetTimeout ?n 30 (Some Do_echo_timeout) ?p) = Inr t" "arm_ok ?s2 ?n False Do_welcome_handler ?p 30 t"
        using arm_write_ok [OF M, of ?n ?p 30 Do_welcome_handler] tab tables_len [OF b] n base_okD(6,9) [OF b] by auto
      have F: "conn_fde ?p (armed False Do_welcome_handler ?p (sys_curtime s + 30) (fd_table s ! nat ?n))"
        using closed_entry(1) [OF I tab n(2)] base_okD(7) [OF b] by (simp add: conn_fde_def armed_def zero_fde_def)
      have "echo_inv t"
        by (rule echo_inv_new [OF I n(1) tab n(2,3) F]) (use t(2) in \<open>simp_all add: arm_ok_def\<close>)
      then have "handled s (Inr t)" using t(2) by (simp add: handled_Inr arm_ok_def)
      with ok n t(1) e base_okD(8) [OF b] show ?thesis
        by (simp add: accept_connection_def sys_accept_def stat_init_def Let_def)
    qed
  qed
qed

end
