(* ===== verification/Epoll_Thms.thy ===== *)
theory Epoll_Thms
  imports Epoll_Echo_Inv
begin

text \<open>
  The echo server as an application of the framework, and the properties of
  \<open>epoll/epoll_framework\<close> that follow.
\<close>

section \<open>The echo server is an event application\<close>

lemma timeout_ok:
  assumes I: "echo_inv s" and i: "i < length (fd_table s)" "expired s i"
  shows "\<exists>s'. check_fd echo_call e (int i) s = Inr s' \<and> echo_inv s' \<and> Biggest_FD s' = Biggest_FD s
    \<and> sys_curtime s' = sys_curtime s \<and> (\<forall>k<length (fd_table s). expired s' k \<longrightarrow> expired s k \<and> k \<noteq> i)"
proof -
  let ?F = "fd_table s ! i"
  have fd: "in_table (int i) (fd_table s)" using i(1) by (simp add: in_table_def)
  obtain p where p: "conn_fde p ?F" "is_conn s (int i) p"
    using entry_conn [OF I fd] i(2) by (auto simp: expired_def)
  obtain st where st: "stats s p = Some st" by (rule is_conn_stat [OF p(2)])
  let ?s1 = "s\<lparr>fd_table := (fd_table s)[i := ?F\<lparr>timeout_handler := None\<rparr>]\<rparr>"
  have "\<exists>t. close_and_free (int i) p ?s1 = Inr t \<and> echo_inv t \<and> Biggest_FD t = Biggest_FD s
    \<and> fd_table t = (fd_table s)[nat (int i) := zero_fde] \<and> sys_curtime t = sys_curtime s"
    by (rule close_and_free_ok [OF I p(2), where F = "?F\<lparr>timeout_handler := None\<rparr>" and st = st])
      (use st base_okD(2) [OF echo_invD(1) [OF I]] in \<open>simp_all add: fun_upd_idem\<close>)
  then obtain t where t: "close_and_free (int i) p ?s1 = Inr t" "echo_inv t" "Biggest_FD t = Biggest_FD s"
    "fd_table t = (fd_table s)[i := zero_fde]" "sys_curtime t = sys_curtime s" by auto
  have "check_fd echo_call e (int i) s = Inr t"
    using p(1) i(2) t(1) by (simp add: check_fd_def expired_def conn_fde_def do_echo_timeout_def)
  moreover have "expired t k \<longrightarrow> expired s k \<and> k \<noteq> i" for k
    using t(4,5) i(1) by (cases "k = i") (auto simp: expired_def zero_fde_def)
  ultimately show ?thesis using t by blast
qed

lemma read_cases:
  assumes "echo_inv s" "in_table fd (fd_table s)" "read_handler (fd_table s ! nat fd) = Some h"
  shows "h = Accept_connection \<or> h = Do_echo_handler \<and> (\<exists>p. read_data (fd_table s ! nat fd) = p \<and> is_conn s fd p)"
proof (cases "h = Accept_connection")
  case False
  have i: "nat fd < length (fd_table s)" using assms(2) by (simp add: in_table_def)
  from echo_invD(2) [OF assms(1) i] assms(3) False have "h = Do_echo_handler"
    by (auto simp: entry_ok_def zero_fde_def listen_fde_def conn_fde_def)
  moreover from this obtain p where "conn_fde p (fd_table s ! nat fd)" "is_conn s fd p"
    using entry_conn [OF assms(1,2)] assms(3) by blast
  ultimately show ?thesis using assms(3) by (auto simp: conn_fde_def)
qed simp

interpretation echo: event_app echo_call echo_inv "\<lambda>e. \<not> a_oom e"
proof
  fix s :: echo and fd h and e :: app_env
  assume I: "echo_inv s" and fd: "in_table fd (fd_table s)" and e: "\<not> a_oom e"
  show "\<exists>s'. echo_call h fd (read_data (fd_table s ! nat fd)) e s = Inr s' \<and> echo_inv s' \<and> Biggest_FD s' = Biggest_FD s"
    if "read_handler (fd_table s ! nat fd) = Some h"
    using read_cases [OF I fd that] accept_ok [OF I e] echo_handler_ok [OF I] by (auto simp: handled_def)
  show "\<exists>s'. echo_call h fd (write_data (fd_table s ! nat fd)) e s = Inr s' \<and> echo_inv s' \<and> Biggest_FD s' = Biggest_FD s"
    if w: "write_handler (fd_table s ! nat fd) = Some h"
  proof -
    obtain p where p: "conn_fde p (fd_table s ! nat fd)" "is_conn s fd p"
      using entry_conn [OF I fd] w by blast
    then have "write_data (fd_table s ! nat fd) = p" "h = Do_welcome_handler \<or> h = Do_echo_response"
      using w by (auto simp: conn_fde_def)
    with welcome_ok [OF I p(2)] echo_response_ok [OF I p(2)] show ?thesis by (auto simp: handled_def)
  qed
next
  fix s :: echo and i and e :: app_env
  assume "echo_inv s" "i < length (fd_table s)" "expired s i"
  then show "\<exists>s'. check_fd echo_call e (int i) s = Inr s' \<and> echo_inv s' \<and> Biggest_FD s' = Biggest_FD s
    \<and> sys_curtime s' = sys_curtime s \<and> (\<forall>k<length (fd_table s). expired s' k \<longrightarrow> expired s k \<and> k \<noteq> i)"
    by (rule timeout_ok)
next
  fix s :: echo
  show "length (fd_table s) = nat (Biggest_FD s) \<and> epoll_mirror s" if "echo_inv s"
    using base_okD(1,2) [OF echo_invD(1) [OF that]] by simp
  show "echo_inv (getCurrentTime now s)" if "echo_inv s" "0 \<le> now" for now
    using that by (simp add: echo_inv_def base_ok_def entry_ok_def stat_ok_def getCurrentTime_def epoll_mirror_def)
  show "echo_inv (s\<lparr>last_timeout := l\<rparr>)" if "echo_inv s" for l
    using that by (simp add: echo_inv_def base_ok_def entry_ok_def stat_ok_def epoll_mirror_def)
qed

section \<open>The server from its start\<close>

definition round_ok :: "round \<Rightarrow> bool" where
  "round_ok r \<longleftrightarrow> (\<forall>k. \<not> a_oom (r_timers r k)) \<and> r_past r = 0 \<and> echo.good_wait (r_wait r) \<and> 0 \<le> r_now r"

lemma main_loop_ok:
  "echo_inv s \<Longrightarrow> \<forall>r\<in>set rs. round_ok r \<Longrightarrow> \<exists>t. main_loop rs s = Inr t \<and> echo_inv t"
proof (induction rs arbitrary: s)
  case (Cons r rs)
  then obtain rc s1 where "comm_select echo_call (r_timers r) (r_past r) (r_wait r) (r_now r) 1000 s = Inr (rc, s1)"
    "echo_inv s1"
    using echo.comm_select_ok [of s "r_timers r" "r_past r" "r_wait r" "r_now r" 1000] by (auto simp: round_ok_def)
  with Cons show ?case by simp
qed simp

lemma main_setup_ok:
  assumes "2 < sock" "sock < limit" "limit \<le> 102400" "\<not> a_oom e"
  shows "\<exists>s. main_setup True True e (at_startup (\<lambda>p. p) limit sock) = Inr s \<and> echo_inv s"
proof -
  let ?st = "\<lparr>st_fd = sock, send_buf = replicate BUFLEN 0, st_handler = None\<rparr>"
  let ?s = "(comm_init True True 102400 (at_startup (\<lambda>p. p) limit sock))
     \<lparr>next_ptr := 2, stats := [1 \<mapsto> ?st]\<rparr>"
  have T: "fd_table ?s = replicate 102400 zero_fde" "epoll_state ?s = replicate 102400 0" "Biggest_FD ?s = 102400"
    "interest ?s = Map.empty" "epoll_fds ?s = 0" "openfds ?s = [sock, 2, 1, 0]" "lsock ?s = sock" "nofile ?s = limit"
    "sys_curtime ?s = 0" "stats ?s = [1 \<mapsto> ?st]" "next_ptr ?s = 2" "ret_reg ?s = (\<lambda>p. p)"
    by (simp_all add: comm_init_def at_startup_def do_epoll_init_def)
  have M0: "epoll_mirror ?s"
    unfolding epoll_mirror_def T by (simp add: the_default_def)
  have tab: "in_table sock (fd_table ?s)" "in_table sock (epoll_state ?s)"
    unfolding T using assms(1-3) by (auto simp: in_table_def)
  let ?F = "(fd_table ?s ! nat sock)\<lparr>read_handler := Some Accept_connection, read_data := 1\<rparr>"
  let ?s1 = "?s\<lparr>fd_table := (fd_table ?s)[nat sock := ?F]\<rparr>"
  have M1: "epoll_mirror ?s1" using M0 by simp
  obtain n where n: "epollSetEvents sock True False ?s1 = Inr (registered sock (events_of True False) n ?s1)"
    "epoll_mirror (registered sock (events_of True False) n ?s1)"
    by (rule epollSetEvents_ok [OF M1, of sock True False]) (use tab T in simp_all)
  let ?t = "registered sock (events_of True False) n ?s1"
  have F: "listen_fde ?F" unfolding T using assms(1-3) by (simp add: listen_fde_def zero_fde_def)
  have "base_ok ?t" using n(2) T assms(1-3) by (auto simp: base_ok_def)
  moreover have "entry_ok ?t i" if "i < length (fd_table ?t)" for i
    using that F T assms(1-3) by (cases "i = nat sock") (auto simp: entry_ok_def)
  moreover have "stat_ok ?t q sq" if "stats ?t q = Some sq" for q sq
    using that T by (auto simp: stat_ok_def good_stat_def BUFLEN_def split: if_splits)
  ultimately have "echo_inv ?t" by (simp add: echo_inv_def)
  moreover have "main_setup True True e (at_startup (\<lambda>p. p) limit sock) = Inr ?t"
  proof -
    have "stat_init sock e (comm_init True True 102400 (at_startup (\<lambda>p. p) limit sock)) = (1, ?s)"
      using assms(4) by (simp add: stat_init_def comm_init_def at_startup_def do_epoll_init_def)
    moreover have "lsock (at_startup (\<lambda>p. p) limit sock) = sock" by (simp add: at_startup_def)
    ultimately show ?thesis using tab(1) n(1) by (simp add: main_setup_def commUpdateReadHandler_def)
  qed
  ultimately show ?thesis by blast
qed

section \<open>Properties\<close>


definition quiet_env :: app_env where
  "quiet_env = \<lparr>a_accept = 7, a_oom = False, a_read = Rd [104, 105], a_write = 9\<rparr>"

definition quiet_round :: round where
  "quiet_round = \<lparr>r_timers = (\<lambda>k. quiet_env), r_past = 0,
     r_wait = Ready [(3, 1, quiet_env, quiet_env), (7, 5, quiet_env, quiet_env)], r_now = 2000000\<rparr>"

lemma quiet_round_ok: "round_ok quiet_round"
  by (simp add: round_ok_def quiet_round_def quiet_env_def)



definition two_fds :: "eh comm" where
  "two_fds = \<lparr>fd_table = [zero_fde, zero_fde], Biggest_FD = 2, epoll_state = [0, 21], epoll_fds = 1,
     sys_curtime = 0, current_dtime = 0, last_timeout = 0, interest = [1 \<mapsto> 21], openfds = [0, 1]\<rparr>"


lemma is_quit_fill: "is_quit (drop 2 (fill_buf buf got)) = is_quit got"
proof -
  have "map tolower (take 4 (drop 2 (fill_buf buf got))) = [113, 117, 105, 116] \<longleftrightarrow> map tolower (take 4 got) = [113, 117, 105, 116]"
    (is "?l \<longleftrightarrow> ?r")
  proof (cases "4 \<le> length got")
    case True
    then show ?thesis by (simp add: fill_buf_def)
  next
    case False
    have "0 \<in> set (map tolower (take 4 (drop 2 (fill_buf buf got))))"
      using False by (auto simp: fill_buf_def tolower_def take_Cons' intro!: image_eqI [of _ _ 0])
    then have "\<not> ?l" by auto
    moreover have "\<not> ?r"
    proof
      assume ?r
      then have "length (map tolower (take 4 got)) = length [113 :: byte, 117, 105, 116]" by (rule arg_cong)
      with False show False by simp
    qed
    ultimately show ?thesis by simp
  qed
  then show ?thesis by (simp add: is_quit_def)
qed

lemma fill_buf_str:
  "takeWhile (\<lambda>c. c \<noteq> 0) (fill_buf buf got) = [45, 62] @ takeWhile (\<lambda>c. c \<noteq> 0) got"
proof -
  have "takeWhile (\<lambda>c. c \<noteq> 0) (got @ 0 # r) = takeWhile (\<lambda>c. c \<noteq> 0) got" for r :: "byte list"
    by (induction got) auto
  then show ?thesis by (simp add: fill_buf_def)
qed

text \<open>The two handlers in detail.\<close>

lemma echo_handler_stores:
  assumes I: "echo_inv s" and c: "is_conn s fd p" and st: "stats s p = Some st"
    and r: "a_read e = Rd bs" "bs \<noteq> []" "\<not> is_quit (take 1021 bs)"
  shows "\<exists>t. do_echo_handler fd p e s = Inr t \<and> echo_inv t \<and> is_conn t fd p \<and> written t = written s
    \<and> (\<exists>st'. stats t p = Some st' \<and> send_buf st' = fill_buf (send_buf st) (take 1021 bs))"
proof -
  let ?got = "take 1021 bs"
  let ?st = "st\<lparr>send_buf := fill_buf (send_buf st) ?got\<rparr>"
  let ?s1 = "s\<lparr>stats := (stats s)(p \<mapsto> ?st)\<rparr>"
  note b = echo_invD(1) [OF I]
  note d = is_connD [OF c b]
  obtain t where t: "bindE (commUpdateWriteHandler fd (Some Do_echo_response) p ?s1)
      (commSetTimeout fd 10 (Some Do_echo_timeout) p) = Inr t" "arm_ok ?s1 fd False Do_echo_response p 10 t"
    using arm_write_ok [of ?s1 fd p 10 Do_echo_response] base_okD(2) [OF b] d by auto
  have eq: "do_echo_handler fd p e s = Inr t"
    using r st d(6) t(1) by (simp add: do_echo_handler_def BUFLEN_def is_quit_fill Let_def)
  moreover have "echo_inv t" using echo_handler_ok [OF I c, of e] eq by (simp add: handled_def)
  moreover have "stats t p = Some ?st" "written t = written s" using t(2) by (simp_all add: arm_ok_def)
  moreover have "is_conn t fd p"
    using c st t(2) echo_invD(3) [OF \<open>echo_inv t\<close> \<open>stats t p = Some ?st\<close>]
    by (auto simp: is_conn_def arm_ok_def in_table_def stat_ok_def)
  ultimately show ?thesis by auto
qed

lemma echo_response_sends:
  assumes I: "echo_inv s" and c: "is_conn s fd p" and st: "stats s p = Some st" and w: "0 < a_write e"
    and m: "takeWhile (\<lambda>c. c \<noteq> 0) (send_buf st) \<noteq> []"
  shows "\<exists>t. do_echo_response fd p e s = Inr t \<and> written t =
    written s @ [(fd, take (nat (a_write e)) (takeWhile (\<lambda>c. c \<noteq> 0) (send_buf st)))]"
proof -
  let ?msg = "takeWhile (\<lambda>c. c \<noteq> 0) (send_buf st)"
  let ?s1 = "s\<lparr>written := written s @ [(fd, take (nat (a_write e)) ?msg)]\<rparr>"
  note b = echo_invD(1) [OF I]
  note d = is_connD [OF c b]
  have "take (min (nat (a_write e)) (length ?msg)) ?msg = take (nat (a_write e)) ?msg" by (simp add: min_def)
  then have sw: "sys_write fd ?msg e s = (int (min (nat (a_write e)) (length ?msg)), ?s1)"
    using w by (simp add: sys_write_def Let_def)
  have pos: "0 < int (min (nat (a_write e)) (length ?msg))" using w m by simp
  have nul: "0 \<in> set (send_buf st)"
    using echo_invD(3) [OF I st] nth_mem [of "BUFLEN - 1" "send_buf st"]
    by (simp add: stat_ok_def good_stat_def BUFLEN_def)
  obtain t where t: "bindE (commSetTimeout fd 10 (Some Do_echo_timeout) p ?s1)
      (commUpdateReadHandler fd (Some Do_echo_handler) p) = Inr t" "arm_ok ?s1 fd True Do_echo_handler p 10 t"
    using arm_timer_read_ok [of ?s1 fd p 10 Do_echo_handler] base_okD(2) [OF b] d by auto
  then have "do_echo_response fd p e s = Inr t" using st nul sw pos by (simp add: do_echo_response_def)
  with t(2) show ?thesis by (auto simp: arm_ok_def)
qed

text \<open>C18: a message is answered by the prefix \<open>->\<close> and the message: of what a client sends, the first
  1021 bytes up to the first zero byte are written back, whatever was in the buffer before.\<close>

theorem echo_reply:
  assumes "echo_inv s" "is_conn s fd p" "a_read e1 = Rd bs" "bs \<noteq> []" "\<not> is_quit (take 1021 bs)" "0 < a_write e2"
  shows "\<exists>t u. do_echo_handler fd p e1 s = Inr t \<and> do_echo_response fd p e2 t = Inr u
    \<and> written u = written s @ [(fd, take (nat (a_write e2)) ([45, 62] @ takeWhile (\<lambda>c. c \<noteq> 0) (take 1021 bs)))]"
proof -
  obtain st where st: "stats s p = Some st" by (rule is_conn_stat [OF assms(2)])
  obtain t st' where t: "do_echo_handler fd p e1 s = Inr t" "echo_inv t" "is_conn t fd p" "written t = written s"
    "stats t p = Some st'" "send_buf st' = fill_buf (send_buf st) (take 1021 bs)"
    using echo_handler_stores [OF assms(1,2) st assms(3-5)] by blast
  have "takeWhile (\<lambda>c. c \<noteq> 0) (send_buf st') = [45, 62] @ takeWhile (\<lambda>c. c \<noteq> 0) (take 1021 bs)"
    unfolding t(6) by (rule fill_buf_str)
  with echo_response_sends [OF t(2,3,5) assms(6)] t(1,4) show ?thesis by auto
qed

text \<open>A server with one connection, to run the handlers on.\<close>

definition small_server :: echo where
  "small_server = \<lparr>fd_table = [zero_fde, armed True Accept_connection 1 0 zero_fde\<lparr>timeout_handler := None, timeout_data := 0\<rparr>,
       armed False Do_welcome_handler 2 30 (armed True Do_echo_handler 2 10 zero_fde)],
     Biggest_FD = 3, epoll_state = [0, 25, 25], epoll_fds = 2, sys_curtime = 0, current_dtime = 0, last_timeout = 0,
     interest = [1 \<mapsto> 25, 2 \<mapsto> 25], openfds = [2, 1, 0],
     stats = [1 \<mapsto> \<lparr>st_fd = 1, send_buf = replicate BUFLEN 0, st_handler = None\<rparr>,
              2 \<mapsto> \<lparr>st_fd = 2, send_buf = replicate BUFLEN 0, st_handler = None\<rparr>],
     next_ptr = 3, nofile = 3, lsock = 1, written = [], ret_reg = (\<lambda>p. p)\<rparr>"

lemma small_mirror: "epoll_mirror small_server"
proof -
  have "dom [1 \<mapsto> 25, 2 \<mapsto> 25] = {1, 2 :: int}" by auto
  then show ?thesis
    by (auto simp: epoll_mirror_def small_server_def All_less_Suc2 the_default_def in_table_def split: if_splits)
qed

lemma small_server_ok: "echo_inv small_server" "is_conn small_server 2 2"
proof -
  have gs: "good_stat \<lparr>st_fd = f, send_buf = replicate BUFLEN 0, st_handler = None\<rparr>" for f
    by (simp add: good_stat_def BUFLEN_def)
  have base: "base_ok small_server" using small_mirror by (simp add: base_ok_def) (simp add: small_server_def)
  have entry: "\<forall>i<length (fd_table small_server). entry_ok small_server i"
    by (simp add: small_server_def All_less_Suc2 entry_ok_def armed_def listen_fde_def conn_fde_def zero_fde_def)
  have stat: "stat_ok small_server p st" if "stats small_server p = Some st" for p st
    using that gs by (auto simp: small_server_def stat_ok_def conn_fde_def armed_def in_table_def split: if_splits)
  show "echo_inv small_server" using base entry stat by (simp add: echo_inv_def)
  show "is_conn small_server 2 2" using gs by (simp add: is_conn_def small_server_def in_table_def)
qed

theorem echo_reply_witness:
  "\<exists>t u. do_echo_handler 2 2 quiet_env small_server = Inr t \<and> do_echo_response 2 2 quiet_env t = Inr u
     \<and> written u = [(2, [45, 62, 104, 105])]"
  using echo_reply [OF small_server_ok, of quiet_env "[104, 105]" quiet_env]
  by (simp add: quiet_env_def is_quit_def small_server_def)





end
