(* ===== verification/Net_Prelude.thy ===== *)
theory Net_Prelude
  imports OS_Prelude
begin

text \<open>
  What the network programs share: byte order on a little-endian host, C strings in byte
  buffers, and reading from a stream socket, whose input arrives in segments.
\<close>

section \<open>Byte order\<close>

text \<open>The bytes of a \<open>uint32_t\<close> in memory, and the value that four bytes in memory have.\<close>

definition le_bytes32 :: "u32 \<Rightarrow> byte list" where
  "le_bytes32 x = [ucast x, ucast (drop_bit 8 x), ucast (drop_bit 16 x), ucast (drop_bit 24 x)]"

fun of_le32 :: "byte list \<Rightarrow> u32" where
  "of_le32 (a # b # c # d # r) =
     ucast a OR push_bit 8 (ucast b) OR push_bit 16 (ucast c) OR push_bit 24 (ucast d)"
| "of_le32 _ = 0"

text \<open>\<open>htonl\<close> and \<open>ntohl\<close> both swap the bytes.\<close>

definition htonl :: "u32 \<Rightarrow> u32" where "htonl x = of_le32 (rev (le_bytes32 x))"
definition ntohl :: "u32 \<Rightarrow> u32" where "ntohl x = of_le32 (rev (le_bytes32 x))"

lemma length_le_bytes32 [simp]: "length (le_bytes32 x) = 4"
  by (simp add: le_bytes32_def)

lemma bit_byte_lt: "bit (b :: byte) n \<Longrightarrow> n < 8"
  using bit_imp_le_length [of b n] by simp

lemma of_le32_le_bytes32 [simp]: "of_le32 (le_bytes32 x) = x"
proof (rule bit_word_eqI)
  fix n assume "n < LENGTH(32)"
  then consider "n < 8" | "8 \<le> n" "n < 16" | "16 \<le> n" "n < 24" | "24 \<le> n" "n < 32" by force
  then show "bit (of_le32 (le_bytes32 x)) n = bit x n"
    by cases (auto simp: le_bytes32_def bit_simps)
qed

lemma le_bytes32_of_le32 [simp]: "le_bytes32 (of_le32 [a, b, c, d]) = [a, b, c, d]"
  by (simp add: le_bytes32_def, intro conjI; rule bit_word_eqI; auto simp: bit_simps dest: bit_byte_lt)

lemma le_bytes32_of_le32': "length bs = 4 \<Longrightarrow> le_bytes32 (of_le32 bs) = bs"
proof -
  assume "length bs = 4"
  then obtain a b c d where "bs = [a, b, c, d]" 
    by (auto simp: numeral_eq_Suc length_Suc_conv)
  then show ?thesis by (simp only: le_bytes32_of_le32)
qed

lemma ntohl_htonl [simp]: "ntohl (htonl x) = x" "htonl (ntohl x) = x"
  by (simp_all add: ntohl_def htonl_def le_bytes32_of_le32' del: of_le32.simps)
lemma of_le32_append [simp]: "of_le32 (le_bytes32 x @ r) = x"
  using of_le32_le_bytes32 [of x] by (simp add: le_bytes32_def)

section \<open>C strings\<close>

text \<open>The string that starts at the beginning of a buffer.\<close>

definition cstr :: "byte list \<Rightarrow> byte list" where
  "cstr buf = takeWhile (\<lambda>c. c \<noteq> 0) buf"

definition chars :: "string \<Rightarrow> byte list" where
  "chars s = map (\<lambda>c. of_nat (of_char c)) s"

lemma cstr_terminated: "0 \<notin> set bs \<Longrightarrow> cstr (bs @ 0 # r) = bs"
  by (induction bs) (auto simp: cstr_def)

lemma length_cstr: "length (cstr bs) \<le> length bs"
  by (simp add: cstr_def length_takeWhile_le)

section \<open>Stream sockets\<close>

text \<open>What is still to arrive: segments, a failing read, and the end of the stream after the last.\<close>

datatype seg = Seg "byte list" | Fail

text \<open>\<open>read(fd, buf, n)\<close>: the result, the bytes stored, and what remains.\<close>

fun net_read :: "nat \<Rightarrow> seg list \<Rightarrow> int \<times> byte list \<times> seg list" where
  "net_read n [] = (0, [], [])"
| "net_read n (Fail # r) = (-1, [], r)"
| "net_read n (Seg bs # r) =
     (if length bs \<le> n then (int (length bs), bs, r) else (int n, take n bs, Seg (drop n bs) # r))"

lemma net_read_len:
  "net_read n ch = (k, got, r) \<Longrightarrow> length got \<le> n \<and> (k = int (length got) \<or> k = -1 \<and> got = [])"
  by (cases "(n, ch)" rule: net_read.cases) (auto split: if_splits)

text \<open>\<open>strncmp(a, b, n) == 0\<close>: equal up to the first NUL, or up to \<open>n\<close> bytes.\<close>

fun strneq :: "nat \<Rightarrow> byte list \<Rightarrow> byte list \<Rightarrow> bool" where
  "strneq 0 _ _ = True"
| "strneq (Suc n) (x # xs) (y # ys) = (x = y \<and> (x = 0 \<or> strneq n xs ys))"
| "strneq (Suc n) _ _ = False"

lemma strneq_take:
  "n \<le> length xs \<Longrightarrow> n \<le> length ys \<Longrightarrow> 0 \<notin> set ys \<Longrightarrow> strneq n xs ys \<longleftrightarrow> take n xs = take n ys"
proof (induction n xs ys rule: strneq.induct)
  case (2 n x xs y ys)
  then show ?case by auto
qed auto

text \<open>
  Pointers into a string are the suffixes they point to. \<open>strstr\<close> yields the suffix at the
  first occurrence, \<open>None\<close> for NULL; \<open>strncasecmp\<close> compares in lower case.
\<close>

fun prefix_of :: "byte list \<Rightarrow> byte list \<Rightarrow> bool" where
  "prefix_of [] s = True"
| "prefix_of (x # xs) (y # ys) = (x = y \<and> prefix_of xs ys)"
| "prefix_of (x # xs) [] = False"

fun strstr :: "byte list \<Rightarrow> byte list \<Rightarrow> byte list option" where
  "strstr [] pat = (if pat = [] then Some [] else None)"
| "strstr (x # s) pat = (if prefix_of pat (x # s) then Some (x # s) else strstr s pat)"

definition lower :: "byte \<Rightarrow> byte" where
  "lower c = (if 65 \<le> c \<and> c \<le> 90 then c + 32 else c)"

definition strncaseeq :: "nat \<Rightarrow> byte list \<Rightarrow> byte list \<Rightarrow> bool" where
  "strncaseeq n s pat = (map lower (take n s) = map lower (take n pat))"

text \<open>Decimal numbers, as \<open>printf\<close> writes them.\<close>

fun dec :: "nat \<Rightarrow> byte list" where
  "dec n = (if n < 10 then [of_nat (48 + n)] else dec (n div 10) @ [of_nat (48 + n mod 10)])"

declare dec.simps [simp del]

lemma length_chars [simp]: "length (chars s) = length s"
  by (simp add: chars_def)

lemma prefix_of_append: "prefix_of xs (xs @ ys)"
  by (induction xs) auto

lemma prefix_of_take: "prefix_of xs ys \<longleftrightarrow> take (length xs) ys = xs"
  by (induction xs ys rule: prefix_of.induct) auto

lemma strstr_here: "prefix_of pat s \<Longrightarrow> strstr s pat = Some s"
  by (cases s) (auto simp: prefix_of_take)

lemma dec_len: "n < 10 ^ k \<Longrightarrow> 0 < k \<Longrightarrow> length (dec n) \<le> k"
proof (induction k arbitrary: n)
  case (Suc k)
  show ?case
  proof (cases "n < 10")
    case False
    with Suc.prems have "n div 10 < 10 ^ k" "0 < k" by (auto simp: less_mult_imp_div_less mult.commute intro: gr0I)
    with Suc.IH False show ?thesis by (subst dec.simps) simp
  qed (simp add: dec.simps)
qed simp

text \<open>
  A pattern is first found where it is put if it does not occur in what precedes it and its
  own beginning, or if what precedes it, with all but the last byte, lacks the last byte.
\<close>

lemma strstr_skip:
  assumes "pat \<noteq> []" "strstr (h @ butlast pat) pat = None"
  shows "strstr (h @ pat @ r) pat = Some (pat @ r)"
  using assms(2)
proof (induction h)
  case Nil
  then show ?case by (simp add: strstr_here prefix_of_append)
next
  case (Cons x h)
  have "take (length pat) (x # h @ pat @ r) = take (length pat) (x # h @ butlast pat)"
    using \<open>pat \<noteq> []\<close> by (cases pat rule: rev_cases) auto
  then have "prefix_of pat (x # h @ pat @ r) = prefix_of pat (x # h @ butlast pat)"
    by (simp only: prefix_of_take)
  with Cons show ?case by (auto split: if_splits)
qed

lemma strstr_absent:
  assumes "pat \<noteq> []" "last pat \<notin> set s"
  shows "strstr s pat = None"
  using assms(2)
proof (induction s)
  case (Cons x s)
  have "\<not> prefix_of pat (x # s)"
    using last_in_set [OF assms(1)] Cons.prems set_take_subset [of "length pat" "x # s"]
    by (metis prefix_of_take subsetD)
  with Cons show ?case by auto
qed (use assms in simp)

end
