(* ===== verification/Tcp_Framing.thy ===== *)
theory Tcp_Framing
  imports Net_Prelude
begin

text \<open>
  The length-prefixed protocol of \<open>echo_server/TCPfenbao\<close>: a packet is the tag \<open>FBEB\<close>, the
  length of the data in network byte order, and the data. The server reads the header and
  the data with one \<open>read\<close> each and answers with a packet of its own. A connection is a
  function of what arrives on it; besides its outcome the model keeps the allocations and
  calls on the socket that the handler makes.
\<close>

section \<open>Setting up\<close>

record sock_env =
  e_socket :: int
  e_bind :: int
  e_listen :: int
  e_connect :: int

datatype server_setup = Setup_failed "int list"   \<comment> \<open>the sockets closed before returning\<close>
  | Setup_ok

definition tcp_server_setup :: "sock_env \<Rightarrow> server_setup" where
  "tcp_server_setup e =
     (if e_socket e < 0 then Setup_failed []
      else if e_bind e < 0 then Setup_failed [e_socket e]
      else if e_listen e < 0 then Setup_failed [e_socket e]
      else Setup_ok)"

section \<open>Packets\<close>

definition HEADER_SIZE :: nat where "HEADER_SIZE = 8"
definition HEADER_TAG :: "byte list" where "HEADER_TAG = chars ''FBEB''"

text \<open>\<open>send_message\<close> stores \<open>strlen(message)\<close> in a \<open>uint32_t\<close>.\<close>

definition tcp_packet :: "byte list \<Rightarrow> byte list" where
  "tcp_packet message =
     HEADER_TAG @ le_bytes32 (htonl (of_nat (length message))) @ message"

definition response_message :: "byte list" where
  "response_message = chars ''Data received successfully''"

datatype io = Io_malloc u32 | Io_free | Io_write "byte list" | Io_close

datatype outcome =
    Bad_header
  | Bad_tag
  | No_memory
  | Bad_data
  | Received "byte list"   \<comment> \<open>the data, printed as a string\<close>

section \<open>One connection of the server\<close>

text \<open>
  \<open>alloc\<close> tells whether \<open>malloc\<close> of a size succeeds. \<open>data_length + 1\<close> is computed in
  32 bits; \<open>len\<close> is an \<open>int\<close>, compared with the \<open>uint32_t\<close> as unsigned.
\<close>

definition tcp_server_data ::
  "u32 \<Rightarrow> seg list \<Rightarrow> (outcome \<times> io list) res" where
  "tcp_server_data data_length inp =
     (let size = data_length + 1; (len, got, _) = net_read (unat data_length) inp in
      if unat size < length got then Inl OutOfBounds
      else if of_int len \<noteq> data_length then Inr (Bad_data, [Io_malloc size, Io_free, Io_close])
      else if unat size \<le> unat data_length then Inl OutOfBounds
      else Inr (Received got,
             [Io_malloc size, Io_write (tcp_packet response_message), Io_free, Io_close]))"

definition tcp_server_conn :: "(u32 \<Rightarrow> bool) \<Rightarrow> seg list \<Rightarrow> (outcome \<times> io list) res" where
  "tcp_server_conn alloc inp =
     (let (len, header, inp) = net_read HEADER_SIZE inp in
      if len \<noteq> int HEADER_SIZE then Inr (Bad_header, [Io_close])
      else if \<not> strneq 4 header HEADER_TAG then Inr (Bad_tag, [Io_close])
      else let data_length = ntohl (of_le32 (drop 4 header)) in
        if \<not> alloc (data_length + 1) then Inr (No_memory, [Io_close])
        else tcp_server_data data_length inp)"

section \<open>The client\<close>

text \<open>
  \<open>send_message\<close>: the exit status, where the process ends, what was received and the calls.
  \<open>n\<close> is an \<open>ssize_t\<close>, so its comparison with the \<open>uint32_t\<close> is one of 64-bit signed numbers.
\<close>

datatype client_result = Exit outcome | Client_setup_failed | Client_ok "byte list"

definition tcp_client_data :: "u32 \<Rightarrow> seg list \<Rightarrow> (client_result \<times> io list) res" where
  "tcp_client_data response_length inp =
     (let size = response_length + 1; (n, got, _) = net_read (unat response_length) inp in
      if unat size < length got then Inl OutOfBounds
      else if n \<noteq> uint response_length then
        Inr (Exit Bad_data, [Io_malloc size, Io_free, Io_close])
      else if unat size \<le> unat response_length then Inl OutOfBounds
      else Inr (Client_ok got, [Io_malloc size, Io_free, Io_close]))"

definition tcp_client_recv :: "(u32 \<Rightarrow> bool) \<Rightarrow> seg list \<Rightarrow> (client_result \<times> io list) res" where
  "tcp_client_recv alloc inp =
     (let (n, header, inp) = net_read HEADER_SIZE inp in
      if n \<noteq> int HEADER_SIZE then Inr (Exit Bad_header, [Io_close])
      else if \<not> strneq 4 header HEADER_TAG then Inr (Exit Bad_tag, [Io_close])
      else let response_length = ntohl (of_le32 (drop 4 header)) in
        if \<not> alloc (response_length + 1) then Inr (Exit No_memory, [Io_close])
        else tcp_client_data response_length inp)"

definition tcp_send_message ::
  "sock_env \<Rightarrow> (u32 \<Rightarrow> bool) \<Rightarrow> byte list \<Rightarrow> seg list \<Rightarrow> (client_result \<times> io list) res" where
  "tcp_send_message e alloc message inp =
     (if e_socket e < 0 then Inr (Client_setup_failed, [])
      else if e_connect e < 0 then Inr (Client_setup_failed, [Io_close])
      else bindE (tcp_client_recv alloc inp)
             (\<lambda>(r, ios). Inr (r, Io_write (tcp_packet message) # ios)))"

section \<open>Lemmas\<close>

lemma tag_facts [simp]: "length HEADER_TAG = 4" "0 \<notin> set HEADER_TAG"
  by (simp_all add: HEADER_TAG_def chars_def)

lemma response_len [simp]: "length response_message = 26"
  by (simp add: response_message_def chars_def)

definition tcp_header :: "byte list \<Rightarrow> byte list" where
  "tcp_header message = HEADER_TAG @ le_bytes32 (htonl (of_nat (length message)))"

lemma tcp_header_len [simp]: "length (tcp_header m) = 8"
  by (simp add: tcp_header_def)

lemma tcp_packet_split: "tcp_packet m = tcp_header m @ m"
  by (simp add: tcp_packet_def tcp_header_def)

lemma tcp_header_tag [simp]: "strneq 4 (tcp_header m) HEADER_TAG"
  by (subst strneq_take) (simp_all add: tcp_header_def)

lemma tcp_header_length [simp]: "ntohl (of_le32 (drop 4 (tcp_header m))) = of_nat (length m)"
  by (simp add: tcp_header_def)

lemma no_wrap: "n \<noteq> - 1 \<Longrightarrow> unat (n + 1 :: u32) = Suc (unat n)"
  by (metis add.commute add_0 add_diff_cancel_left' eq_neg_iff_add_eq_0 unatSuc)

lemma unat_len: "length m < 2 ^ 32 - 1 \<Longrightarrow> unat (of_nat (length m) :: u32) = length m"
  by (simp add: unat_of_nat take_bit_nat_eq_self)

lemma unat_max: "unat (- 1 :: u32) = 4294967295"
proof -
  have "(- 1 :: u32) = 4294967295" by simp
  then show ?thesis by (simp only: unat_numeral) simp
qed

lemma len_not_max: "length m < 2 ^ 32 - 1 \<Longrightarrow> (of_nat (length m) :: u32) \<noteq> - 1"
  by (auto dest!: arg_cong [where f = unat] simp: unat_of_nat take_bit_nat_eq_self unat_max)

text \<open>After the header of a packet: received exactly when one read delivers all the data.\<close>

lemma server_data:
  assumes "length m < 2 ^ 32 - 1"
    and "net_read (length m) inp = (len, got, r)"
  shows "tcp_server_data (of_nat (length m)) inp =
    Inr (if len = int (length m)
         then (Received got, [Io_malloc (of_nat (length m) + 1),
                Io_write (tcp_packet response_message), Io_free, Io_close])
         else (Bad_data, [Io_malloc (of_nat (length m) + 1), Io_free, Io_close]))"
proof -
  let ?n = "of_nat (length m) :: u32"
  have n: "unat ?n = length m" "unat (?n + 1) = Suc (length m)"
    using no_wrap [OF len_not_max [OF assms(1)]] unat_len [OF assms(1)] by simp_all
  from net_read_len [OF assms(2)]
  have len: "length got \<le> length m" "len = int (length got) \<or> len = -1" by auto
  have eq: "(of_int len = ?n) = (len = int (length m))"
    using len len_not_max [OF assms(1)] assms(1)
    by (auto simp: of_nat_inverse dest!: arg_cong [where f = unat] 
       simp: unat_of_nat take_bit_nat_eq_self unat_max)
  show ?thesis
    using len by (simp add: tcp_server_data_def n assms(2) eq)
qed

end
