(* ===== verification/Echo_Pair.thy ===== *)
theory Echo_Pair
  imports Tcp_Framing
begin

text \<open>
  The unframed pair \<open>echo_server/echo_server.c\<close> and \<open>echo_server/echo_client.c\<close>, and the
  address conversions of \<open>echo_server/transfer_ipv4.c\<close>.
\<close>

section \<open>The server\<close>

definition q_server_setup :: "sock_env \<Rightarrow> server_setup" where
  "q_server_setup e =
     (if e_socket e < 0 then Setup_failed []
      else if e_bind e < 0 then Setup_failed [e_socket e]
      else if e_listen e < 0 then Setup_failed [e_socket e]
      else Setup_ok)"

definition q_response :: "byte list \<Rightarrow> byte list" where
  "q_response s =
     (if s = chars ''Hello'' then chars ''And you?''
      else if s = chars ''Are you a server?'' then chars ''Yes''
      else if s = chars ''Is it sunny today?'' then chars ''No''
      else chars ''I don't know'')"

text \<open>The buffer has 256 bytes; one \<open>read\<close> fills at most 255, and the NUL goes to \<open>buffer[len]\<close>.\<close>

definition q_server_conn :: "seg list \<Rightarrow> io list res" where
  "q_server_conn inp =
     (let (len, got, _) = net_read 255 inp in
      if len < 0 then Inr [Io_close]
      else if 256 \<le> length got then Inl OutOfBounds
      else Inr [Io_write (q_response (cstr (got @ [0]))), Io_close])"

section \<open>The client\<close>

text \<open>\<open>send_message\<close>: \<open>None\<close> where the process exits; else what it prints and its calls.\<close>

definition q_send_message ::
  "sock_env \<Rightarrow> byte list \<Rightarrow> seg list \<Rightarrow> (byte list option \<times> io list) option res" where
  "q_send_message e message inp =
     (if e_socket e < 0 then Inr None
      else if e_connect e < 0 then Inr None
      else let (n, got, _) = net_read 63 inp in
        if n > 0 then
          (if 64 \<le> length got then Inl OutOfBounds
           else Inr (Some (Some (cstr (got @ [0])), [Io_write message, Io_close])))
        else Inr (Some (None, [Io_write message, Io_close])))"

text \<open>\<open>main\<close>: the exit status and the sessions; a \<open>Hello\<close> is followed by \<open>Me Too!\<close>.\<close>

definition q_client_main ::
  "sock_env \<Rightarrow> sock_env \<Rightarrow> byte list list \<Rightarrow> seg list \<Rightarrow> seg list
     \<Rightarrow> (int \<times> (byte list option \<times> io list) list) res" where
  "q_client_main e1 e2 args inp1 inp2 =
     (case args of
        [m] \<Rightarrow> bindE (q_send_message e1 m inp1) (\<lambda>r1.
          case r1 of
            None \<Rightarrow> Inr (1, [])
          | Some s1 \<Rightarrow>
              if m = chars ''Hello'' then
                bindE (q_send_message e2 (chars ''Me Too!'') inp2) (\<lambda>r2.
                  case r2 of None \<Rightarrow> Inr (1, [s1]) | Some s2 \<Rightarrow> Inr (0, [s1, s2]))
              else Inr (0, [s1]))
      | _ \<Rightarrow> Inr (1, []))"

section \<open>Addresses\<close>

text \<open>The decimal text of a number below 256, and \<open>inet_ntop(AF_INET)\<close>.\<close>

definition dec8 :: "nat \<Rightarrow> byte list" where
  "dec8 n =
     (if n < 10 then [of_nat (48 + n)]
      else if n < 100 then [of_nat (48 + n div 10), of_nat (48 + n mod 10)]
      else [of_nat (48 + n div 100), of_nat (48 + n div 10 mod 10), of_nat (48 + n mod 10)])"

definition inet_ntop4 :: "u32 \<Rightarrow> nat \<Rightarrow> byte list option" where
  "inet_ntop4 s_addr sz =
     (case map unat (le_bytes32 s_addr) of
        [a, b, c, d] \<Rightarrow>
          (let s = dec8 a @ [46] @ dec8 b @ [46] @ dec8 c @ [46] @ dec8 d in
           if sz < Suc (length s) then None else Some s)
      | _ \<Rightarrow> None)"

text \<open>
  \<open>inet_pton(AF_INET)\<close>: four decimal numbers of at most 255 without leading zeros. The
  arguments are the finished octets and the current one, if a digit was seen.
\<close>

fun pton4 :: "nat list \<Rightarrow> nat option \<Rightarrow> byte list \<Rightarrow> nat list option" where
  "pton4 octets None [] = None"
| "pton4 octets (Some c) [] = (if length octets = 3 then Some (octets @ [c]) else None)"
| "pton4 octets cur (ch # s) =
     (if 48 \<le> ch \<and> ch \<le> 57 then
        (case cur of
           None \<Rightarrow> pton4 octets (Some (unat ch - 48)) s
         | Some c \<Rightarrow>
             if c = 0 \<or> 255 < c * 10 + (unat ch - 48) then None
             else pton4 octets (Some (c * 10 + (unat ch - 48))) s)
      else if ch = 46 then
        (case cur of
           None \<Rightarrow> None
         | Some c \<Rightarrow> if length octets < 3 then pton4 (octets @ [c]) None s else None)
      else None)"

definition inet_pton4 :: "byte list \<Rightarrow> u32 option" where
  "inet_pton4 s = map_option (\<lambda>os. of_le32 (map of_nat os)) (pton4 [] None s)"

text \<open>
  \<open>transfer_ipv4.c\<close> on an arbitrary address text: the address in network and in host byte
  order, the two texts printed, and whether they are found equal.
\<close>

definition INET_ADDRSTRLEN :: nat where "INET_ADDRSTRLEN = 16"

definition transfer_ipv4 :: "byte list \<Rightarrow> (u32 \<times> u32 \<times> byte list \<times> byte list \<times> bool) option" where
  "transfer_ipv4 ipv4_str =
     (case inet_pton4 ipv4_str of
        None \<Rightarrow> None
      | Some s_addr \<Rightarrow>
          let host_order_ip = ntohl s_addr in
          (case inet_ntop4 (htonl host_order_ip) INET_ADDRSTRLEN of
             None \<Rightarrow> None
           | Some host_str \<Rightarrow>
               (case inet_ntop4 s_addr INET_ADDRSTRLEN of
                  None \<Rightarrow> None
                | Some str \<Rightarrow> Some (s_addr, host_order_ip, host_str, str, str = host_str))))"

section \<open>Lemmas\<close>

lemma digit_byte:
  assumes "k < 10"
  shows "unat (of_nat (48 + k) :: byte) = 48 + k"
    "48 \<le> (of_nat (48 + k) :: byte)" "(of_nat (48 + k) :: byte) \<le> 57"
proof -
  show u: "unat (of_nat (48 + k) :: byte) = 48 + k"
    using assms by (simp only: unat_of_nat) (simp add: take_bit_nat_eq_self)
  then show "48 \<le> (of_nat (48 + k) :: byte)" "(of_nat (48 + k) :: byte) \<le> 57"
    using assms by (simp_all only: word_le_nat_alt) simp_all
qed

lemma pton4_dec8:
  assumes "n < 256"
  shows "pton4 octets None (dec8 n @ s) = pton4 octets (Some n) s"
proof -
  note d = digit_byte
  consider "n < 10" | "10 \<le> n" "n < 100" | "100 \<le> n" by linarith
  then show ?thesis
  proof cases
    case 1
    with d [of n] show ?thesis by (simp add: dec8_def del: of_nat_add)
  next
    case 2
    then have "n div 10 < 10" "n mod 10 < 10" "0 < n div 10" by auto
    with 2 d [of "n div 10"] d [of "n mod 10"] show ?thesis
      by (simp add: dec8_def del: of_nat_add)
  next
    case 3
    with assms have h: "n div 100 < 10" "n div 10 mod 10 < 10" "n mod 10 < 10" "0 < n div 100"
        "\<not> 255 < n div 10"
      by auto
    have "n div 100 = n div 10 div 10"
      by (simp add: div_mult2_eq [symmetric])
    then have "n div 100 * 10 + n div 10 mod 10 = n div 10" "n div 10 * 10 + n mod 10 = n"
      by simp_all
    then show ?thesis
      using 3 assms h(4,5) d [OF h(1)] d [OF h(2)] d [OF h(3)]
      by (simp add: dec8_def del: of_nat_add)
  qed
qed

lemma dec8_len: "n < 256 \<Longrightarrow> length (dec8 n) \<le> 3"
  by (simp add: dec8_def)

lemma pton4_dot: "length octets < 3 \<Longrightarrow> pton4 octets (Some c) (46 # s) = pton4 (octets @ [c]) None s"
  by simp

lemma octet: "unat (x :: byte) < 256"
  using unsigned_less [of x, where ?'a = nat] by simp

definition dotted :: "u32 \<Rightarrow> byte list" where
  "dotted x = (case map unat (le_bytes32 x) of
     [a, b, c, d] \<Rightarrow> dec8 a @ [46] @ dec8 b @ [46] @ dec8 c @ [46] @ dec8 d | _ \<Rightarrow> [])"

lemma inet_ntop4_dotted: "inet_ntop4 x INET_ADDRSTRLEN = Some (dotted x)"
proof -
  have "length (dec8 (unat b)) \<le> 3" for b :: byte
    by (rule dec8_len [OF octet])
  from this [of "ucast x"] this [of "ucast (drop_bit 8 x)"] this [of "ucast (drop_bit 16 x)"]
    this [of "ucast (drop_bit 24 x)"]
  show ?thesis
    by (simp add: inet_ntop4_def dotted_def le_bytes32_def INET_ADDRSTRLEN_def Let_def)
qed

lemma inet_pton4_dotted: "inet_pton4 (dotted x) = Some x"
proof -
  obtain a b c d where x: "le_bytes32 x = [a, b, c, d]"
    by (simp add: le_bytes32_def)
  have "pton4 [] None (dotted x) = Some [unat a, unat b, unat c, unat d]"
    using pton4_dec8 [OF octet, of _ d "[]"]
    by (simp add: dotted_def x pton4_dec8 [OF octet] pton4_dot del: pton4.simps(3))
  moreover have "of_le32 [a, b, c, d] = x"
    using of_le32_le_bytes32 [of x] unfolding x .
  ultimately show ?thesis by (simp add: inet_pton4_def del: of_le32.simps)
qed

end
