(* ===== verification/Net_Thms.thy ===== *)
theory Net_Thms
  imports Tcp_Framing Echo_Pair
begin

text \<open>
  Properties of the network programs: what the framed protocol delivers, which packets
  corrupt memory, what it releases, and the exchange of client and server.
\<close>

section \<open>The framed protocol\<close>

text \<open>An outcome together with the calls made on the way to it, for a packet with message \<open>m\<close>.\<close>

definition tcp_server_result :: "outcome \<Rightarrow> byte list \<Rightarrow> outcome \<times> io list" where
  "tcp_server_result r m = (r,
     case r of
        Received d \<Rightarrow> [Io_malloc (of_nat (length m) + 1),
                       Io_write (tcp_packet response_message), Io_free, Io_close]
      | Bad_data \<Rightarrow> [Io_malloc (of_nat (length m) + 1), Io_free, Io_close]
      | _ \<Rightarrow> [Io_close])"

lemma server_header:
  assumes "net_read 8 inp = (8, tcp_header m, inp')" "\<And>n. alloc n"
  shows "tcp_server_conn alloc inp = tcp_server_data (of_nat (length m)) inp'"
  using assms by (simp add: tcp_server_conn_def HEADER_SIZE_def)

lemma server_data':
  assumes "length m < 2 ^ 32 - 1" "net_read (length m) inp = (int (length got), got, r)"
  shows "tcp_server_data (of_nat (length m)) inp =
    Inr (tcp_server_result (if length got = length m then Received got else Bad_data) m)"
  using server_data [OF assms] by (simp add: tcp_server_result_def)

lemma nonempty_header: "[] \<noteq> tcp_header m"
  using tcp_header_len [of m] by fastforce

lemma concat_nonempty: "[] \<notin> set qs \<Longrightarrow> concat qs = [] \<longleftrightarrow> qs = []"
  by (cases qs) auto

text \<open>C21: The server receives a packet exactly when it arrives in one piece or split between
  header and data: a packet cut inside the header is rejected as a bad header, one cut
  inside the data (or arriving in more pieces) as bad data, since each part is read by a
  single \<open>read\<close>. The connection is closed in every case and the buffer freed.\<close>

theorem tcp_frame_delivery:
  assumes "concat ps = tcp_packet m" "[] \<notin> set ps" "m \<noteq> []" "length m < 2 ^ 32 - 1"
    and alloc: "\<And>n. alloc n"
  shows "tcp_server_conn alloc (map Seg ps) =
    Inr (tcp_server_result
           (if length (hd ps) < 8 then Bad_header
            else if ps = [tcp_packet m] \<or> ps = [tcp_header m, m] then Received m
            else Bad_data) m)"
proof (cases ps)
  case Nil
  with assms show ?thesis by (simp add: tcp_packet_split)
next
  case (Cons p qs)
  with assms have cat: "p @ concat qs = tcp_header m @ m" and ne: "p \<noteq> []" "[] \<notin> set qs"
    by (auto simp: tcp_packet_split)
  have len: "length p + length (concat qs) = 8 + length m"
    using arg_cong [OF cat, of length] by simp
  consider "length p < 8" | "length p = 8" | "8 < length p" by linarith
  then show ?thesis
  proof cases
    case 1
    then show ?thesis
      using Cons by (simp add: tcp_server_conn_def HEADER_SIZE_def tcp_server_result_def)
  next
    case 2
    with cat have p: "p = tcp_header m" "concat qs = m"
      by (simp_all add: append_eq_append_conv)
    with \<open>m \<noteq> []\<close> obtain q qs' where qs: "qs = q # qs'" by (cases qs) auto
    have q: "length q \<le> length m" "length q = length m \<longleftrightarrow> qs = [m]"
      using p(2) qs ne concat_nonempty [of qs'] by auto
    have "tcp_server_conn alloc (map Seg ps) = tcp_server_data (of_nat (length m)) (map Seg qs)"
      by (rule server_header) (use Cons 2 p alloc in simp_all)
    also have "\<dots> = Inr (tcp_server_result (if length q = length m then Received q else Bad_data) m)"
      by (rule server_data' [OF assms(4)]) (use q qs in simp)
    finally show ?thesis
      using Cons 2 p q(2) qs by (auto simp: tcp_packet_split)
  next
    case 3
    have p: "take 8 p = tcp_header m" "drop 8 p @ concat qs = m"
      using arg_cong [OF cat, of "take 8"] arg_cong [OF cat, of "drop 8"] 3 by simp_all
    have "length (drop 8 p) + length (concat qs) = length m"
      using arg_cong [OF p(2), of length] by simp
    moreover have "length (concat qs) = 0 \<longleftrightarrow> qs = []"
      by (simp only: length_0_conv concat_nonempty [OF ne(2)])
    ultimately have q: "length (drop 8 p) \<le> length m" "length (drop 8 p) = length m \<longleftrightarrow> qs = []"
      by linarith+
    have "tcp_server_conn alloc (map Seg ps) =
        tcp_server_data (of_nat (length m)) (map Seg (drop 8 p # qs))"
      by (rule server_header) (use Cons 3 p alloc in simp_all)
    also have "\<dots> = Inr (tcp_server_result
        (if length (drop 8 p) = length m then Received (drop 8 p) else Bad_data) m)"
      by (rule server_data' [OF assms(4)]) (use q in simp)
    finally show ?thesis
      using Cons 3 p q(2) cat by (auto simp: tcp_packet_split)
  qed
qed

lemma tcp_frame_delivery_witness:
  "tcp_server_conn (\<lambda>_. True) (map Seg [tcp_header [72, 105], [72, 105]]) =
     Inr (tcp_server_result (Received [72, 105]) [72, 105])"
  using tcp_frame_delivery [of "[tcp_header [72, 105], [72, 105]]" "[72, 105]" "\<lambda>_. True"]
  by (simp add: tcp_packet_split nonempty_header)

text \<open>C22: Client and server understand each other: the server gets the client's message, and
  the client, fed the packet the server writes, gets the server's answer.\<close>

theorem tcp_exchange:
  assumes "length m < 2 ^ 32 - 1" "\<And>n. alloc n" "0 \<le> e_socket e" "0 \<le> e_connect e"
  shows "\<exists>ios cs.
    tcp_server_conn alloc [Seg (tcp_packet m)] = Inr (Received m, ios) \<and>
    Io_write (tcp_packet response_message) \<in> set ios \<and>
    tcp_send_message e alloc m [Seg (tcp_packet response_message)] =
      Inr (Client_ok response_message, Io_write (tcp_packet m) # cs) \<and>
    last cs = Io_close"
proof -
  have rd: "net_read 8 [Seg (tcp_packet x)] =
      (8, tcp_header x, if x = [] then [] else [Seg x])" for x
    by (simp add: tcp_packet_split)
  have d: "net_read (length x) (if x = [] then [] else [Seg x]) = (int (length x), x, [])" for x
    by simp
  have s: "tcp_server_conn alloc [Seg (tcp_packet m)] =
      Inr (tcp_server_result (Received m) m)"
    using server_header [OF rd assms(2)] server_data' [OF assms(1) d] by simp
  have c: "tcp_client_recv alloc [Seg (tcp_packet response_message)] =
      Inr (Client_ok response_message, [Io_malloc 27, Io_free, Io_close])"
    using assms(2) tcp_header_length [of response_message] 
    by (simp add: tcp_client_recv_def HEADER_SIZE_def tcp_packet_split tcp_client_data_def)
  from s c assms(3,4) show ?thesis
    by (auto simp: tcp_server_result_def tcp_send_message_def)
qed

lemma tcp_exchange_witness:
  "\<exists>ios. tcp_server_conn (\<lambda>_. True) [Seg (tcp_packet [72])] = Inr (Received [72], ios)"
  using tcp_exchange [of "[72]" "\<lambda>_. True"
    "\<lparr>e_socket = 3, e_bind = 0, e_listen = 0, e_connect = 0\<rparr>"] by auto

text \<open>C23: The length \<open>0xFFFFFFFF\<close> wraps the size of the buffer to zero: with a well-formed
  header, memory is corrupted exactly for that length, by the server as soon as anything but
  the end of the stream follows (a failed \<open>read\<close>, whose \<open>-1\<close> equals the length, included),
  by the client when data follow.\<close>

theorem tcp_length_wraps:
  assumes "length header = 8" "take 4 header = HEADER_TAG" "\<And>n. alloc n"
  defines "n \<equiv> ntohl (of_le32 (drop 4 header))"
  shows "(tcp_server_conn alloc (Seg header # inp) = Inl OutOfBounds \<longleftrightarrow>
      n = 0xFFFFFFFF \<and> (\<exists>s r. inp = s # r \<and> s \<noteq> Seg [])) \<and>
    (tcp_client_recv alloc (Seg header # inp) = Inl OutOfBounds \<longleftrightarrow>
      n = 0xFFFFFFFF \<and> (\<exists>bs r. inp = Seg bs # r \<and> bs \<noteq> []))"
proof -
  have tag: "strneq 4 header HEADER_TAG"
    using assms(1,2) by (simp add: strneq_take)
  have pre: "tcp_server_conn alloc (Seg header # inp) = tcp_server_data n inp"
    "tcp_client_recv alloc (Seg header # inp) = tcp_client_data n inp"
    using assms(1,3) tag
    by (simp_all add: tcp_server_conn_def tcp_client_recv_def HEADER_SIZE_def n_def)
  obtain k got r where rd: "net_read (unat n) inp = (k, got, r)"
    by (cases "net_read (unat n) inp") auto
  then have sd: "tcp_server_data n inp =
      (if unat (n + 1) < length got then Inl OutOfBounds
       else if of_int k \<noteq> n then Inr (Bad_data, [Io_malloc (n + 1), Io_free, Io_close])
       else if unat (n + 1) \<le> unat n then Inl OutOfBounds
       else Inr (Received got, [Io_malloc (n + 1),
              Io_write (tcp_packet response_message), Io_free, Io_close]))"
    and cd: "tcp_client_data n inp =
      (if unat (n + 1) < length got then Inl OutOfBounds
       else if k \<noteq> uint n then Inr (Exit Bad_data, [Io_malloc (n + 1), Io_free, Io_close])
       else if unat (n + 1) \<le> unat n then Inl OutOfBounds
       else Inr (Client_ok got, [Io_malloc (n + 1), Io_free, Io_close]))"
    by (simp_all add: tcp_server_data_def tcp_client_data_def Let_def)
  have got: "length got \<le> unat n" using net_read_len [OF rd] by simp
  have big: "(- 1 :: u32) = 0xFFFFFFFF" by simp
  show ?thesis
  proof (cases "n = - 1")
    case False
    then have sz: "unat (n + 1) = Suc (unat n)" by (rule no_wrap)
    from False have "n \<noteq> 0xFFFFFFFF" unfolding big .
    with got sz show ?thesis
      by (simp add: pre sd cd)
  next
    case True
    have "(k, got, r) = net_read 4294967295 inp"
      using rd True by (simp add: unat_max)
    then have cs: "(inp = [] \<or> (\<exists>r. inp = Seg [] # r)) \<and> k = 0 \<and> got = [] \<or>
        (\<exists>r. inp = Fail # r) \<and> k = - 1 \<and> got = [] \<or>
        (\<exists>bs r. inp = Seg bs # r \<and> bs \<noteq> []) \<and> got \<noteq> []"
      by (cases "(4294967295 :: nat, inp)" rule: net_read.cases) (auto split: if_splits)
    moreover have "unat (n + 1) = 0" "unat n = 4294967295" "uint n = 4294967295"
        "n = 0xFFFFFFFF" "of_int 0 \<noteq> n" "of_int (- 1) = n"
      using True unat_max by (simp_all add: uint_nat)
    ultimately show ?thesis
      unfolding pre sd cd by (elim disjE conjE exE) simp_all
  qed
qed

lemma tcp_length_wraps_witness:
  "tcp_server_conn (\<lambda>_. True) [Seg (HEADER_TAG @ [255, 255, 255, 255]), Fail] = Inl OutOfBounds"
  using tcp_length_wraps [of "HEADER_TAG @ [255, 255, 255, 255]" "\<lambda>_. True" "[Fail]"]
  by (simp add: ntohl_def le_bytes32_def)

text \<open>Whatever arrives, short of a fault, the framed server closes the connection exactly once
  and last, frees what it allocates, and answers exactly the packets it accepts.\<close>

theorem tcp_server_releases:
  assumes "tcp_server_conn alloc inp = Inr (r, ios)"
  shows "filter (\<lambda>c. c = Io_close) ios = [Io_close] \<and> last ios = Io_close \<and>
    length (filter (\<lambda>c. c = Io_free) ios) = length (filter (\<lambda>c. \<exists>n. c = Io_malloc n) ios) \<and>
    (Io_write (tcp_packet response_message) \<in> set ios \<longleftrightarrow> (\<exists>d. r = Received d))"
  using assms
  by (auto simp: tcp_server_conn_def tcp_server_data_def Let_def split: prod.splits if_splits)

lemma tcp_server_releases_witness:
  "filter (\<lambda>c. c = Io_close) [Io_close] = [Io_close] \<and> \<not> (\<exists>d. Bad_header = Received d)"
  using tcp_server_releases [of "\<lambda>_. True" "[Fail]" Bad_header "[Io_close]"]
  by (simp add: tcp_server_conn_def HEADER_SIZE_def)

text \<open>Both servers come up exactly when no call fails, and on a failure they close the
  socket they opened, if any.\<close>

lemma server_setup_outcomes:
  "tcp_server_setup e = q_server_setup e \<and>
   (tcp_server_setup e = Setup_ok \<longleftrightarrow> 0 \<le> e_socket e \<and> 0 \<le> e_bind e \<and> 0 \<le> e_listen e) \<and>
   tcp_server_setup e \<in> {Setup_ok, Setup_failed (filter (\<lambda>s. 0 \<le> s) [e_socket e])}"
  by (auto simp: tcp_server_setup_def q_server_setup_def)

section \<open>The unframed pair\<close>

text \<open>The bytes that calls on a socket send, as they arrive: one segment per \<open>write\<close>.\<close>

fun sent :: "io list \<Rightarrow> seg list" where
  "sent [] = []"
| "sent (Io_write bs # r) = Seg bs # sent r"
| "sent (_ # r) = sent r"

definition q_answer :: "byte list \<Rightarrow> seg list" where
  "q_answer m = (case q_server_conn [Seg m] of Inr ios \<Rightarrow> sent ios | Inl _ \<Rightarrow> [])"

lemma chars_nul: "0 \<notin> set (q_response s)"
  by (simp add: q_response_def chars_def)

lemma q_response_len: "length (q_response s) \<le> 12 \<and> q_response s \<noteq> []"
  by (simp add: q_response_def chars_def)

lemma q_answer_eq: "0 \<notin> set m \<Longrightarrow> q_answer m = [Seg (q_response (take 255 m))]"
proof -
  assume "0 \<notin> set m"
  then have "0 \<notin> set (take 255 m)" by (meson in_set_takeD)
  with \<open>0 \<notin> set m\<close> show ?thesis
    by (simp add: q_answer_def q_server_conn_def cstr_terminated)
qed

lemma q_session:
  assumes "0 \<le> e_socket e" "0 \<le> e_connect e" "0 \<notin> set m"
  shows "q_send_message e m (q_answer m) =
    Inr (Some (Some (q_response (take 255 m)), [Io_write m, Io_close]))"
  using assms q_response_len [of "take 255 m"] chars_nul [of "take 255 m"]
  by (simp add: q_send_message_def q_answer_eq cstr_terminated)



section \<open>Addresses\<close>

text \<open>For every IPv4 address the conversions of \<open>transfer_ipv4.c\<close> succeed on its text, go
  through host order and back, and print the same text twice.\<close>

theorem ipv4_text_roundtrip:
  "transfer_ipv4 (dotted x) = Some (x, ntohl x, dotted x, dotted x, True)"
  by (simp add: transfer_ipv4_def inet_pton4_dotted inet_ntop4_dotted)

end
