(* ===== verification/Epoll_Http.thy ===== *)
theory Epoll_Http
  imports Net_Prelude Epoll_Comm
begin

text \<open>
  The small HTTP server of \<open>epoll/epollserver.c\<close>: the connection states it keeps on the
  heap, its registrations with \<open>epoll\<close>, the request parser, the two pages and the event
  loop. \<open>stat_init\<close> has no \<open>return\<close> statement, so what its caller receives is a function
  \<open>h_reg\<close> of the pointer its body has computed.
\<close>

section \<open>State\<close>

datatype page = Welcome_handler | Commit_handler

record hconn =
  h_fd :: int
  h_name :: "byte list"
  h_age :: "byte list"
  h_ev :: u32
  h_ptr :: nat
  h_status :: int
  h_handler :: "page option"

record http =
  h_conns :: "nat \<rightharpoonup> hconn"
  h_next :: nat
  h_reg :: "nat \<Rightarrow> nat"
  h_interest :: "int \<rightharpoonup> u32 \<times> nat"   \<comment> \<open>events and \<open>data.ptr\<close>\<close>
  h_open :: "int set"
  h_listen :: int
  h_wire :: "(int \<times> byte list) list"

text \<open>What the system answers while one event is handled.\<close>

record http_env =
  r_accept :: int
  r_oom :: bool
  r_read :: seg

section \<open>System calls\<close>

fun h_ctl :: "ctl \<Rightarrow> int \<Rightarrow> u32 \<Rightarrow> nat \<Rightarrow> http \<Rightarrow> http" where
  "h_ctl EPOLL_CTL_ADD fd ev p s =
     (if fd \<in> h_open s \<and> h_interest s fd = None
      then s\<lparr>h_interest := (h_interest s)(fd \<mapsto> (ev, p))\<rparr> else s)"
| "h_ctl EPOLL_CTL_MOD fd ev p s =
     (if h_interest s fd \<noteq> None then s\<lparr>h_interest := (h_interest s)(fd \<mapsto> (ev, p))\<rparr> else s)"
| "h_ctl EPOLL_CTL_DEL fd ev p s = s\<lparr>h_interest := (h_interest s)(fd := None)\<rparr>"

text \<open>\<open>accept\<close> gives a descriptor that is not open, or fails.\<close>

definition h_accept :: "http_env \<Rightarrow> http \<Rightarrow> int \<times> http" where
  "h_accept e s =
     (if r_accept e < 0 \<or> r_accept e \<in> h_open s then (-1, s)
      else (r_accept e, s\<lparr>h_open := insert (r_accept e) (h_open s)\<rparr>))"

definition h_write :: "int \<Rightarrow> byte list \<Rightarrow> http \<Rightarrow> http" where
  "h_write fd bs s = s\<lparr>h_wire := (fd, bs) # h_wire s\<rparr>"

section \<open>Connections\<close>

definition http_stat_init :: "int \<Rightarrow> http_env \<Rightarrow> http \<Rightarrow> nat \<times> http" where
  "http_stat_init fd e s =
     (if r_oom e then (0, s)
      else let temp = h_next s in
        (h_reg s temp,
         s\<lparr>h_next := temp + 1,
           h_conns := (h_conns s)(temp \<mapsto> \<lparr>h_fd = fd, h_name = replicate 64 0,
             h_age = replicate 64 0, h_ev = 0, h_ptr = 0, h_status = 0, h_handler = None\<rparr>)\<rparr>))"

definition connect_handle :: "int \<Rightarrow> http_env \<Rightarrow> http \<Rightarrow> http res" where
  "connect_handle new_fd e s =
     (let (stat, s) = http_stat_init new_fd e s in
      case h_conns s stat of
        None \<Rightarrow> Inl NullDeref
      | Some c \<Rightarrow>
          let c = c\<lparr>h_ev := EPOLLIN, h_ptr := stat\<rparr>;
              s = s\<lparr>h_conns := (h_conns s)(stat \<mapsto> c)\<rparr>
          in Inr (h_ctl EPOLL_CTL_ADD new_fd (h_ev c) (h_ptr c) s))"

section \<open>Requests\<close>

definition CRLF2 :: "byte list" where "CRLF2 = [13, 10, 13, 10]"

definition is_alnum :: "byte \<Rightarrow> bool" where
  "is_alnum c \<longleftrightarrow> 97 \<le> c \<and> c \<le> 122 \<or> 65 \<le> c \<and> c \<le> 90 \<or> 48 \<le> c \<and> c \<le> 57"

definition is_digit :: "byte \<Rightarrow> bool" where
  "is_digit c \<longleftrightarrow> 48 \<le> c \<and> c \<le> 57"

text \<open>The copy of a value and its terminating NUL into an array of the connection.\<close>

definition store_field :: "byte list \<Rightarrow> byte list \<Rightarrow> byte list res" where
  "store_field v arr =
     (if length v < length arr then Inr (v @ [0] @ drop (Suc (length v)) arr) else Inl OutOfBounds)"

text \<open>The form fields, from \<open>pos\<close> on; what \<open>name=\<close> finds moves \<open>pos\<close> for \<open>age=\<close>.\<close>

definition commit_name :: "byte list \<Rightarrow> hconn \<Rightarrow> (byte list \<times> hconn) res" where
  "commit_name pos c =
     (case strstr pos (chars ''name='') of
        None \<Rightarrow> Inr (pos, c)
      | Some e \<Rightarrow>
          let pos = drop 5 e; v = takeWhile is_alnum pos in
          if 0 < length v then bindE (store_field v (h_name c)) (\<lambda>n. Inr (pos, c\<lparr>h_name := n\<rparr>))
          else Inr (pos, c))"

definition commit_age :: "byte list \<Rightarrow> hconn \<Rightarrow> hconn res" where
  "commit_age pos c =
     (case strstr pos (chars ''age='') of
        None \<Rightarrow> Inr c
      | Some e \<Rightarrow>
          let pos = drop 4 e; v = takeWhile is_digit pos in
          if 0 < length v then bindE (store_field v (h_age c)) (\<lambda>a. Inr (c\<lparr>h_age := a\<rparr>))
          else Inr c)"

text \<open>The request in the string \<open>buf\<close>; a NULL from the first \<open>strstr\<close> is passed to the next.\<close>

definition parse_request :: "byte list \<Rightarrow> hconn \<Rightarrow> hconn res" where
  "parse_request buf c =
     (if strncaseeq 3 buf (chars ''GET'') then Inr (c\<lparr>h_handler := Some Welcome_handler\<rparr>)
      else if strncaseeq 4 buf (chars ''Post'') then
        (let pos = dropWhile (\<lambda>x. x = 32 \<or> x = 47) (drop 4 buf) in
         if strncaseeq 6 pos (chars ''commit'') then
           (case strstr buf CRLF2 of
              None \<Rightarrow> Inl NullDeref
            | Some pos \<Rightarrow>
                bindE (commit_name pos c) (\<lambda>(pos, c).
                bindE (commit_age pos c) (\<lambda>c. Inr (c\<lparr>h_handler := Some Commit_handler\<rparr>))))
         else Inr (c\<lparr>h_handler := Some Welcome_handler\<rparr>))
      else Inr (c\<lparr>h_handler := Some Welcome_handler\<rparr>))"

text \<open>One \<open>read\<close> of at most 4095 bytes into the buffer of 4096.\<close>

definition do_http_request :: "nat \<Rightarrow> http_env \<Rightarrow> http \<Rightarrow> http res" where
  "do_http_request p e s =
     (case h_conns s p of
        None \<Rightarrow> Inl NullDeref
      | Some c \<Rightarrow>
          (case net_read 4095 [r_read e] of (n, got, _) \<Rightarrow>
             if n > 0 then
               bindE (parse_request (cstr (got @ [0])) c) (\<lambda>c.
                 let c = c\<lparr>h_ev := EPOLLOUT\<rparr>; s = s\<lparr>h_conns := (h_conns s)(p \<mapsto> c)\<rparr>
                 in Inr (h_ctl EPOLL_CTL_MOD (h_fd c) (h_ev c) (h_ptr c) s))
             else if n = 0 then
               (let s = h_ctl EPOLL_CTL_DEL (h_fd c) 0 0 s in
                Inr (s\<lparr>h_open := h_open s - {h_fd c}, h_conns := (h_conns s)(p := None)\<rparr>))
             else Inr s))"

section \<open>Responses\<close>

definition main_header :: "byte list" where
  "main_header = chars ''HTTP/1.0 200 OK'' @ [13, 10] @ chars ''Server: czf Server'' @ [13, 10]
     @ chars ''Content-Type: text/html'' @ [13, 10] @ chars ''Connection: Open'' @ [13, 10]"

definition welcome_content :: "byte list" where
  \<open>welcome_content = chars ''<html lang="zh-CN">'' @ [10]
     @ chars ''<head>'' @ [10]
     @ chars ''<meta content="text/html; charset=utf-8" http-equiv="Content-Type">'' @ [10]
     @ chars ''<title>This is a test</title>'' @ [10]
     @ chars ''</head>'' @ [10]
     @ chars ''<body>'' @ [10]
     @ chars ''<div align=center height="500px" >'' @ [10]
     @ chars ''<br/><br/><br/>'' @ [10]
     @ chars ''<h2>'' @ [229, 164, 167, 229, 174, 182, 229, 165, 189, 239, 188, 140, 230, 172, 162, 232, 191, 142, 229, 133, 137, 228, 184, 180] @ chars ''11111'' @ [229, 152, 187, 229, 152, 187, 229, 152, 187, 239, 188, 129] @ chars ''</h2><br/><br/>'' @ [10]
     @ chars ''<form action="commit" method="post">'' @ [10]
     @ [229, 176, 138, 229, 167, 147, 229, 164, 167, 229, 144, 141] @ chars '': <input type="text" name="name" />'' @ [10]
     @ chars ''<br/>'' @ [232, 138, 179, 233, 190, 132, 229, 135, 160, 228, 189, 149] @ chars '': <input type="password" name="age" />'' @ [10]
     @ chars ''<br/><br/><br/><input type="submit" value="'' @ [230, 143, 144, 228, 186, 164] @ chars ''" />'' @ [10]
     @ chars ''<input type="reset" value="'' @ [233, 135, 141, 231, 189, 174] @ chars ''" />'' @ [10]
     @ chars ''</form>'' @ [10]
     @ chars ''</div>'' @ [10]
     @ chars ''</body>'' @ [10]
     @ chars ''</html>''\<close>

definition commit_content :: "byte list \<Rightarrow> byte list \<Rightarrow> byte list" where
  \<open>commit_content name age = chars ''<html lang="zh-CN">'' @ [10]
     @ chars ''<head>'' @ [10]
     @ chars ''<meta content="text/html; charset=utf-8" http-equiv="Content-Type">'' @ [10]
     @ chars ''<title>This is a test</title>'' @ [10]
     @ chars ''</head>'' @ [10]
     @ chars ''<body>'' @ [10]
     @ chars ''<div align=center height="500px" >'' @ [10]
     @ chars ''<br/><br/><br/>'' @ [10]
     @ chars ''<h2>'' @ [230, 172, 162, 232, 191, 142, 229, 144, 140, 229, 173, 166] @ chars ''&nbsp;'' @ name
     @ chars '' &nbsp;,'' @ [228, 189, 160, 231, 154, 132, 229, 185, 180, 233, 190, 132, 230, 152, 175] @ chars ''&nbsp;'' @ age
     @ [239, 188, 129] @ chars ''</h2><br/><br/>'' @ [10]
     @ chars ''</div>'' @ [10]
     @ chars ''</body>'' @ [10]
     @ chars ''</html>'' @ [10]\<close>

text \<open>The \<open>Content-Length\<close> line with the empty line after it; \<open>snprintf\<close> cuts it to 63 bytes.\<close>

definition content_len :: "nat \<Rightarrow> byte list" where
  "content_len n = take 63 (chars ''Content-Length: '' @ dec n @ CRLF2)"

text \<open>\<open>strcpy\<close> and \<open>strcat\<close> into \<open>sendbuffer\<close>, then \<open>write\<close>, and back to reading.\<close>

definition send_page :: "nat \<Rightarrow> byte list \<Rightarrow> nat \<Rightarrow> http \<Rightarrow> http res" where
  "send_page p content len s =
     (case h_conns s p of
        None \<Rightarrow> Inl NullDeref
      | Some c \<Rightarrow>
          let sendbuffer = main_header @ content_len len @ content in
          if 4096 < Suc (length sendbuffer) then Inl OutOfBounds
          else let c' = c\<lparr>h_ev := EPOLLIN\<rparr>;
                   s = h_write (h_fd c) sendbuffer s
               in Inr (h_ctl EPOLL_CTL_MOD (h_fd c') (h_ev c') (h_ptr c')
                    (s\<lparr>h_conns := (h_conns s)(p \<mapsto> c')\<rparr>)))"

definition welcome_response_handler :: "nat \<Rightarrow> http \<Rightarrow> http res" where
  "welcome_response_handler p s = send_page p welcome_content (length welcome_content) s"

definition commit_respone_handler :: "nat \<Rightarrow> http \<Rightarrow> http res" where
  "commit_respone_handler p s =
     (case h_conns s p of
        None \<Rightarrow> Inl NullDeref
      | Some c \<Rightarrow>
          let content = commit_content (cstr (h_name c)) (cstr (h_age c))
          in send_page p (take 4095 content) (length content) s)"

definition do_http_respone :: "nat \<Rightarrow> http \<Rightarrow> http res" where
  "do_http_respone p s =
     (case h_conns s p of
        None \<Rightarrow> Inl NullDeref
      | Some c \<Rightarrow>
          (case h_handler c of
             None \<Rightarrow> Inl NullDeref
           | Some Welcome_handler \<Rightarrow> welcome_response_handler p s
           | Some Commit_handler \<Rightarrow> commit_respone_handler p s))"

section \<open>startup and main\<close>

text \<open>\<open>startup\<close>: the exit status, or the listening socket.\<close>

definition http_startup :: "int \<Rightarrow> int \<Rightarrow> int \<Rightarrow> int + int" where
  "http_startup sock bind_rc listen_rc =
     (if sock < 0 then Inl 2
      else if bind_rc < 0 then Inl 3
      else if listen_rc < 0 then Inl 4
      else Inr sock)"

definition http_main :: "int \<Rightarrow> int + int \<Rightarrow> int \<Rightarrow> http_env \<Rightarrow> (nat \<Rightarrow> nat) \<Rightarrow> (int + http) res" where
  "http_main argc start epfd e reg =
     (if argc \<noteq> 3 then Inr (Inl 1)
      else case start of
        Inl code \<Rightarrow> Inr (Inl code)
      | Inr listen_sock \<Rightarrow>
          if epfd < 0 then Inr (Inl 5)
          else
            let s = \<lparr>h_conns = Map.empty, h_next = 1, h_reg = reg, h_interest = Map.empty,
                     h_open = {0, 1, 2, listen_sock, epfd}, h_listen = listen_sock, h_wire = []\<rparr>;
                (stat, s) = http_stat_init listen_sock e s
            in if h_conns s stat = None then Inl NullDeref
               else Inr (Inr (h_ctl EPOLL_CTL_ADD listen_sock EPOLLIN stat s)))"

text \<open>
  The body of the loop over the events. The test of the listening socket reads
  \<open>revs[i].events && EPOLLIN\<close>, which is true of any events.
\<close>

definition http_event :: "nat \<Rightarrow> u32 \<Rightarrow> http_env \<Rightarrow> http \<Rightarrow> http res" where
  "http_event p events e s =
     (case h_conns s p of
        None \<Rightarrow> Inl NullDeref
      | Some c \<Rightarrow>
          if h_fd c = h_listen s \<and> events \<noteq> 0 \<and> EPOLLIN \<noteq> 0 then
            (let (new_fd, s) = h_accept e s in
             if new_fd > 0 then connect_handle new_fd e s else Inr s)
          else if events AND EPOLLIN \<noteq> 0 then do_http_request p e s
          else if events AND EPOLLOUT \<noteq> 0 then do_http_respone p s
          else Inr s)"

fun http_batch :: "(nat \<times> u32 \<times> http_env) list \<Rightarrow> http \<Rightarrow> http res" where
  "http_batch [] s = Inr s"
| "http_batch ((p, ev, e) # r) s = bindE (http_event p ev e s) (http_batch r)"

text \<open>
  One \<open>epoll_wait\<close>: nothing happens on a timeout or an error; otherwise the events of at
  most 64 registered descriptors, each within what is asked for (and the two conditions that
  are always reported).
\<close>

definition reportable :: "http \<Rightarrow> nat \<times> u32 \<times> http_env \<Rightarrow> bool" where
  "reportable s r = (case r of (p, ev, e) \<Rightarrow>
     (\<exists>fd m. h_interest s fd = Some (m, p) \<and> ev AND NOT (m OR EPOLLERR OR EPOLLHUP) = 0))"

inductive http_step :: "http \<Rightarrow> http \<Rightarrow> bool" where
  http_quiet: "http_step s s"
| http_events: "length rs \<le> 64 \<Longrightarrow> distinct (map fst rs) \<Longrightarrow> (\<forall>r\<in>set rs. reportable s r)
    \<Longrightarrow> http_batch rs s = Inr t \<Longrightarrow> http_step s t"

end
