(* ===== verification/Http_Inv.thy ===== *)
theory Http_Inv
  imports Epoll_Http
begin

text \<open>
  The invariant of the HTTP server: every connection state on the heap is registered under
  its descriptor and the other way round, its strings are terminated, and a connection that
  waits for writing has a handler. Every event keeps it, and the events still to be handled
  in the same batch stay valid.
\<close>

section \<open>Requests\<close>

definition is_commit :: "byte list \<Rightarrow> bool" where
  "is_commit buf \<longleftrightarrow> \<not> strncaseeq 3 buf (chars ''GET'') \<and> strncaseeq 4 buf (chars ''Post'')
     \<and> strncaseeq 6 (dropWhile (\<lambda>x. x = 32 \<or> x = 47) (drop 4 buf)) (chars ''commit'')"

definition after_name :: "byte list \<Rightarrow> byte list" where
  "after_name pos = (case strstr pos (chars ''name='') of None \<Rightarrow> pos | Some e \<Rightarrow> drop 5 e)"

definition name_value :: "byte list \<Rightarrow> byte list" where
  "name_value pos = (case strstr pos (chars ''name='') of None \<Rightarrow> [] | Some e \<Rightarrow> takeWhile is_alnum (drop 5 e))"

definition age_value :: "byte list \<Rightarrow> byte list" where
  "age_value pos = (case strstr pos (chars ''age='') of None \<Rightarrow> [] | Some e \<Rightarrow> takeWhile is_digit (drop 4 e))"

definition request_ok :: "byte list \<Rightarrow> bool" where
  "request_ok buf \<longleftrightarrow> (if is_commit buf then
     (case strstr buf CRLF2 of
        None \<Rightarrow> False
      | Some pos \<Rightarrow> length (name_value pos) < 64 \<and> length (age_value (after_name pos)) < 64)
     else True)"

text \<open>The array after a value was stored; an empty value leaves it alone.\<close>

definition set_field :: "byte list \<Rightarrow> byte list \<Rightarrow> byte list" where
  "set_field v arr = (if v = [] then arr else v @ [0] @ drop (Suc (length v)) arr)"

definition arrays_ok :: "hconn \<Rightarrow> bool" where
  "arrays_ok c \<longleftrightarrow> length (h_name c) = 64 \<and> length (h_age c) = 64 \<and> 0 \<in> set (h_name c) \<and> 0 \<in> set (h_age c)"

lemma set_field_ok:
  "length arr = 64 \<Longrightarrow> length v < 64 \<Longrightarrow> 0 \<in> set arr
    \<Longrightarrow> length (set_field v arr) = 64 \<and> 0 \<in> set (set_field v arr)"
  by (simp add: set_field_def)

lemma commit_name_eq:
  "length (h_name c) = 64 \<Longrightarrow> commit_name pos c =
    (if length (name_value pos) < 64
     then Inr (after_name pos, c\<lparr>h_name := set_field (name_value pos) (h_name c)\<rparr>) else Inl OutOfBounds)"
  by (simp add: commit_name_def name_value_def after_name_def set_field_def store_field_def
      Let_def split: option.splits)

lemma commit_age_eq:
  "length (h_age c) = 64 \<Longrightarrow> commit_age pos c =
    (if length (age_value pos) < 64
     then Inr (c\<lparr>h_age := set_field (age_value pos) (h_age c)\<rparr>) else Inl OutOfBounds)"
  by (simp add: commit_age_def age_value_def set_field_def store_field_def
      Let_def split: option.splits)

text \<open>What a request does to the connection, in one equation.\<close>

lemma parse_request_eq:
  assumes "arrays_ok c"
  shows "parse_request buf c =
    (if \<not> is_commit buf then Inr (c\<lparr>h_handler := Some Welcome_handler\<rparr>)
     else case strstr buf CRLF2 of
        None \<Rightarrow> Inl NullDeref
      | Some pos \<Rightarrow>
          if length (name_value pos) < 64 \<and> length (age_value (after_name pos)) < 64
          then Inr (c\<lparr>h_name := set_field (name_value pos) (h_name c),
                      h_age := set_field (age_value (after_name pos)) (h_age c),
                      h_handler := Some Commit_handler\<rparr>)
          else Inl OutOfBounds)"
  using assms
  by (simp add: parse_request_def is_commit_def Let_def commit_name_eq commit_age_eq arrays_ok_def
      split: option.splits)

lemma parse_request_ok: "arrays_ok c \<Longrightarrow> ok (parse_request buf c) \<longleftrightarrow> request_ok buf"
  by (auto simp: parse_request_eq request_ok_def split: option.splits)

lemma parse_request_keeps:
  assumes "arrays_ok c" "parse_request buf c = Inr c'"
  shows "arrays_ok c' \<and> h_fd c' = h_fd c \<and> h_ptr c' = h_ptr c \<and> h_handler c' \<noteq> None"
  using assms
  by (auto simp: parse_request_eq arrays_ok_def set_field_ok split: option.splits if_splits)

section \<open>The invariant\<close>

definition conn_ok :: "http \<Rightarrow> nat \<Rightarrow> hconn \<Rightarrow> bool" where
  "conn_ok s p c \<longleftrightarrow> 0 < p \<and> p < h_next s \<and> h_fd c \<in> h_open s \<and> arrays_ok c \<and>
     (if h_fd c = h_listen s then h_interest s (h_fd c) = Some (EPOLLIN, p)
      else h_interest s (h_fd c) = Some (h_ev c, p) \<and> h_ptr c = p \<and>
        (h_ev c = EPOLLIN \<or> h_ev c = EPOLLOUT \<and> h_handler c \<noteq> None))"

definition http_inv :: "http \<Rightarrow> bool" where
  "http_inv s \<longleftrightarrow>
     (\<forall>p c. h_conns s p = Some c \<longrightarrow> conn_ok s p c) \<and>
     (\<forall>fd m p. h_interest s fd = Some (m, p) \<longrightarrow> (\<exists>c. h_conns s p = Some c \<and> h_fd c = fd)) \<and>
     h_listen s \<in> h_open s \<and> h_interest s (h_listen s) \<noteq> None \<and> h_reg s = id \<and> 0 < h_next s"

lemma http_inv_conn: "http_inv s \<Longrightarrow> h_conns s p = Some c \<Longrightarrow> conn_ok s p c"
  by (simp add: http_inv_def)

lemma conn_registered: "conn_ok s p c \<Longrightarrow> \<exists>m. h_interest s (h_fd c) = Some (m, p)"
  by (simp add: conn_ok_def split: if_splits)

lemma conn_fd_inj:
  "http_inv s \<Longrightarrow> h_conns s p = Some c \<Longrightarrow> h_conns s q = Some d \<Longrightarrow> h_fd c = h_fd d \<Longrightarrow> p = q"
  using conn_registered [OF http_inv_conn [of s p c]] conn_registered [OF http_inv_conn [of s q d]]
  by force

lemma http_inv_interest:
  assumes "http_inv s" "h_interest s fd = Some (m, p)"
  obtains c where "h_conns s p = Some c" "h_fd c = fd" "conn_ok s p c"
  using assms unfolding http_inv_def by blast

lemma interest_inj:
  "http_inv s \<Longrightarrow> h_interest s fd = Some (m, p) \<Longrightarrow> h_interest s fd' = Some (m', p) \<Longrightarrow> fd = fd'"
  unfolding http_inv_def by (metis option.inject)

text \<open>
  What an event of object \<open>p\<close> on descriptor \<open>fd\<close> may change: the object, the registration of
  its descriptor, and descriptors that were not open.
\<close>

definition only_touches :: "nat \<Rightarrow> int \<Rightarrow> http \<Rightarrow> http \<Rightarrow> bool" where
  "only_touches p fd s t \<longleftrightarrow>
     (\<forall>fd' m q. fd' \<noteq> fd \<longrightarrow> q \<noteq> p \<longrightarrow> h_interest s fd' = Some (m, q) \<longrightarrow> h_interest t fd' = Some (m, q))"

lemma only_touches_reportable:
  assumes "http_inv s" "h_interest s fd = Some (m, p)" "only_touches p fd s t"
    and "reportable s (q, r)" "q \<noteq> p"
  shows "reportable t (q, r)"
  using assms unfolding reportable_def only_touches_def
  by (auto split: prod.splits) (metis option.inject prod.inject)

text \<open>Replacing the state of a client together with its registration.\<close>

lemma http_inv_update:
  assumes inv: "http_inv s" and c: "h_conns s p = Some c" "h_fd c \<noteq> h_listen s"
    and c': "h_fd c' = h_fd c" "h_ptr c' = h_ptr c" "arrays_ok c'"
      "h_ev c' = EPOLLIN \<or> h_ev c' = EPOLLOUT \<and> h_handler c' \<noteq> None"
    and t: "t = h_ctl EPOLL_CTL_MOD (h_fd c') (h_ev c') (h_ptr c')
      (s\<lparr>h_conns := (h_conns s)(p \<mapsto> c'), h_wire := w\<rparr>)"
  shows "http_inv t \<and> only_touches p (h_fd c) s t"
proof -
  have ok: "conn_ok s p c" using inv c(1) by (rule http_inv_conn)
  then have reg: "h_interest s (h_fd c) = Some (h_ev c, p)" "h_ptr c = p"
    using c(2) by (simp_all add: conn_ok_def)
  have other: "h_fd d \<noteq> h_fd c" if "h_conns s q = Some d" "q \<noteq> p" for q d
    using conn_fd_inj [OF inv c(1) that(1)] that(2) by auto
  have t': "t = s\<lparr>h_conns := (h_conns s)(p \<mapsto> c'), h_wire := w,
      h_interest := (h_interest s)(h_fd c \<mapsto> (h_ev c', p))\<rparr>"
    using reg c' by (cases s) (simp add: t)
  have "conn_ok t q d" if d: "h_conns t q = Some d" for q d
  proof (cases "q = p")
    case True
    with d ok c c' show ?thesis by (simp add: t' conn_ok_def)
  next
    case False
    with d have "h_conns s q = Some d" by (simp add: t')
    with False http_inv_conn [OF inv this] other [OF this] show ?thesis
      by (cases "h_fd d = h_listen s") (simp_all add: t' conn_ok_def)
  qed
  moreover have "\<exists>d. h_conns t q = Some d \<and> h_fd d = fd"
    if "h_interest t fd = Some (m, q)" for fd m q
  proof (cases "fd = h_fd c")
    case True
    with that c' show ?thesis by (simp add: t')
  next
    case False
    with that have "h_interest s fd = Some (m, q)" by (simp add: t')
    with inv obtain d where "h_conns s q = Some d" "h_fd d = fd" by (rule http_inv_interest)
    with False c(1) c'(1) show ?thesis by (cases "q = p") (simp_all add: t')
  qed
  moreover have "h_listen t \<in> h_open t \<and> h_interest t (h_listen t) \<noteq> None \<and> h_reg t = id \<and> 0 < h_next t"
    using inv c(2) by (auto simp: t' http_inv_def)
  ultimately show ?thesis
    unfolding http_inv_def only_touches_def by (simp add: t')
qed

lemma http_inv_open: "http_inv s \<Longrightarrow> http_inv (s\<lparr>h_open := insert x (h_open s)\<rparr>)"
proof -
  assume inv: "http_inv s"
  have "conn_ok (s\<lparr>h_open := insert x (h_open s)\<rparr>) p c" if "h_conns s p = Some c" for p c
    using http_inv_conn [OF inv that]
    by (cases "h_fd c = h_listen s") (simp_all add: conn_ok_def)
  then show ?thesis using inv unfolding http_inv_def by simp
qed

lemma connect_handle_oom: "http_inv s \<Longrightarrow> r_oom e \<Longrightarrow> connect_handle fd e s = Inl NullDeref"
  using http_inv_conn [of s 0]
  by (cases "h_conns s 0") (auto simp: connect_handle_def http_stat_init_def conn_ok_def)

text \<open>A connection accepted and registered.\<close>

definition fresh_conn :: "int \<Rightarrow> nat \<Rightarrow> hconn" where
  "fresh_conn fd p = \<lparr>h_fd = fd, h_name = replicate 64 0, h_age = replicate 64 0, h_ev = EPOLLIN,
     h_ptr = p, h_status = 0, h_handler = None\<rparr>"

lemma connect_handle_eq:
  assumes "http_inv s" "\<not> r_oom e" "new_fd \<notin> h_open s"
  shows "connect_handle new_fd e (s\<lparr>h_open := insert new_fd (h_open s)\<rparr>) =
    Inr (s\<lparr>h_open := insert new_fd (h_open s), h_next := h_next s + 1,
      h_conns := (h_conns s)(h_next s \<mapsto> fresh_conn new_fd (h_next s)),
      h_interest := (h_interest s)(new_fd \<mapsto> (EPOLLIN, h_next s))\<rparr>)"
proof -
  have "h_interest s new_fd = None"
    using assms(1,3) by (metis http_inv_interest conn_ok_def not_None_eq prod.collapse)
  moreover have "h_reg s = id" using assms(1) by (simp add: http_inv_def)
  ultimately show ?thesis
    using assms(2) by (cases s) (simp add: connect_handle_def http_stat_init_def fresh_conn_def Let_def)
qed

lemma http_inv_accept:
  assumes inv: "http_inv s" and new: "new_fd \<notin> h_open s"
    and t: "t = s\<lparr>h_open := insert new_fd (h_open s), h_next := h_next s + 1,
      h_conns := (h_conns s)(h_next s \<mapsto> fresh_conn new_fd (h_next s)),
      h_interest := (h_interest s)(new_fd \<mapsto> (EPOLLIN, h_next s))\<rparr>"
  shows "http_inv t \<and> only_touches p fd s t"
proof -
  have unused: "h_conns s (h_next s) = None"
    using http_inv_conn [OF inv, of "h_next s"]
    by (cases "h_conns s (h_next s)") (auto simp: conn_ok_def)
  have ne: "h_fd d \<noteq> new_fd" if "h_conns s q = Some d" for q d
    using http_inv_conn [OF inv that] new by (auto simp: conn_ok_def)
  have lst: "new_fd \<noteq> h_listen s" using inv new by (auto simp: http_inv_def)
  have none: "h_interest s new_fd = None"
    using inv new by (metis http_inv_interest conn_ok_def not_None_eq prod.collapse)
  have "conn_ok t q d" if d: "h_conns t q = Some d" for q d
  proof (cases "q = h_next s")
    case True
    with d have "d = fresh_conn new_fd (h_next s)" by (simp add: t)
    with True lst inv show ?thesis by (simp add: t http_inv_def conn_ok_def fresh_conn_def arrays_ok_def)
  next
    case False
    with d have "h_conns s q = Some d" by (simp add: t)
    with False http_inv_conn [OF inv this] ne [OF this] show ?thesis
      by (cases "h_fd d = h_listen s") (simp_all add: t conn_ok_def)
  qed
  moreover have "\<exists>d. h_conns t q = Some d \<and> h_fd d = fd"
    if "h_interest t fd = Some (m, q)" for fd m q
  proof (cases "fd = new_fd")
    case True
    with that show ?thesis by (simp add: t fresh_conn_def)
  next
    case False
    with that have "h_interest s fd = Some (m, q)" by (simp add: t)
    with inv obtain d where "h_conns s q = Some d" "h_fd d = fd" by (rule http_inv_interest)
    with unused show ?thesis by (cases "q = h_next s") (simp_all add: t)
  qed
  moreover have "h_listen t \<in> h_open t \<and> h_interest t (h_listen t) \<noteq> None \<and> h_reg t = id \<and> 0 < h_next t"
    using inv lst by (simp add: t http_inv_def)
  ultimately show ?thesis
    unfolding http_inv_def only_touches_def using none by (auto simp: t)
qed

text \<open>A connection closed by its client.\<close>

lemma http_inv_close:
  assumes inv: "http_inv s" and c: "h_conns s p = Some c" "h_fd c \<noteq> h_listen s"
    and t: "t = s\<lparr>h_interest := (h_interest s)(h_fd c := None), h_open := h_open s - {h_fd c},
      h_conns := (h_conns s)(p := None)\<rparr>"
  shows "http_inv t \<and> only_touches p (h_fd c) s t"
proof -
  have "conn_ok t q d" if d: "h_conns t q = Some d" for q d
  proof -
    from d have q: "h_conns s q = Some d" "q \<noteq> p" by (auto simp: t split: if_splits)
    with conn_fd_inj [OF inv c(1) q(1)] have "h_fd d \<noteq> h_fd c" by auto
    with http_inv_conn [OF inv q(1)] show ?thesis
      by (cases "h_fd d = h_listen s") (simp_all add: t conn_ok_def)
  qed
  moreover have "\<exists>d. h_conns t q = Some d \<and> h_fd d = fd"
    if "h_interest t fd = Some (m, q)" for fd m q
  proof -
    from that have fd: "fd \<noteq> h_fd c" "h_interest s fd = Some (m, q)" by (auto simp: t split: if_splits)
    from inv fd(2) obtain d where "h_conns s q = Some d" "h_fd d = fd" by (rule http_inv_interest)
    with fd(1) c(1) show ?thesis by (cases "q = p") (simp_all add: t)
  qed
  moreover have "h_listen t \<in> h_open t \<and> h_interest t (h_listen t) \<noteq> None \<and> h_reg t = id \<and> 0 < h_next t"
    using inv c by (simp add: t http_inv_def)
  ultimately show ?thesis
    unfolding http_inv_def only_touches_def using c(2) by (simp add: t)
qed

section \<open>One event\<close>

lemma small_pages:
  "length main_header = 80" "length welcome_content = 515"
  "length (commit_content n a) = 284 + length n + length a"
  by (simp_all add: main_header_def welcome_content_def commit_content_def)

lemma content_len_bound: "length (content_len n) \<le> 63"
  by (simp add: content_len_def)

lemma send_page_eq:
  assumes "h_conns s p = Some c" "length content \<le> 3900"
  shows "send_page p content n s =
    Inr (h_ctl EPOLL_CTL_MOD (h_fd c) EPOLLIN (h_ptr c)
      (s\<lparr>h_conns := (h_conns s)(p \<mapsto> c\<lparr>h_ev := EPOLLIN\<rparr>),
         h_wire := (h_fd c, main_header @ content_len n @ content) # h_wire s\<rparr>))"
  using assms content_len_bound [of n]
  by (cases s) (simp add: send_page_def small_pages h_write_def)

definition page_of :: "hconn \<Rightarrow> byte list" where
  "page_of c = (if h_handler c = Some Welcome_handler then welcome_content
     else commit_content (cstr (h_name c)) (cstr (h_age c)))"

lemma do_http_respone_eq:
  assumes "h_conns s p = Some c" "h_handler c \<noteq> None" "arrays_ok c"
  shows "do_http_respone p s =
    Inr (h_ctl EPOLL_CTL_MOD (h_fd c) EPOLLIN (h_ptr c)
      (s\<lparr>h_conns := (h_conns s)(p \<mapsto> c\<lparr>h_ev := EPOLLIN\<rparr>),
         h_wire := (h_fd c, main_header @ content_len (length (page_of c)) @ page_of c) # h_wire s\<rparr>))"
proof -
  have "length (page_of c) \<le> 515"
    using length_cstr [of "h_name c"] length_cstr [of "h_age c"] assms(3)
    by (simp add: page_of_def small_pages arrays_ok_def)
  with assms(2) show ?thesis
    by (cases "h_handler c"; cases "the (h_handler c)")
       (simp_all add: do_http_respone_def assms(1) welcome_response_handler_def
         commit_respone_handler_def send_page_eq [OF assms(1)] page_of_def Let_def)
qed

text \<open>What the system may do to the server with one event without breaking it.\<close>

definition benign :: "http \<Rightarrow> nat \<times> u32 \<times> http_env \<Rightarrow> bool" where
  "benign s r = (case r of (p, ev, e) \<Rightarrow>
     (case h_conns s p of
        None \<Rightarrow> True
      | Some c \<Rightarrow>
          if h_fd c = h_listen s then r_accept e \<le> 0 \<or> r_accept e \<in> h_open s \<or> \<not> r_oom e
          else case r_read e of Fail \<Rightarrow> True | Seg bs \<Rightarrow> request_ok (cstr (take 4095 bs @ [0]))))"

lemma do_http_request_eq:
  assumes "h_conns s p = Some c" "arrays_ok c"
  shows "do_http_request p e s =
    (case r_read e of
       Fail \<Rightarrow> Inr s
     | Seg bs \<Rightarrow>
         if bs = [] then Inr (s\<lparr>h_interest := (h_interest s)(h_fd c := None),
           h_open := h_open s - {h_fd c}, h_conns := (h_conns s)(p := None)\<rparr>)
         else bindE (parse_request (cstr (take 4095 bs @ [0])) c) (\<lambda>c'.
           Inr (h_ctl EPOLL_CTL_MOD (h_fd c') EPOLLOUT (h_ptr c')
             (s\<lparr>h_conns := (h_conns s)(p \<mapsto> c'\<lparr>h_ev := EPOLLOUT\<rparr>)\<rparr>))))"
  using assms
  by (cases "r_read e"; cases s)
     (auto simp: do_http_request_def Let_def simp del: h_ctl.simps(2) split: if_splits)

lemma reportable_out:
  assumes "ev AND NOT (EPOLLIN OR EPOLLERR OR EPOLLHUP) = (0 :: u32)"
  shows "ev AND EPOLLOUT = 0"
proof -
  have "ev AND EPOLLOUT = (ev AND NOT (EPOLLIN OR EPOLLERR OR EPOLLHUP)) AND EPOLLOUT"
    by (simp add: epoll_bits and.assoc)
  with assms show ?thesis by simp
qed

lemma http_event_ok:
  assumes inv: "http_inv s" and rep: "reportable s (p, ev, e)"
  obtains fd m c where "h_interest s fd = Some (m, p)" "h_conns s p = Some c" "h_fd c = fd"
    "conn_ok s p c" "ev AND NOT (m OR EPOLLERR OR EPOLLHUP) = 0"
proof -
  from rep obtain fd m where m: "h_interest s fd = Some (m, p)"
      "ev AND NOT (m OR EPOLLERR OR EPOLLHUP) = 0"
    by (auto simp: reportable_def)
  from inv m(1) obtain c where "h_conns s p = Some c" "h_fd c = fd" "conn_ok s p c"
    by (rule http_inv_interest)
  with m show thesis by (intro that)
qed

lemma http_event_listen:
  assumes "h_conns s p = Some c" "h_fd c = h_listen s"
  shows "http_event p ev e s = (if ev \<noteq> 0 then
    (let (new_fd, s) = h_accept e s in if new_fd > 0 then connect_handle new_fd e s else Inr s)
    else Inr s)"
  using assms by (simp add: http_event_def EPOLLIN_def)

lemma http_event_step:
  assumes inv: "http_inv s" and rep: "reportable s (p, ev, e)"
    and t: "http_event p ev e s = Inr t"
  shows "\<exists>fd m. h_interest s fd = Some (m, p) \<and> http_inv t \<and> only_touches p fd s t"
proof -
  from inv rep obtain fd m c where m: "h_interest s fd = Some (m, p)"
    and c: "h_conns s p = Some c" "h_fd c = fd" and ok: "conn_ok s p c"
    and ev: "ev AND NOT (m OR EPOLLERR OR EPOLLHUP) = 0" by (rule http_event_ok)
  have arr: "arrays_ok c" using ok by (simp add: conn_ok_def)
  have same: "http_inv s \<and> only_touches p fd s s" using inv by (simp add: only_touches_def)
  have "http_inv t \<and> only_touches p fd s t"
  proof (cases "h_fd c = h_listen s")
    case True
    consider "t = s"
      | "r_accept e \<notin> h_open s" "connect_handle (r_accept e) e
          (s\<lparr>h_open := insert (r_accept e) (h_open s)\<rparr>) = Inr t"
      | "r_accept e = 0" "t = s\<lparr>h_open := insert 0 (h_open s)\<rparr>"
      using t by (auto simp: http_event_listen [OF c(1) True] h_accept_def split: if_splits)
    then show ?thesis
    proof cases
      case 2
      have "\<not> r_oom e" using 2(2) connect_handle_oom [OF http_inv_open [OF inv]] by auto
      have "t = s\<lparr>h_open := insert (r_accept e) (h_open s), h_next := h_next s + 1,
          h_conns := (h_conns s)(h_next s \<mapsto> fresh_conn (r_accept e) (h_next s)),
          h_interest := (h_interest s)(r_accept e \<mapsto> (EPOLLIN, h_next s))\<rparr>"
        using 2(2) unfolding connect_handle_eq [OF inv \<open>\<not> r_oom e\<close> 2(1)] by (rule Inr_inject [symmetric])
      from http_inv_accept [OF inv 2(1) this] show ?thesis by simp
    next
      case 3
      then show ?thesis using http_inv_open [OF inv, of 0] by (simp add: only_touches_def)
    qed (use same in simp)
  next
    case False
    note lst = this
    have "http_event p ev e s = (if ev AND EPOLLIN \<noteq> 0 then do_http_request p e s
        else if ev AND EPOLLOUT \<noteq> 0 then do_http_respone p s else Inr s)"
      using False by (simp add: http_event_def c)
    then consider "t = s" | "do_http_request p e s = Inr t"
      | "ev AND EPOLLOUT \<noteq> 0" "do_http_respone p s = Inr t"
      using t by (auto split: if_splits)
    then show ?thesis
    proof cases
      case 2
      show ?thesis
      proof (cases "r_read e")
        case Fail
        with 2 same show ?thesis by (simp add: do_http_request_eq [OF c(1) arr])
      next
        case (Seg bs)
        show ?thesis
        proof (cases "bs = []")
          case True
          with 2 Seg have "Inr t = Inr (s\<lparr>h_interest := (h_interest s)(h_fd c := None),
              h_open := h_open s - {h_fd c}, h_conns := (h_conns s)(p := None)\<rparr>)"
            by (simp add: do_http_request_eq [OF c(1) arr])
          then have "t = s\<lparr>h_interest := (h_interest s)(h_fd c := None),
              h_open := h_open s - {h_fd c}, h_conns := (h_conns s)(p := None)\<rparr>"
            by simp
          from http_inv_close [OF inv c(1) lst this] show ?thesis using c by simp
        next
          case False
          with 2 Seg obtain c' where c': "parse_request (cstr (take 4095 bs @ [0])) c = Inr c'"
            and t': "t = h_ctl EPOLL_CTL_MOD (h_fd c') EPOLLOUT (h_ptr c')
              (s\<lparr>h_conns := (h_conns s)(p \<mapsto> c'\<lparr>h_ev := EPOLLOUT\<rparr>)\<rparr>)"
            by (auto simp: do_http_request_eq [OF c(1) arr] bindE_eq_Inr simp del: h_ctl.simps)
          note keep = parse_request_keeps [OF arr c']
          show ?thesis
            unfolding c(2) [symmetric]
            by (rule http_inv_update [OF inv c(1) lst, of "c'\<lparr>h_ev := EPOLLOUT\<rparr>" _ "h_wire s"])
               (use keep t' in \<open>simp_all add: arrays_ok_def del: h_ctl.simps\<close>)
        qed
      qed
    next
      case 3
      have "m = h_ev c" using ok m c lst by (auto simp: conn_ok_def)
      with ok lst have h: "h_handler c \<noteq> None"
        using reportable_out [of ev] ev 3(1) by (auto simp: conn_ok_def)
      show ?thesis
        unfolding c(2) [symmetric]
        by (rule http_inv_update [OF inv c(1) lst, of "c\<lparr>h_ev := EPOLLIN\<rparr>" _
              "(h_fd c, main_header @ content_len (length (page_of c)) @ page_of c) # h_wire s"])
           (use 3(2) do_http_respone_eq [OF c(1) h arr] arr in \<open>simp_all add: arrays_ok_def del: h_ctl.simps\<close>)
    qed (use same in simp)
  qed
  with m show ?thesis by blast
qed

text \<open>A benign event is handled without a fault.\<close>

lemma http_event_safe:
  assumes inv: "http_inv s" and rep: "reportable s (p, ev, e)" and ben: "benign s (p, ev, e)"
  shows "\<exists>t. http_event p ev e s = Inr t"
proof -
  from inv rep obtain fd m c where m: "h_interest s fd = Some (m, p)"
    and c: "h_conns s p = Some c" "h_fd c = fd" and ok: "conn_ok s p c"
    and ev: "ev AND NOT (m OR EPOLLERR OR EPOLLHUP) = 0" by (rule http_event_ok)
  have arr: "arrays_ok c" using ok by (simp add: conn_ok_def)
  show ?thesis
  proof (cases "h_fd c = h_listen s")
    case True
    then have b: "r_accept e \<le> 0 \<or> r_accept e \<in> h_open s \<or> \<not> r_oom e"
      using ben c by (simp add: benign_def)
    show ?thesis
    proof (cases "r_accept e \<le> 0 \<or> r_accept e \<in> h_open s")
      case False
      with b have "\<not> r_oom e" "r_accept e \<notin> h_open s" by auto
      from connect_handle_eq [OF inv this] show ?thesis
        using False by (simp add: http_event_listen [OF c(1) True] h_accept_def)
    qed (auto simp: http_event_listen [OF c(1) True] h_accept_def)
  next
    case False
    have rq: "\<exists>t. do_http_request p e s = Inr t"
    proof (cases "r_read e")
      case (Seg bs)
      with ben c False have "ok (parse_request (cstr (take 4095 bs @ [0])) c)"
        by (simp add: benign_def parse_request_ok [OF arr])
      with Seg show ?thesis
        by (auto simp: do_http_request_eq [OF c(1) arr] ok_def simp del: h_ctl.simps)
    qed (simp add: do_http_request_eq [OF c(1) arr])
    have rs: "\<exists>t. do_http_respone p s = Inr t" if "ev AND EPOLLOUT \<noteq> 0"
    proof -
      have "m = h_ev c" using ok m c False by (auto simp: conn_ok_def)
      with ok False have "h_handler c \<noteq> None"
        using reportable_out [of ev] ev that by (auto simp: conn_ok_def)
      from do_http_respone_eq [OF c(1) this arr] show ?thesis by blast
    qed
    from rq rs False show ?thesis by (simp add: http_event_def c)
  qed
qed

section \<open>Batches and runs\<close>

lemma http_batch_inv:
  assumes "http_inv s" "\<forall>r\<in>set rs. reportable s r" "distinct (map fst rs)" "http_batch rs s = Inr t"
  shows "http_inv t"
  using assms
proof (induction rs arbitrary: s)
  case (Cons r rs)
  obtain p ev e where r: "r = (p, ev, e)" by (cases r)
  with Cons.prems obtain u where u: "http_event p ev e s = Inr u" "http_batch rs u = Inr t"
    by (auto simp: bindE_eq_Inr)
  from http_event_step [OF Cons.prems(1) _ u(1)] Cons.prems(2) r
  obtain fd m where fd: "h_interest s fd = Some (m, p)" and "http_inv u" "only_touches p fd s u"
    by auto
  have "reportable u q" if "q \<in> set rs" for q
    using only_touches_reportable [OF Cons.prems(1) fd \<open>only_touches p fd s u\<close>, of "fst q" "snd q"]
      Cons.prems(2,3) that r by auto
  with Cons.IH [OF \<open>http_inv u\<close>] Cons.prems(3) u(2) r show ?case by simp
qed simp

text \<open>The server just started: only the listening socket is registered.\<close>

definition http_started :: "http \<Rightarrow> bool" where
  "http_started s \<longleftrightarrow> (\<exists>sock epfd e. 2 < sock \<and> 2 < epfd \<and> sock \<noteq> epfd \<and> \<not> r_oom e \<and>
     http_main 3 (http_startup sock 0 0) epfd e id = Inr (Inr s))"

lemma http_started_inv: "http_started s \<Longrightarrow> http_inv s"
proof -
  assume "http_started s"
  then obtain sock epfd where s: "s = \<lparr>h_conns = [1 \<mapsto> \<lparr>h_fd = sock, h_name = replicate 64 0,
        h_age = replicate 64 0, h_ev = 0, h_ptr = 0, h_status = 0, h_handler = None\<rparr>],
      h_next = 2, h_reg = id, h_interest = [sock \<mapsto> (EPOLLIN, 1)],
      h_open = {0, 1, 2, sock, epfd}, h_listen = sock, h_wire = []\<rparr>"
    by (auto simp: http_started_def http_main_def http_startup_def http_stat_init_def Let_def
        numeral_2_eq_2 split: if_splits)
  have "conn_ok s p c" if "h_conns s p = Some c" for p c
    using that by (cases "p = 1") (force simp: s conn_ok_def arrays_ok_def)+
  then show ?thesis unfolding http_inv_def by (simp add: s)
qed

lemma http_step_inv: "http_inv s \<Longrightarrow> http_step s t \<Longrightarrow> http_inv t"
  by (auto elim!: http_step.cases intro: http_batch_inv)

interpretation http: invariant_system http_started http_step http_inv
  by unfold_locales (rule http_started_inv, assumption, rule http_step_inv)

end
