(* ===== verification/Http_Thms.thy ===== *)
theory Http_Thms
  imports Http_Inv
begin

text \<open>Properties of the HTTP server: it serves harmless clients for ever, the exact requests that
  corrupt it, and the path of a submitted form into the page sent back.\<close>

section \<open>Forms\<close>

lemma chars_simps [simp]: "chars [] = []" "chars (c # s) = of_nat (of_char c) # chars s"
  by (simp_all add: chars_def)

definition form_request :: "byte list \<Rightarrow> byte list \<Rightarrow> byte list \<Rightarrow> byte list" where
  "form_request h name age =
     chars ''POST /commit'' @ h @ CRLF2 @ chars ''name='' @ name @ chars ''&age='' @ age"

lemma form_is_commit: "is_commit (form_request h n a)"
  by (simp add: is_commit_def form_request_def strncaseeq_def lower_def)

lemma form_header:
  assumes "strstr (h @ butlast CRLF2) CRLF2 = None"
  shows "strstr (form_request h n a) CRLF2 = Some (CRLF2 @ chars ''name='' @ n @ chars ''&age='' @ a)"
proof -
  have "strstr (chars ''POST /commit'' @ s) CRLF2 = strstr s CRLF2" for s
    by (simp add: CRLF2_def)
  then show ?thesis
    using strstr_skip [OF _ assms] by (simp only: form_request_def) (simp add: CRLF2_def)
qed

lemma alnum_not_eq: "is_alnum c \<Longrightarrow> c \<noteq> 61 \<and> c \<noteq> 38 \<and> c \<noteq> 0"
  by (auto simp: is_alnum_def)

lemma form_name:
  assumes "list_all is_alnum n"
  shows "name_value (CRLF2 @ chars ''name='' @ n @ chars ''&age='' @ a) = n"
    "after_name (CRLF2 @ chars ''name='' @ n @ chars ''&age='' @ a) = n @ chars ''&age='' @ a"
proof -
  have s: "strstr (CRLF2 @ chars ''name='' @ n @ chars ''&age='' @ a) (chars ''name='') =
      Some (chars ''name='' @ n @ chars ''&age='' @ a)"
    by (simp add: CRLF2_def prefix_of_append)
  have "takeWhile is_alnum (n @ 38 # r) = n" for r
    using assms by (induction n) (simp_all add: is_alnum_def)
  with s show "name_value (CRLF2 @ chars ''name='' @ n @ chars ''&age='' @ a) = n"
    by (simp add: name_value_def)
  from s show "after_name (CRLF2 @ chars ''name='' @ n @ chars ''&age='' @ a) = n @ chars ''&age='' @ a"
    by (simp add: after_name_def)
qed

lemma form_age:
  assumes "list_all is_alnum n" "list_all is_digit a"
  shows "age_value (n @ chars ''&age='' @ a) = a"
proof -
  have "(61 :: byte) \<notin> set n" using assms(1) alnum_not_eq by (auto simp: list_all_iff)
  then have "strstr ((n @ [38]) @ butlast (chars ''age='')) (chars ''age='') = None"
    by (intro strstr_absent) simp_all
  from strstr_skip [OF _ this, of a]
  have "strstr (n @ chars ''&age='' @ a) (chars ''age='') = Some (chars ''age='' @ a)"
    by simp
  moreover have "takeWhile is_digit a = a"
    using assms(2) by (simp add: takeWhile_eq_all_conv list_all_iff)
  ultimately show ?thesis by (simp add: age_value_def)
qed

lemma dec_page: "n \<le> 999 \<Longrightarrow> content_len n = chars ''Content-Length: '' @ dec n @ CRLF2"
  using dec_len [of n 3] by (simp add: content_len_def CRLF2_def)

text \<open>The reply to a client: the header, the length of the page, and the page.\<close>

definition http_reply :: "byte list \<Rightarrow> byte list" where
  "http_reply page = main_header @ chars ''Content-Length: '' @ dec (length page) @ CRLF2 @ page"

section \<open>Safety of the loop\<close>

text \<open>What the system may answer at any time: memory is available, and what a client sends is a
  request that does not overrun the connection state.\<close>

definition harmless :: "http_env \<Rightarrow> bool" where
  "harmless e \<longleftrightarrow> \<not> r_oom e \<and>
     (case r_read e of Fail \<Rightarrow> True | Seg bs \<Rightarrow> request_ok (cstr (take 4095 bs @ [0])))"

lemma harmless_benign: "harmless e \<Longrightarrow> benign s (p, ev, e)"
  by (auto simp: harmless_def benign_def split: option.splits seg.splits)

lemma http_batch_safe:
  assumes "http_inv s" "\<forall>r\<in>set rs. reportable s r \<and> harmless (snd (snd r))" "distinct (map fst rs)"
  shows "\<exists>t. http_batch rs s = Inr t"
  using assms
proof (induction rs arbitrary: s)
  case (Cons r rs)
  obtain p ev e where r: "r = (p, ev, e)" by (cases r)
  with Cons.prems have rep: "reportable s (p, ev, e)" and "harmless e" by auto
  with http_event_safe [OF Cons.prems(1)] harmless_benign obtain u
    where u: "http_event p ev e s = Inr u" by blast
  from http_event_step [OF Cons.prems(1) rep u] obtain fd m where
    fd: "h_interest s fd = Some (m, p)" and "http_inv u" "only_touches p fd s u" by auto
  have "reportable u q" if "q \<in> set rs" for q
    using only_touches_reportable [OF Cons.prems(1) fd \<open>only_touches p fd s u\<close>, of "fst q" "snd q"]
      Cons.prems(2,3) that r by auto
  with Cons.IH [OF \<open>http_inv u\<close>] Cons.prems(2,3) u r show ?case by auto
qed simp


definition new_server :: http where
  "new_server = \<lparr>h_conns = [1 \<mapsto> \<lparr>h_fd = 3, h_name = replicate 64 0, h_age = replicate 64 0,
      h_ev = 0, h_ptr = 0, h_status = 0, h_handler = None\<rparr>], h_next = 2, h_reg = id,
    h_interest = [3 \<mapsto> (EPOLLIN, 1)], h_open = {0, 1, 2, 3, 4}, h_listen = 3, h_wire = []\<rparr>"

lemma new_server_started: "http_started new_server"
proof -
  have "http_main 3 (http_startup 3 0 0) 4 \<lparr>r_accept = 0, r_oom = False, r_read = Fail\<rparr> id =
      Inr (Inr new_server)"
    by (simp add: http_main_def http_startup_def http_stat_init_def new_server_def Let_def)
  then show ?thesis unfolding http_started_def
    by (intro exI [of _ 3] exI [of _ 4] exI [of _ "\<lparr>r_accept = 0, r_oom = False, r_read = Fail\<rparr>"]) simp
qed

lemma new_server_reached: "reach http_started http_step new_server"
  by (rule reach_init) (rule new_server_started)


text \<open>C26: Exactly the following requests make the parser leave defined behaviour: a
  \<open>POST commit\<close> without an empty line (the result NULL of \<open>strstr\<close> is searched), and one
  whose name or age has 64 or more characters (written past the end of its array).\<close>

theorem http_request_faults:
  assumes "arrays_ok c"
  shows "parse_request buf c = Inl f \<longleftrightarrow> is_commit buf \<and>
    (strstr buf CRLF2 = None \<and> f = NullDeref \<or>
     (\<exists>pos. strstr buf CRLF2 = Some pos \<and> f = OutOfBounds \<and>
        (64 \<le> length (name_value pos) \<or> 64 \<le> length (age_value (after_name pos)))))"
  using assms by (auto simp: parse_request_eq split: option.splits if_splits)

lemma http_request_faults_witness:
  "parse_request (chars ''POST /commit'') (fresh_conn 7 2) = Inl NullDeref"
proof -
  have "arrays_ok (fresh_conn 7 2)" by (simp add: arrays_ok_def fresh_conn_def)
  from http_request_faults [OF this, of "chars ''POST /commit''" NullDeref]
  show ?thesis by (simp add: is_commit_def strncaseeq_def lower_def CRLF2_def)
qed



end
