(* ===== verification/Sift.thy ===== *)
theory Sift
  imports OS_Prelude
begin

text \<open>
  Binary heaps in lists, ordered by a key: moving an element up or down by swaps. The two
  weakened orders hold while an element is on its way.
\<close>

definition par :: "nat \<Rightarrow> nat" where "par i = (i - 1) div 2"

lemma par_less: "0 < h \<Longrightarrow> par h < h"
  unfolding par_def by linarith

lemma par_lt: "h < n \<Longrightarrow> par h < n"
  unfolding par_def by linarith

lemma child_par: "0 < i \<Longrightarrow> par i = h \<longleftrightarrow> i = 2 * (h + 1) \<or> i = 2 * (h + 1) - 1"
  unfolding par_def by arith

definition swap :: "'a list \<Rightarrow> nat \<Rightarrow> nat \<Rightarrow> 'a list" where
  "swap xs i j = xs[i := xs ! j, j := xs ! i]"

definition heap_list :: "('a \<Rightarrow> 'k :: linorder) \<Rightarrow> 'a list \<Rightarrow> bool" where
  "heap_list k xs \<longleftrightarrow> (\<forall>i. 0 < i \<longrightarrow> i < length xs \<longrightarrow> k (xs ! par i) \<le> k (xs ! i))"

text \<open>All edges but the one above \<open>h\<close>, and the edges that skip \<open>h\<close>.\<close>

definition heap_but_up :: "('a \<Rightarrow> 'k :: linorder) \<Rightarrow> 'a list \<Rightarrow> nat \<Rightarrow> bool" where
  "heap_but_up k xs h \<longleftrightarrow>
     (\<forall>i. 0 < i \<longrightarrow> i < length xs \<longrightarrow> i \<noteq> h \<longrightarrow> k (xs ! par i) \<le> k (xs ! i)) \<and>
     (\<forall>i. 0 < i \<longrightarrow> i < length xs \<longrightarrow> par i = h \<longrightarrow> 0 < h \<longrightarrow> k (xs ! par h) \<le> k (xs ! i))"

text \<open>All edges but the ones below \<open>h\<close>, and the edges that skip \<open>h\<close>.\<close>

definition heap_but_down :: "('a \<Rightarrow> 'k :: linorder) \<Rightarrow> 'a list \<Rightarrow> nat \<Rightarrow> bool" where
  "heap_but_down k xs h \<longleftrightarrow>
     (\<forall>i. 0 < i \<longrightarrow> i < length xs \<longrightarrow> par i \<noteq> h \<longrightarrow> k (xs ! par i) \<le> k (xs ! i)) \<and>
     (\<forall>i. 0 < i \<longrightarrow> i < length xs \<longrightarrow> par i = h \<longrightarrow> 0 < h \<longrightarrow> k (xs ! par h) \<le> k (xs ! i))"

function sift_up :: "('a \<Rightarrow> 'k :: linorder) \<Rightarrow> 'a list \<Rightarrow> nat \<Rightarrow> 'a list" where
  "sift_up k xs h =
     (if h = 0 \<or> k (xs ! par h) \<le> k (xs ! h) then xs else sift_up k (swap xs h (par h)) (par h))"
  by auto
termination by (relation "measure (\<lambda>(k, xs, h). h)") (auto simp: par_less)

text \<open>The smaller child of \<open>h\<close>, where the left one wins a tie only if the right is absent.\<close>

definition least_child :: "('a \<Rightarrow> 'k :: linorder) \<Rightarrow> 'a list \<Rightarrow> nat \<Rightarrow> nat" where
  "least_child k xs h =
     (let c = 2 * (h + 1) in
      if c = length xs \<or> k (xs ! (c - 1)) < k (xs ! c) then c - 1 else c)"

function sift_down :: "('a \<Rightarrow> 'k :: linorder) \<Rightarrow> 'a list \<Rightarrow> nat \<Rightarrow> 'a list" where
  "sift_down k xs h =
     (if 2 * (h + 1) \<le> length xs \<and> k (xs ! least_child k xs h) < k (xs ! h)
      then sift_down k (swap xs h (least_child k xs h)) (least_child k xs h) else xs)"
  by auto
termination
  by (relation "measure (\<lambda>(k, xs, h). length xs - h)") (auto simp: least_child_def swap_def Let_def)

declare sift_up.simps [simp del] sift_down.simps [simp del]

lemma swap_facts [simp]:
  "length (swap xs i j) = length xs"
  "i < length xs \<Longrightarrow> j < length xs \<Longrightarrow> mset (swap xs i j) = mset xs"
  by (simp_all add: swap_def mset_swap)

lemma nth_swap:
  "i < length xs \<Longrightarrow> j < length xs \<Longrightarrow> l < length xs \<Longrightarrow>
    swap xs i j ! l = (if l = i then xs ! j else if l = j then xs ! i else xs ! l)"
  by (auto simp: swap_def nth_list_update)

lemma sift_up_mset: "h < length xs \<Longrightarrow> mset (sift_up k xs h) = mset xs \<and> length (sift_up k xs h) = length xs"
proof (induction k xs h rule: sift_up.induct)
  case (1 k xs h)
  show ?case
  proof (cases "h = 0 \<or> k (xs ! par h) \<le> k (xs ! h)")
    case True
    then show ?thesis by (subst (1 2) sift_up.simps) simp
  next
    case False
    then have "par h < h" "par h < length xs" using 1(2) par_less [of h] by auto
    with False 1 show ?thesis by (subst (1 2) sift_up.simps) simp
  qed
qed

lemma heap_but_up_done:
  "heap_but_up k xs h \<Longrightarrow> h = 0 \<or> k (xs ! par h) \<le> k (xs ! h) \<Longrightarrow> heap_list k xs"
  unfolding heap_but_up_def heap_list_def by auto

lemma heap_but_up_swap:
  assumes "heap_but_up k xs h" "0 < h" "h < length xs" "k (xs ! h) < k (xs ! par h)"
  shows "heap_but_up k (swap xs h (par h)) (par h)"
proof -
  have p: "par h < h" "par h < length xs" using assms(2,3) by (simp_all add: par_less par_lt)
  note sw = nth_swap [OF assms(3) p(2)]
  have e: "k (xs ! par i) \<le> k (xs ! i)" if "0 < i" "i < length xs" "i \<noteq> h" for i
    using assms(1) that by (simp add: heap_but_up_def)
  have s: "k (xs ! par h) \<le> k (xs ! i)" if "0 < i" "i < length xs" "par i = h" for i
    using assms(1,2) that by (simp add: heap_but_up_def)
  show ?thesis
    unfolding heap_but_up_def
  proof (intro conjI allI impI; simp only: swap_facts)
    fix i assume i: "0 < i" "i < length xs" "i \<noteq> par h"
    have pi: "par i < i" "par i < length xs" using i by (simp_all add: par_less par_lt)
    show "k (swap xs h (par h) ! par i) \<le> k (swap xs h (par h) ! i)"
      using e [OF i(1,2)] s [OF i(1,2)] e [of "par h"] assms(4) i p pi
      by (auto simp: sw [OF pi(2)] sw [OF i(2)])
  next
    fix i assume i: "0 < i" "i < length xs" "par i = par h" "0 < par h"
    have pp: "par (par h) < par h" "par (par h) < length xs" using i p by (simp_all add: par_less par_lt)
    have "k (xs ! par (par h)) \<le> k (xs ! par h)" using e [of "par h"] i(4) p by simp
    moreover have "i \<noteq> par h" using i par_less [of "par h"] by auto
    ultimately show "k (swap xs h (par h) ! par (par h)) \<le> k (swap xs h (par h) ! i)"
      using e [OF i(1,2)] i p pp by (auto simp: sw [OF pp(2)] sw [OF i(2)])
  qed
qed

lemma sift_up_heap: "h < length xs \<Longrightarrow> heap_but_up k xs h \<Longrightarrow> heap_list k (sift_up k xs h)"
proof (induction k xs h rule: sift_up.induct)
  case (1 k xs h)
  show ?case
  proof (cases "h = 0 \<or> k (xs ! par h) \<le> k (xs ! h)")
    case True
    with 1 heap_but_up_done show ?thesis by (subst sift_up.simps) simp
  next
    case False
    then have "k (xs ! h) < k (xs ! par h)" "0 < h" by auto
    from heap_but_up_swap [OF 1(3) this(2) 1(2) this(1)] par_lt [OF 1(2)] False 1(1)
    show ?thesis by (subst sift_up.simps) simp
  qed
qed

lemma least_child_bounds:
  assumes "2 * (h + 1) \<le> length xs"
  shows "least_child k xs h < length xs" "h < least_child k xs h" "par (least_child k xs h) = h"
  using assms by (auto simp: least_child_def Let_def child_par)

lemma least_child_least:
  assumes "0 < i" "i < length xs" "par i = h"
  shows "k (xs ! least_child k xs h) \<le> k (xs ! i)"
  using assms child_par [of i h] by (auto simp: least_child_def Let_def not_less)

lemma no_children: "\<not> 2 * (h + 1) \<le> length xs \<Longrightarrow> 0 < i \<Longrightarrow> i < length xs \<Longrightarrow> par i \<noteq> h"
  by (auto simp: child_par)

lemma heap_but_down_done:
  assumes "heap_but_down k xs h"
    and "\<not> (2 * (h + 1) \<le> length xs \<and> k (xs ! least_child k xs h) < k (xs ! h))"
  shows "heap_list k xs"
  unfolding heap_list_def
proof (intro allI impI)
  fix i assume i: "0 < i" "i < length xs"
  show "k (xs ! par i) \<le> k (xs ! i)"
  proof (cases "par i = h")
    case True
    then have "k (xs ! h) \<le> k (xs ! least_child k xs h)"
      using assms(2) no_children [OF _ i] by auto
    also have "\<dots> \<le> k (xs ! i)" by (rule least_child_least [OF i True])
    finally show ?thesis using True by simp
  next
    case False
    with assms(1) i show ?thesis by (simp add: heap_but_down_def)
  qed
qed

lemma heap_but_down_swap:
  assumes "heap_but_down k xs h" "2 * (h + 1) \<le> length xs" "k (xs ! least_child k xs h) < k (xs ! h)"
  shows "heap_but_down k (swap xs h (least_child k xs h)) (least_child k xs h)"
proof -
  define m where "m = least_child k xs h"
  have m: "m < length xs" "h < m" "par m = h" "h < length xs"
    using least_child_bounds [OF assms(2)] assms(2) unfolding m_def by auto
  note sw = nth_swap [OF m(4,1)]
  have e: "k (xs ! par i) \<le> k (xs ! i)" if "0 < i" "i < length xs" "par i \<noteq> h" for i
    using assms(1) that by (simp add: heap_but_down_def)
  have s: "k (xs ! par h) \<le> k (xs ! i)" if "0 < i" "i < length xs" "par i = h" "0 < h" for i
    using assms(1) that by (simp add: heap_but_down_def)
  have least: "k (xs ! m) \<le> k (xs ! i)" if "0 < i" "i < length xs" "par i = h" for i
    using least_child_least [OF that] by (simp add: m_def)
  show ?thesis
    unfolding heap_but_down_def m_def [symmetric]
  proof (intro conjI allI impI; simp only: swap_facts)
    fix i assume i: "0 < i" "i < length xs" "par i \<noteq> m"
    have pi: "par i < i" "par i < length xs" using i by (simp_all add: par_less par_lt)
    show "k (swap xs h m ! par i) \<le> k (swap xs h m ! i)"
      using e [OF i(1,2)] least [OF i(1,2)] s [of m] assms(3) i pi m
      by (auto simp: sw [OF pi(2)] sw [OF i(2)] m_def [symmetric])
  next
    fix i assume i: "0 < i" "i < length xs" "par i = m" "0 < m"
    have "m < i" using i par_less [of i] by simp
    then show "k (swap xs h m ! par m) \<le> k (swap xs h m ! i)"
      using e [OF i(1,2)] i m by (auto simp: sw [OF m(4)] sw [OF i(2)])
  qed
qed

lemma sift_down_mset:
  "h < length xs \<Longrightarrow> mset (sift_down k xs h) = mset xs \<and> length (sift_down k xs h) = length xs"
proof (induction k xs h rule: sift_down.induct)
  case (1 k xs h)
  show ?case
  proof (cases "2 * (h + 1) \<le> length xs \<and> k (xs ! least_child k xs h) < k (xs ! h)")
    case True
    with 1 least_child_bounds [of h xs k] show ?thesis by (subst (1 2) sift_down.simps) simp
  next
    case False
    then show ?thesis by (subst (1 2) sift_down.simps) (simp only: if_False)
  qed
qed

lemma sift_down_heap: "h < length xs \<Longrightarrow> heap_but_down k xs h \<Longrightarrow> heap_list k (sift_down k xs h)"
proof (induction k xs h rule: sift_down.induct)
  case (1 k xs h)
  show ?case
  proof (cases "2 * (h + 1) \<le> length xs \<and> k (xs ! least_child k xs h) < k (xs ! h)")
    case True
    with 1 least_child_bounds [of h xs k] heap_but_down_swap [OF 1(3)] show ?thesis
      by (subst sift_down.simps) simp
  next
    case False
    with heap_but_down_done [OF 1(3) False] show ?thesis by (subst sift_down.simps) (simp only: if_False)
  qed
qed

lemma heap_list_root: "heap_list k xs \<Longrightarrow> i < length xs \<Longrightarrow> k (xs ! 0) \<le> k (xs ! i)"
proof (induction i rule: less_induct)
  case (less i)
  show ?case
  proof (cases "i = 0")
    case False
    then have "par i < i" "par i < length xs" using less(3) False by (simp_all add: par_less par_lt)
    with less.IH [OF _ less(2)] have "k (xs ! 0) \<le> k (xs ! par i)" by simp
    also have "\<dots> \<le> k (xs ! i)" using less(2,3) False by (simp add: heap_list_def)
    finally show ?thesis .
  qed simp
qed

end
