(* ===== verification/Min_Heap.thy ===== *)
theory Min_Heap
  imports Sift
begin

text \<open>
  The heap of timers of libevent (\<open>minheap-internal.h\<close>), and the two functions of
  \<open>event.c\<close> that use it: when to wake up and which events have timed out. Events are
  numbers; their fields \<open>ev_timeout\<close> and \<open>min_heap_idx\<close> are kept in maps. Counts and
  indices stay below \<open>2\<^sup>31\<close>, where \<open>unsigned\<close> and the \<open>int\<close> index do not wrap; the
  theorems carry that bound.
\<close>

section \<open>Time values\<close>

datatype timeval = Timeval (tv_sec: int) (tv_usec: int)

text \<open>\<open>evutil_timercmp\<close> with \<open><\<close> and \<open>\<le>\<close>: a lexicographic order.\<close>

definition timercmp_less :: "timeval \<Rightarrow> timeval \<Rightarrow> bool" where
  "timercmp_less a b \<longleftrightarrow> (if tv_sec a = tv_sec b then tv_usec a < tv_usec b else tv_sec a < tv_sec b)"

definition timercmp_le :: "timeval \<Rightarrow> timeval \<Rightarrow> bool" where
  "timercmp_le a b \<longleftrightarrow> (if tv_sec a = tv_sec b then tv_usec a \<le> tv_usec b else tv_sec a \<le> tv_sec b)"

instantiation timeval :: linorder
begin

definition less_eq_timeval :: "timeval \<Rightarrow> timeval \<Rightarrow> bool" where
  "a \<le> b \<longleftrightarrow> timercmp_le a b"

definition less_timeval :: "timeval \<Rightarrow> timeval \<Rightarrow> bool" where
  "a < b \<longleftrightarrow> timercmp_less a b"

instance
  by standard (auto simp: less_eq_timeval_def less_timeval_def timercmp_le_def timercmp_less_def
      timeval.expand split: if_splits)

end

lemmas timeval_order_defs = less_eq_timeval_def less_timeval_def timercmp_le_def timercmp_less_def

text \<open>\<open>evutil_timersub\<close> on normalised values.\<close>

definition timersub :: "timeval \<Rightarrow> timeval \<Rightarrow> timeval" where
  "timersub t u =
     (let sec = tv_sec t - tv_sec u; usec = tv_usec t - tv_usec u in
      if usec < 0 then Timeval (sec - 1) (usec + 1000000) else Timeval sec usec)"

definition normalised :: "timeval \<Rightarrow> bool" where
  "normalised t \<longleftrightarrow> 0 \<le> tv_usec t \<and> tv_usec t < 1000000"

section \<open>The heap\<close>

text \<open>\<open>p\<close> is the array, as long as its capacity \<open>a\<close>; \<open>heap_n\<close> the number of elements in it.\<close>

record min_heap =
  heap_p :: "nat list"
  heap_n :: nat
  ev_timeout :: "nat \<Rightarrow> timeval"
  min_heap_idx :: "nat \<Rightarrow> int"

definition elem_greater :: "min_heap \<Rightarrow> nat \<Rightarrow> nat \<Rightarrow> bool" where
  "elem_greater s a b \<longleftrightarrow> ev_timeout s a > ev_timeout s b"

definition heap_get :: "min_heap \<Rightarrow> nat \<Rightarrow> nat res" where
  "heap_get s i = (if i < length (heap_p s) then Inr (heap_p s ! i) else Inl OutOfBounds)"

text \<open>\<open>(s->p[i] = e)->ev_timeout_pos.min_heap_idx = i\<close>\<close>

definition heap_put :: "min_heap \<Rightarrow> nat \<Rightarrow> nat \<Rightarrow> min_heap res" where
  "heap_put s i e =
     (if i < length (heap_p s)
      then Inr (s\<lparr>heap_p := (heap_p s)[i := e], min_heap_idx := (min_heap_idx s)(e := int i)\<rparr>)
      else Inl OutOfBounds)"

definition min_heap_ctor :: "min_heap \<Rightarrow> min_heap" where
  "min_heap_ctor s = s\<lparr>heap_p := [], heap_n := 0\<rparr>"

definition min_heap_elem_init :: "nat \<Rightarrow> min_heap \<Rightarrow> min_heap" where
  "min_heap_elem_init e s = s\<lparr>min_heap_idx := (min_heap_idx s)(e := -1)\<rparr>"

definition min_heap_empty :: "min_heap \<Rightarrow> bool" where
  "min_heap_empty s \<longleftrightarrow> heap_n s = 0"

definition min_heap_size :: "min_heap \<Rightarrow> nat" where
  "min_heap_size s = heap_n s"

definition min_heap_top :: "min_heap \<Rightarrow> nat option res" where
  "min_heap_top s = (if heap_n s \<noteq> 0 then bindE (heap_get s 0) (\<lambda>e. Inr (Some e)) else Inr None)"

definition min_heap_elt_is_top :: "nat \<Rightarrow> min_heap \<Rightarrow> bool" where
  "min_heap_elt_is_top e s \<longleftrightarrow> min_heap_idx s e = 0"

text \<open>\<open>min_heap_reserve_\<close>: \<open>mem\<close> tells whether \<open>realloc\<close> to a number of elements succeeds.\<close>

definition min_heap_reserve :: "(nat \<Rightarrow> bool) \<Rightarrow> nat \<Rightarrow> min_heap \<Rightarrow> int \<times> min_heap" where
  "min_heap_reserve mem n s =
     (if length (heap_p s) < n then
        (let a = (if length (heap_p s) \<noteq> 0 then (length (heap_p s) * 2) mod 2 ^ 32 else 8);
             a = (if a < n then n else a)
         in if \<not> mem a then (-1, s)
            else (0, s\<lparr>heap_p := heap_p s @ replicate (a - length (heap_p s)) 0\<rparr>))
      else (0, s))"

function min_heap_shift_up :: "min_heap \<Rightarrow> nat \<Rightarrow> nat \<Rightarrow> min_heap res" where
  "min_heap_shift_up s hole_index e =
     (if hole_index = 0 then heap_put s hole_index e
      else bindE (heap_get s (par hole_index)) (\<lambda>q.
        if elem_greater s q e
        then bindE (heap_put s hole_index q) (\<lambda>s. min_heap_shift_up s (par hole_index) e)
        else heap_put s hole_index e))"
  by auto
termination by (relation "measure (\<lambda>(s, h, e). h)") (auto simp: par_less)

text \<open>The first round of the loop is done without the test.\<close>

definition min_heap_shift_up_unconditional :: "min_heap \<Rightarrow> nat \<Rightarrow> nat \<Rightarrow> min_heap res" where
  "min_heap_shift_up_unconditional s hole_index e =
     bindE (heap_get s (par hole_index)) (\<lambda>q.
     bindE (heap_put s hole_index q) (\<lambda>s. min_heap_shift_up s (par hole_index) e))"

text \<open>The index of the child to compare with, when \<open>min_child \<le> n\<close>.\<close>

definition smaller_child :: "min_heap \<Rightarrow> nat \<Rightarrow> nat res" where
  "smaller_child s min_child =
     (if min_child = heap_n s then Inr (min_child - 1)
      else bindE (heap_get s min_child) (\<lambda>r.
           bindE (heap_get s (min_child - 1)) (\<lambda>l.
             Inr (if elem_greater s r l then min_child - 1 else min_child))))"

lemma smaller_child_bounds:
  "smaller_child s c = Inr m \<Longrightarrow> m = c \<or> m = c - 1"
  by (auto simp: smaller_child_def bindE_eq_Inr split: if_splits)

lemma heap_put_n: "heap_put s i e = Inr t \<Longrightarrow> heap_n t = heap_n s"
  by (auto simp: heap_put_def split: if_splits)

function min_heap_shift_down :: "min_heap \<Rightarrow> nat \<Rightarrow> nat \<Rightarrow> min_heap res" where
  "min_heap_shift_down s hole_index e =
     (if 2 * (hole_index + 1) \<le> heap_n s then
        (case smaller_child s (2 * (hole_index + 1)) of
           Inl f \<Rightarrow> Inl f
         | Inr min_child \<Rightarrow>
             (case heap_get s min_child of
                Inl f \<Rightarrow> Inl f
              | Inr q \<Rightarrow>
                  if \<not> elem_greater s e q then heap_put s hole_index e
                  else (case heap_put s hole_index q of
                          Inl f \<Rightarrow> Inl f
                        | Inr t \<Rightarrow> min_heap_shift_down t min_child e)))
      else heap_put s hole_index e)"
  by auto
termination
  by (relation "measure (\<lambda>(s, h, e). heap_n s - h)")
     (auto dest!: smaller_child_bounds heap_put_n)

definition min_heap_push :: "(nat \<Rightarrow> bool) \<Rightarrow> nat \<Rightarrow> min_heap \<Rightarrow> (int \<times> min_heap) res" where
  "min_heap_push mem e s =
     (if heap_n s = 2 ^ 32 - 1 then Inr (-1, s)
      else let (rc, s) = min_heap_reserve mem (heap_n s + 1) s in
        if rc \<noteq> 0 then Inr (-1, s)
        else bindE (min_heap_shift_up (s\<lparr>heap_n := heap_n s + 1\<rparr>) (heap_n s) e) (\<lambda>s. Inr (0, s)))"

definition min_heap_pop :: "min_heap \<Rightarrow> (nat option \<times> min_heap) res" where
  "min_heap_pop s =
     (if heap_n s \<noteq> 0 then
        bindE (heap_get s 0) (\<lambda>e.
        bindE (heap_get s (heap_n s - 1)) (\<lambda>l.
        bindE (min_heap_shift_down (s\<lparr>heap_n := heap_n s - 1\<rparr>) 0 l) (\<lambda>s.
          Inr (Some e, min_heap_elem_init e s))))
      else Inr (None, s))"

definition min_heap_erase :: "nat \<Rightarrow> min_heap \<Rightarrow> (int \<times> min_heap) res" where
  "min_heap_erase e s =
     (if min_heap_idx s e \<noteq> -1 then
        let i = nat (min_heap_idx s e); s = s\<lparr>heap_n := heap_n s - 1\<rparr> in
        bindE (heap_get s (heap_n s)) (\<lambda>l.
        bindE (if i > 0 then bindE (heap_get s (par i)) (\<lambda>q. Inr (elem_greater s q l)) else Inr False)
          (\<lambda>up. bindE (if up then min_heap_shift_up_unconditional s i l else min_heap_shift_down s i l)
            (\<lambda>s. Inr (0, min_heap_elem_init e s))))
      else Inr (-1, s))"

definition min_heap_adjust :: "(nat \<Rightarrow> bool) \<Rightarrow> nat \<Rightarrow> min_heap \<Rightarrow> (int \<times> min_heap) res" where
  "min_heap_adjust mem e s =
     (if min_heap_idx s e = -1 then min_heap_push mem e s
      else let i = nat (min_heap_idx s e) in
        bindE (if i > 0 then bindE (heap_get s (par i)) (\<lambda>q. Inr (elem_greater s q e)) else Inr False)
          (\<lambda>up. bindE (if up then min_heap_shift_up_unconditional s i e else min_heap_shift_down s i e)
            (\<lambda>s. Inr (0, s))))"

section \<open>Timers of \<open>event.c\<close>\<close>

text \<open>\<open>timeout_next\<close>: how long to wait, \<open>None\<close> for no timer; the assertions as in the source.\<close>

definition timeout_next :: "timeval \<Rightarrow> min_heap \<Rightarrow> timeval option res" where
  "timeout_next now s =
     bindE (min_heap_top s) (\<lambda>top.
       case top of
         None \<Rightarrow> Inr None
       | Some ev \<Rightarrow>
           if ev_timeout s ev \<le> now then Inr (Some (Timeval 0 0))
           else let tv = timersub (ev_timeout s ev) now in
             if tv_sec tv \<ge> 0 \<and> tv_usec tv \<ge> 0 then Inr (Some tv) else Inl AssertFailed)"

text \<open>
  \<open>timeout_process\<close>: the events whose time has come, in the order in which they are
  activated; \<open>event_del\<close> takes an event from the heap. Every round removes an event, so as
  many rounds as there are events are enough.
\<close>

fun timeout_loop :: "nat \<Rightarrow> timeval \<Rightarrow> min_heap \<Rightarrow> (nat list \<times> min_heap) res" where
  "timeout_loop 0 now s = Inr ([], s)"
| "timeout_loop (Suc k) now s =
     bindE (min_heap_top s) (\<lambda>top.
       case top of
         None \<Rightarrow> Inr ([], s)
       | Some ev \<Rightarrow>
           if ev_timeout s ev > now then Inr ([], s)
           else bindE (min_heap_erase ev s) (\<lambda>(rc, s).
                bindE (timeout_loop k now s) (\<lambda>(evs, s). Inr (ev # evs, s))))"

definition timeout_process :: "timeval \<Rightarrow> min_heap \<Rightarrow> (nat list \<times> min_heap) res" where
  "timeout_process now s =
     (if min_heap_empty s then Inr ([], s) else timeout_loop (Suc (heap_n s)) now s)"

end
