(* ===== verification/Min_Heap_Inv.thy ===== *)
theory Min_Heap_Inv
  imports Min_Heap
begin

text \<open>
  The moves of \<open>minheap-internal.h\<close> are those of \<open>Sift\<close>, with every access inside the array
  and the indices in the events kept exact; from this the four operations are described by
  what they do to the set of events in the heap.
\<close>

declare min_heap_shift_up.simps [simp del] min_heap_shift_down.simps [simp del]

definition elems :: "min_heap \<Rightarrow> nat list" where
  "elems s = take (heap_n s) (heap_p s)"

definition indexed :: "(nat \<Rightarrow> int) \<Rightarrow> nat list \<Rightarrow> bool" where
  "indexed idx xs \<longleftrightarrow> distinct xs \<and> (\<forall>i<length xs. idx (xs ! i) = int i)"

definition heap_ok :: "min_heap \<Rightarrow> bool" where
  "heap_ok s \<longleftrightarrow> heap_n s \<le> length (heap_p s) \<and> indexed (min_heap_idx s) (elems s) \<and>
     (\<forall>e. e \<notin> set (elems s) \<longrightarrow> min_heap_idx s e = -1) \<and> heap_list (ev_timeout s) (elems s)"

text \<open>All indices but that of the hole are exact when \<open>e\<close> is thought of in the hole.\<close>

definition indexed_but :: "(nat \<Rightarrow> int) \<Rightarrow> nat list \<Rightarrow> nat \<Rightarrow> bool" where
  "indexed_but idx xs h \<longleftrightarrow> distinct xs \<and> h < length xs \<and> (\<forall>i<length xs. i \<noteq> h \<longrightarrow> idx (xs ! i) = int i)"

lemma indexed_but_fill: "indexed_but idx xs h \<Longrightarrow> indexed (idx(xs ! h := int h)) xs"
  by (auto simp: indexed_but_def indexed_def nth_eq_iff_index_eq)

lemma indexed_but_swap:
  assumes "indexed_but idx xs h" "j < length xs" "j \<noteq> h"
  shows "indexed_but (idx(xs ! j := int h)) (swap xs h j) j"
proof -
  have d: "distinct xs" "h < length xs" using assms by (simp_all add: indexed_but_def)
  have "distinct (swap xs h j)"
    using d assms(2) by (metis mset_eq_imp_distinct_iff swap_facts(2))
  moreover have "(idx(xs ! j := int h)) (swap xs h j ! i) = int i" if "i < length xs" "i \<noteq> j" for i
    using assms d that by (auto simp: nth_swap indexed_but_def nth_eq_iff_index_eq)
  ultimately show ?thesis using assms(2) by (simp add: indexed_but_def)
qed

text \<open>What a shift has done: the elements in the order given, exact indices, nothing else.\<close>

definition shifted :: "min_heap \<Rightarrow> nat list \<Rightarrow> min_heap \<Rightarrow> bool" where
  "shifted s xs t \<longleftrightarrow> heap_n t = heap_n s \<and> length (heap_p t) = length (heap_p s) \<and>
     ev_timeout t = ev_timeout s \<and> elems t = xs \<and> indexed (min_heap_idx t) xs \<and>
     (\<forall>x. x \<notin> set xs \<longrightarrow> min_heap_idx t x = min_heap_idx s x)"

lemma elems_upd: "h < heap_n s \<Longrightarrow> elems (s\<lparr>heap_p := (heap_p s)[h := e], min_heap_idx := f\<rparr>) = (elems s)[h := e]"
  by (simp add: elems_def take_update_swap)

lemma put_shifted:
  assumes "h < heap_n s" "heap_n s \<le> length (heap_p s)" "indexed_but (min_heap_idx s) ((elems s)[h := e]) h"
  shows "\<exists>t. heap_put s h e = Inr t \<and> shifted s ((elems s)[h := e]) t"
proof -
  have h: "h < length (elems s)" using assms(1,2) by (simp add: elems_def)
  then have "e \<in> set ((elems s)[h := e])" by (rule set_update_memI)
  with assms h indexed_but_fill [OF assms(3)] show ?thesis
    by (auto simp: heap_put_def shifted_def elems_upd)
qed

lemma get_elem:
  "i < heap_n s \<Longrightarrow> heap_n s \<le> length (heap_p s) \<Longrightarrow> heap_get s i = Inr (elems s ! i)"
  by (simp add: heap_get_def elems_def)

lemma shift_up_shifted:
  assumes "h < heap_n s" "heap_n s \<le> length (heap_p s)" "indexed_but (min_heap_idx s) ((elems s)[h := e]) h"
  shows "\<exists>t. min_heap_shift_up s h e = Inr t \<and>
    shifted s (sift_up (ev_timeout s) ((elems s)[h := e]) h) t"
  using assms
proof (induction s h e rule: min_heap_shift_up.induct)
  case (1 s h e)
  define ys where "ys = (elems s)[h := e]"
  have len: "length (elems s) = heap_n s" "length ys = heap_n s"
    using 1(3) by (simp_all add: elems_def ys_def)
  show ?case
  proof (cases "h = 0 \<or> ev_timeout s (ys ! par h) \<le> ev_timeout s (ys ! h)")
    case True
    have "min_heap_shift_up s h e = heap_put s h e"
    proof (cases "h = 0")
      case False
      then have "par h < h" by (simp add: par_less)
      with True 1(2,3) len False show ?thesis
        by (subst min_heap_shift_up.simps) (simp add: get_elem elem_greater_def ys_def leD)
    qed (subst min_heap_shift_up.simps, simp)
    moreover have "sift_up (ev_timeout s) ys h = ys"
      using True by (subst sift_up.simps) simp
    ultimately show ?thesis using put_shifted [OF 1(2-4)] by (simp add: ys_def)
  next
    case False
    then have h: "h \<noteq> 0" and gt: "ev_timeout s (ys ! h) < ev_timeout s (ys ! par h)" by auto
    define q where "q = elems s ! par h"
    define s1 where "s1 = s\<lparr>heap_p := (heap_p s)[h := q], min_heap_idx := (min_heap_idx s)(q := int h)\<rparr>"
    have p: "par h < h" "par h < heap_n s" using h 1(2) by (simp_all add: par_less par_lt)
    have q: "ys ! par h = q" "ys ! h = e" using p 1(2) len by (simp_all add: ys_def q_def)
    have get: "heap_get s (par h) = Inr q" using p(2) 1(3) by (simp add: get_elem q_def)
    have put: "heap_put s h q = Inr s1" using 1(2,3) by (simp add: heap_put_def s1_def)
    have sw: "(elems s1)[par h := e] = swap ys h (par h)"
      using p q 1(2) len by (simp add: s1_def elems_upd swap_def ys_def)
    have eg: "elem_greater s q e" using gt q by (simp add: elem_greater_def)
    have "\<exists>t. min_heap_shift_up s1 (par h) e = Inr t \<and>
        shifted s1 (sift_up (ev_timeout s1) ((elems s1)[par h := e]) (par h)) t"
    proof (rule 1(1) [OF h eg])
      show "par h < heap_n s1" "heap_n s1 \<le> length (heap_p s1)"
        using p 1(3) by (simp_all add: s1_def)
      show "indexed_but (min_heap_idx s1) ((elems s1)[par h := e]) (par h)"
        using indexed_but_swap [of "min_heap_idx s" ys h "par h"] 1(4) p len q
        by (simp add: sw) (simp add: s1_def ys_def)
    qed
    then obtain t where t: "min_heap_shift_up s1 (par h) e = Inr t"
      and sh: "shifted s1 (sift_up (ev_timeout s) (swap ys h (par h)) (par h)) t"
      by (auto simp: sw) (auto simp: s1_def)
    have up: "sift_up (ev_timeout s) ys h = sift_up (ev_timeout s) (swap ys h (par h)) (par h)"
      using False by (subst sift_up.simps) simp
    have set: "set (sift_up (ev_timeout s) (swap ys h (par h)) (par h)) = set ys"
      using sift_up_mset [of "par h" "swap ys h (par h)" "ev_timeout s"] p 1(2) len
      by (metis mset_eq_setD swap_facts)
    have "q \<in> set ys" using q(1) p(2) len by (metis nth_mem)
    then have "shifted s (sift_up (ev_timeout s) ys h) t"
      using sh set by (auto simp: shifted_def s1_def up)
    moreover have "min_heap_shift_up s h e = Inr t"
      using h t eg get put by (subst min_heap_shift_up.simps) simp
    ultimately show ?thesis by (auto simp: ys_def)
  qed
qed

lemma shift_up_unconditional_eq:
  "heap_get s (par h) = Inr q \<Longrightarrow> elem_greater s q e \<Longrightarrow> 0 < h \<Longrightarrow>
    min_heap_shift_up_unconditional s h e = min_heap_shift_up s h e"
  by (subst min_heap_shift_up.simps) (simp add: min_heap_shift_up_unconditional_def)

text \<open>Moving down. A hole behind the last element, as in taking the last element out, is just filled.\<close>

lemma smaller_child_eq:
  assumes "2 * (h + 1) \<le> heap_n s" "heap_n s \<le> length (heap_p s)" "e = ys ! h" "ys = (elems s)[h := e]"
  shows "smaller_child s (2 * (h + 1)) = Inr (least_child (ev_timeout s) ys h)"
proof -
  have ys: "length ys = heap_n s" "\<And>i. i \<noteq> h \<Longrightarrow> ys ! i = elems s ! i"
    using assms(2) by (simp_all add: assms(4) elems_def)
  show ?thesis
    using assms(1,2) ys(1) ys(2) [of "2 * (h + 1)"] ys(2) [of "2 * (h + 1) - 1"]
    by (simp add: smaller_child_def least_child_def Let_def get_elem elem_greater_def)
qed

lemma shift_down_shifted:
  assumes "h < heap_n s" "heap_n s \<le> length (heap_p s)" "indexed_but (min_heap_idx s) ((elems s)[h := e]) h"
  shows "\<exists>t. min_heap_shift_down s h e = Inr t \<and>
    shifted s (sift_down (ev_timeout s) ((elems s)[h := e]) h) t"
  using assms
proof (induction s h e rule: min_heap_shift_down.induct)
  case (1 s h e)
  define ys where "ys = (elems s)[h := e]"
  define m where "m = least_child (ev_timeout s) ys h"
  have len: "length (elems s) = heap_n s" "length ys = heap_n s"
    using 1(3) by (simp_all add: elems_def ys_def)
  have e: "e = ys ! h" using 1(2) len by (simp add: ys_def)
  show ?case
  proof (cases "2 * (h + 1) \<le> heap_n s")
    case False
    then have "min_heap_shift_down s h e = heap_put s h e" "sift_down (ev_timeout s) ys h = ys"
      using len by (subst min_heap_shift_down.simps sift_down.simps, simp)+
    then show ?thesis using put_shifted [OF 1(2-4)] by (simp add: ys_def)
  next
    case child: True
    have m: "m < heap_n s" "h < m" using least_child_bounds [of h ys] child len by (simp_all add: m_def)
    have sc: "smaller_child s (2 * (h + 1)) = Inr m"
      using smaller_child_eq [OF child 1(3) e] by (simp add: ys_def m_def)
    define q where "q = ys ! m"
    have get: "heap_get s m = Inr q" using m 1(3) by (simp add: get_elem q_def ys_def)
    have eg: "elem_greater s e q \<longleftrightarrow> ev_timeout s (ys ! m) < ev_timeout s (ys ! h)"
      by (simp add: elem_greater_def q_def flip: e)
    show ?thesis
    proof (cases "elem_greater s e q")
      case False
      then have "min_heap_shift_down s h e = heap_put s h e" "sift_down (ev_timeout s) ys h = ys"
        using sc get child eg len
        by (subst min_heap_shift_down.simps sift_down.simps, simp add: m_def [symmetric])+
      then show ?thesis using put_shifted [OF 1(2-4)] by (simp add: ys_def)
    next
      case True
      define s1 where "s1 = s\<lparr>heap_p := (heap_p s)[h := q], min_heap_idx := (min_heap_idx s)(q := int h)\<rparr>"
      have put: "heap_put s h q = Inr s1" using 1(2,3) by (simp add: heap_put_def s1_def)
      have sw: "(elems s1)[m := e] = swap ys h m"
        using m 1(2) len by (simp add: s1_def elems_upd swap_def ys_def q_def)
      have "\<exists>t. min_heap_shift_down s1 m e = Inr t \<and>
          shifted s1 (sift_down (ev_timeout s1) ((elems s1)[m := e]) m) t"
      proof (rule 1(1) [OF child sc get _ put])
        show "\<not> \<not> elem_greater s e q" using True by simp
        show "m < heap_n s1" "heap_n s1 \<le> length (heap_p s1)"
          using m 1(3) by (simp_all add: s1_def)
        show "indexed_but (min_heap_idx s1) ((elems s1)[m := e]) m"
          using indexed_but_swap [of "min_heap_idx s" ys h m] 1(4) m len
          by (simp add: sw) (simp add: s1_def ys_def q_def)
      qed
      then obtain t where t: "min_heap_shift_down s1 m e = Inr t"
        and sh: "shifted s1 (sift_down (ev_timeout s) (swap ys h m) m) t"
        by (auto simp: sw) (auto simp: s1_def)
      have down: "sift_down (ev_timeout s) ys h = sift_down (ev_timeout s) (swap ys h m) m"
        using True child len eg by (subst sift_down.simps) (simp add: m_def [symmetric])
      have set: "set (sift_down (ev_timeout s) (swap ys h m) m) = set ys"
        using sift_down_mset [of m "swap ys h m" "ev_timeout s"] m 1(2) len
        by (metis mset_eq_setD swap_facts)
      have "q \<in> set ys" using m len by (simp add: q_def)
      then have "shifted s (sift_down (ev_timeout s) ys h) t"
        using sh set by (auto simp: shifted_def s1_def down)
      moreover have "min_heap_shift_down s h e = Inr t"
        using True t get put sc child by (subst min_heap_shift_down.simps) simp
      ultimately show ?thesis by (auto simp: ys_def)
    qed
  qed
qed

section \<open>Replacing one element\<close>

text \<open>
  A heap in which the element at \<open>i\<close> is replaced: the other keys are as before. It moves up
  if it is smaller than its parent, down otherwise.
\<close>

lemma replace_up:
  assumes "heap_list k zs" "i < length zs" "\<forall>j<length zs. j \<noteq> i \<longrightarrow> k' (zs ! j) = k (zs ! j)"
    and "0 < i" "k' l < k' (zs ! par i)"
  shows "heap_but_up k' (zs[i := l]) i"
proof -
  have e: "k (zs ! par j) \<le> k (zs ! j)" if "0 < j" "j < length zs" for j
    using assms(1) that by (simp add: heap_list_def)
  have pi: "par i \<noteq> i" "par i < length zs" using assms(2,4) par_less [of i] par_lt [of i] by auto
  have top: "k (zs ! par i) \<le> k (zs ! j)" if "0 < j" "j < length zs" "par j = i" for j
    using e [OF that(1,2)] e [OF assms(4,2)] that(3) by simp
  show ?thesis
    unfolding heap_but_up_def
  proof (intro conjI allI impI; simp only: length_list_update)
    fix j assume j: "0 < j" "j < length zs" "j \<noteq> i"
    then have "par j < length zs" by (simp add: par_lt)
    then show "k' (zs[i := l] ! par j) \<le> k' (zs[i := l] ! j)"
      using e [OF j(1,2)] top [OF j(1,2)] assms(3,5) j pi assms(2)
      by (cases "par j = i") (auto simp: nth_list_update)
  next
    fix j assume j: "0 < j" "j < length zs" "par j = i" "0 < i"
    then have "j \<noteq> i" using par_less [of j] by auto
    then show "k' (zs[i := l] ! par i) \<le> k' (zs[i := l] ! j)"
      using top [OF j(1-3)] assms(3) j pi by (auto simp: nth_list_update)
  qed
qed

lemma replace_down:
  assumes "heap_list k zs" "i < length zs" "\<forall>j<length zs. j \<noteq> i \<longrightarrow> k' (zs ! j) = k (zs ! j)"
    and "i = 0 \<or> k' (zs ! par i) \<le> k' l"
  shows "heap_but_down k' (zs[i := l]) i"
proof -
  have e: "k (zs ! par j) \<le> k (zs ! j)" if "0 < j" "j < length zs" for j
    using assms(1) that by (simp add: heap_list_def)
  show ?thesis
    unfolding heap_but_down_def
  proof (intro conjI allI impI; simp only: length_list_update)
    fix j assume j: "0 < j" "j < length zs" "par j \<noteq> i"
    then have "par j < length zs" "par j < j" by (simp_all add: par_lt par_less)
    then show "k' (zs[i := l] ! par j) \<le> k' (zs[i := l] ! j)"
      using e [OF j(1,2)] assms(3,4) j by (cases "j = i") (auto simp: nth_list_update)
  next
    fix j assume j: "0 < j" "j < length zs" "par j = i" "0 < i"
    then have ne: "j \<noteq> i" "par i < i" using par_less [of j] par_less [of i] by auto
    then have "par i < length zs" using assms(2) by simp
    then show "k' (zs[i := l] ! par i) \<le> k' (zs[i := l] ! j)"
      using e [OF j(1,2)] e [OF j(4) assms(2)] assms(3) j ne by (auto simp: nth_list_update)
  qed
qed

lemma heap_list_butlast: "heap_list k xs \<Longrightarrow> heap_list k (butlast xs)"
  by (auto simp: heap_list_def nth_butlast par_lt)

lemma heap_list_snoc: "heap_list k xs \<Longrightarrow> heap_but_up k (xs @ [x]) (length xs)"
  unfolding heap_but_up_def heap_list_def
  by (auto simp: nth_append par_lt less_Suc_eq child_par) 

section \<open>The operations\<close>

lemma heap_okD:
  assumes "heap_ok s"
  shows "heap_n s \<le> length (heap_p s)" "length (elems s) = heap_n s" "distinct (elems s)"
    "i < heap_n s \<Longrightarrow> min_heap_idx s (elems s ! i) = int i"
    "e \<notin> set (elems s) \<Longrightarrow> min_heap_idx s e = -1"
    "heap_list (ev_timeout s) (elems s)"
  using assms by (simp_all add: heap_ok_def indexed_def elems_def)

lemma idx_elems: "heap_ok s \<Longrightarrow> min_heap_idx s e = -1 \<longleftrightarrow> e \<notin> set (elems s)"
  using heap_okD(2,4,5) [of s] by (fastforce simp: in_set_conv_nth)

lemma shifted_ok:
  assumes "shifted s xs t" "heap_n s \<le> length (heap_p s)" "heap_list (ev_timeout s) xs"
    and "\<And>x. x \<notin> set xs \<Longrightarrow> min_heap_idx s x = -1"
  shows "heap_ok t"
  using assms by (simp add: shifted_def heap_ok_def)

lemma shifted_init_ok:
  assumes "shifted s xs t" "heap_n s \<le> length (heap_p s)" "heap_list (ev_timeout s) xs" "e \<notin> set xs"
    and "\<And>x. x \<notin> set xs \<Longrightarrow> x \<noteq> e \<Longrightarrow> min_heap_idx s x = -1"
  shows "heap_ok (min_heap_elem_init e t) \<and> elems (min_heap_elem_init e t) = xs \<and>
    ev_timeout (min_heap_elem_init e t) = ev_timeout s \<and> heap_n (min_heap_elem_init e t) = heap_n s"
proof -
  have u: "elems (min_heap_elem_init e t) = xs" "ev_timeout (min_heap_elem_init e t) = ev_timeout s"
    "heap_n (min_heap_elem_init e t) = heap_n s" "heap_n s \<le> length (heap_p (min_heap_elem_init e t))"
    using assms(1,2) by (auto simp: shifted_def min_heap_elem_init_def elems_def)
  have "indexed (min_heap_idx (min_heap_elem_init e t)) xs"
    using assms(1,4) unfolding shifted_def indexed_def min_heap_elem_init_def by (auto dest: nth_mem)
  moreover have "min_heap_idx (min_heap_elem_init e t) x = -1" if "x \<notin> set xs" for x
    using assms(1,5) that by (simp add: shifted_def min_heap_elem_init_def)
  ultimately show ?thesis using u assms(3) by (simp add: heap_ok_def)
qed

lemma reserve_eq:
  "length (heap_p s) < n \<Longrightarrow> \<exists>b\<ge>n. min_heap_reserve mem n s = (if \<not> mem b then (-1, s)
      else (0, s\<lparr>heap_p := heap_p s @ replicate (b - length (heap_p s)) 0\<rparr>))"
  unfolding min_heap_reserve_def Let_def
  by (rule exI [of _ "(if (if length (heap_p s) \<noteq> 0 then (length (heap_p s) * 2) mod 2 ^ 32 else 8) < n then n else
    (if length (heap_p s) \<noteq> 0 then (length (heap_p s) * 2) mod 2 ^ 32 else 8))"]) (simp only: if_True, simp)

lemma reserve_elems:
  assumes "min_heap_reserve mem n s = (rc, t)" "heap_n s \<le> length (heap_p s)"
  shows "rc = -1 \<and> t = s \<and> (\<exists>a. \<not> mem a) \<or> rc = 0 \<and> n \<le> length (heap_p t) \<and> heap_n t = heap_n s \<and>
    elems t = elems s \<and> ev_timeout t = ev_timeout s \<and> min_heap_idx t = min_heap_idx s"
proof (cases "length (heap_p s) < n")
  case True
  obtain b where b: "n \<le> b" "min_heap_reserve mem n s = (if \<not> mem b then (-1, s)
      else (0, s\<lparr>heap_p := heap_p s @ replicate (b - length (heap_p s)) 0\<rparr>))"
    using reserve_eq [OF True] by blast
  show ?thesis
  proof (cases "mem b")
    case mem: True
    with assms(1) b(2) have "rc = 0" "t = s\<lparr>heap_p := heap_p s @ replicate (b - length (heap_p s)) 0\<rparr>"
      by auto
    with True b(1) assms(2) show ?thesis by (simp add: elems_def)
  next
    case False
    with assms(1) b(2) show ?thesis by auto
  qed
next
  case False
  then have "min_heap_reserve mem n s = (0, s)" by (simp only: min_heap_reserve_def if_False)
  with assms False show ?thesis by simp
qed

lemma push_ok:
  assumes ok: "heap_ok s" and e: "e \<notin> set (elems s)" and n: "heap_n s < 2 ^ 31 - 1"
  shows "min_heap_push mem e s = Inr (-1, s) \<and> (\<exists>a. \<not> mem a) \<or>
    (\<exists>t. min_heap_push mem e s = Inr (0, t) \<and> heap_ok t \<and> heap_n t = heap_n s + 1 \<and>
      set (elems t) = insert e (set (elems s)) \<and> ev_timeout t = ev_timeout s)"
proof -
  obtain rc u where u: "min_heap_reserve mem (heap_n s + 1) s = (rc, u)" by fastforce
  have push: "min_heap_push mem e s = (if rc \<noteq> 0 then Inr (-1, u) else
      bindE (min_heap_shift_up (u\<lparr>heap_n := heap_n u + 1\<rparr>) (heap_n u) e) (\<lambda>s. Inr (0, s)))"
    using n u by (simp add: min_heap_push_def)
  show ?thesis
  proof (cases "rc = 0")
    case True
    with reserve_elems [OF u heap_okD(1) [OF ok]]
    have r: "heap_n s + 1 \<le> length (heap_p u)" "heap_n u = heap_n s" "elems u = elems s"
      "ev_timeout u = ev_timeout s" "min_heap_idx u = min_heap_idx s" by auto
    define v where "v = u\<lparr>heap_n := heap_n u + 1\<rparr>"
    have xs: "(elems v)[heap_n u := e] = elems s @ [e]"
      using r heap_okD(1) [OF ok]
      by (simp add: v_def elems_def take_Suc_conv_app_nth list_update_append)
    have "\<exists>t. min_heap_shift_up v (heap_n u) e = Inr t \<and>
        shifted v (sift_up (ev_timeout v) ((elems v)[heap_n u := e]) (heap_n u)) t"
    proof (rule shift_up_shifted)
      show "heap_n u < heap_n v" "heap_n v \<le> length (heap_p v)" using r by (simp_all add: v_def)
      show "indexed_but (min_heap_idx v) ((elems v)[heap_n u := e]) (heap_n u)"
        using r e heap_okD(2-4) [OF ok] unfolding xs
        by (auto simp: indexed_but_def v_def nth_append)
    qed
    then obtain t where t: "min_heap_shift_up v (heap_n u) e = Inr t"
      and sh: "shifted v (sift_up (ev_timeout s) (elems s @ [e]) (heap_n s)) t"
      unfolding xs by (auto simp: v_def r)
    have m: "set (sift_up (ev_timeout s) (elems s @ [e]) (heap_n s)) = insert e (set (elems s))"
      using sift_up_mset [of "heap_n s" "elems s @ [e]" "ev_timeout s"] heap_okD(2) [OF ok]
      by (metis lessI length_append_singleton mset_eq_setD set_append Un_insert_right list.simps(15) list.set(1) sup_bot.right_neutral)
    have "heap_ok t"
    proof (rule shifted_ok [OF sh])
      show "heap_n v \<le> length (heap_p v)" using r by (simp add: v_def)
      show "heap_list (ev_timeout v) (sift_up (ev_timeout s) (elems s @ [e]) (heap_n s))"
        using sift_up_heap [of "heap_n s" "elems s @ [e]" "ev_timeout s"]
          heap_list_snoc [OF heap_okD(6) [OF ok], of e] heap_okD(2) [OF ok]
        by (simp add: v_def r)
      show "min_heap_idx v x = -1" if "x \<notin> set (sift_up (ev_timeout s) (elems s @ [e]) (heap_n s))" for x
        using that m heap_okD(5) [OF ok] by (simp add: v_def r)
    qed
    moreover have "min_heap_push mem e s = Inr (0, t)" using True push t by (simp add: v_def)
    ultimately show ?thesis using sh m r by (simp add: shifted_def v_def)
  next
    case False
    with reserve_elems [OF u heap_okD(1) [OF ok]] push show ?thesis by auto
  qed
qed

text \<open>The choice between moving up and down, as erasing and adjusting make it.\<close>

definition sift_either :: "min_heap \<Rightarrow> nat \<Rightarrow> nat \<Rightarrow> min_heap res" where
  "sift_either s i l =
     bindE (if i > 0 then bindE (heap_get s (par i)) (\<lambda>q. Inr (elem_greater s q l)) else Inr False)
       (\<lambda>up. if up then min_heap_shift_up_unconditional s i l else min_heap_shift_down s i l)"

lemma sift_either_ok:
  assumes zs: "heap_list k (elems s)" "i < heap_n s" "heap_n s \<le> length (heap_p s)"
    and k: "\<forall>j<heap_n s. j \<noteq> i \<longrightarrow> ev_timeout s (elems s ! j) = k (elems s ! j)"
    and idx: "indexed_but (min_heap_idx s) ((elems s)[i := l]) i"
  shows "\<exists>t xs. sift_either s i l = Inr t \<and> shifted s xs t \<and> heap_list (ev_timeout s) xs \<and>
    mset xs = mset ((elems s)[i := l])"
proof -
  have len: "length (elems s) = heap_n s" using zs(3) by (simp add: elems_def)
  show ?thesis
  proof (cases "0 < i \<and> ev_timeout s l < ev_timeout s (elems s ! par i)")
    case True
    then have p: "heap_get s (par i) = Inr (elems s ! par i)" "elem_greater s (elems s ! par i) l"
      using zs(2,3) by (simp_all add: get_elem par_lt elem_greater_def)
    from True have "sift_either s i l = min_heap_shift_up s i l"
      using p shift_up_unconditional_eq [OF p] by (simp add: sift_either_def)
    moreover have "heap_but_up (ev_timeout s) ((elems s)[i := l]) i"
      by (rule replace_up [OF zs(1)]) (use zs k True len in auto)
    ultimately show ?thesis
      using shift_up_shifted [OF zs(2,3) idx] sift_up_heap [of i "(elems s)[i := l]" "ev_timeout s"]
        sift_up_mset [of i "(elems s)[i := l]" "ev_timeout s"] zs(2) len by (auto simp del: mset_update)
  next
    case False
    then have "sift_either s i l = min_heap_shift_down s i l"
      using zs(2,3) by (auto simp: sift_either_def get_elem par_lt elem_greater_def)
    moreover have "heap_but_down (ev_timeout s) ((elems s)[i := l]) i"
      by (rule replace_down [OF zs(1)]) (use zs k False len in \<open>auto simp: not_less\<close>)
    ultimately show ?thesis
      using shift_down_shifted [OF zs(2,3) idx] sift_down_heap [of i "(elems s)[i := l]" "ev_timeout s"]
        sift_down_mset [of i "(elems s)[i := l]" "ev_timeout s"] zs(2) len by (auto simp del: mset_update)
  qed
qed

lemma erase_eq:
  "min_heap_idx s e \<noteq> -1 \<Longrightarrow> min_heap_erase e s =
    bindE (heap_get s (heap_n s - 1)) (\<lambda>l.
    bindE (sift_either (s\<lparr>heap_n := heap_n s - 1\<rparr>) (nat (min_heap_idx s e)) l)
      (\<lambda>s. Inr (0, min_heap_elem_init e s)))"
  by (simp add: min_heap_erase_def sift_either_def Let_def heap_get_def bindE_def split: sum.splits if_splits)

lemma adjust_eq:
  "min_heap_idx s e \<noteq> -1 \<Longrightarrow> min_heap_adjust mem e s =
    bindE (sift_either s (nat (min_heap_idx s e)) e) (\<lambda>s. Inr (0, s))"
  by (simp add: min_heap_adjust_def sift_either_def Let_def bindE_def split: sum.splits if_splits)

lemma erase_ok:
  assumes ok: "heap_ok s" and e: "e \<in> set (elems s)"
  shows "\<exists>t. min_heap_erase e s = Inr (0, t) \<and> heap_ok t \<and> heap_n t = heap_n s - 1 \<and>
    set (elems t) = set (elems s) - {e} \<and> ev_timeout t = ev_timeout s"
proof -
  note ok_facts = heap_okD [OF ok]
  obtain i where i: "i < heap_n s" "elems s ! i = e"
    using e ok_facts(2) by (auto simp: in_set_conv_nth)
  define n where "n = heap_n s - 1"
  define s1 where "s1 = s\<lparr>heap_n := n\<rparr>"
  define l where "l = elems s ! n"
  have n: "n < heap_n s" "heap_n s = Suc n" using i(1) by (simp_all add: n_def)
  have idx: "nat (min_heap_idx s e) = i" "min_heap_idx s e \<noteq> -1"
    using ok_facts(4) [OF i(1)] i(2) by auto
  have "elems s = take n (heap_p s) @ [heap_p s ! n]"
    using n ok_facts(1) by (simp add: elems_def take_Suc_conv_app_nth)
  then have el: "elems s = elems s1 @ [l]"
    using n ok_facts(1) by (simp add: l_def s1_def) (simp add: elems_def nth_append)
  then have bl: "elems s1 = butlast (elems s)" by simp
  have hl: "heap_list (ev_timeout s) (elems s1)"
    unfolding bl by (rule heap_list_butlast [OF ok_facts(6)])
  have s1: "heap_n s1 = n" "ev_timeout s1 = ev_timeout s" "length (elems s1) = n" "n \<le> length (heap_p s1)"
    "min_heap_idx s1 = min_heap_idx s"
    using n ok_facts(1,2) by (simp_all add: s1_def elems_def)
  have "min_heap_erase e s = bindE (sift_either s1 i l) (\<lambda>s. Inr (0, min_heap_elem_init e s))"
    using erase_eq [OF idx(2)] idx(1) get_elem [OF n(1) ok_facts(1)] by (simp add: s1_def n_def l_def)
  moreover have "\<exists>t. sift_either s1 i l = Inr t \<and> heap_ok (min_heap_elem_init e t) \<and>
      heap_n (min_heap_elem_init e t) = n \<and> set (elems (min_heap_elem_init e t)) = set (elems s) - {e} \<and>
      ev_timeout (min_heap_elem_init e t) = ev_timeout s"
  proof (cases "i = n")
    case True
    then have l: "l = e" using i by (simp add: l_def)
    define t where "t = s1\<lparr>heap_p := (heap_p s1)[n := l], min_heap_idx := (min_heap_idx s1)(l := int n)\<rparr>"
    have t: "elems t = elems s1" "heap_n t = n" by (simp_all add: t_def elems_def s1_def)
    have "\<not> (0 < n \<and> ev_timeout s l < ev_timeout s (elems s ! par n))"
      using ok_facts(2,6) n by (auto simp: heap_list_def l_def not_less)
    then have "sift_either s1 i l = min_heap_shift_down s1 n l"
      using True n(2) el s1(3) ok_facts(1)
      by (auto simp: sift_either_def heap_get_def par_lt elem_greater_def s1(2) s1_def elems_def)
    also have "\<dots> = Inr t"
      using ok_facts(1) n by (subst min_heap_shift_down.simps) (simp add: heap_put_def t_def s1_def)
    finally have eq: "sift_either s1 i l = Inr t" .
    have ne: "e \<notin> set (elems s1)" using ok_facts(3) el l by auto
    have "min_heap_idx t (elems s1 ! j) = int j" if "j < n" for j
      using that ok_facts(4) [of j] n ne el s1(3) nth_mem [of j "elems s1"]
      by (auto simp: t_def s1(5) l nth_append)
    moreover have "min_heap_idx t x = -1" if "x \<notin> set (elems s1)" "x \<noteq> e" for x
      using that ok_facts(5) [of x] el l by (simp add: t_def s1(5))
    moreover have "distinct (elems s1)" using ok_facts(3) el by simp
    ultimately have "shifted (s1\<lparr>min_heap_idx := min_heap_idx t\<rparr>) (elems s1) t"
      using t s1 by (simp add: shifted_def indexed_def) (simp add: t_def s1_def)
    from shifted_init_ok [OF this, of e] hl s1 ne \<open>\<And>x. x \<notin> set (elems s1) \<Longrightarrow> x \<noteq> e \<Longrightarrow> min_heap_idx t x = -1\<close>
    have "heap_ok (min_heap_elem_init e t)" by simp
    with eq t el l ne show ?thesis
      by (auto simp: min_heap_elem_init_def elems_def t_def s1_def)
  next
    case False
    with i(1) n(2) have lt: "i < n" by simp
    have ib: "indexed_but (min_heap_idx s1) ((elems s1)[i := l]) i"
      unfolding indexed_but_def
    proof (intro conjI allI impI)
      show "distinct ((elems s1)[i := l])" using ok_facts(3) el by (simp add: distinct_list_update)
      show "i < length ((elems s1)[i := l])" using lt s1 by simp
      fix j assume "j < length ((elems s1)[i := l])" "j \<noteq> i"
      then have "j < n" "(elems s1)[i := l] ! j = elems s ! j"
        using s1 el by (auto simp: nth_append)
      then show "min_heap_idx s1 ((elems s1)[i := l] ! j) = int j"
        using ok_facts(4) [of j] n s1 by simp
    qed
    from sift_either_ok [of "ev_timeout s" s1 i l, OF hl _ _ _ ib] lt s1
    obtain t xs where t: "sift_either s1 i l = Inr t" "shifted s1 xs t" "heap_list (ev_timeout s) xs"
      "mset xs = mset ((elems s1)[i := l])" by auto
    have "set xs = insert l (set (elems s1) - {elems s1 ! i})"
      using mset_eq_setD [OF t(4)] set_update_distinct [of "elems s1" i l] ok_facts(3) el lt s1 by auto
    moreover have "elems s1 ! i = e" using i(2) el lt s1 by (simp add: nth_append)
    ultimately have set: "set xs = set (elems s) - {e}"
      using ok_facts(3) el lt s1 nth_mem [of i "elems s1"] by auto
    have "heap_ok (min_heap_elem_init e t) \<and> elems (min_heap_elem_init e t) = xs \<and>
        ev_timeout (min_heap_elem_init e t) = ev_timeout s1 \<and> heap_n (min_heap_elem_init e t) = heap_n s1"
      by (rule shifted_init_ok [OF t(2)]) (use t(3) s1 set ok_facts(5) in auto)
    with t(1) set s1 show ?thesis by simp
  qed
  ultimately show ?thesis using n(2) by auto
qed

lemma adjust_ok:
  assumes ok: "heap_ok s" and e: "e \<in> set (elems s)"
    and u: "u = s\<lparr>ev_timeout := (ev_timeout s)(e := tv)\<rparr>"
  shows "\<exists>t. min_heap_adjust mem e u = Inr (0, t) \<and> heap_ok t \<and> heap_n t = heap_n s \<and>
    set (elems t) = set (elems s) \<and> ev_timeout t = ev_timeout u"
proof -
  note ok_facts = heap_okD [OF ok]
  obtain i where i: "i < heap_n s" "elems s ! i = e"
    using e ok_facts(2) by (auto simp: in_set_conv_nth)
  have u': "elems u = elems s" "heap_n u = heap_n s" "min_heap_idx u = min_heap_idx s" "heap_p u = heap_p s"
    by (simp_all add: u elems_def)
  have same: "(elems u)[i := e] = elems s" using i(2) by (simp add: u') (metis list_update_id)
  have idx: "nat (min_heap_idx u e) = i" "min_heap_idx u e \<noteq> -1"
    using ok_facts(4) [OF i(1)] i(2) by (auto simp: u')
  have other: "\<forall>j<heap_n u. j \<noteq> i \<longrightarrow> ev_timeout u (elems u ! j) = ev_timeout s (elems u ! j)"
  proof (intro allI impI)
    fix j assume "j < heap_n u" "j \<noteq> i"
    then have "elems s ! j \<noteq> elems s ! i"
      using ok_facts(2,3) i(1) by (simp add: u' nth_eq_iff_index_eq)
    with i(2) have "elems u ! j \<noteq> e" by (simp add: u')
    then show "ev_timeout u (elems u ! j) = ev_timeout s (elems u ! j)" by (simp add: u)
  qed
  have ib: "indexed_but (min_heap_idx u) ((elems u)[i := e]) i"
    unfolding same using ok_facts(2-4) i(1) by (simp add: indexed_but_def u')
  have hl: "heap_list (ev_timeout s) (elems u)" using ok_facts(6) by (simp add: u')
  obtain t xs where t: "sift_either u i e = Inr t" "shifted u xs t" "heap_list (ev_timeout u) xs"
      "mset xs = mset (elems s)"
    using sift_either_ok [OF hl _ _ other ib] i(1) ok_facts(1) unfolding same by (auto simp: u')
  have "set xs = set (elems s)" using t(4) by (rule mset_eq_setD)
  moreover have "heap_ok t"
    by (rule shifted_ok [OF t(2)]) (use t(3) ok_facts(1,5) \<open>set xs = set (elems s)\<close> u' in simp_all)
  ultimately show ?thesis
    using adjust_eq [OF idx(2)] idx(1) t(1,2) u' by (auto simp: shifted_def)
qed

lemma pop_eq:
  assumes ok: "heap_ok s" and n: "heap_n s \<noteq> 0"
  shows "min_heap_pop s = bindE (min_heap_erase (elems s ! 0) s) (\<lambda>(rc, t). Inr (Some (elems s ! 0), t))"
proof -
  have i: "min_heap_idx s (elems s ! 0) = 0" using heap_okD(4) [OF ok, of 0] n by simp
  have get: "heap_get s 0 = Inr (elems s ! 0)" using get_elem [OF _ heap_okD(1) [OF ok]] n by simp
  show ?thesis
    using i get n
    by (cases "heap_get s (heap_n s - 1)")
       (simp_all add: min_heap_pop_def erase_eq sift_either_def bindE_def split: sum.splits)
qed

lemma top_eq:
  "heap_ok s \<Longrightarrow> min_heap_top s = Inr (if elems s = [] then None else Some (elems s ! 0))"
  using get_elem [of 0 s] heap_okD(1,2) [of s]
  by (cases "heap_n s = 0") (auto simp: min_heap_top_def)

lemma top_least: "heap_ok s \<Longrightarrow> e \<in> set (elems s) \<Longrightarrow> ev_timeout s (elems s ! 0) \<le> ev_timeout s e"
  using heap_list_root [of "ev_timeout s" "elems s"] by (auto simp: heap_ok_def in_set_conv_nth)

end
