(* ===== verification/Min_Heap_Thms.thy ===== *)
theory Min_Heap_Thms
  imports Min_Heap_Inv
begin

text \<open>
  What the timer heap promises to the event loop, as an interface of its own, and the
  properties of the heap and of the timer functions of \<open>event.c\<close> proved through it.
\<close>

section \<open>The interface of a set of timers\<close>

text \<open>
  The client takes the first timer as long as its time has come; \<open>fire\<close> is its loop. Nothing
  is assumed of how the timers are stored.
\<close>

locale timer_set =
  fixes invar :: "'s \<Rightarrow> bool"
    and members :: "'s \<Rightarrow> nat set"
    and due :: "'s \<Rightarrow> nat \<Rightarrow> 'k :: linorder"
    and first :: "'s \<Rightarrow> nat option res"
    and remove :: "nat \<Rightarrow> 's \<Rightarrow> (int \<times> 's) res"
    and fire :: "nat \<Rightarrow> 'k \<Rightarrow> 's \<Rightarrow> (nat list \<times> 's) res"
  assumes finite_members: "finite (members s)"
    and first_empty: "invar s \<Longrightarrow> members s = {} \<Longrightarrow> first s = Inr None"
    and first_least: "invar s \<Longrightarrow> members s \<noteq> {} \<Longrightarrow>
      \<exists>e. first s = Inr (Some e) \<and> e \<in> members s \<and> (\<forall>x\<in>members s. due s e \<le> due s x)"
    and remove_ok: "invar s \<Longrightarrow> e \<in> members s \<Longrightarrow>
      \<exists>t. remove e s = Inr (0, t) \<and> invar t \<and> members t = members s - {e} \<and> due t = due s"
    and fire_Suc: "fire (Suc k) now s = bindE (first s) (\<lambda>top.
       case top of
         None \<Rightarrow> Inr ([], s)
       | Some ev \<Rightarrow>
           if due s ev > now then Inr ([], s)
           else bindE (remove ev s) (\<lambda>(rc, s).
                bindE (fire k now s) (\<lambda>(evs, s). Inr (ev # evs, s))))"
begin

lemma fire_spec:
  "invar s \<Longrightarrow> card (members s) < k \<Longrightarrow>
    \<exists>evs t. fire k now s = Inr (evs, t) \<and> invar t \<and> distinct evs \<and>
      set evs = {e \<in> members s. due s e \<le> now} \<and> sorted (map (due s) evs) \<and>
      members t = members s - set evs \<and> due t = due s"
proof (induction k arbitrary: s)
  case (Suc k)
  show ?case
  proof (cases "members s = {}")
    case True
    then show ?thesis using Suc.prems(1) first_empty [OF Suc.prems(1) True] by (simp add: fire_Suc)
  next
    case False
    from first_least [OF Suc.prems(1) False] obtain e where e: "first s = Inr (Some e)" "e \<in> members s"
      "\<forall>x\<in>members s. due s e \<le> due s x" by blast
    show ?thesis
    proof (cases "due s e > now")
      case True
      then have none: "{e \<in> members s. due s e \<le> now} = {}" using less_le_trans [OF True] e(3) by fastforce
      have "fire (Suc k) now s = Inr ([], s)" using True e(1) by (simp add: fire_Suc)
      with none Suc.prems(1) show ?thesis by (intro exI [of _ "[]"] exI [of _ s]) simp
    next
      case False
      from remove_ok [OF Suc.prems(1) e(2)] obtain u where
        u: "remove e s = Inr (0, u)" "invar u" "members u = members s - {e}" "due u = due s" by blast
      have "card (members u) < k"
        using Suc.prems(2) card_Diff1_less [OF finite_members [of s] e(2)] u(3) by simp
      from Suc.IH [OF u(2) this] obtain evs t where t: "fire k now u = Inr (evs, t)" "invar t"
        "distinct evs" "set evs = {e \<in> members u. due u e \<le> now}" "sorted (map (due u) evs)"
        "members t = members u - set evs" "due t = due u" by blast
      show ?thesis
      proof (intro exI conjI)
        show "fire (Suc k) now s = Inr (e # evs, t)"
          using e(1) u(1) t(1) False by (simp add: fire_Suc)
        show "distinct (e # evs)" using t(3,4) u(3) by simp
        show "set (e # evs) = {e \<in> members s. due s e \<le> now}"
          using e(2) leI [OF False] unfolding list.set t(4) u(3,4) by blast
        show "sorted (map (due s) (e # evs))"
          using t(4,5) u(3,4) e(3) by simp
        show "members t = members s - set (e # evs)" using t(6) u(3) by auto
      qed (use t u in simp_all)
    qed
  qed
qed simp

end

definition timers :: "min_heap \<Rightarrow> nat set" where
  "timers s = set (elems s)"

interpretation th: timer_set heap_ok timers ev_timeout min_heap_top min_heap_erase timeout_loop
proof unfold_locales
  fix s :: min_heap
  show "finite (timers s)" by (simp add: timers_def)
  show "min_heap_top s = Inr None" if "heap_ok s" "timers s = {}"
    using that by (simp add: top_eq timers_def)
  show "\<exists>e. min_heap_top s = Inr (Some e) \<and> e \<in> timers s \<and> (\<forall>x\<in>timers s. ev_timeout s e \<le> ev_timeout s x)"
    if "heap_ok s" "timers s \<noteq> {}"
    using that top_least [OF that(1)] by (auto simp: top_eq timers_def intro!: nth_mem)
  show "\<exists>t. min_heap_erase e s = Inr (0, t) \<and> heap_ok t \<and> timers t = timers s - {e} \<and> ev_timeout t = ev_timeout s"
    if "heap_ok s" "e \<in> timers s" for e
    using erase_ok [OF that(1)] that(2) by (auto simp: timers_def)
qed (rule timeout_loop.simps)

section \<open>Properties\<close>

text \<open>C28: The array heap of timers implements a set of timers: from a well-formed heap, with memory
  available, pushing, erasing, re-timing (\<open>adjust\<close> after the timeout of a member was changed)
  and popping stay inside the array, return what the set operation returns, and lead to a
  well-formed heap again; erasing an event that is not in the heap is refused.\<close>

theorem heap_refines_set:
  assumes "heap_ok s" "heap_n s < 2 ^ 31 - 1" "\<And>a. mem a"
  shows "(e \<notin> timers s \<longrightarrow> (\<exists>t. min_heap_push mem e s = Inr (0, t) \<and> heap_ok t \<and>
        timers t = insert e (timers s))) \<and>
    (\<exists>t. min_heap_erase e s = Inr (if e \<in> timers s then 0 else -1, t) \<and> heap_ok t \<and>
        timers t = timers s - {e}) \<and>
    (e \<in> timers s \<longrightarrow> (\<exists>t. min_heap_adjust mem e (s\<lparr>ev_timeout := (ev_timeout s)(e := tv)\<rparr>) = Inr (0, t) \<and>
        heap_ok t \<and> timers t = timers s \<and> ev_timeout t e = tv)) \<and>
    (\<exists>r t. min_heap_pop s = Inr (r, t) \<and> heap_ok t \<and>
        (case r of None \<Rightarrow> timers s = {} \<and> t = s
         | Some x \<Rightarrow> x \<in> timers s \<and> timers t = timers s - {x} \<and> (\<forall>y\<in>timers s. ev_timeout s x \<le> ev_timeout s y)))"
proof (intro conjI impI)
  show "\<exists>t. min_heap_push mem e s = Inr (0, t) \<and> heap_ok t \<and> timers t = insert e (timers s)"
    if "e \<notin> timers s"
    using push_ok [OF assms(1) _ assms(2), of e mem] that assms(3) by (auto simp: timers_def)
  show "\<exists>t. min_heap_erase e s = Inr (if e \<in> timers s then 0 else -1, t) \<and> heap_ok t \<and>
      timers t = timers s - {e}"
  proof (cases "e \<in> timers s")
    case False
    then have "min_heap_erase e s = Inr (-1, s)"
      using idx_elems [OF assms(1)] by (simp add: min_heap_erase_def timers_def)
    with False assms(1) show ?thesis by simp
  qed (use th.remove_ok [OF assms(1)] in auto)
  show "\<exists>t. min_heap_adjust mem e (s\<lparr>ev_timeout := (ev_timeout s)(e := tv)\<rparr>) = Inr (0, t) \<and>
      heap_ok t \<and> timers t = timers s \<and> ev_timeout t e = tv" if "e \<in> timers s"
    using adjust_ok [OF assms(1) _ refl, of e mem tv] that by (auto simp: timers_def)
  show "\<exists>r t. min_heap_pop s = Inr (r, t) \<and> heap_ok t \<and>
      (case r of None \<Rightarrow> timers s = {} \<and> t = s
       | Some x \<Rightarrow> x \<in> timers s \<and> timers t = timers s - {x} \<and> (\<forall>y\<in>timers s. ev_timeout s x \<le> ev_timeout s y))"
  proof (cases "heap_n s = 0")
    case True
    then show ?thesis using assms(1) by (simp add: min_heap_pop_def timers_def elems_def)
  next
    case False
    then have "elems s ! 0 \<in> timers s"
      using heap_okD(2) [OF assms(1)] by (simp add: timers_def)
    with th.remove_ok [OF assms(1) this] top_least [OF assms(1)] show ?thesis
      by (force simp: pop_eq [OF assms(1) False] timers_def)
  qed
qed

definition two_timers :: min_heap where
  "two_timers = \<lparr>heap_p = [5, 7], heap_n = 2, ev_timeout = (\<lambda>e. Timeval (int e) 0),
     min_heap_idx = (\<lambda>e. if e = 5 then 0 else if e = 7 then 1 else -1)\<rparr>"

lemma two_timers_ok: "heap_ok two_timers" "timers two_timers = {5, 7}"
  by (auto simp: heap_ok_def two_timers_def elems_def timers_def indexed_def heap_list_def
      less_Suc_eq par_def timeval_order_defs numeral_2_eq_2)

lemma heap_refines_set_witness:
  "\<exists>t. min_heap_push (\<lambda>_. True) 3 two_timers = Inr (0, t) \<and> heap_ok t \<and> timers t = {3, 5, 7}"
  using heap_refines_set [OF two_timers_ok(1), of "\<lambda>_. True" 3] two_timers_ok(2)
  by (simp add: two_timers_def)

text \<open>C29: \<open>timeout_process\<close> activates exactly the timers whose time has come, each once, in the
  order of their times, keeps exactly the others, and never leaves the array.\<close>

theorem timers_fire_in_order:
  assumes "heap_ok s"
  shows "\<exists>evs t. timeout_process now s = Inr (evs, t) \<and> heap_ok t \<and> distinct evs \<and>
    set evs = {e \<in> timers s. ev_timeout s e \<le> now} \<and> sorted (map (ev_timeout s) evs) \<and>
    timers t = {e \<in> timers s. now < ev_timeout s e}"
proof (cases "heap_n s = 0")
  case True
  then show ?thesis using assms by (simp add: timeout_process_def min_heap_empty_def timers_def elems_def)
next
  case False
  have "card (timers s) < Suc (heap_n s)"
    using distinct_card [OF heap_okD(3) [OF assms]] heap_okD(2) [OF assms] by (simp add: timers_def)
  from th.fire_spec [OF assms this, of now] obtain evs t where
    r: "timeout_loop (Suc (heap_n s)) now s = Inr (evs, t)" "heap_ok t" "distinct evs"
      "set evs = {e \<in> timers s. ev_timeout s e \<le> now}" "sorted (map (ev_timeout s) evs)"
      "timers t = timers s - set evs" by blast
  have "timers t = {e \<in> timers s. now < ev_timeout s e}" using r(4,6) by auto
  with r False show ?thesis
    by (auto simp: timeout_process_def min_heap_empty_def simp del: timeout_loop.simps)
qed

lemma timers_fire_in_order_witness:
  "\<exists>evs t. timeout_process (Timeval 6 0) two_timers = Inr (evs, t) \<and> timers t = {7} \<and> set evs = {5}"
  using timers_fire_in_order [OF two_timers_ok(1), of "Timeval 6 0"] two_timers_ok(2)
  by (auto simp: two_timers_def timeval_order_defs)

text \<open>\<open>timeout_next\<close> tells the loop to wait for ever if there is no timer, not at all if one is
  due, and otherwise exactly until the earliest; its assertions hold for normalised times.\<close>

theorem timeout_next_exact:
  assumes "heap_ok s" "normalised now" "\<forall>e\<in>timers s. normalised (ev_timeout s e)"
  shows "(timers s = {} \<and> timeout_next now s = Inr None) \<or>
    (\<exists>e\<in>timers s. (\<forall>x\<in>timers s. ev_timeout s e \<le> ev_timeout s x) \<and>
      (\<exists>tv. timeout_next now s = Inr (Some tv) \<and> normalised tv \<and> 0 \<le> tv_sec tv \<and>
        tv_sec tv * 1000000 + tv_usec tv =
          max 0 ((tv_sec (ev_timeout s e) - tv_sec now) * 1000000 + (tv_usec (ev_timeout s e) - tv_usec now))))"
proof (cases "timers s = {}")
  case True
  then show ?thesis using th.first_empty [OF assms(1)] by (simp add: timeout_next_def)
next
  case False
  with th.first_least [OF assms(1)] obtain e where
    e: "min_heap_top s = Inr (Some e)" "e \<in> timers s" "\<forall>x\<in>timers s. ev_timeout s e \<le> ev_timeout s x" by blast
  define u where "u = ev_timeout s e"
  have "\<exists>tv. timeout_next now s = Inr (Some tv) \<and> normalised tv \<and> 0 \<le> tv_sec tv \<and>
      tv_sec tv * 1000000 + tv_usec tv = max 0 ((tv_sec u - tv_sec now) * 1000000 + (tv_usec u - tv_usec now))"
    using assms(2,3) e(1,2)
    by (auto simp: timeout_next_def u_def [symmetric] normalised_def timeval_order_defs timersub_def
        Let_def max_def dest!: bspec [of _ _ e] split: if_splits)
  with e show ?thesis unfolding u_def by blast
qed

lemma timeout_next_exact_witness:
  "\<exists>tv. timeout_next (Timeval 4 1) two_timers = Inr (Some tv) \<and> normalised tv"
proof -
  have "\<forall>e\<in>timers two_timers. normalised (ev_timeout two_timers e)" "normalised (Timeval 4 1)"
    by (auto simp: two_timers_def normalised_def)
  from timeout_next_exact [OF two_timers_ok(1) this(2,1)] two_timers_ok(2) show ?thesis by auto
qed

end
