(* ===== verification/Evbuf_Spec.thy ===== *)
theory Evbuf_Spec
  imports OS_Prelude
begin

text \<open>
  What libevent's buffers are to their clients: sequences of bytes. The operations are those
  of \<open>event2/buffer.h\<close> that the tagging format and the bufferevent programs use.
\<close>

type_synonym evbuf = "byte list"

definition ev_add :: "evbuf \<Rightarrow> byte list \<Rightarrow> evbuf" where
  "ev_add b bs = b @ bs"

definition ev_drain :: "nat \<Rightarrow> evbuf \<Rightarrow> evbuf" where
  "ev_drain n b = drop n b"

definition ev_remove :: "nat \<Rightarrow> evbuf \<Rightarrow> byte list \<times> evbuf" where
  "ev_remove n b = (take n b, drop n b)"

text \<open>
  \<open>evbuffer_pullup\<close>: the bytes that are contiguous at the address returned, as far as the
  call promises; NULL for no bytes or more than there are, everything for a negative size.
\<close>

definition ev_pullup :: "int \<Rightarrow> evbuf \<Rightarrow> byte list option" where
  "ev_pullup n b =
     (let n = (if n < 0 then length b else nat n) in
      if n = 0 \<or> length b < n then None else Some (take n b))"

text \<open>Reading from an array of bytes; conversions from \<open>int\<close> to \<open>size_t\<close>.\<close>

definition byte_at :: "byte list \<Rightarrow> nat \<Rightarrow> byte res" where
  "byte_at d i = (if i < length d then Inr (d ! i) else Inl OutOfBounds)"

definition to_size :: "int \<Rightarrow> nat" where
  "to_size i = unat (of_int i :: u64)"

lemma to_size_nonneg: "0 \<le> i \<Longrightarrow> i < 2 ^ 63 \<Longrightarrow> to_size i = nat i"
  by (simp add: to_size_def unat_eq_nat_uint word_of_int_inverse)

lemma to_size_of_nat [simp]: "n < 2 ^ 31 \<Longrightarrow> to_size (int n) = n"
  by (simp add: to_size_def unat_of_nat take_bit_nat_eq_self)

end
