(* ===== verification/Evtag.thy ===== *)
theory Evtag
  imports Evbuf_Spec
begin

text \<open>
  The tagged wire format of libevent, \<open>event_tagging.c\<close>: integers by nibbles, tags by groups
  of seven bits, and the marshalling functions on top of them. Buffers are byte sequences.
  A function that returns \<open>-1\<close> may have taken bytes from the buffer; its result is the
  returned number, what it stored, if anything, and the buffer.
\<close>

section \<open>Encoding integers\<close>

text \<open>One store of the loop: the low half of a byte for odd positions, the high half for even.\<close>

definition put_nibble :: "byte list \<Rightarrow> nat \<Rightarrow> byte \<Rightarrow> byte list res" where
  "put_nibble data off v =
     bindE (byte_at data (off div 2)) (\<lambda>x.
       Inr (data[off div 2 := (if odd off then (x AND 0xf0) OR (v AND 0x0f)
                               else (x AND 0x0f) OR push_bit 4 (v AND 0x0f))]))"

lemma drop_bit_less: "n \<noteq> 0 \<Longrightarrow> unat (drop_bit (Suc k) n) < unat (n :: 'a :: len word)"
proof -
  assume "n \<noteq> 0"
  then have "0 < unat n" by (simp add: unat_gt_0)
  then have "unat n div 2 ^ Suc k < unat n" 
    using one_less_power [of "2 :: nat" "Suc k"] by (intro div_less_dividend) simp_all
  then show ?thesis by (simp only: unat_drop_bit_eq) (simp only: drop_bit_eq_div)
qed

function enc_loop :: "byte list \<Rightarrow> nat \<Rightarrow> 'a :: len word \<Rightarrow> (byte list \<times> nat) res" where
  "enc_loop data off number =
     (if number = 0 then Inr (data, off)
      else bindE (put_nibble data off (ucast number))
             (\<lambda>data. enc_loop data (off + 1) (drop_bit 4 number)))"
  by auto
termination
  by (relation "measure (\<lambda>(data, off, number). unat number)")
     (use drop_bit_less [of _ 3] in \<open>auto simp: numeral_eq_Suc\<close>)

declare enc_loop.simps [simp del]

text \<open>\<open>ENCODE_INT_INTERNAL\<close> for a number of the given size in bytes; the bytes written.\<close>

definition encode_internal :: "nat \<Rightarrow> 'a :: len word \<Rightarrow> byte list res" where
  "encode_internal sz number =
     bindE (enc_loop (replicate (sz + 1) 0) 1 number) (\<lambda>(data, off).
       let nibbles = (if off > 2 then off - 2 else 0) in
       bindE (put_nibble data 0 (of_nat nibbles)) (\<lambda>data.
         Inr (take ((off + 1) div 2) data)))"

definition encode_int_internal :: "u32 \<Rightarrow> byte list res" where
  "encode_int_internal number = encode_internal 4 number"

definition encode_int64_internal :: "u64 \<Rightarrow> byte list res" where
  "encode_int64_internal number = encode_internal 8 number"

definition evtag_encode_int :: "evbuf \<Rightarrow> u32 \<Rightarrow> evbuf res" where
  "evtag_encode_int b number = bindE (encode_int_internal number) (\<lambda>d. Inr (ev_add b d))"

definition evtag_encode_int64 :: "evbuf \<Rightarrow> u64 \<Rightarrow> evbuf res" where
  "evtag_encode_int64 b number = bindE (encode_int64_internal number) (\<lambda>d. Inr (ev_add b d))"

section \<open>Encoding tags\<close>

function tag_bytes :: "u32 \<Rightarrow> byte list" where
  "tag_bytes tag =
     (let lower = ucast (tag AND 0x7f); tag = drop_bit 7 tag in
      if tag \<noteq> 0 then (lower OR 0x80) # tag_bytes tag else [lower])"
  by auto
termination
proof (relation "measure unat")
  fix x tag :: u32
  assume "tag = drop_bit 7 x" "tag \<noteq> 0"
  then show "(tag, x) \<in> measure unat"
    using drop_bit_less [of x 6] by (cases "x = 0") (auto simp: numeral_eq_Suc)
qed simp

declare tag_bytes.simps [simp del]

text \<open>The local array has five bytes; without a buffer only the length is computed.\<close>

definition evtag_encode_tag :: "evbuf option \<Rightarrow> u32 \<Rightarrow> (int \<times> evbuf option) res" where
  "evtag_encode_tag b tag =
     (let d = tag_bytes tag in
      if 5 < length d then Inl OutOfBounds
      else Inr (int (length d), map_option (\<lambda>b. ev_add b d) b))"

definition add_tag :: "evbuf \<Rightarrow> u32 \<Rightarrow> evbuf res" where
  "add_tag b tag = bindE (evtag_encode_tag (Some b) tag) (\<lambda>(_, b'). Inr (the b'))"

section \<open>Decoding tags\<close>

text \<open>
  The loop over the bytes that were pulled up, at most five; it counts up to the length of
  the whole buffer. The result is the number of bytes and the tag.
\<close>

fun tag_loop :: "nat \<Rightarrow> byte list \<Rightarrow> nat \<Rightarrow> nat \<Rightarrow> u32 \<Rightarrow> (nat \<times> u32) option res" where
  "tag_loop len [] cnt shift number = (if cnt < len then Inl OutOfBounds else Inr None)"
| "tag_loop len (lower # data) cnt shift number =
     (if \<not> cnt < len then Inr None
      else if shift \<ge> 28 \<and> (shift > 28 \<or> lower AND 0x7f > 15) then Inr None
      else let number = number OR push_bit shift (ucast (lower AND 0x7f)) in
        if lower AND 0x80 = 0 then Inr (Some (cnt + 1, number))
        else tag_loop len data (cnt + 1) (shift + 7) number)"

definition decode_tag_internal :: "evbuf \<Rightarrow> bool \<Rightarrow> (int \<times> u32 option \<times> evbuf) res" where
  "decode_tag_internal b dodrain =
     (let len = length b in
      case ev_pullup (int (if len < 5 then len else 5)) b of
        None \<Rightarrow> Inr (-1, None, b)
      | Some data \<Rightarrow>
          bindE (tag_loop len data 0 0 0) (\<lambda>r.
            case r of
              None \<Rightarrow> Inr (-1, None, b)
            | Some (cnt, number) \<Rightarrow>
                Inr (if cnt > 2 ^ 31 - 1 then 2 ^ 31 - 1 else int cnt, Some number,
                     if dodrain then ev_drain cnt b else b)))"

definition evtag_decode_tag :: "evbuf \<Rightarrow> (int \<times> u32 option \<times> evbuf) res" where
  "evtag_decode_tag b = decode_tag_internal b True"

section \<open>Decoding integers\<close>

fun dec_loop :: "byte list \<Rightarrow> nat \<Rightarrow> 'a :: len word \<Rightarrow> 'a word res" where
  "dec_loop data 0 number = Inr number"
| "dec_loop data (Suc nibbles) number =
     bindE (byte_at data (Suc nibbles div 2)) (\<lambda>x.
       dec_loop data nibbles (push_bit 4 number OR
         (if odd (Suc nibbles) then ucast (x AND 0x0f) else ucast (drop_bit 4 (x AND 0xf0)))))"

text \<open>
  \<open>DECODE_INT_INTERNAL\<close>. The offset is added to what \<open>evbuffer_pullup\<close> returns before it
  is tested for NULL.
\<close>

definition decode_internal :: "nat \<Rightarrow> evbuf \<Rightarrow> nat \<Rightarrow> (int \<times> 'a :: len word option) res" where
  "decode_internal maxnibbles b offset =
     (if int (length b) - int offset \<le> 0 then Inr (-1, None)
      else case ev_pullup (int offset + 1) b of
        None \<Rightarrow> if offset = 0 then Inr (-1, None) else Inl NullDeref
      | Some p \<Rightarrow>
          bindE (byte_at p offset) (\<lambda>x.
            let nibbles = unat (drop_bit 4 (x AND 0xf0)) + 1; len = nibbles div 2 + 1 in
            if nibbles > maxnibbles \<or> int len > int (length b) - int offset then Inr (-1, None)
            else case ev_pullup (int offset + int len) b of
              None \<Rightarrow> if offset = 0 then Inr (-1, None) else Inl NullDeref
            | Some p \<Rightarrow>
                bindE (dec_loop (drop offset p) nibbles 0) (\<lambda>number. Inr (int len, Some number))))"

definition decode_int_internal :: "evbuf \<Rightarrow> nat \<Rightarrow> (int \<times> u32 option) res" where
  "decode_int_internal b offset = decode_internal 8 b offset"

definition decode_int64_internal :: "evbuf \<Rightarrow> nat \<Rightarrow> (int \<times> u64 option) res" where
  "decode_int64_internal b offset = decode_internal 16 b offset"

definition evtag_decode_int :: "evbuf \<Rightarrow> (int \<times> u32 option \<times> evbuf) res" where
  "evtag_decode_int b =
     bindE (decode_int_internal b 0) (\<lambda>(rc, v).
       if rc \<noteq> -1 then Inr (0, v, ev_drain (to_size rc) b) else Inr (-1, None, b))"

definition evtag_decode_int64 :: "evbuf \<Rightarrow> (int \<times> u64 option \<times> evbuf) res" where
  "evtag_decode_int64 b =
     bindE (decode_int64_internal b 0) (\<lambda>(rc, v).
       if rc \<noteq> -1 then Inr (0, v, ev_drain (to_size rc) b) else Inr (-1, None, b))"

section \<open>Marshalling\<close>

definition evtag_marshal :: "evbuf \<Rightarrow> u32 \<Rightarrow> byte list \<Rightarrow> u32 \<Rightarrow> evbuf res" where
  "evtag_marshal b tag data len =
     bindE (add_tag b tag) (\<lambda>b.
     bindE (evtag_encode_int b len) (\<lambda>b.
       if length data < unat len then Inl OutOfBounds else Inr (ev_add b (take (unat len) data))))"

definition evtag_marshal_buffer :: "evbuf \<Rightarrow> u32 \<Rightarrow> evbuf \<Rightarrow> evbuf res" where
  "evtag_marshal_buffer b tag data =
     bindE (add_tag b tag) (\<lambda>b.
     bindE (evtag_encode_int b (of_nat (length data))) (\<lambda>b. Inr (ev_add b data)))"

definition evtag_marshal_int :: "evbuf \<Rightarrow> u32 \<Rightarrow> u32 \<Rightarrow> evbuf res" where
  "evtag_marshal_int b tag integer =
     bindE (encode_int_internal integer) (\<lambda>data.
     bindE (add_tag b tag) (\<lambda>b.
     bindE (evtag_encode_int b (of_nat (length data))) (\<lambda>b. Inr (ev_add b data))))"

definition evtag_marshal_int64 :: "evbuf \<Rightarrow> u32 \<Rightarrow> u64 \<Rightarrow> evbuf res" where
  "evtag_marshal_int64 b tag integer =
     bindE (encode_int64_internal integer) (\<lambda>data.
     bindE (add_tag b tag) (\<lambda>b.
     bindE (evtag_encode_int b (of_nat (length data))) (\<lambda>b. Inr (ev_add b data))))"

definition evtag_marshal_string :: "evbuf \<Rightarrow> u32 \<Rightarrow> byte list \<Rightarrow> evbuf res" where
  "evtag_marshal_string b tag string =
     evtag_marshal b tag string (of_nat (length string))"

text \<open>The seconds and microseconds are converted to \<open>uint32_t\<close>.\<close>

definition evtag_marshal_timeval :: "evbuf \<Rightarrow> u32 \<Rightarrow> int \<Rightarrow> int \<Rightarrow> evbuf res" where
  "evtag_marshal_timeval b tag sec usec =
     bindE (encode_int_internal (of_int sec)) (\<lambda>d1.
     bindE (encode_int_internal (of_int usec)) (\<lambda>d2.
       evtag_marshal b tag (d1 @ d2) (of_nat (length (d1 @ d2)))))"

section \<open>Unmarshalling\<close>

definition evtag_peek :: "evbuf \<Rightarrow> (int \<times> u32 option \<times> evbuf) res" where
  "evtag_peek b = decode_tag_internal b False"

definition evtag_peek_length :: "evbuf \<Rightarrow> (int \<times> u32 option) res" where
  "evtag_peek_length b =
     bindE (decode_tag_internal b False) (\<lambda>(len, _, _).
       if len = -1 then Inr (-1, None)
       else bindE (decode_int_internal b (nat len)) (\<lambda>(rc, v).
         if rc = -1 then Inr (-1, None)
         else Inr (0, map_option (\<lambda>v. v + of_int (rc + len)) v)))"

definition evtag_payload_length :: "evbuf \<Rightarrow> (int \<times> u32 option) res" where
  "evtag_payload_length b =
     bindE (decode_tag_internal b False) (\<lambda>(len, _, _).
       if len = -1 then Inr (-1, None)
       else bindE (decode_int_internal b (nat len)) (\<lambda>(rc, v).
         if rc = -1 then Inr (-1, None) else Inr (0, v)))"

text \<open>The length is a \<open>uint32_t\<close> returned as an \<open>int\<close>.\<close>

definition evtag_unmarshal_header :: "evbuf \<Rightarrow> (int \<times> u32 option \<times> evbuf) res" where
  "evtag_unmarshal_header b =
     bindE (decode_tag_internal b True) (\<lambda>(rc, tag, b).
       if rc = -1 then Inr (-1, None, b)
       else bindE (evtag_decode_int b) (\<lambda>(rc, len, b).
         if rc = -1 then Inr (-1, tag, b)
         else if length b < unat (the len) then Inr (-1, tag, b)
         else Inr (sint (the len), tag, b)))"

definition evtag_consume :: "evbuf \<Rightarrow> (int \<times> evbuf) res" where
  "evtag_consume b =
     bindE (evtag_unmarshal_header b) (\<lambda>(len, _, b).
       if len = -1 then Inr (-1, b) else Inr (0, ev_drain (to_size len) b))"

text \<open>The bytes handed to \<open>evbuffer_add\<close> are those pulled up.\<close>

definition evtag_unmarshal :: "evbuf \<Rightarrow> evbuf \<Rightarrow> (int \<times> u32 option \<times> evbuf \<times> evbuf) res" where
  "evtag_unmarshal src dst =
     bindE (evtag_unmarshal_header src) (\<lambda>(len, tag, src).
       if len = -1 then Inr (-1, tag, src, dst)
       else let p = (case ev_pullup len src of None \<Rightarrow> [] | Some p \<Rightarrow> p) in
         if length p < to_size len then Inl OutOfBounds
         else Inr (len, tag, ev_drain (to_size len) src, ev_add dst (take (to_size len) p)))"

definition evtag_unmarshal_int :: "evbuf \<Rightarrow> u32 \<Rightarrow> (int \<times> u32 option \<times> evbuf) res" where
  "evtag_unmarshal_int b need_tag =
     bindE (decode_tag_internal b True) (\<lambda>(rc, tag, b).
       if rc = -1 then Inr (-1, None, b)
       else if Some need_tag \<noteq> tag then Inr (-1, None, b)
       else bindE (evtag_decode_int b) (\<lambda>(rc, len, b).
         if rc = -1 then Inr (-1, None, b)
         else if length b < unat (the len) then Inr (-1, None, b)
         else bindE (decode_int_internal b 0) (\<lambda>(result, v).
           let b = ev_drain (unat (the len)) b in
           if result < 0 \<or> to_size result > unat (the len) then Inr (-1, v, b)
           else Inr (result, v, b))))"

definition evtag_unmarshal_int64 :: "evbuf \<Rightarrow> u32 \<Rightarrow> (int \<times> u64 option \<times> evbuf) res" where
  "evtag_unmarshal_int64 b need_tag =
     bindE (decode_tag_internal b True) (\<lambda>(rc, tag, b).
       if rc = -1 then Inr (-1, None, b)
       else if Some need_tag \<noteq> tag then Inr (-1, None, b)
       else bindE (evtag_decode_int b) (\<lambda>(rc, len, b).
         if rc = -1 then Inr (-1, None, b)
         else if length b < unat (the len) then Inr (-1, None, b)
         else bindE (decode_int64_internal b 0) (\<lambda>(result, v).
           let b = ev_drain (unat (the len)) b in
           if result < 0 \<or> to_size result > unat (the len) then Inr (-1, v, b)
           else Inr (result, v, b))))"

definition evtag_unmarshal_fixed :: "evbuf \<Rightarrow> u32 \<Rightarrow> nat \<Rightarrow> (int \<times> byte list \<times> evbuf) res" where
  "evtag_unmarshal_fixed src need_tag len =
     bindE (evtag_unmarshal_header src) (\<lambda>(tag_len, tag, src).
       if tag_len < 0 \<or> tag \<noteq> Some need_tag then Inr (-1, [], src)
       else if to_size tag_len \<noteq> len then Inr (-1, [], src)
       else let (data, src) = ev_remove len src in Inr (0, data, src))"

text \<open>\<open>mem\<close> tells whether \<open>malloc\<close> of a size succeeds; the string stored is without its NUL.\<close>

definition evtag_unmarshal_string ::
  "(nat \<Rightarrow> bool) \<Rightarrow> evbuf \<Rightarrow> u32 \<Rightarrow> (int \<times> byte list \<times> evbuf) res" where
  "evtag_unmarshal_string mem b need_tag =
     bindE (evtag_unmarshal_header b) (\<lambda>(tag_len, tag, b).
       if tag_len = -1 \<or> tag \<noteq> Some need_tag then Inr (-1, [], b)
       else if \<not> mem (to_size (tag_len + 1)) then Inr (-1, [], b)
       else let (data, b) = ev_remove (to_size tag_len) b in
         if to_size (tag_len + 1) \<le> length data then Inl OutOfBounds else Inr (0, data, b))"

definition evtag_unmarshal_timeval :: "evbuf \<Rightarrow> u32 \<Rightarrow> (int \<times> (u32 \<times> u32) option \<times> evbuf) res" where
  "evtag_unmarshal_timeval b need_tag =
     bindE (evtag_unmarshal_header b) (\<lambda>(len, tag, b).
       if len = -1 then Inr (-1, None, b)
       else let done' = ev_drain (to_size len) b in
         if tag \<noteq> Some need_tag then Inr (-1, None, done')
         else bindE (decode_int_internal b 0) (\<lambda>(offset, sec).
           if offset = -1 then Inr (-1, None, done')
           else bindE (decode_int_internal b (nat offset)) (\<lambda>(offset2, usec).
             if offset2 = -1 then Inr (-1, None, done')
             else if offset + offset2 > len then Inr (-1, None, done')
             else Inr (0, Some (the sec, the usec), done'))))"

end
