(* ===== verification/Evtag_Inv.thy ===== *)
theory Evtag_Inv
  imports Evtag
begin

text \<open>Nibbles and tags: the loops of the encoders and decoders undo each other.\<close>

section \<open>Nibbles\<close>

definition nib :: "byte list \<Rightarrow> nat \<Rightarrow> byte" where
  "nib d j = (if odd j then d ! (j div 2) AND 0x0f else drop_bit 4 (d ! (j div 2) AND 0xf0))"

lemma byte_bits: "n < 8 \<longleftrightarrow> n = 0 \<or> n = 1 \<or> n = 2 \<or> n = 3 \<or> n = 4 \<or> n = 5 \<or> n = 6 \<or> n = (7 :: nat)"
  by linarith

lemma mask_0f: "(0x0f :: 'a :: len word) = mask 4" by (simp add: mask_eq_exp_minus_1)

lemma byte_f0: "(0xf0 :: byte) = push_bit 4 (mask 4)" by (simp add: mask_eq_exp_minus_1)

lemma nibble_merge:
  fixes x v :: byte
  shows "((x AND 0xf0) OR (v AND 0x0f)) AND 0x0f = v AND 0x0f"
    "drop_bit 4 (((x AND 0xf0) OR (v AND 0x0f)) AND 0xf0) = drop_bit 4 (x AND 0xf0)"
    "((x AND 0x0f) OR push_bit 4 (v AND 0x0f)) AND 0x0f = x AND 0x0f"
    "drop_bit 4 (((x AND 0x0f) OR push_bit 4 (v AND 0x0f)) AND 0xf0) = v AND 0x0f"
  unfolding byte_f0 mask_0f
  by (rule bit_word_eqI, auto simp: bit_simps)+

lemma put_nibble_ok:
  assumes "off div 2 < length d"
  shows "\<exists>d'. put_nibble d off v = Inr d' \<and> length d' = length d \<and>
    (\<forall>j. j div 2 < length d \<longrightarrow> nib d' j = (if j = off then v AND 0x0f else nib d j))"
proof -
  have "j = off" if "odd j = odd off" "j div 2 = off div 2" for j
    using that by (metis div_mult_mod_eq odd_iff_mod_2_eq_one even_iff_mod_2_eq_zero)
  then show ?thesis
    using assms nibble_merge
    by (auto simp: put_nibble_def byte_at_def nib_def nth_list_update)
qed

text \<open>The number of nibbles of a number.\<close>

function ncount :: "'a :: len word \<Rightarrow> nat" where
  "ncount n = (if n = 0 then 0 else Suc (ncount (drop_bit 4 n)))"
  by auto
termination by (relation "measure unat") (use drop_bit_less [of _ 3] in \<open>auto simp: numeral_eq_Suc\<close>)

declare ncount.simps [simp del]

lemma ncount_drop: "drop_bit (4 * ncount n) n = 0"
proof (induction n rule: ncount.induct)
  case (1 n)
  show ?case
  proof (cases "n = 0")
    case False
    with 1 have "drop_bit (4 * ncount (drop_bit 4 n)) (drop_bit 4 n) = 0" by simp
    with False show ?thesis by (subst ncount.simps) (simp add: drop_bit_drop_bit add.commute)
  qed simp
qed

lemma ncount_le: "drop_bit (4 * k) n = 0 \<Longrightarrow> ncount n \<le> k"
proof (induction k arbitrary: n)
  case 0
  then show ?case by (subst ncount.simps) simp
next
  case (Suc k)
  then have "drop_bit (4 * k) (drop_bit 4 n) = 0" by (simp add: drop_bit_drop_bit add.commute)
  from Suc.IH [OF this] show ?case by (subst ncount.simps) simp
qed

lemma ncount_bound:
  fixes n :: "'a :: len word"
  assumes "LENGTH('a) \<le> 4 * k"
  shows "ncount n \<le> k"
proof (rule ncount_le)
  show "drop_bit (4 * k) n = 0"
    by (rule bit_word_eqI) (use assms in \<open>auto simp: bit_simps dest: bit_imp_le_length\<close>)
qed

lemma enc_loop_ok:
  assumes "(off + ncount n) div 2 < length d \<or> ncount n = 0"
  shows "\<exists>d'. enc_loop d off n = Inr (d', off + ncount n) \<and> length d' = length d \<and>
    (\<forall>j. j div 2 < length d \<longrightarrow> nib d' j =
      (if off \<le> j \<and> j < off + ncount n then ucast (drop_bit (4 * (j - off)) n) AND 0x0f else nib d j))"
  using assms
proof (induction d off n rule: enc_loop.induct)
  case (1 d off n)
  show ?case
  proof (cases "n = 0")
    case True
    then have "ncount n = 0" by (subst ncount.simps) simp
    with True show ?thesis by (subst enc_loop.simps) auto
  next
    case False
    define m where "m = drop_bit 4 n"
    have nc: "ncount n = Suc (ncount m)" using False by (subst ncount.simps) (simp add: m_def)
    with 1(2) have off: "off div 2 < length d" "(off + 1 + ncount m) div 2 < length d"
      by auto
    from put_nibble_ok [OF off(1), of "ucast n"] obtain d1 where
      d1: "put_nibble d off (ucast n) = Inr d1" "length d1 = length d"
      "\<And>j. j div 2 < length d \<Longrightarrow> nib d1 j = (if j = off then ucast n AND 0x0f else nib d j)" by blast
    from 1(1) [OF False, of d1, folded m_def] off(2) d1(2) obtain d2 where
      d2: "enc_loop d1 (off + 1) m = Inr (d2, off + 1 + ncount m)" "length d2 = length d"
      "\<And>j. j div 2 < length d \<Longrightarrow> nib d2 j =
        (if off + 1 \<le> j \<and> j < off + 1 + ncount m
         then ucast (drop_bit (4 * (j - (off + 1))) m) AND 0x0f else nib d1 j)" by auto
    have "enc_loop d off n = Inr (d2, off + ncount n)"
      using False d1(1) d2(1) nc by (subst enc_loop.simps) (simp add: m_def)
    moreover have "nib d2 j = (if off \<le> j \<and> j < off + ncount n
        then ucast (drop_bit (4 * (j - off)) n) AND 0x0f else nib d j)" if "j div 2 < length d" for j
    proof -
      have "4 * (j - off) = 4 + 4 * (j - (off + 1))" if "off + 1 \<le> j" using that by simp
      then have "drop_bit (4 * (j - (off + 1))) m = drop_bit (4 * (j - off)) n" if "off + 1 \<le> j"
        using that by (simp add: m_def drop_bit_drop_bit add.commute)
      then show ?thesis using d2(3) [OF that] d1(3) [OF that] nc by (auto simp: le_Suc_eq)
    qed
    ultimately show ?thesis using d2(2) by blast
  qed
qed

section \<open>Integers\<close>

text \<open>Bytes that encode a number, by \<open>k\<close> nibbles.\<close>

definition encodes :: "byte list \<Rightarrow> 'a :: len word \<Rightarrow> nat \<Rightarrow> bool" where
  "encodes bs n k \<longleftrightarrow> 1 \<le> k \<and> length bs = k div 2 + 1 \<and> drop_bit (4 * k) n = 0 \<and>
     unat (nib bs 0) = k - 1 \<and> (\<forall>j. 1 \<le> j \<longrightarrow> j \<le> k \<longrightarrow> nib bs j = ucast (drop_bit (4 * (j - 1)) n) AND 0x0f)"

lemma nib_take: "j div 2 < m \<Longrightarrow> nib (take m d) j = nib d j"
  by (simp add: nib_def)

lemma nib_zeros: "j div 2 < m \<Longrightarrow> nib (replicate m 0) j = 0"
  by (simp add: nib_def)

lemma unat_nibble: "k < 16 \<Longrightarrow> unat (of_nat k AND 0x0f :: byte) = k"
  unfolding mask_0f
  by (simp flip: take_bit_eq_mask) (simp add: unsigned_take_bit_eq unat_of_nat take_bit_nat_eq_self)

lemma encode_internal_ok:
  fixes n :: "'a :: len word"
  assumes "LENGTH('a) = 8 * sz" "sz \<le> 8"
  shows "\<exists>bs k. encode_internal sz n = Inr bs \<and> encodes bs n k \<and> k \<le> 2 * sz"
proof -
  define c where "c = ncount n"
  define k where "k = max 1 c"
  have c: "c \<le> 2 * sz" using ncount_bound [of "2 * sz" n] assms(1) by (simp add: c_def)
  have sz: "1 \<le> sz" using assms(1) by (cases sz) auto
  have "(1 + c) div 2 < sz + 1" using c by linarith
  then obtain d where d: "enc_loop (replicate (sz + 1) 0) 1 n = Inr (d, 1 + c)" "length d = sz + 1"
    "\<And>j. j div 2 < sz + 1 \<Longrightarrow> nib d j = (if 1 \<le> j \<and> j < 1 + c
      then ucast (drop_bit (4 * (j - 1)) n) AND 0x0f else 0)"
    using enc_loop_ok [of 1 n "replicate (sz + 1) 0"] nib_zeros [of _ "sz + 1"] by (auto simp: c_def)
  have kn: "(if 1 + c > 2 then 1 + c - 2 else 0) = k - 1" by (auto simp: k_def)
  obtain d1 where d1: "put_nibble d 0 (of_nat (k - 1)) = Inr d1" "length d1 = sz + 1"
    "\<And>j. j div 2 < sz + 1 \<Longrightarrow> nib d1 j = (if j = 0 then of_nat (k - 1) AND 0x0f else nib d j)"
    using put_nibble_ok [of 0 d "of_nat (k - 1)"] d(2) by auto
  have bs: "encode_internal sz n = Inr (take ((1 + c + 1) div 2) d1)"
    unfolding encode_internal_def d(1) bindE_simps prod.case Let_def kn d1(1) ..
  have len: "(1 + c + 1) div 2 = k div 2 + 1" by (auto simp: k_def max_def)
  have k: "k \<le> 2 * sz" "k - 1 < 16" "k div 2 + 1 \<le> sz + 1" using c sz assms(2) by (auto simp: k_def)
  have zero: "drop_bit (4 * k) n = 0"
    using ncount_drop [of n] by (cases "c = 0") (auto simp: k_def c_def max_def)
  have "encodes (take (k div 2 + 1) d1) n k"
    unfolding encodes_def
  proof (intro conjI allI impI)
    show "1 \<le> k" by (simp add: k_def)
    show "length (take (k div 2 + 1) d1) = k div 2 + 1" using k d1(2) by simp
    show "unat (nib (take (k div 2 + 1) d1) 0) = k - 1"
      using d1(3) [of 0] unat_nibble [OF k(2)] by (simp add: nib_take)
    fix j assume j: "1 \<le> j" "j \<le> k"
    then have jd: "j div 2 < k div 2 + 1" by (simp add: div_le_mono less_Suc_eq_le)
    with k(3) have "j div 2 < sz + 1" by simp
    from d1(3) [OF this] d(3) [OF this] j
    have "nib d1 j = (if j < 1 + c then ucast (drop_bit (4 * (j - 1)) n) AND 0x0f else 0)" by simp
    moreover have "drop_bit (4 * (j - 1)) n = 0" if "\<not> j < 1 + c"
      using that j ncount_drop [of n] by (cases "c = 0") (auto simp: k_def c_def max_def)
    ultimately show "nib (take (k div 2 + 1) d1) j = ucast (drop_bit (4 * (j - 1)) n) AND 0x0f"
      using nib_take [OF jd, of d1] by auto
  qed (rule zero)
  with bs k(1) len show ?thesis by auto
qed

lemma shift_in_nibble:
  fixes n :: "'a :: len word"
  assumes "8 \<le> LENGTH('a)"
  shows "push_bit 4 (drop_bit (4 * Suc k) n) OR ucast (ucast (drop_bit (4 * k) n) AND 0x0f :: byte) =
    drop_bit (4 * k) n"
proof (rule bit_word_eqI)
  fix i assume "i < LENGTH('a)"
  then show "bit (push_bit 4 (drop_bit (4 * Suc k) n) OR ucast (ucast (drop_bit (4 * k) n) AND 0x0f :: byte)) i =
      bit (drop_bit (4 * k) n) i"
    unfolding mask_0f using assms by (cases "i < 4") (auto simp: bit_simps)
qed

lemma dec_loop_ok:
  fixes n :: "'a :: len word"
  assumes "8 \<le> LENGTH('a)" "length bs = k div 2 + 1"
    and "\<forall>j. 1 \<le> j \<longrightarrow> j \<le> k \<longrightarrow> nib bs j = ucast (drop_bit (4 * (j - 1)) n) AND 0x0f" "i \<le> k"
  shows "dec_loop bs i (drop_bit (4 * i) n) = Inr n"
  using assms(4)
proof (induction i)
  case (Suc i)
  have "Suc i div 2 < length bs" using Suc.prems assms(2) div_le_mono [OF Suc.prems, of 2] by simp
  then have at: "byte_at bs (Suc i div 2) = Inr (bs ! (Suc i div 2))" by (simp add: byte_at_def)
  have nb: "nib bs (Suc i) = ucast (drop_bit (4 * i) n) AND 0x0f"
    using assms(3) Suc.prems by simp
  have "(if odd (Suc i) then ucast (bs ! (Suc i div 2) AND 0x0f)
      else ucast (drop_bit 4 (bs ! (Suc i div 2) AND 0xf0))) = (ucast (nib bs (Suc i)) :: 'a word)"
    by (simp add: nib_def)
  also note nb
  finally show ?case
    using Suc shift_in_nibble [OF assms(1), of i n] by (simp only: dec_loop.simps at bindE_simps)
qed simp

lemma ev_pullup_pos: "0 < n \<Longrightarrow> n \<le> length b \<Longrightarrow> ev_pullup (int n) b = Some (take n b)"
  by (simp add: ev_pullup_def)

lemma decode_internal_ok:
  fixes n :: "'a :: len word"
  assumes "encodes bs n k" "k \<le> maxn" "8 \<le> LENGTH('a)"
  shows "decode_internal maxn (pre @ bs @ rest) (length pre) = Inr (int (length bs), Some n)"
proof -
  have e: "1 \<le> k" "length bs = k div 2 + 1" "drop_bit (4 * k) n = 0" "unat (nib bs 0) = k - 1"
    "\<forall>j. 1 \<le> j \<longrightarrow> j \<le> k \<longrightarrow> nib bs j = ucast (drop_bit (4 * (j - 1)) n) AND 0x0f"
    using assms(1) by (simp_all add: encodes_def)
  define b where "b = pre @ bs @ rest"
  have "length pre + 1 \<le> length b" "length pre + length bs \<le> length b" "0 < length pre + length bs"
    using e(2) by (simp_all add: b_def)
  then have p1: "ev_pullup (int (length pre) + 1) b = Some (take (length pre + 1) b)"
    and p2: "ev_pullup (int (length pre) + int (length bs)) b = Some (take (length pre + length bs) b)"
    using ev_pullup_pos [of "length pre + 1" b] ev_pullup_pos [of "length pre + length bs" b]
    by (simp_all only: of_nat_add of_nat_1 add_pos_pos zero_less_one)
  have at: "byte_at (take (length pre + 1) b) (length pre) = Inr (bs ! 0)"
    using e(2) by (simp add: byte_at_def b_def nth_append)
  have nb: "unat (drop_bit 4 (bs ! 0 AND 0xf0)) + 1 = k"
    using e(1,4) by (simp add: nib_def)
  have d: "drop (length pre) (take (length pre + length bs) b) = bs" by (simp add: b_def)
  have dl: "dec_loop bs k 0 = Inr n"
    using dec_loop_ok [OF assms(3) e(2,5), of k] e(3) by simp
  have ln: "int (length b) - int (length pre) = int (length bs) + int (length rest)" by (simp add: b_def)
  show ?thesis
    unfolding b_def [symmetric] decode_internal_def ln p1 option.case at bindE_simps nb Let_def e(2) [symmetric] p2 d dl
    using e(1,2) assms(2) by simp
qed

section \<open>Tags\<close>

lemma tag_bytes_len: "drop_bit (7 * Suc k) t = 0 \<Longrightarrow> length (tag_bytes t) \<le> Suc k"
proof (induction k arbitrary: t)
  case 0
  then show ?case by (subst tag_bytes.simps) simp
next
  case (Suc k)
  have "drop_bit (7 * Suc k) (drop_bit 7 t) = 0"
    using Suc.prems by (simp only: drop_bit_drop_bit) (simp add: add.commute)
  from Suc.IH [OF this] show ?case by (subst tag_bytes.simps) (simp add: Let_def)
qed

lemma tag_bytes_5: "length (tag_bytes t) \<le> 5"
proof -
  have "drop_bit (7 * Suc 4) t = 0"
    by (rule bit_word_eqI) (auto simp: bit_simps dest: bit_imp_le_length)
  from tag_bytes_len [OF this] show ?thesis by simp
qed

lemma tag_bytes_nonempty: "tag_bytes t \<noteq> []"
  by (subst tag_bytes.simps) (simp add: Let_def)

lemma masks: "(0x7f :: 'a :: len word) = mask 7"
  by (simp add: mask_eq_exp_minus_1)

lemma bit_80: "bit (0x80 :: 'a :: len word) n \<longleftrightarrow> n = 7 \<and> 7 < LENGTH('a)"
proof -
  have "(0x80 :: 'a word) = 2 ^ 7" by simp
  then show ?thesis by (simp only: bit_exp_iff) auto
qed

lemma unat_ucast_byte: "unat (ucast (x :: byte) :: u32) = unat x"
proof -
  have "unat x < 2 ^ 8" using unsigned_less [of x, where ?'a = nat] by simp
  then show ?thesis by (simp add: unsigned_ucast_eq take_bit_nat_eq_self)
qed

lemma tag_byte:
  fixes t :: u32
  defines "l \<equiv> (ucast (t AND 0x7f) :: byte)"
  shows "ucast (l AND 0x7f) = t AND 0x7f" "ucast ((l OR 0x80) AND 0x7f) = t AND 0x7f"
    "l AND 0x80 = 0" "(l OR 0x80) AND 0x80 \<noteq> 0"
proof -
  show "ucast (l AND 0x7f) = t AND 0x7f" "ucast ((l OR 0x80) AND 0x7f) = t AND 0x7f"
    unfolding l_def masks by (rule bit_word_eqI; auto simp: bit_simps bit_80 simp del: bit_numeral_word_iff)+
  show "l AND 0x80 = 0"
    unfolding l_def masks by (rule bit_word_eqI; auto simp: bit_simps bit_80 simp del: bit_numeral_word_iff)
  have "bit ((l OR 0x80) AND 0x80) 7" by (simp add: bit_and_iff bit_or_iff bit_80)
  then show "(l OR 0x80) AND 0x80 \<noteq> 0" by auto
qed

lemma push_bit_split:
  "push_bit s (t AND mask 7) OR push_bit (s + 7) (drop_bit 7 t) = push_bit s (t :: u32)"
proof (rule bit_word_eqI)
  fix n assume "n < LENGTH(32)"
  then show "bit (push_bit s (t AND mask 7) OR push_bit (s + 7) (drop_bit 7 t)) n = bit (push_bit s t) n"
    by (cases "s + 7 \<le> n") (auto simp: bit_simps)
qed

lemma drop_bit_zeroD:
  assumes "drop_bit k (t :: u32) = 0" "k \<le> n"
  shows "\<not> bit t n"
proof -
  have "bit (drop_bit k t) (n - k) = False" unfolding assms(1) by simp
  then show ?thesis unfolding bit_drop_bit_eq using assms(2) by simp
qed

lemma drop_bit_zero_mask:
  assumes "drop_bit k (t :: u32) = 0" "k \<le> m"
  shows "t AND mask m = t"
proof (rule bit_word_eqI)
  fix n assume n: "n < LENGTH(32)"
  have "\<not> bit t n" if "m \<le> n" using drop_bit_zeroD [OF assms(1)] assms(2) that by simp
  with n show "bit (t AND mask m) n = bit t n" by (cases "n < m") (auto simp: bit_and_iff bit_mask_iff)
qed

lemma small_top:
  fixes t :: u32 and x :: byte
  assumes "s \<in> {0, 7, 14, 21, 28}" "drop_bit (32 - s) t = 0" "ucast (x AND 0x7f) = t AND 0x7f"
  shows "\<not> (s \<ge> 28 \<and> (s > 28 \<or> x AND 0x7f > 15))"
proof (cases "s = 28")
  case True
  with assms(2) have "t AND mask 7 = t" "t AND mask 4 = t" by (simp_all add: drop_bit_zero_mask)
  then have "take_bit 4 t = t AND 0x7f" by (simp add: take_bit_eq_mask masks)
  then have "unat (t AND 0x7f) = take_bit 4 (unat t)" by (simp flip: unsigned_take_bit_eq)
  then have "unat (t AND 0x7f) < 16" using take_bit_nat_less_exp [of 4 "unat t"] by simp
  moreover have "unat (x AND 0x7f) = unat (t AND 0x7f)"
    using arg_cong [OF assms(3), of unat] unfolding unat_ucast_byte .
  ultimately have "unat (x AND 0x7f) \<le> unat (15 :: byte)" by simp
  then have "x AND 0x7f \<le> 15" unfolding word_le_nat_alt .
  then show ?thesis using True by (simp add: not_less)
qed (use assms(1) in auto)

lemma tag_loop_ok:
  fixes t acc :: u32
  assumes "s \<in> {0, 7, 14, 21, 28}" "drop_bit (32 - s) t = 0" "c + length (tag_bytes t) \<le> len"
  shows "tag_loop len (tag_bytes t @ r) c s acc =
    Inr (Some (c + length (tag_bytes t), acc OR push_bit s t))"
  using assms
proof (induction t arbitrary: c s acc rule: tag_bytes.induct)
  case (1 t)
  define l where "l = (ucast (t AND 0x7f) :: byte)"
  note tb = tag_byte [of t, folded l_def]
  note small = small_top [OF 1(2,3)]
  show ?case
  proof (cases "drop_bit 7 t = 0")
    case True
    then have tbs: "tag_bytes t = [l]" by (subst tag_bytes.simps) (simp add: l_def)
    have m: "t AND 0x7f = t" unfolding masks by (rule drop_bit_zero_mask [OF True]) simp
    have c: "c < len" using 1(4) by (simp add: tbs)
    show ?thesis
      unfolding tbs append_Cons tag_loop.simps Let_def
      using c small [OF tb(1)] tb(1,3) m by (simp only: if_True if_False not_True_eq_False) simp
  next
    case False
    then have tbs: "tag_bytes t = (l OR 0x80) # tag_bytes (drop_bit 7 t)"
      by (subst tag_bytes.simps) (simp add: l_def Let_def)
    have "s \<noteq> 28"
    proof
      assume "s = 28"
      with 1(3) have d: "drop_bit 4 t = 0" by simp
      have "drop_bit 7 t = drop_bit 3 (drop_bit 4 t)" by (simp add: drop_bit_drop_bit)
      with d False show False by simp
    qed
    then have s: "s + 7 \<in> {0, 7, 14, 21, 28}" "32 - s = (32 - (s + 7)) + 7" using 1(2) by auto
    have dz: "drop_bit (32 - (s + 7)) (drop_bit 7 t) = 0"
      using 1(3) unfolding s(2) by (simp add: drop_bit_drop_bit)
    have ih: "tag_loop len (tag_bytes (drop_bit 7 t) @ r) (c + 1) (s + 7) (acc OR push_bit s (t AND 0x7f)) =
        Inr (Some (c + 1 + length (tag_bytes (drop_bit 7 t)),
          (acc OR push_bit s (t AND 0x7f)) OR push_bit (s + 7) (drop_bit 7 t)))"
    proof (rule 1(1) [OF refl refl False s(1) dz])
      show "c + 1 + length (tag_bytes (drop_bit 7 t)) \<le> len" using 1(4) by (simp add: tbs)
    qed
    have c: "c < len" using 1(4) by (simp add: tbs)
    have "(acc OR push_bit s (t AND 0x7f)) OR push_bit (s + 7) (drop_bit 7 t) = acc OR push_bit s t"
      unfolding or.assoc masks push_bit_split ..
    then show ?thesis
      unfolding tbs append_Cons tag_loop.simps Let_def
      using c small [OF tb(2)] tb(2,4) ih by (simp only: if_True if_False not_True_eq_False) simp
  qed
qed

lemma decode_tag_ok:
  "decode_tag_internal (tag_bytes t @ r) d =
    Inr (int (length (tag_bytes t)), Some t, if d then r else tag_bytes t @ r)"
proof -
  let ?b = "tag_bytes t @ r"
  have len: "0 < length ?b" "length (tag_bytes t) \<le> (if length ?b < 5 then length ?b else 5)"
    using tag_bytes_nonempty [of t] tag_bytes_5 [of t] by auto
  have p: "ev_pullup (int (if length ?b < 5 then length ?b else 5)) ?b =
      Some (tag_bytes t @ take ((if length ?b < 5 then length ?b else 5) - length (tag_bytes t)) r)"
    using ev_pullup_pos [of "if length ?b < 5 then length ?b else 5" ?b] len by simp
  have l: "tag_loop (length ?b) (tag_bytes t @ x) 0 0 0 = Inr (Some (length (tag_bytes t), t))" for x
    using tag_loop_ok [of 0 t 0 "length ?b" x 0]
    by (simp add: bit_eq_iff bit_simps)
  have "\<not> length (tag_bytes t) > 2 ^ 31 - 1" using tag_bytes_5 [of t] by simp
  then show ?thesis
    unfolding decode_tag_internal_def Let_def p option.case l bindE_simps prod.case
    by (simp add: ev_drain_def)
qed

end
