(* ===== verification/Evtag_Thms.thy ===== *)
theory Evtag_Thms
  imports Evtag_Inv
begin

text \<open>
  Properties of the tagged format: items and typed values come back as they were written,
  the length functions agree with the encoding, and what arbitrary input can do.
\<close>

section \<open>One item\<close>

definition int_bytes :: "u32 \<Rightarrow> byte list" where
  "int_bytes n = (case encode_int_internal n of Inr bs \<Rightarrow> bs | Inl _ \<Rightarrow> [])"

definition int64_bytes :: "u64 \<Rightarrow> byte list" where
  "int64_bytes n = (case encode_int64_internal n of Inr bs \<Rightarrow> bs | Inl _ \<Rightarrow> [])"

lemma int_bytes:
  "encode_int_internal n = Inr (int_bytes n)"
  "decode_int_internal (pre @ int_bytes n @ rest) (length pre) = Inr (int (length (int_bytes n)), Some n)"
  "1 \<le> length (int_bytes n) \<and> length (int_bytes n) \<le> 5"
proof -
  obtain bs k where e: "encode_int_internal n = Inr bs" "encodes bs n k" "k \<le> 8"
    using encode_internal_ok [of 4 n] by (auto simp: encode_int_internal_def)
  then show "encode_int_internal n = Inr (int_bytes n)"
    "decode_int_internal (pre @ int_bytes n @ rest) (length pre) = Inr (int (length (int_bytes n)), Some n)"
    "1 \<le> length (int_bytes n) \<and> length (int_bytes n) \<le> 5"
    using decode_internal_ok [OF e(2,3)]
    by (simp_all add: int_bytes_def decode_int_internal_def encodes_def)
qed

lemma int64_bytes:
  "encode_int64_internal n = Inr (int64_bytes n)"
  "decode_int64_internal (pre @ int64_bytes n @ rest) (length pre) = Inr (int (length (int64_bytes n)), Some n)"
  "1 \<le> length (int64_bytes n) \<and> length (int64_bytes n) \<le> 9"
proof -
  obtain bs k where e: "encode_int64_internal n = Inr bs" "encodes bs n k" "k \<le> 16"
    using encode_internal_ok [of 8 n] by (auto simp: encode_int64_internal_def)
  then show "encode_int64_internal n = Inr (int64_bytes n)"
    "decode_int64_internal (pre @ int64_bytes n @ rest) (length pre) = Inr (int (length (int64_bytes n)), Some n)"
    "1 \<le> length (int64_bytes n) \<and> length (int64_bytes n) \<le> 9"
    using decode_internal_ok [OF e(2,3)]
    by (simp_all add: int64_bytes_def decode_int64_internal_def encodes_def)
qed

lemmas int_bytes_0 = int_bytes(2) [of "[]", simplified]
lemmas int64_bytes_0 = int64_bytes(2) [of "[]", simplified]

definition item :: "u32 \<Rightarrow> byte list \<Rightarrow> byte list" where
  "item tag data = tag_bytes tag @ int_bytes (of_nat (length data)) @ data"

lemma add_tag_eq: "add_tag b t = Inr (b @ tag_bytes t)"
  using tag_bytes_5 [of t] by (simp add: add_tag_def evtag_encode_tag_def ev_add_def Let_def)

lemma encode_int_eq: "evtag_encode_int b n = Inr (b @ int_bytes n)"
  by (simp add: evtag_encode_int_def int_bytes(1) ev_add_def)

lemma unat_length: "length d < 2 ^ 31 \<Longrightarrow> unat (of_nat (length d) :: u32) = length d"
  by (simp add: unat_of_nat take_bit_nat_eq_self)

lemma sint_length: "length d < 2 ^ 31 \<Longrightarrow> sint (of_nat (length d) :: u32) = int (length d)"
  by (simp add: signed_of_nat signed_take_bit_int_eq_self)

lemma marshal_eq: "length d < 2 ^ 31 \<Longrightarrow> evtag_marshal b t d (of_nat (length d)) = Inr (b @ item t d)"
  by (simp add: evtag_marshal_def add_tag_eq encode_int_eq unat_length ev_add_def item_def)

lemma decode_int_eq: "evtag_decode_int (int_bytes n @ r) = Inr (0, Some n, r)"
  using int_bytes(3) [of n] by (simp add: evtag_decode_int_def int_bytes_0 ev_drain_def)

lemma header_eq:
  "length d < 2 ^ 31 \<Longrightarrow> evtag_unmarshal_header (item t d @ r) = Inr (int (length d), Some t, d @ r)"
  using tag_bytes_nonempty [of t]
  by (simp add: evtag_unmarshal_header_def item_def decode_tag_ok decode_int_eq unat_length sint_length)

lemma unmarshal_eq:
  assumes "length d < 2 ^ 31"
  shows "evtag_unmarshal (item t d @ r) dst = Inr (int (length d), Some t, r, dst @ d)"
  using assms by (simp add: evtag_unmarshal_def header_eq ev_pullup_def ev_drain_def ev_add_def Let_def)

section \<open>Streams of items\<close>

fun marshal_all :: "(u32 \<times> byte list) list \<Rightarrow> evbuf \<Rightarrow> evbuf res" where
  "marshal_all [] b = Inr b"
| "marshal_all ((tag, data) # items) b =
     bindE (evtag_marshal b tag data (of_nat (length data))) (marshal_all items)"

fun unmarshal_all :: "nat \<Rightarrow> evbuf \<Rightarrow> ((u32 \<times> byte list) list \<times> evbuf) res" where
  "unmarshal_all 0 b = Inr ([], b)"
| "unmarshal_all (Suc n) b =
     bindE (evtag_unmarshal b []) (\<lambda>(rc, tag, b, data).
       if rc = -1 then Inr ([], b)
       else bindE (unmarshal_all n b) (\<lambda>(items, b). Inr ((the tag, data) # items, b)))"

lemma marshal_all_eq:
  "\<forall>(t, d)\<in>set items. length d < 2 ^ 31 \<Longrightarrow>
    marshal_all items b = Inr (b @ concat (map (\<lambda>(t, d). item t d) items))"
  by (induction items arbitrary: b) (auto simp: marshal_eq)

lemma unmarshal_all_eq:
  "\<forall>(t, d)\<in>set items. length d < 2 ^ 31 \<Longrightarrow>
    unmarshal_all (length items) (concat (map (\<lambda>(t, d). item t d) items) @ rest) = Inr (items, rest)"
  by (induction items) (auto simp: unmarshal_eq)

text \<open>C30: A stream of tagged items written with \<open>evtag_marshal\<close>, whatever its tags and whatever
  bytes the items contain, is read back item by item with \<open>evtag_unmarshal\<close>, and what follows
  the stream is left in the buffer.\<close>

theorem evtag_stream_roundtrip:
  assumes "\<forall>(t, d)\<in>set items. length d < 2 ^ 31"
  shows "\<exists>b. marshal_all items [] = Inr b \<and> unmarshal_all (length items) (b @ rest) = Inr (items, rest)"
  using marshal_all_eq [OF assms, of "[]"] unmarshal_all_eq [OF assms, of rest] by simp

lemma evtag_stream_roundtrip_witness:
  "\<exists>b. marshal_all [(0xdeadbeef, [1, 2, 3]), (5, [])] [] = Inr b \<and>
     unmarshal_all 2 (b @ [9]) = Inr ([(0xdeadbeef, [1, 2, 3]), (5, [])], [9])"
proof -
  have "\<forall>(t, d)\<in>set [(0xdeadbeef, [1, 2, 3]), (5 :: u32, [] :: byte list)]. length d < 2 ^ 31" by simp
  from evtag_stream_roundtrip [OF this, of "[9]"] show ?thesis
    by (simp add: numeral_2_eq_2 del: marshal_all.simps unmarshal_all.simps)
qed

section \<open>Typed values\<close>

lemma item_int: "item t (int_bytes n) = tag_bytes t @ int_bytes (of_nat (length (int_bytes n))) @ int_bytes n"
  by (simp add: item_def)

lemma small_length: "length d \<le> 10 \<Longrightarrow> length d < 2 ^ 31"
  by simp

text \<open>C31: The typed values (32 and 64 bit integers, strings, times) are read back as written under
  the tag they were written with, and refused under any other.\<close>

theorem evtag_values_roundtrip:
  assumes "length str < 2 ^ 31 - 1" "\<And>n. mem n" "0 \<le> sec" "sec < 2 ^ 32" "0 \<le> usec" "usec < 2 ^ 32"
  shows "\<exists>b1 b2 b3 b4.
    evtag_marshal_int [] tag n = Inr b1 \<and>
    evtag_unmarshal_int (b1 @ rest) need =
      (if need = tag then Inr (int (length (int_bytes n)), Some n, rest)
       else Inr (-1, None, drop (length (tag_bytes tag)) (b1 @ rest))) \<and>
    evtag_marshal_int64 [] tag w = Inr b2 \<and>
    evtag_unmarshal_int64 (b2 @ rest) need =
      (if need = tag then Inr (int (length (int64_bytes w)), Some w, rest)
       else Inr (-1, None, drop (length (tag_bytes tag)) (b2 @ rest))) \<and>
    evtag_marshal_string [] tag str = Inr b3 \<and>
    evtag_unmarshal_string mem (b3 @ rest) need =
      (if need = tag then Inr (0, str, rest) else Inr (-1, [], str @ rest)) \<and>
    evtag_marshal_timeval [] tag sec usec = Inr b4 \<and>
    evtag_unmarshal_timeval (b4 @ rest) need =
      (if need = tag then Inr (0, Some (of_int sec, of_int usec), rest) else Inr (-1, None, rest)) \<and>
    uint (of_int sec :: u32) = sec \<and> uint (of_int usec :: u32) = usec"
proof -
  let ?b1 = "item tag (int_bytes n)" and ?b2 = "item tag (int64_bytes w)" and ?b3 = "item tag str"
  let ?ss = "int_bytes (of_int sec)" and ?us = "int_bytes (of_int usec)"
  let ?b4 = "item tag (?ss @ ?us)"
  have l: "length (int_bytes n) < 2 ^ 31" "length (int64_bytes w) < 2 ^ 31" "length (?ss @ ?us) < 2 ^ 31"
    using int_bytes(3) [of n] int64_bytes(3) [of w] int_bytes(3) [of "of_int sec"] int_bytes(3) [of "of_int usec"]
    by simp_all
  have m: "evtag_marshal_int [] tag n = Inr ?b1" "evtag_marshal_int64 [] tag w = Inr ?b2"
    "evtag_marshal_string [] tag str = Inr ?b3"
    using assms(1)
    by (simp_all add: evtag_marshal_int_def evtag_marshal_int64_def evtag_marshal_string_def
        int_bytes(1) int64_bytes(1) add_tag_eq encode_int_eq ev_add_def item_def
        marshal_eq [unfolded item_def])
  have m4: "evtag_marshal_timeval [] tag sec usec = Inr ?b4"
    using marshal_eq [OF l(3), of "[]" tag]
    by (simp add: evtag_marshal_timeval_def int_bytes(1) del: length_append of_nat_add)
  have u1: "evtag_unmarshal_int (?b1 @ rest) need =
      (if need = tag then Inr (int (length (int_bytes n)), Some n, rest)
       else Inr (-1, None, drop (length (tag_bytes tag)) (?b1 @ rest)))"
    using tag_bytes_nonempty [of tag] int_bytes(3) [of n]
    by (simp add: evtag_unmarshal_int_def item_def decode_tag_ok decode_int_eq int_bytes_0
        unat_length [OF l(1)] ev_drain_def Let_def)
  have u2: "evtag_unmarshal_int64 (?b2 @ rest) need =
      (if need = tag then Inr (int (length (int64_bytes w)), Some w, rest)
       else Inr (-1, None, drop (length (tag_bytes tag)) (?b2 @ rest)))"
    using tag_bytes_nonempty [of tag] int64_bytes(3) [of w]
    by (simp add: evtag_unmarshal_int64_def item_def decode_tag_ok decode_int_eq int64_bytes_0
        unat_length [OF l(2)] ev_drain_def Let_def)
  have sz: "to_size (int (length str) + 1) = length str + 1"
    using to_size_of_nat [of "length str + 1"] assms(1) by (simp add: add.commute)
  have u3: "evtag_unmarshal_string mem (?b3 @ rest) need =
      (if need = tag then Inr (0, str, rest) else Inr (-1, [], str @ rest))"
    using assms(1,2) sz by (simp add: evtag_unmarshal_string_def header_eq ev_remove_def Let_def)
  have d: "decode_int_internal ((?ss @ ?us) @ rest) 0 = Inr (int (length ?ss), Some (of_int sec))"
    "decode_int_internal ((?ss @ ?us) @ rest) (length ?ss) = Inr (int (length ?us), Some (of_int usec))"
    using int_bytes_0 [of "of_int sec" "?us @ rest"] int_bytes(2) [of ?ss "of_int usec" rest] by simp_all
  have ne: "int (length ?ss) \<noteq> -1" "int (length ?us) \<noteq> -1" "int (length (?ss @ ?us)) \<noteq> -1" by simp_all
  have u4: "evtag_unmarshal_timeval (?b4 @ rest) need =
      (if need = tag then Inr (0, Some (of_int sec, of_int usec), rest) else Inr (-1, None, rest))"
    using l(3) ne unfolding evtag_unmarshal_timeval_def header_eq [OF l(3)]
    using to_size_of_nat [of "length (?ss @ ?us)"]
    by (simp add: Let_def ev_drain_def d [simplified])
  have v: "uint (of_int sec :: u32) = sec" "uint (of_int usec :: u32) = usec"
    using assms(3-6) by (simp_all add: word_of_int_inverse)
  show ?thesis
    using m m4 u1 u2 u3 u4 v by blast
qed

lemma evtag_values_roundtrip_witness:
  "\<exists>b. evtag_marshal_int [] 7 0x1234 = Inr b \<and>
     evtag_unmarshal_int b 7 = Inr (int (length (int_bytes 0x1234)), Some 0x1234, [])"
  using evtag_values_roundtrip [of "[]" "\<lambda>_. True" 0 0 7 "0x1234" "[]" 7] by auto

section \<open>Looking ahead\<close>

text \<open>C32: On a buffer that starts with an item, \<open>evtag_peek\<close> gives its tag, \<open>evtag_payload_length\<close> the
  length of its data, \<open>evtag_peek_length\<close> the number of bytes of the whole item, all without
  changing the buffer, and \<open>evtag_consume\<close> removes exactly these bytes.\<close>

theorem evtag_lookahead:
  assumes "length d < 2 ^ 31" and b_def: "b = item tag d @ rest"
  shows "evtag_peek b = Inr (int (length (tag_bytes tag)), Some tag, b) \<and>
    evtag_payload_length b = Inr (0, Some (of_nat (length d))) \<and>
    evtag_peek_length b = Inr (0, Some (of_nat (length (item tag d)))) \<and>
    evtag_consume b = Inr (0, rest) \<and> drop (length (item tag d)) b = rest"
proof -
  let ?l = "int_bytes (of_nat (length d))"
  have dec: "decode_int_internal (tag_bytes tag @ ?l @ d @ rest) (length (tag_bytes tag)) =
      Inr (int (length ?l), Some (of_nat (length d)))"
    by (rule int_bytes(2))
  have "evtag_consume b = Inr (0, rest)"
    using assms(1) by (simp add: b_def evtag_consume_def header_eq ev_drain_def)
  then show ?thesis
    using tag_bytes_nonempty [of tag] dec
    by (simp add: evtag_peek_def evtag_payload_length_def evtag_peek_length_def b_def item_def
        decode_tag_ok algebra_simps)
qed

lemma evtag_lookahead_witness:
  "evtag_consume (item 3 [8, 9] @ [1]) = Inr (0, [1])"
  using evtag_lookahead [of "[8, 9]" "item 3 [8, 9] @ [1]" 3 "[1]"] by simp

section \<open>Arbitrary input\<close>

text \<open>
  The five bytes pulled up for a tag all say that it goes on, and its value so far fits: then
  the loop reads a sixth byte, which nothing has made contiguous.
\<close>

definition tag_overread :: "evbuf \<Rightarrow> bool" where
  "tag_overread b \<longleftrightarrow> 5 < length b \<and> (\<forall>i<5. b ! i AND 0x80 \<noteq> 0) \<and> b ! 4 AND 0x7f \<le> 15"

lemma tag_loop_safe: "len \<le> c + length data \<Longrightarrow> ok (tag_loop len data c s n)"
  by (induction len data c s n rule: tag_loop.induct) (auto simp: Let_def)

lemma tag_loop_fault: "tag_loop len data c s n = Inl f \<Longrightarrow> f = OutOfBounds"
  by (induction len data c s n rule: tag_loop.induct) (auto simp: Let_def split: if_splits)

lemma tag_loop_5:
  assumes "5 < len"
  shows "tag_loop len [a, b, c, d, e] 0 0 0 = Inl OutOfBounds \<longleftrightarrow>
    a AND 0x80 \<noteq> 0 \<and> b AND 0x80 \<noteq> 0 \<and> c AND 0x80 \<noteq> 0 \<and> d AND 0x80 \<noteq> 0 \<and> e AND 0x80 \<noteq> 0 \<and> e AND 0x7f \<le> 15"
  using assms by (auto simp: Let_def dest: leD intro: leI)

lemma decode_tag_fault: "decode_tag_internal b d = Inl f \<longleftrightarrow> f = OutOfBounds \<and> tag_overread b"
proof (cases "length b \<le> 5")
  case True
  then have "take (if length b < 5 then length b else 5) b = b" by simp
  moreover have "\<exists>r. tag_loop (length b) b 0 0 0 = Inr r"
    using tag_loop_safe [of "length b" 0 b 0 0] by (auto simp: ok_def)
  ultimately have "\<exists>r. decode_tag_internal b d = Inr r"
    by (auto simp: decode_tag_internal_def ev_pullup_def Let_def split: option.splits)
  with True show ?thesis by (auto simp: tag_overread_def)
next
  case False
  then have len: "5 < length b" by simp
  then obtain x1 x2 x3 x4 x5 r where b: "b = x1 # x2 # x3 # x4 # x5 # r"
    by (auto simp: less_eq_Suc_le Suc_le_length_iff numeral_eq_Suc)
  have p: "ev_pullup (int (if length b < 5 then length b else 5)) b = Some [x1, x2, x3, x4, x5]"
    using len by (simp add: ev_pullup_def b)
  have "decode_tag_internal b d = Inl f \<longleftrightarrow> tag_loop (length b) [x1, x2, x3, x4, x5] 0 0 0 = Inl f"
    unfolding decode_tag_internal_def Let_def p option.case
    by (auto simp: bindE_def split: sum.splits option.splits prod.splits)
  moreover have "tag_overread b \<longleftrightarrow> x1 AND 0x80 \<noteq> 0 \<and> x2 AND 0x80 \<noteq> 0 \<and> x3 AND 0x80 \<noteq> 0 \<and>
      x4 AND 0x80 \<noteq> 0 \<and> x5 AND 0x80 \<noteq> 0 \<and> x5 AND 0x7f \<le> 15"
    using len by (auto simp: tag_overread_def b numeral_eq_Suc All_less_Suc2)
  ultimately show ?thesis
    using tag_loop_5 [OF len, of x1 x2 x3 x4 x5] tag_loop_fault by blast
qed

lemma dec_loop_safe: "k div 2 < length d \<Longrightarrow> ok (dec_loop d k n)"
proof (induction k arbitrary: n)
  case (Suc k)
  have "k div 2 \<le> Suc k div 2" by (rule div_le_mono) simp
  with Suc show ?case by (simp add: byte_at_def)
qed simp

lemma decode_internal_cases:
  fixes b :: evbuf
  shows "decode_internal m b off = Inr (-1, None :: 'a :: len word option) \<or>
    (\<exists>l v. decode_internal m b off = Inr (int l, Some (v :: 'a word)) \<and> 1 \<le> l \<and> off + l \<le> length b \<and> l \<le> 9)"
proof (cases "int (length b) - int off \<le> 0")
  case False
  then have off: "off + 1 \<le> length b" by linarith
  have p: "ev_pullup (int off + 1) b = Some (take (off + 1) b)"
    using ev_pullup_pos [of "off + 1" b] off by (simp add: add.commute)
  have at: "byte_at (take (off + 1) b) off = Inr (b ! off)"
    using off by (simp add: byte_at_def)
  define n where "n = unat (drop_bit 4 (b ! off AND 0xf0)) + 1"
  define l where "l = n div 2 + 1"
  have "unat (b ! off AND 0xf0) < 16 * 16"
    using unsigned_less [of "b ! off AND 0xf0", where ?'a = nat] by simp
  then have "unat (drop_bit 4 (b ! off AND 0xf0)) < 16"
    by (simp only: unat_drop_bit_eq) (simp add: drop_bit_eq_div)
  then have n: "n \<le> 16" "l \<le> 9" by (auto simp: n_def l_def)
  show ?thesis
  proof (cases "n > m \<or> int l > int (length b) - int off")
    case True
    then show ?thesis
      using False unfolding decode_internal_def p option.case at bindE_simps Let_def n_def [symmetric] l_def [symmetric]
      by simp
  next
    case l: False
    have p2: "ev_pullup (int off + int l) b = Some (take (off + l) b)"
      unfolding of_nat_add [symmetric] by (rule ev_pullup_pos) (use l in \<open>simp_all add: l_def\<close>)
    have "n div 2 < length (drop off (take (off + l) b))" using l by (simp add: l_def)
    from dec_loop_safe [OF this, of "0 :: 'a word"] obtain w :: "'a word"
      where "dec_loop (drop off (take (off + l) b)) n 0 = Inr w" by (auto simp: ok_def)
    then have "decode_internal m b off = Inr (int l, Some w)"
      using False l unfolding decode_internal_def p option.case at bindE_simps Let_def n_def [symmetric] l_def [symmetric] p2
      by simp
    moreover have "1 \<le> l" "off + l \<le> length b" using l by (auto simp: l_def)
    ultimately show ?thesis using n by blast
  qed
qed (simp add: decode_internal_def)

lemma decode_int_cases:
  "evtag_decode_int b = Inr (-1, None, b) \<or>
    (\<exists>v k. evtag_decode_int b = Inr (0, Some v, drop k b) \<and> 1 \<le> k \<and> k \<le> length b)"
  using decode_internal_cases [of 8 b 0, where ?'a = 32]
  by (auto simp: evtag_decode_int_def decode_int_internal_def ev_drain_def)

lemma decode_tag_cases:
  assumes "decode_tag_internal b True = Inr (rc, tag, b')"
  shows "rc = -1 \<and> b' = b \<or> rc \<noteq> -1 \<and> (\<exists>t k. tag = Some t \<and> b' = drop k b)"
proof (cases "ev_pullup (int (if length b < 5 then length b else 5)) b")
  case (Some d)
  then show ?thesis
  proof (cases "tag_loop (length b) d 0 0 0")
    case (Inr r)
    with Some assms show ?thesis
      unfolding decode_tag_internal_def Let_def
      by (cases r) (auto simp: ev_drain_def split: if_splits)
  qed (use Some assms in \<open>simp add: decode_tag_internal_def Let_def\<close>)
qed (use assms in \<open>simp add: decode_tag_internal_def Let_def\<close>)

lemma sint_of_nat: "n < 2 ^ 31 \<Longrightarrow> sint (of_nat n :: u32) = int n"
  by (simp add: signed_of_nat signed_take_bit_int_eq_self)

lemma sint_small: "unat (v :: u32) < 2 ^ 31 \<Longrightarrow> sint v = int (unat v)"
  using sint_of_nat [of "unat v"] by simp

lemma header_cases:
  assumes "length b < 2 ^ 31" "evtag_unmarshal_header b = Inr (rc, tag, b')"
  shows "(\<exists>k. b' = drop k b) \<and> (rc = -1 \<or> (\<exists>n. rc = int n \<and> n \<le> length b'))"
proof -
  from assms(2) obtain rc1 tag1 b1 where d: "decode_tag_internal b True = Inr (rc1, tag1, b1)"
    by (auto simp: evtag_unmarshal_header_def bindE_eq_Inr)
  show ?thesis
  proof (cases "rc1 = -1")
    case True
    with d decode_tag_cases [OF d] assms(2) show ?thesis
      by (auto simp: evtag_unmarshal_header_def intro: exI [of _ 0])
  next
    case False
    with decode_tag_cases [OF d] obtain k1 where b1: "b1 = drop k1 b" by auto
    from decode_int_cases [of b1] show ?thesis
    proof (elim disjE exE conjE)
      assume "evtag_decode_int b1 = Inr (-1, None, b1)"
      with False d b1 assms(2) show ?thesis by (auto simp: evtag_unmarshal_header_def)
    next
      fix v k assume v: "evtag_decode_int b1 = Inr (0, Some v, drop k b1)"
      have len: "length (drop k b1) < 2 ^ 31" using assms(1) b1 by simp
      have eq: "evtag_unmarshal_header b =
          (if length (drop k b1) < unat v then Inr (-1, tag1, drop k b1) else Inr (sint v, tag1, drop k b1))"
        using False d v by (simp add: evtag_unmarshal_header_def)
      have b': "b' = drop (k + k1) b" using eq assms(2) b1 by (auto split: if_splits)
      show ?thesis
      proof (cases "length (drop k b1) < unat v")
        case True
        then have "rc = -1" using eq assms(2) by auto
        then show ?thesis using b' by blast
      next
        case False
        then have "sint v = int (unat v)" using len by (intro sint_small) linarith
        moreover have "rc = sint v" "unat v \<le> length b'" using eq assms(2) False by auto
        ultimately show ?thesis using b' by blast
      qed
    qed
  qed
qed

text \<open>C33: Whatever bytes arrive, unmarshalling an item either takes a contiguous part of the input
  over as its data, or reports an error and delivers nothing; in both cases only a prefix of
  the buffer is used up. The one exception is a tag of six or more bytes, where the decoder
  reads a byte it has not made contiguous.\<close>

theorem evtag_any_input:
  assumes "length src < 2 ^ 31"
  shows "(evtag_unmarshal src dst = Inl f \<longleftrightarrow> f = OutOfBounds \<and> tag_overread src) \<and>
    (\<forall>rc tag src' dst'. evtag_unmarshal src dst = Inr (rc, tag, src', dst') \<longrightarrow>
      (\<exists>k. src' = drop k src) \<and>
      (rc = -1 \<and> dst' = dst \<or> (\<exists>p d. dst' = dst @ d \<and> rc = int (length d) \<and> src = p @ d @ src')))"
proof (cases "tag_overread src")
  case True
  then have "decode_tag_internal src True = Inl OutOfBounds" by (simp add: decode_tag_fault)
  with True show ?thesis by (auto simp: evtag_unmarshal_def evtag_unmarshal_header_def)
next
  case False
  then obtain rc1 tag1 b1 where "decode_tag_internal src True = Inr (rc1, tag1, b1)"
    using decode_tag_fault by (metis sum.exhaust prod_cases3)
  then have "\<exists>rc tag b. evtag_unmarshal_header src = Inr (rc, tag, b)"
    using decode_int_cases [of b1] by (cases "rc1 = -1") (auto simp: evtag_unmarshal_header_def)
  then obtain rc tag b where h: "evtag_unmarshal_header src = Inr (rc, tag, b)" by blast
  from header_cases [OF assms h] obtain k where k: "b = drop k src"
    and rc: "rc = -1 \<or> (\<exists>n. rc = int n \<and> n \<le> length b)" by blast
  show ?thesis
  proof (cases "rc = -1")
    case True
    with h False k show ?thesis by (auto simp: evtag_unmarshal_def)
  next
    case rc1: False
    with rc obtain n where n: "rc = int n" "n \<le> length b" by blast
    have "length b < 2 ^ 31" using assms k by simp
    then have sz: "to_size rc = n" using n by simp
    have "(case ev_pullup rc b of None \<Rightarrow> [] | Some p \<Rightarrow> p) = take n b"
      using n by (simp add: ev_pullup_def Let_def)
    then have eq: "evtag_unmarshal src dst = Inr (rc, tag, drop n b, dst @ take n b)"
      using rc1 h n(2) sz by (simp add: evtag_unmarshal_def ev_drain_def ev_add_def Let_def)
    have "src = take k src @ take n b @ drop n b" by (simp only: append_take_drop_id k)
    then have split: "src = take k src @ take n b @ drop n b" .
    show ?thesis
    proof (intro conjI allI impI)
      show "evtag_unmarshal src dst = Inl f \<longleftrightarrow> f = OutOfBounds \<and> tag_overread src"
        using eq False by simp
      fix rc' tag' src' dst' assume "evtag_unmarshal src dst = Inr (rc', tag', src', dst')"
      with eq have r: "rc' = rc" "src' = drop n b" "dst' = dst @ take n b" by auto
      then show "\<exists>k. src' = drop k src" using k by auto
      show "rc' = -1 \<and> dst' = dst \<or> (\<exists>p d. dst' = dst @ d \<and> rc' = int (length d) \<and> src = p @ d @ src')"
        using r n split by (intro disjI2 exI [of _ "take k src"] exI [of _ "take n b"]) simp
    qed
  qed
qed

lemma evtag_any_input_witness:
  "evtag_unmarshal [0x80, 0x80, 0x80, 0x80, 0x80, 1] [] = Inl OutOfBounds"
proof -
  have "length [0x80, 0x80, 0x80, 0x80, 0x80, 1 :: byte] < 2 ^ 31" by simp
  note spec = conjunct1 [OF evtag_any_input [OF this, of "[]" OutOfBounds]]
  have "i = 0 \<or> i = 1 \<or> i = 2 \<or> i = 3 \<or> i = 4" if "i < 5" for i :: nat using that by linarith
  then have "tag_overread [0x80, 0x80, 0x80, 0x80, 0x80, 1]" by (force simp: tag_overread_def)
  with spec show ?thesis by simp
qed

text \<open>The comment at the head of \<open>event_tagging.c\<close> gives the encoding of the tag \<open>0x166\<close> as
  \<open>82 66\<close>, the high group first; the code puts the low group first.\<close>

lemma tag_order: "tag_bytes 0x166 = [0xE6, 0x02]"
  by (subst tag_bytes.simps, simp add: Let_def, subst tag_bytes.simps, simp add: Let_def)

end
