(* ===== verification/Evbuf_Chain.thy ===== *)
theory Evbuf_Chain
  imports Evbuf_Spec
begin

text \<open>
  The data model of libevent's \<open>buffer.c\<close> and \<open>evbuffer-internal.h\<close>: a buffer is a linked list
  of chains, each a block of memory of which the bytes from \<open>misalign\<close> on, \<open>off\<close> of them, are
  data. The list \<open>first \<dots> next \<dots>\<close> is a HOL list. A pointer to a \<open>next\<close> field, which is what
  \<open>last_with_datap\<close> is, is the number of chains before the place it designates: 0 for
  \<open>&buf->first\<close>, \<open>Suc k\<close> for the \<open>next\<close> field of chain \<open>k\<close>, so that it designates chain \<open>n\<close> when
  there is one and holds NULL when \<open>n\<close> is the number of chains. The pointer \<open>last\<close> is kept as
  one more than the position of its chain, 0 for NULL.

  Memory comes from \<open>malloc\<close>, a parameter: the block it gives for a size, or NULL. Sizes are
  naturals; the additions that the source does not guard wrap at \<open>2 ^ 64\<close>.
\<close>

section \<open>Sizes, memory\<close>

definition SIZE_MAX :: nat where "SIZE_MAX = 2 ^ 64 - 1"
definition CHAIN_MAX :: nat where "CHAIN_MAX = 2 ^ 63 - 1"
definition CHAIN_SIZE :: nat where "CHAIN_SIZE = 48"
definition MIN_BUFFER_SIZE :: nat where "MIN_BUFFER_SIZE = 1024"

lemmas size_consts = SIZE_MAX_def CHAIN_MAX_def CHAIN_SIZE_def MIN_BUFFER_SIZE_def

definition szadd :: "nat \<Rightarrow> nat \<Rightarrow> nat" where
  "szadd a b = (a + b) mod 2 ^ 64"

lemma szadd_id: "a + b < 2 ^ 64 \<Longrightarrow> szadd a b = a + b"
  by (simp add: szadd_def)

lemma szadd_0 [simp]: "a < 2 ^ 64 \<Longrightarrow> szadd a 0 = a" "a < 2 ^ 64 \<Longrightarrow> szadd 0 a = a"
  by (simp_all add: szadd_def)

type_synonym malloc = "nat \<Rightarrow> byte list option"

text \<open>What the C library promises: a block has the size asked for.\<close>

definition malloc_sized :: "malloc \<Rightarrow> bool" where
  "malloc_sized m \<longleftrightarrow> (\<forall>n bs. m n = Some bs \<longrightarrow> length bs = n)"

lemma malloc_sizedD: "malloc_sized m \<Longrightarrow> m n = Some bs \<Longrightarrow> length bs = n"
  by (simp add: malloc_sized_def)

text \<open>\<open>memcpy\<close> into and out of a block, with the extent checked.\<close>

definition poke :: "nat \<Rightarrow> byte list \<Rightarrow> byte list \<Rightarrow> byte list res" where
  "poke p bs m = (if p + length bs \<le> length m
                  then Inr (take p m @ bs @ drop (p + length bs) m) else Inl OutOfBounds)"

definition peek :: "nat \<Rightarrow> nat \<Rightarrow> byte list \<Rightarrow> byte list res" where
  "peek p n m = (if p + n \<le> length m then Inr (take n (drop p m)) else Inl OutOfBounds)"

section \<open>Chains and buffers\<close>

record evbuffer_chain =
  buffer_len :: nat
  misalign :: nat
  off :: nat
  flags :: u32
  mem :: "byte list"

definition EVBUFFER_REFERENCE :: u32 where "EVBUFFER_REFERENCE = 0x0004"
definition EVBUFFER_IMMUTABLE :: u32 where "EVBUFFER_IMMUTABLE = 0x0008"
definition EVBUFFER_MEM_PINNED_R :: u32 where "EVBUFFER_MEM_PINNED_R = 0x0010"
definition EVBUFFER_MEM_PINNED_W :: u32 where "EVBUFFER_MEM_PINNED_W = 0x0020"
definition EVBUFFER_MEM_PINNED_ANY :: u32 where
  "EVBUFFER_MEM_PINNED_ANY = EVBUFFER_MEM_PINNED_R OR EVBUFFER_MEM_PINNED_W"

definition IMMUTABLE :: "evbuffer_chain \<Rightarrow> bool" where
  "IMMUTABLE c \<longleftrightarrow> flags c AND EVBUFFER_IMMUTABLE \<noteq> 0"
definition CHAIN_PINNED :: "evbuffer_chain \<Rightarrow> bool" where
  "CHAIN_PINNED c \<longleftrightarrow> flags c AND EVBUFFER_MEM_PINNED_ANY \<noteq> 0"
definition CHAIN_PINNED_R :: "evbuffer_chain \<Rightarrow> bool" where
  "CHAIN_PINNED_R c \<longleftrightarrow> flags c AND EVBUFFER_MEM_PINNED_R \<noteq> 0"

definition CHAIN_SPACE_LEN :: "evbuffer_chain \<Rightarrow> nat" where
  "CHAIN_SPACE_LEN c = (if IMMUTABLE c then 0 else buffer_len c - (misalign c + off c))"

text \<open>
  The callbacks of a buffer are code of the client. The model records each call with what it
  is told; a callback does not touch the buffer.
\<close>

record cb_entry =
  cb_id :: nat
  cb_flags :: u32

datatype cb_call =
    Cb nat (orig_size: nat) (n_added: nat) (n_deleted: nat)
  | CbObsolete nat (orig_size: nat) (new_size: nat)

record evbuffer =
  chains :: "evbuffer_chain list"
  last_at :: nat
  last_with_datap :: nat
  total_len :: nat
  n_add_for_cb :: nat
  n_del_for_cb :: nat
  freeze_start :: bool
  freeze_end :: bool
  deferred_cbs :: bool
  scheduled :: bool
  refcnt :: nat
  callbacks :: "cb_entry list"
  told :: "cb_call list"

definition evbuffer_new :: evbuffer where
  "evbuffer_new = \<lparr>chains = [], last_at = 0, last_with_datap = 0, total_len = 0,
     n_add_for_cb = 0, n_del_for_cb = 0, freeze_start = False, freeze_end = False,
     deferred_cbs = False, scheduled = False, refcnt = 1, callbacks = [], told = []\<rparr>"

definition evbuffer_get_length :: "evbuffer \<Rightarrow> nat" where
  "evbuffer_get_length b = total_len b"

definition evbuffer_get_contiguous_space :: "evbuffer \<Rightarrow> nat" where
  "evbuffer_get_contiguous_space b = (case chains b of [] \<Rightarrow> 0 | c # _ \<Rightarrow> off c)"

definition evbuffer_freeze :: "evbuffer \<Rightarrow> bool \<Rightarrow> evbuffer" where
  "evbuffer_freeze b start =
     (if start then b\<lparr>freeze_start := True\<rparr> else b\<lparr>freeze_end := True\<rparr>)"

definition evbuffer_unfreeze :: "evbuffer \<Rightarrow> bool \<Rightarrow> evbuffer" where
  "evbuffer_unfreeze b start =
     (if start then b\<lparr>freeze_start := False\<rparr> else b\<lparr>freeze_end := False\<rparr>)"

section \<open>Callbacks\<close>

definition EVBUFFER_CB_ENABLED :: u32 where "EVBUFFER_CB_ENABLED = 1"
definition EVBUFFER_CB_NODEFER :: u32 where "EVBUFFER_CB_NODEFER = 2"
definition EVBUFFER_CB_OBSOLETE :: u32 where "EVBUFFER_CB_OBSOLETE = 0x00040000"

fun run_cbs :: "u32 \<Rightarrow> u32 \<Rightarrow> nat \<Rightarrow> nat \<Rightarrow> nat \<Rightarrow> nat \<Rightarrow> cb_entry list \<Rightarrow> cb_call list" where
  "run_cbs msk val orig added deleted new [] = []"
| "run_cbs msk val orig added deleted new (e # es) =
     (if cb_flags e AND msk \<noteq> val then []
      else if cb_flags e AND EVBUFFER_CB_OBSOLETE \<noteq> 0 then [CbObsolete (cb_id e) orig new]
      else [Cb (cb_id e) orig added deleted])
     @ run_cbs msk val orig added deleted new es"

definition evbuffer_run_callbacks :: "evbuffer \<Rightarrow> bool \<Rightarrow> evbuffer" where
  "evbuffer_run_callbacks b running_deferred =
    (let (msk, val, clear) =
       (if running_deferred
        then (EVBUFFER_CB_NODEFER OR EVBUFFER_CB_ENABLED, EVBUFFER_CB_ENABLED, True)
        else if deferred_cbs b
        then (EVBUFFER_CB_NODEFER OR EVBUFFER_CB_ENABLED,
              EVBUFFER_CB_NODEFER OR EVBUFFER_CB_ENABLED, False)
        else (EVBUFFER_CB_ENABLED, EVBUFFER_CB_ENABLED, True)) in
     if callbacks b = [] then b\<lparr>n_add_for_cb := 0, n_del_for_cb := 0\<rparr>
     else if n_add_for_cb b = 0 \<and> n_del_for_cb b = 0 then b
     else
       let new_size = total_len b;
           added = n_add_for_cb b; deleted = n_del_for_cb b;
           orig = nat ((int new_size + int deleted - int added) mod 2 ^ 64);
           b = (if clear then b\<lparr>n_add_for_cb := 0, n_del_for_cb := 0\<rparr> else b) in
       b\<lparr>told := told b @ run_cbs msk val orig added deleted new_size (callbacks b)\<rparr>)"

text \<open>
  \<open>event_deferred_cb_schedule_\<close> returns true when the deferred callback was not yet in the
  queue of the event base; the buffer is then kept alive by a reference.
\<close>

definition evbuffer_invoke_callbacks :: "evbuffer \<Rightarrow> evbuffer" where
  "evbuffer_invoke_callbacks b =
    (if callbacks b = [] then b\<lparr>n_add_for_cb := 0, n_del_for_cb := 0\<rparr>
     else let b = (if deferred_cbs b \<and> \<not> scheduled b
                   then b\<lparr>scheduled := True, refcnt := Suc (refcnt b)\<rparr> else b) in
          evbuffer_run_callbacks b False)"

definition EVBUFFER_CB_INTERNAL_FLAGS :: u32 where "EVBUFFER_CB_INTERNAL_FLAGS = 0xffff0000"
definition EVBUFFER_CB_USER_FLAGS :: u32 where "EVBUFFER_CB_USER_FLAGS = 0xffff"

text \<open>An allocation of a callback entry may fail; \<open>alloc\<close> says whether it does.\<close>

definition evbuffer_add_cb :: "bool \<Rightarrow> evbuffer \<Rightarrow> nat \<Rightarrow> cb_entry option \<times> evbuffer" where
  "evbuffer_add_cb alloc b i =
     (if \<not> alloc then (None, b)
      else let e = \<lparr>cb_id = i, cb_flags = EVBUFFER_CB_ENABLED\<rparr> in
           (Some e, b\<lparr>callbacks := e # callbacks b\<rparr>))"

definition evbuffer_setcb :: "bool \<Rightarrow> evbuffer \<Rightarrow> nat option \<Rightarrow> int \<times> evbuffer" where
  "evbuffer_setcb alloc b cb =
    (let b = b\<lparr>callbacks := []\<rparr> in
     case cb of None \<Rightarrow> (0, b)
     | Some i \<Rightarrow>
         (case evbuffer_add_cb alloc b i of
            (None, b) \<Rightarrow> (-1, b)
          | (Some e, b) \<Rightarrow>
              (0, b\<lparr>callbacks :=
                   e\<lparr>cb_flags := cb_flags e OR EVBUFFER_CB_OBSOLETE\<rparr> # tl (callbacks b)\<rparr>)))"

fun remove_cb :: "nat \<Rightarrow> cb_entry list \<Rightarrow> int \<times> cb_entry list" where
  "remove_cb i [] = (-1, [])"
| "remove_cb i (e # es) =
     (if cb_id e = i then (0, es) else let (r, es') = remove_cb i es in (r, e # es'))"

definition evbuffer_remove_cb :: "evbuffer \<Rightarrow> nat \<Rightarrow> int \<times> evbuffer" where
  "evbuffer_remove_cb b i =
     (let (r, es) = remove_cb i (callbacks b) in (r, b\<lparr>callbacks := es\<rparr>))"

definition evbuffer_remove_cb_entry :: "evbuffer \<Rightarrow> nat \<Rightarrow> evbuffer" where
  "evbuffer_remove_cb_entry b k =
     b\<lparr>callbacks := take k (callbacks b) @ drop (Suc k) (callbacks b)\<rparr>"

text \<open>The flags of the entry at position \<open>k\<close>; the user's bits only.\<close>

definition evbuffer_cb_set_flags :: "evbuffer \<Rightarrow> nat \<Rightarrow> u32 \<Rightarrow> evbuffer" where
  "evbuffer_cb_set_flags b k fl =
     (let fl = fl AND NOT EVBUFFER_CB_INTERNAL_FLAGS; e = callbacks b ! k in
      b\<lparr>callbacks := (callbacks b)[k := e\<lparr>cb_flags := cb_flags e OR fl\<rparr>]\<rparr>)"

definition evbuffer_cb_clear_flags :: "evbuffer \<Rightarrow> nat \<Rightarrow> u32 \<Rightarrow> evbuffer" where
  "evbuffer_cb_clear_flags b k fl =
     (let fl = fl AND NOT EVBUFFER_CB_INTERNAL_FLAGS; e = callbacks b ! k in
      b\<lparr>callbacks := (callbacks b)[k := e\<lparr>cb_flags := cb_flags e AND NOT fl\<rparr>]\<rparr>)"

definition evbuffer_defer_callbacks :: "evbuffer \<Rightarrow> evbuffer" where
  "evbuffer_defer_callbacks b = b\<lparr>deferred_cbs := True\<rparr>"

text \<open>
  The event loop takes the deferred callback off its queue and calls it: the callbacks that
  may be deferred run, and the reference taken when it was scheduled is dropped. \<open>None\<close> is
  the buffer freed.
\<close>

definition evbuffer_decref_and_unlock :: "evbuffer \<Rightarrow> evbuffer option res" where
  "evbuffer_decref_and_unlock b =
     (if refcnt b = 0 then Inl AssertFailed
      else if refcnt b - 1 > 0 then Inr (Some (b\<lparr>refcnt := refcnt b - 1\<rparr>))
      else Inr None)"

definition evbuffer_free :: "evbuffer \<Rightarrow> evbuffer option res" where
  "evbuffer_free b = evbuffer_decref_and_unlock b"

definition evbuffer_deferred_callback :: "evbuffer \<Rightarrow> evbuffer option res" where
  "evbuffer_deferred_callback b =
     evbuffer_decref_and_unlock (evbuffer_run_callbacks (b\<lparr>scheduled := False\<rparr>) True)"

end
