(* ===== verification/Evbuf_Ops.thy ===== *)
theory Evbuf_Ops
  imports Evbuf_Chain
begin

text \<open>
  The operations of \<open>buffer.c\<close> on one buffer: allocation and insertion of chains, adding at both
  ends. An operation gives the code's return value and the buffer, or the fault where the code
  would leave its memory or fail an \<open>EVUTIL_ASSERT\<close>.
\<close>

section \<open>Chains\<close>

text \<open>The allocation size: the least doubling of \<open>MIN_BUFFER_SIZE\<close> that holds the request.\<close>

function grow :: "nat \<Rightarrow> nat \<Rightarrow> nat" where
  "grow to_alloc sz = (if 0 < to_alloc \<and> to_alloc < sz then grow (2 * to_alloc) sz
                         else to_alloc)"
  by auto
termination
  by (relation "measure (\<lambda>(a, s). s - a)") auto

declare grow.simps [simp del]

definition evbuffer_chain_new :: "malloc \<Rightarrow> nat \<Rightarrow> evbuffer_chain option" where
  "evbuffer_chain_new m sz =
    (if sz > CHAIN_MAX - CHAIN_SIZE then None
     else
       let sz = sz + CHAIN_SIZE;
           to_alloc = (if sz < CHAIN_MAX div 2 then grow MIN_BUFFER_SIZE sz else sz) in
       case m to_alloc of
         None \<Rightarrow> None
       | Some block \<Rightarrow>
           Some \<lparr>buffer_len = to_alloc - CHAIN_SIZE, misalign = 0, off = 0, flags = 0,
                 mem = drop CHAIN_SIZE block\<rparr>)"

text \<open>The \<open>next\<close> field designated after skipping the chains that hold data or are pinned.\<close>

definition evbuffer_free_trailing_empty_chains :: "evbuffer \<Rightarrow> (nat \<times> evbuffer) res" where
  "evbuffer_free_trailing_empty_chains b =
    (let ch = last_with_datap b
         + length (takeWhile (\<lambda>c. off c \<noteq> 0 \<or> CHAIN_PINNED c)
                     (drop (last_with_datap b) (chains b))) in
     if ch < length (chains b)
     then if list_all (\<lambda>c. off c = 0) (drop ch (chains b))
          then Inr (ch, b\<lparr>chains := take ch (chains b)\<rparr>)
          else Inl AssertFailed
     else Inr (ch, b))"

definition evbuffer_chain_insert :: "evbuffer \<Rightarrow> evbuffer_chain \<Rightarrow> evbuffer res" where
  "evbuffer_chain_insert b c =
     bindE
       (if length (chains b) \<le> last_with_datap b then
          if last_with_datap b = 0 \<and> chains b = []
          then Inr (b\<lparr>chains := [c], last_at := 1\<rparr>)
          else Inl AssertFailed
        else
          bindE (evbuffer_free_trailing_empty_chains b) (\<lambda>(chp, b).
          let b = b\<lparr>chains := take chp (chains b) @ [c]\<rparr>;
              b = (if off c \<noteq> 0 then b\<lparr>last_with_datap := chp\<rparr> else b) in
          Inr (b\<lparr>last_at := Suc chp\<rparr>)))
       (\<lambda>b. Inr (b\<lparr>total_len := szadd (total_len b) (off c)\<rparr>))"

text \<open>The chain inserted is the one \<open>last\<close> points at.\<close>

definition evbuffer_chain_insert_new :: "malloc \<Rightarrow> evbuffer \<Rightarrow> nat \<Rightarrow> (nat option \<times> evbuffer) res" where
  "evbuffer_chain_insert_new m b datlen =
     (case evbuffer_chain_new m datlen of
        None \<Rightarrow> Inr (None, b)
      | Some c \<Rightarrow> bindE (evbuffer_chain_insert b c) (\<lambda>b. Inr (Some (last_at b - 1), b)))"

definition evbuffer_chain_align :: "evbuffer_chain \<Rightarrow> evbuffer_chain res" where
  "evbuffer_chain_align c =
     (if IMMUTABLE c \<or> CHAIN_PINNED c then Inl AssertFailed
      else bindE (peek (misalign c) (off c) (mem c)) (\<lambda>bs.
           bindE (poke 0 bs (mem c)) (\<lambda>mm.
           Inr (c\<lparr>mem := mm, misalign := 0\<rparr>))))"

definition MAX_TO_REALIGN_IN_EXPAND :: nat where "MAX_TO_REALIGN_IN_EXPAND = 2048"
definition MAX_TO_COPY_IN_EXPAND :: nat where "MAX_TO_COPY_IN_EXPAND = 4096"
definition EVBUFFER_CHAIN_MAX_AUTO_SIZE :: nat where "EVBUFFER_CHAIN_MAX_AUTO_SIZE = 4096"

definition evbuffer_chain_should_realign :: "evbuffer_chain \<Rightarrow> nat \<Rightarrow> bool" where
  "evbuffer_chain_should_realign c datalen \<longleftrightarrow>
     buffer_len c - off c \<ge> datalen \<and> off c < buffer_len c div 2
     \<and> off c \<le> MAX_TO_REALIGN_IN_EXPAND"

text \<open>\<open>memcpy\<close> to the free space of a chain, and its \<open>off\<close> moved over the bytes.\<close>

definition chain_append :: "evbuffer_chain \<Rightarrow> byte list \<Rightarrow> evbuffer_chain res" where
  "chain_append c bs =
     bindE (poke (misalign c + off c) bs (mem c)) (\<lambda>mm.
     Inr (c\<lparr>mem := mm, off := off c + length bs\<rparr>))"

definition count_added :: "nat \<Rightarrow> evbuffer \<Rightarrow> evbuffer" where
  "count_added n b = b\<lparr>n_add_for_cb := szadd (n_add_for_cb b) n\<rparr>"

definition count_deleted :: "nat \<Rightarrow> evbuffer \<Rightarrow> evbuffer" where
  "count_deleted n b = b\<lparr>n_del_for_cb := szadd (n_del_for_cb b) n\<rparr>"

section \<open>Adding at the end\<close>

text \<open>\<open>evbuffer_add\<close> once it has the chain to start with, at position \<open>k\<close>.\<close>

definition add_to :: "malloc \<Rightarrow> evbuffer \<Rightarrow> nat \<Rightarrow> byte list \<Rightarrow> (int \<times> evbuffer) res" where
  "add_to m b k data =
    (let c = chains b ! k; datlen = length data;
         out = (\<lambda>c'. Inr (0, evbuffer_invoke_callbacks (count_added datlen
                   (b\<lparr>chains := (chains b)[k := c'],
                      total_len := total_len b + datlen\<rparr>))));
         more = (\<lambda>remain.
           let to_alloc = buffer_len c;
               to_alloc = (if to_alloc \<le> EVBUFFER_CHAIN_MAX_AUTO_SIZE div 2
                           then 2 * to_alloc else to_alloc);
               to_alloc = (if datlen > to_alloc then datlen else to_alloc) in
           case evbuffer_chain_new m to_alloc of
             None \<Rightarrow> Inr (-1, b)
           | Some tmp \<Rightarrow>
               bindE (if remain = 0 then Inr b
                      else bindE (chain_append c (take remain data)) (\<lambda>c'.
                           Inr (count_added remain (b\<lparr>chains := (chains b)[k := c'],
                                  total_len := total_len b + remain\<rparr>)))) (\<lambda>b.
               bindE (poke 0 (drop remain data) (mem tmp)) (\<lambda>mm.
               bindE (evbuffer_chain_insert b (tmp\<lparr>mem := mm, off := datlen - remain\<rparr>)) (\<lambda>b.
               Inr (0, evbuffer_invoke_callbacks (count_added (datlen - remain) b)))))) in
     if IMMUTABLE c then more 0
     else if misalign c > CHAIN_MAX then Inl AssertFailed
     else
       let remain = buffer_len c - misalign c - off c in
       if remain \<ge> datlen then bindE (chain_append c data) out
       else if \<not> CHAIN_PINNED c \<and> evbuffer_chain_should_realign c datlen
       then bindE (evbuffer_chain_align c) (\<lambda>c. bindE (chain_append c data) out)
       else more remain)"

definition evbuffer_add :: "malloc \<Rightarrow> evbuffer \<Rightarrow> byte list \<Rightarrow> (int \<times> evbuffer) res" where
  "evbuffer_add m b data =
    (if freeze_end b then Inr (-1, b)
     else if length data > SIZE_MAX - total_len b then Inr (-1, b)
     else if last_with_datap b < length (chains b) then add_to m b (last_with_datap b) data
     else if last_at b \<noteq> 0 then add_to m b (last_at b - 1) data
     else
       case evbuffer_chain_new m (length data) of
         None \<Rightarrow> Inr (-1, b)
       | Some c \<Rightarrow> bindE (evbuffer_chain_insert b c) (\<lambda>b. add_to m b (last_at b - 1) data))"

section \<open>Adding at the front\<close>

text \<open>A new chain in front, for the bytes that the first chain could not take.\<close>

definition prepend_chain :: "malloc \<Rightarrow> evbuffer \<Rightarrow> byte list \<Rightarrow> (int \<times> evbuffer) res" where
  "prepend_chain m b data =
    (case evbuffer_chain_new m (length data) of
       None \<Rightarrow> Inr (-1, b)
     | Some tmp \<Rightarrow>
         if length data > buffer_len tmp then Inl AssertFailed
         else
           bindE (poke (buffer_len tmp - length data) data (mem tmp)) (\<lambda>mm.
           Inr (0, evbuffer_invoke_callbacks (count_added (length data)
             (b\<lparr>chains := tmp\<lparr>mem := mm, off := length data,
                                misalign := buffer_len tmp - length data\<rparr> # chains b,
                last_at := Suc (last_at b),
                last_with_datap :=
                  (if last_with_datap b = 0 \<and> off (chains b ! 0) = 0 then 0
                   else Suc (last_with_datap b)),
                total_len := total_len b + length data\<rparr>)))))"

text \<open>\<open>evbuffer_prepend\<close> once the buffer has a first chain.\<close>

definition prepend_to :: "malloc \<Rightarrow> evbuffer \<Rightarrow> byte list \<Rightarrow> (int \<times> evbuffer) res" where
  "prepend_to m b data =
    (let c = chains b ! 0; datlen = length data in
     if IMMUTABLE c then prepend_chain m b data
     else if misalign c > CHAIN_MAX then Inl AssertFailed
     else
       let c = (if off c = 0 then c\<lparr>misalign := buffer_len c\<rparr> else c);
           put = (\<lambda>bs. bindE (poke (misalign c - length bs) bs (mem c)) (\<lambda>mm.
             Inr (count_added (length bs)
               (b\<lparr>chains := (chains b)[0 := c\<lparr>mem := mm, off := off c + length bs,
                                             misalign := misalign c - length bs\<rparr>],
                  total_len := total_len b + length bs\<rparr>)))) in
       if misalign c \<ge> datlen
       then bindE (put data) (\<lambda>b. Inr (0, evbuffer_invoke_callbacks b))
       else if misalign c \<noteq> 0
       then bindE (put (drop (datlen - misalign c) data)) (\<lambda>b.
            prepend_chain m b (take (datlen - misalign c) data))
       else prepend_chain m (b\<lparr>chains := (chains b)[0 := c]\<rparr>) data)"

definition evbuffer_prepend :: "malloc \<Rightarrow> evbuffer \<Rightarrow> byte list \<Rightarrow> (int \<times> evbuffer) res" where
  "evbuffer_prepend m b data =
    (if length data = 0 then Inr (0, b)
     else if freeze_start b then Inr (-1, b)
     else if length data > SIZE_MAX - total_len b then Inr (-1, b)
     else if chains b \<noteq> [] then prepend_to m b data
     else
       case evbuffer_chain_new m (length data) of
         None \<Rightarrow> Inr (-1, b)
       | Some c \<Rightarrow> bindE (evbuffer_chain_insert b c) (\<lambda>b. prepend_to m b data))"

end
