(* ===== verification/Evbuf_Inv.thy ===== *)
theory Evbuf_Inv
  imports Evbuf_Ops
begin

text \<open>
  The well-formedness of a buffer and what its list of chains stands for, and the effect of
  inserting a chain. A change of a buffer is described by \<open>ev_to\<close>: the buffer is in order
  again and holds the bytes given, and only the counters kept for the callbacks have moved.
\<close>

section \<open>Chains\<close>

definition chain_data :: "evbuffer_chain \<Rightarrow> byte list" where
  "chain_data c = take (off c) (drop (misalign c) (mem c))"

definition datas :: "evbuffer_chain list \<Rightarrow> byte list" where
  "datas cs = concat (map chain_data cs)"

definition bytes_of :: "evbuffer \<Rightarrow> evbuf" where
  "bytes_of b = datas (chains b)"

definition chain_ok :: "evbuffer_chain \<Rightarrow> bool" where
  "chain_ok c \<longleftrightarrow> length (mem c) = buffer_len c \<and> misalign c + off c \<le> buffer_len c
     \<and> buffer_len c \<le> CHAIN_MAX - CHAIN_SIZE \<and> \<not> CHAIN_PINNED c
     \<and> (IMMUTABLE c \<longrightarrow> misalign c + off c = buffer_len c \<and> (off c = 0 \<longrightarrow> buffer_len c = 0))"

lemma datas_simps [simp]:
  "datas [] = []"
  "datas (c # cs) = chain_data c @ datas cs"
  "datas (cs @ ds) = datas cs @ datas ds"
  by (simp_all add: datas_def)

lemma datas_empty: "\<forall>c\<in>set cs. off c = 0 \<Longrightarrow> datas cs = []"
  by (simp add: datas_def chain_data_def)

lemma chain_data_len [simp]: "chain_ok c \<Longrightarrow> length (chain_data c) = off c"
  by (auto simp: chain_ok_def chain_data_def min_def)

lemma chain_data_Nil [simp]: "off c = 0 \<Longrightarrow> chain_data c = []"
  by (simp add: chain_data_def)

lemma flag_simps [simp]:
  "\<not> IMMUTABLE \<lparr>buffer_len = n, misalign = a, off = d, flags = 0, mem = mm\<rparr>"
  "\<not> CHAIN_PINNED \<lparr>buffer_len = n, misalign = a, off = d, flags = 0, mem = mm\<rparr>"
  "IMMUTABLE (c\<lparr>mem := mm\<rparr>) = IMMUTABLE c" "IMMUTABLE (c\<lparr>off := d\<rparr>) = IMMUTABLE c"
  "IMMUTABLE (c\<lparr>misalign := a\<rparr>) = IMMUTABLE c"
  "CHAIN_PINNED (c\<lparr>mem := mm\<rparr>) = CHAIN_PINNED c" "CHAIN_PINNED (c\<lparr>off := d\<rparr>) = CHAIN_PINNED c"
  "CHAIN_PINNED (c\<lparr>misalign := a\<rparr>) = CHAIN_PINNED c"
  by (simp_all add: IMMUTABLE_def CHAIN_PINNED_def)

lemma pinned_r: "CHAIN_PINNED_R c \<Longrightarrow> CHAIN_PINNED c"
proof -
  have "x AND EVBUFFER_MEM_PINNED_ANY = 0 \<Longrightarrow> x AND EVBUFFER_MEM_PINNED_R = 0" for x :: u32
    unfolding EVBUFFER_MEM_PINNED_ANY_def
    by (metis and.assoc word_bw_comms(1) word_ao_absorbs(4) word_and_not(1) and_zero_eq
        bit.conj_disj_distrib or_eq_0_iff)
  then show "CHAIN_PINNED_R c \<Longrightarrow> CHAIN_PINNED c"
    unfolding CHAIN_PINNED_R_def CHAIN_PINNED_def by blast
qed

section \<open>Layouts\<close>

text \<open>
  \<open>last_with_datap\<close> designates the last chain with data, the first chain when none has any;
  it is \<open>&buf->first\<close> when there is no chain.
\<close>

definition lwd_ok :: "evbuffer_chain list \<Rightarrow> nat \<Rightarrow> bool" where
  "lwd_ok cs w \<longleftrightarrow> cs = [] \<and> w = 0
     \<or> w < length cs \<and> (w \<noteq> 0 \<longrightarrow> off (cs ! w) \<noteq> 0) \<and> (\<forall>c\<in>set (drop (Suc w) cs). off c = 0)"

definition layout :: "evbuffer_chain list \<Rightarrow> nat \<Rightarrow> bool" where
  "layout cs w \<longleftrightarrow> (\<forall>c\<in>set cs. chain_ok c) \<and> lwd_ok cs w \<and> length (datas cs) < 2 ^ 64"

definition form :: "evbuffer_chain list \<Rightarrow> nat \<Rightarrow> evbuffer \<Rightarrow> evbuffer" where
  "form cs w b = b\<lparr>chains := cs, last_at := length cs, last_with_datap := w,
                   total_len := length (datas cs)\<rparr>"

definition ev_inv :: "evbuffer \<Rightarrow> bool" where
  "ev_inv b \<longleftrightarrow> layout (chains b) (last_with_datap b) \<and> last_at b = length (chains b)
     \<and> total_len b = length (bytes_of b) \<and> n_add_for_cb b < 2 ^ 64 \<and> n_del_for_cb b < 2 ^ 64"

lemma form_sel [simp]:
  "chains (form cs w b) = cs" "last_at (form cs w b) = length cs"
  "last_with_datap (form cs w b) = w" "total_len (form cs w b) = length (datas cs)"
  "freeze_start (form cs w b) = freeze_start b" "freeze_end (form cs w b) = freeze_end b"
  "n_add_for_cb (form cs w b) = n_add_for_cb b" "n_del_for_cb (form cs w b) = n_del_for_cb b"
  "callbacks (form cs w b) = callbacks b" "told (form cs w b) = told b"
  "deferred_cbs (form cs w b) = deferred_cbs b" "refcnt (form cs w b) = refcnt b"
  "scheduled (form cs w b) = scheduled b"
  "form cs w (form cs' w' b) = form cs w b"
  by (simp_all add: form_def)

lemma bytes_form [simp]: "bytes_of (form cs w b) = datas cs"
  by (simp add: bytes_of_def)

lemma form_self: "ev_inv b \<Longrightarrow> form (chains b) (last_with_datap b) b = b"
  by (simp add: form_def ev_inv_def bytes_of_def)

lemma ev_inv_form:
  "ev_inv b \<Longrightarrow> layout cs w \<Longrightarrow> ev_inv (form cs w b)"
  by (simp add: ev_inv_def)

text \<open>Everything known of a buffer in order: its chains, \<open>last_with_datap\<close> among them.\<close>

lemma ev_invE:
  assumes "ev_inv b"
  obtains cs w where "b = form cs w b" "layout cs w" "bytes_of b = datas cs"
    "n_add_for_cb b < 2 ^ 64" "n_del_for_cb b < 2 ^ 64"
  using assms form_self [OF assms] by (metis bytes_of_def ev_inv_def)

lemma lwd_split:
  assumes "lwd_ok cs w" "cs \<noteq> []"
  obtains pre c post where "cs = pre @ c # post" "w = length pre" "\<forall>x\<in>set post. off x = 0"
    "pre \<noteq> [] \<longrightarrow> off c \<noteq> 0"
proof -
  have w: "w < length cs" "w \<noteq> 0 \<longrightarrow> off (cs ! w) \<noteq> 0" "\<forall>c\<in>set (drop (Suc w) cs). off c = 0"
    using assms by (auto simp: lwd_ok_def)
  show ?thesis
    by (rule that [of "take w cs" "cs ! w" "drop (Suc w) cs"])
       (use w in \<open>simp_all add: id_take_nth_drop [symmetric]\<close>)
qed

lemma lwd_join:
  "\<forall>x\<in>set post. off x = 0 \<Longrightarrow> (pre \<noteq> [] \<longrightarrow> off c \<noteq> 0) \<Longrightarrow> lwd_ok (pre @ c # post) (length pre)"
  by (simp add: lwd_ok_def)

section \<open>Effects\<close>

definition ev_to :: "evbuffer \<Rightarrow> nat \<Rightarrow> nat \<Rightarrow> evbuf \<Rightarrow> evbuffer \<Rightarrow> bool" where
  "ev_to b a d bs b' \<longleftrightarrow>
     (\<exists>cs w. layout cs w \<and> datas cs = bs \<and> b' = count_deleted d (count_added a (form cs w b)))"

lemma szadd_lt [simp]: "szadd a b < 2 ^ 64" "szadd a b < 18446744073709551616"
  by (simp_all add: szadd_def)

lemma szadd_assoc: "szadd (szadd a b) c = szadd a (b + c)"
  by (simp add: szadd_def mod_simps add.assoc)

lemma count_sel [simp]:
  "chains (count_added a b) = chains b" "last_at (count_added a b) = last_at b"
  "last_with_datap (count_added a b) = last_with_datap b"
  "total_len (count_added a b) = total_len b"
  "freeze_start (count_added a b) = freeze_start b" "freeze_end (count_added a b) = freeze_end b"
  "n_add_for_cb (count_added a b) = szadd (n_add_for_cb b) a"
  "n_del_for_cb (count_added a b) = n_del_for_cb b"
  "chains (count_deleted a b) = chains b" "last_at (count_deleted a b) = last_at b"
  "last_with_datap (count_deleted a b) = last_with_datap b"
  "total_len (count_deleted a b) = total_len b"
  "freeze_start (count_deleted a b) = freeze_start b"
  "freeze_end (count_deleted a b) = freeze_end b"
  "n_add_for_cb (count_deleted a b) = n_add_for_cb b"
  "n_del_for_cb (count_deleted a b) = szadd (n_del_for_cb b) a"
  "callbacks (count_added a b) = callbacks b" "callbacks (count_deleted a b) = callbacks b"
  "told (count_added a b) = told b" "told (count_deleted a b) = told b"
  by (simp_all add: count_added_def count_deleted_def)

lemma count_form:
  "form cs w (count_added a b) = count_added a (form cs w b)"
  "form cs w (count_deleted a b) = count_deleted a (form cs w b)"
  "count_added a (count_added a' b) = count_added (a' + a) b"
  "count_deleted a (count_deleted a' b) = count_deleted (a' + a) b"
  "count_added a (count_deleted a' b) = count_deleted a' (count_added a b)"
  by (simp_all add: count_added_def count_deleted_def form_def szadd_assoc)

lemma count_0 [simp]:
  "n_add_for_cb b < 2 ^ 64 \<Longrightarrow> count_added 0 b = b"
  "n_del_for_cb b < 2 ^ 64 \<Longrightarrow> count_deleted 0 b = b"
  by (simp_all add: count_added_def count_deleted_def)

lemma ev_toI:
  "layout cs w \<Longrightarrow> datas cs = bs \<Longrightarrow> b' = count_deleted d (count_added a (form cs w b))
     \<Longrightarrow> ev_to b a d bs b'"
  by (auto simp: ev_to_def)

lemma ev_to_formI:
  assumes "ev_inv b" "layout cs w" "datas cs = bs"
  shows "ev_to b 0 0 bs (form cs w b)"
  by (rule ev_toI [OF assms(2,3)]) (use assms(1) in \<open>simp add: ev_inv_def\<close>)

lemma ev_to_refl: "ev_inv b \<Longrightarrow> ev_to b 0 0 (bytes_of b) b"
  using ev_to_formI [of b "chains b" "last_with_datap b"]
  by (simp add: form_self ev_inv_def bytes_of_def)

lemma ev_to_inv: "ev_inv b \<Longrightarrow> ev_to b a d bs b' \<Longrightarrow> ev_inv b'"
  by (auto simp: ev_to_def ev_inv_def bytes_of_def)

lemma ev_to_bytes: "ev_to b a d bs b' \<Longrightarrow> bytes_of b' = bs"
  by (auto simp: ev_to_def bytes_of_def)

lemma ev_to_freeze:
  "ev_to b a d bs b' \<Longrightarrow> freeze_start b' = freeze_start b"
  "ev_to b a d bs b' \<Longrightarrow> freeze_end b' = freeze_end b"
  by (auto simp: ev_to_def)

lemma ev_to_trans:
  assumes "ev_to b a d bs b1" "ev_to b1 a' d' cs b2"
  shows "ev_to b (a + a') (d + d') cs b2"
  using assms unfolding ev_to_def by (clarsimp simp: count_form) blast

lemma ev_to_count:
  "ev_to b a d bs b' \<Longrightarrow> ev_to b (a + n) d bs (count_added n b')"
  "ev_to b a d bs b' \<Longrightarrow> ev_to b a (d + n) bs (count_deleted n b')"
  unfolding ev_to_def by (clarsimp simp: count_form, blast)+

text \<open>The callbacks change nothing of what the buffer holds.\<close>

lemma run_callbacks_sel [simp]:
  "chains (evbuffer_run_callbacks b r) = chains b" "last_at (evbuffer_run_callbacks b r) = last_at b"
  "last_with_datap (evbuffer_run_callbacks b r) = last_with_datap b"
  "total_len (evbuffer_run_callbacks b r) = total_len b"
  "freeze_start (evbuffer_run_callbacks b r) = freeze_start b"
  "freeze_end (evbuffer_run_callbacks b r) = freeze_end b"
  "callbacks (evbuffer_run_callbacks b r) = callbacks b"
  by (simp_all add: evbuffer_run_callbacks_def Let_def split: prod.splits)

lemma invoke_sel [simp]:
  "chains (evbuffer_invoke_callbacks b) = chains b"
  "last_at (evbuffer_invoke_callbacks b) = last_at b"
  "last_with_datap (evbuffer_invoke_callbacks b) = last_with_datap b"
  "total_len (evbuffer_invoke_callbacks b) = total_len b"
  "freeze_start (evbuffer_invoke_callbacks b) = freeze_start b"
  "freeze_end (evbuffer_invoke_callbacks b) = freeze_end b"
  "callbacks (evbuffer_invoke_callbacks b) = callbacks b"
  "bytes_of (evbuffer_invoke_callbacks b) = bytes_of b"
  by (simp_all add: evbuffer_invoke_callbacks_def bytes_of_def)

lemma run_callbacks_counts:
  "n_add_for_cb (evbuffer_run_callbacks b r) = n_add_for_cb b
     \<or> n_add_for_cb (evbuffer_run_callbacks b r) = 0"
  "n_del_for_cb (evbuffer_run_callbacks b r) = n_del_for_cb b
     \<or> n_del_for_cb (evbuffer_run_callbacks b r) = 0"
  by (simp_all add: evbuffer_run_callbacks_def Let_def split: prod.splits)

lemma invoke_inv [simp]: "ev_inv b \<Longrightarrow> ev_inv (evbuffer_invoke_callbacks b)"
proof -
  assume b: "ev_inv b"
  have "n_add_for_cb (evbuffer_invoke_callbacks b) < 2 ^ 64
      \<and> n_del_for_cb (evbuffer_invoke_callbacks b) < 2 ^ 64"
    using b run_callbacks_counts [of "b\<lparr>scheduled := True, refcnt := Suc (refcnt b)\<rparr>" False]
      run_callbacks_counts [of b False]
    by (auto simp: evbuffer_invoke_callbacks_def ev_inv_def Let_def)
  with b show "ev_inv (evbuffer_invoke_callbacks b)"
    by (simp add: ev_inv_def bytes_of_def)
qed

section \<open>Memory\<close>

lemma poke_ok: "p + length bs \<le> length m \<Longrightarrow> \<exists>m'. poke p bs m = Inr m' \<and> length m' = length m
    \<and> take p m' = take p m \<and> take (length bs) (drop p m') = bs
    \<and> drop (p + length bs) m' = drop (p + length bs) m"
  by (simp add: poke_def)

lemma grow_ge: "0 < a \<Longrightarrow> s \<le> grow a s"
  by (induction a s rule: grow.induct) (simp add: grow.simps)

lemma grow_le: "grow a s \<le> max a (2 * s)"
proof (induction a s rule: grow.induct)
  case (1 a s)
  then show ?case
    by (cases "0 < a \<and> a < s") (auto simp: grow.simps [of a s])
qed

text \<open>A doubling never leaves \<open>size_t\<close>: requests above a quarter of the range are not doubled.\<close>

lemma grow_bound: "s < CHAIN_MAX div 2 \<Longrightarrow> grow MIN_BUFFER_SIZE s \<le> CHAIN_MAX"
  using grow_le [of MIN_BUFFER_SIZE s] by (auto simp: size_consts)

lemma chain_new_ok:
  assumes "malloc_sized m" "evbuffer_chain_new m n = Some c"
  shows "chain_ok c" "n \<le> buffer_len c" "misalign c = 0" "off c = 0" "\<not> IMMUTABLE c"
    "0 < buffer_len c"
proof -
  define k where "k = (if n + CHAIN_SIZE < CHAIN_MAX div 2 then grow MIN_BUFFER_SIZE (n + CHAIN_SIZE)
                       else n + CHAIN_SIZE)"
  have n: "n \<le> CHAIN_MAX - CHAIN_SIZE"
    using assms(2) unfolding evbuffer_chain_new_def by (rule contrapos_pp) simp
  then have nn: "\<not> CHAIN_MAX - CHAIN_SIZE < n"
    by simp
  have new: "(case m k of None \<Rightarrow> None | Some block \<Rightarrow>
      Some \<lparr>buffer_len = k - CHAIN_SIZE, misalign = 0, off = 0, flags = 0,
            mem = drop CHAIN_SIZE block\<rparr>) = Some c"
    using assms(2) unfolding evbuffer_chain_new_def k_def Let_def by (simp only: nn if_False)
  then obtain block where b: "m k = Some block"
    and c: "c = \<lparr>buffer_len = k - CHAIN_SIZE, misalign = 0, off = 0, flags = 0,
                 mem = drop CHAIN_SIZE block\<rparr>"
    by (cases "m k") simp_all
  have len: "length block = k"
    using assms(1) b by (rule malloc_sizedD)
  have "n + CHAIN_SIZE \<le> k"
    using grow_ge [of MIN_BUFFER_SIZE "n + CHAIN_SIZE"] by (simp add: k_def MIN_BUFFER_SIZE_def)
  moreover have "MIN_BUFFER_SIZE \<le> k"
  proof -
    have "a \<le> grow a s" for a s
    proof (induction a s rule: grow.induct)
      case (1 a s)
      then show ?case
        by (cases "0 < a \<and> a < s") (auto simp: grow.simps [of a s])
    qed
    moreover have "MIN_BUFFER_SIZE \<le> CHAIN_MAX div 2"
      by (simp add: size_consts)
    ultimately show ?thesis
      unfolding k_def by (cases "n + CHAIN_SIZE < CHAIN_MAX div 2") auto
  qed
  moreover have "k \<le> CHAIN_MAX"
  proof -
    have "CHAIN_SIZE \<le> CHAIN_MAX"
      by (simp add: size_consts)
    with n grow_bound [of "n + CHAIN_SIZE"] show ?thesis
      unfolding k_def by (cases "n + CHAIN_SIZE < CHAIN_MAX div 2") auto
  qed
  ultimately have k: "n \<le> k - CHAIN_SIZE" "0 < k - CHAIN_SIZE" "k - CHAIN_SIZE \<le> CHAIN_MAX - CHAIN_SIZE"
    by (simp_all add: CHAIN_SIZE_def MIN_BUFFER_SIZE_def)
  show "chain_ok c"
    unfolding chain_ok_def by (simp add: c len k(3))
  show "n \<le> buffer_len c" "misalign c = 0" "off c = 0" "\<not> IMMUTABLE c" "0 < buffer_len c"
    using k by (simp_all add: c)
qed

lemma chain_append_ok:
  assumes "chain_ok c" "\<not> IMMUTABLE c" "misalign c + off c + length bs \<le> buffer_len c"
  shows "\<exists>c'. chain_append c bs = Inr c' \<and> chain_ok c' \<and> chain_data c' = chain_data c @ bs
           \<and> off c' = off c + length bs \<and> \<not> IMMUTABLE c' \<and> buffer_len c' = buffer_len c"
proof -
  have le: "misalign c + off c + length bs \<le> length (mem c)"
    using assms by (simp add: chain_ok_def)
  obtain mm where m: "poke (misalign c + off c) bs (mem c) = Inr mm" "length mm = length (mem c)"
    "take (misalign c + off c) mm = take (misalign c + off c) (mem c)"
    "take (length bs) (drop (misalign c + off c) mm) = bs"
    using poke_ok [OF le] by blast
  have "take (off c) (drop (misalign c) mm) = take (off c) (drop (misalign c) (mem c))"
    using m(3) by (simp add: take_drop add.commute)
  then have "take (off c + length bs) (drop (misalign c) mm)
      = take (off c) (drop (misalign c) (mem c)) @ bs"
    using m(4) by (simp add: take_add add.commute)
  then show ?thesis
    using assms m(1,2) by (simp add: chain_append_def chain_ok_def chain_data_def)
qed

lemma chain_align_ok:
  assumes "chain_ok c" "\<not> IMMUTABLE c"
  shows "\<exists>c'. evbuffer_chain_align c = Inr c' \<and> chain_ok c' \<and> chain_data c' = chain_data c
           \<and> off c' = off c \<and> misalign c' = 0 \<and> \<not> IMMUTABLE c' \<and> buffer_len c' = buffer_len c"
proof -
  let ?bs = "chain_data c"
  have pk: "peek (misalign c) (off c) (mem c) = Inr ?bs" and le: "0 + length ?bs \<le> length (mem c)"
    using assms by (auto simp: chain_ok_def peek_def chain_data_def)
  obtain mm where m: "poke 0 ?bs (mem c) = Inr mm" "length mm = length (mem c)"
    "take (length ?bs) (drop 0 mm) = ?bs"
    using poke_ok [OF le] by blast
  have "take (off c) mm = ?bs"
    using m(3) assms(1) by simp
  then show ?thesis
    using assms pk m by (simp add: evbuffer_chain_align_def chain_ok_def chain_data_def)
qed

text \<open>A request that the allocator can serve but does not.\<close>

definition alloc_fails :: "malloc \<Rightarrow> bool" where
  "alloc_fails m \<longleftrightarrow> (\<exists>n \<le> CHAIN_MAX - CHAIN_SIZE. evbuffer_chain_new m n = None)"

lemma alloc_failsI: "evbuffer_chain_new m n = None \<Longrightarrow> n \<le> CHAIN_MAX - CHAIN_SIZE \<Longrightarrow> alloc_fails m"
  by (auto simp: alloc_fails_def)

section \<open>Inserting a chain\<close>

lemma free_trailing_ok:
  assumes "layout cs w" "cs \<noteq> []"
  shows "evbuffer_free_trailing_empty_chains (form cs w b)
    = Inr (if off (cs ! w) = 0 then w else Suc w,
           (form cs w b)\<lparr>chains := take (if off (cs ! w) = 0 then w else Suc w) cs\<rparr>)"
proof -
  obtain pre c post where d: "cs = pre @ c # post" "w = length pre" "\<forall>x\<in>set post. off x = 0"
    "pre \<noteq> [] \<longrightarrow> off c \<noteq> 0"
    using assms lwd_split [of cs w] by (auto simp: layout_def)
  have np: "\<forall>x\<in>set post. \<not> CHAIN_PINNED x" "\<not> CHAIN_PINNED c"
    using assms(1) by (auto simp: layout_def d chain_ok_def)
  have tw: "takeWhile (\<lambda>c. off c \<noteq> 0 \<or> CHAIN_PINNED c) (drop w cs) = (if off c = 0 then [] else [c])"
    using d(3) np by (cases post) (auto simp: d(1,2))
  define k where "k = (if off (cs ! w) = 0 then w else Suc w)"
  have k: "w + length (takeWhile (\<lambda>c. off c \<noteq> 0 \<or> CHAIN_PINNED c) (drop w cs)) = k"
    unfolding tw by (simp add: k_def d(1,2))
  have e: "list_all (\<lambda>c. off c = 0) (drop k cs)" and le: "k \<le> length cs"
    using d(3) by (simp_all add: k_def d(1,2) list_all_iff)
  have "evbuffer_free_trailing_empty_chains (form cs w b) = Inr (k, (form cs w b)\<lparr>chains := take k cs\<rparr>)"
  proof (cases "k < length cs")
    case True
    with e show ?thesis
      unfolding evbuffer_free_trailing_empty_chains_def form_sel k Let_def by simp
  next
    case False
    then have "take k cs = cs"
      by simp
    with False show ?thesis
      unfolding evbuffer_free_trailing_empty_chains_def form_sel k Let_def by (simp add: form_def)
  qed
  then show ?thesis
    by (simp only: k_def)
qed

text \<open>The chains a new one is put behind.\<close>

definition used :: "evbuffer_chain list \<Rightarrow> nat \<Rightarrow> evbuffer_chain list" where
  "used cs w = (if cs = [] then [] else take (if off (cs ! w) = 0 then w else Suc w) cs)"

lemma used_layout:
  assumes "layout cs w" "chain_ok c" "length (datas cs) + off c < 2 ^ 64"
  shows "datas (used cs w) = datas cs"
    "layout (used cs w @ [c]) (if off c \<noteq> 0 then length (used cs w) else w)"
proof -
  have "datas (used cs w) = datas cs
      \<and> layout (used cs w @ [c]) (if off c \<noteq> 0 then length (used cs w) else w)"
  proof (cases "cs = []")
    case True
    then show ?thesis
      using assms by (auto simp: layout_def lwd_ok_def used_def)
  next
    case False
    obtain pre d post where d: "cs = pre @ d # post" "w = length pre" "\<forall>x\<in>set post. off x = 0"
      "pre \<noteq> [] \<longrightarrow> off d \<noteq> 0"
      using assms False lwd_split [of cs w] by (auto simp: layout_def)
    have u: "used cs w = (if off d = 0 then [] else pre @ [d])"
      using d(4) by (auto simp: used_def d(1,2))
    note u = u [unfolded d(1,2)]
    have e: "datas post = []"
      using d(3) by (rule datas_empty)
    have l1: "off d \<noteq> 0 \<Longrightarrow> off c = 0 \<Longrightarrow> lwd_ok (pre @ [d, c]) (length pre)"
      using lwd_join [of "[c]" pre d] by simp
    have l2: "off c \<noteq> 0 \<Longrightarrow> lwd_ok ((pre @ [d]) @ [c]) (length (pre @ [d]))"
      by (rule lwd_join [of "[]" "pre @ [d]" c]) auto
    show ?thesis
      using assms d l1 l2 e by (auto simp: layout_def u lwd_ok_def [of "[c]"])
  qed
  then show "datas (used cs w) = datas cs"
    "layout (used cs w @ [c]) (if off c \<noteq> 0 then length (used cs w) else w)"
    by blast+
qed

lemma chain_insert_ok:
  assumes "layout cs w" "chain_ok c" "length (datas cs) + off c < 2 ^ 64"
  shows "evbuffer_chain_insert (form cs w b) c
     = Inr (form (used cs w @ [c]) (if off c \<noteq> 0 then length (used cs w) else w) b)"
proof (cases "cs = []")
  case True
  with assms have "w = 0"
    by (simp add: layout_def lwd_ok_def)
  with True assms show ?thesis
    by (simp add: evbuffer_chain_insert_def used_def form_def szadd_id)
next
  case False
  then have w: "w < length cs"
    using assms by (simp add: layout_def lwd_ok_def)
  define k where "k = (if off (cs ! w) = 0 then w else Suc w)"
  have u: "used cs w = take k cs" "length (used cs w) = k" "take k (take k cs) = take k cs"
    using False w by (auto simp: used_def k_def)
  note [simp del] = form_def
  have "evbuffer_free_trailing_empty_chains (form cs w b) = Inr (k, (form cs w b)\<lparr>chains := take k cs\<rparr>)"
    using free_trailing_ok [OF assms(1) False] by (simp add: k_def)
  then show ?thesis
    using False w assms(3) u used_layout(1) [OF assms]
    by (auto simp: evbuffer_chain_insert_def form_def szadd_id assms(2))
qed

end
