(* ===== verification/Evbuf_Add.thy ===== *)
theory Evbuf_Add
  imports Evbuf_Inv
begin

text \<open>
  Adding at either end: what is in the buffer afterwards, on every path through
  \<open>evbuffer_add\<close> and \<open>evbuffer_prepend\<close>, allocation failures included.
\<close>

section \<open>Replacing one chain\<close>

lemma datas_upd:
  assumes "k < length cs"
  shows "datas (cs[k := c]) = datas (take k cs) @ chain_data c @ datas (drop (Suc k) cs)"
  using assms by (simp add: upd_conv_take_nth_drop)

lemma datas_at:
  assumes "k < length cs"
  shows "datas cs = datas (take k cs) @ chain_data (cs ! k) @ datas (drop (Suc k) cs)"
  using datas_upd [OF assms, of "cs ! k"] by simp

lemma layoutD:
  assumes "layout cs w"
  shows "\<forall>c\<in>set cs. chain_ok c" "lwd_ok cs w" "length (datas cs) < 2 ^ 64"
  using assms by (simp_all add: layout_def)

lemma layout_at:
  assumes "layout cs w" "k < length cs"
  shows "chain_ok (cs ! k)"
  using assms by (auto simp: layout_def)

text \<open>The chain that \<open>last_with_datap\<close> designates ends the data of the buffer.\<close>

lemma lwd_at:
  assumes "layout cs w" "cs \<noteq> []"
  shows "w < length cs" "datas cs = datas (take w cs) @ chain_data (cs ! w)"
    "datas (drop (Suc w) cs) = []"
proof -
  show w: "w < length cs"
    using assms by (auto simp: layout_def lwd_ok_def)
  show e: "datas (drop (Suc w) cs) = []"
    using assms by (intro datas_empty) (auto simp: layout_def lwd_ok_def)
  show "datas cs = datas (take w cs) @ chain_data (cs ! w)"
    using datas_at [OF w] e by simp
qed

lemma layout_upd_lwd:
  assumes "layout cs w" "cs \<noteq> []" "chain_ok c" "w \<noteq> 0 \<longrightarrow> off c \<noteq> 0"
    "length (datas (take w cs) @ chain_data c) < 2 ^ 64"
  shows "layout (cs[w := c]) w" "datas (cs[w := c]) = datas (take w cs) @ chain_data c"
proof -
  note w = lwd_at [OF assms(1,2)]
  show d: "datas (cs[w := c]) = datas (take w cs) @ chain_data c"
    using datas_upd [OF w(1)] w(3) by simp
  have "\<forall>x\<in>set (cs[w := c]). chain_ok x"
    using assms(1,3) set_update_subset_insert [of cs w c] by (auto simp: layout_def)
  then show "layout (cs[w := c]) w"
    using assms w d by (auto simp: layout_def lwd_ok_def)
qed

section \<open>At the end\<close>

definition add_spec :: "malloc \<Rightarrow> evbuffer \<Rightarrow> byte list \<Rightarrow> int \<times> evbuffer \<Rightarrow> bool" where
  "add_spec m b data = (\<lambda>(r, b').
     r = 0 \<and> \<not> freeze_end b
       \<and> (\<exists>b''. ev_to b (length data) 0 (bytes_of b @ data) b'' \<and> b' = evbuffer_invoke_callbacks b'')
   \<or> r = -1 \<and> ev_to b 0 0 (bytes_of b) b'
       \<and> (freeze_end b \<or> length data > CHAIN_MAX - CHAIN_SIZE \<or> alloc_fails m
          \<or> length (bytes_of b) + length data \<ge> 2 ^ 64))"

lemma add_to_ok:
  assumes m: "malloc_sized m" and b: "ev_inv b" and ne: "chains b \<noteq> []" and fr: "\<not> freeze_end b"
    and len: "length (bytes_of b) + length data < 2 ^ 64"
  shows "\<exists>r. add_to m b (last_with_datap b) data = Inr r \<and> add_spec m b data r"
proof -
  obtain cs w where f: "b = form cs w b" and lay: "layout cs w" and bs: "bytes_of b = datas cs"
    using b by (rule ev_invE)
  have cw [simp]: "chains b = cs" "last_with_datap b = w" "total_len b = length (datas cs)"
    by (subst f, simp)+
  define c where "c = cs ! w"
  have cs: "cs \<noteq> []"
    using ne by simp
  note w = lwd_at [OF lay cs]
  have c: "chain_ok c"
    using layout_at [OF lay w(1)] by (simp add: c_def)
  have mis: "misalign c \<le> CHAIN_MAX"
    using c by (auto simp: chain_ok_def size_consts)
  have np: "\<not> CHAIN_PINNED c"
    using c by (simp add: chain_ok_def)
  have dat: "datas (take w cs) @ chain_data c = datas cs"
    using w(2) by (simp add: c_def)
  \<comment> \<open>the chain takes \<open>bs\<close> at its end\<close>
  have grow1: "layout (cs[w := c']) w \<and> datas (cs[w := c']) = datas cs @ xs"
    if "chain_ok c'" "chain_data c' = chain_data c @ xs" "off c' = off c + length xs"
      "length (datas cs) + length xs < 2 ^ 64" for c' xs
  proof -
    have "w \<noteq> 0 \<longrightarrow> off c' \<noteq> 0"
      using lay cs that(3) by (auto simp: layout_def lwd_ok_def c_def)
    moreover have "length (datas (take w cs) @ chain_data c') < 2 ^ 64"
      using that(2,4) dat by (metis append.assoc length_append)
    ultimately show ?thesis
      using layout_upd_lwd [OF lay cs that(1)] that(2) dat by simp
  qed
  have fits: "\<exists>r. bindE (chain_append c0 data) (\<lambda>c'. Inr (0, evbuffer_invoke_callbacks
        (count_added (length data) (b\<lparr>chains := cs[w := c'], total_len := length (datas cs) + length data\<rparr>))))
        = Inr r \<and> add_spec m b data r"
    if c0: "chain_ok c0" "\<not> IMMUTABLE c0" "chain_data c0 = chain_data c" "off c0 = off c"
      "misalign c0 + off c0 + length data \<le> buffer_len c0" for c0
  proof -
    obtain c' where c': "chain_append c0 data = Inr c'" "chain_ok c'"
      "chain_data c' = chain_data c @ data" "off c' = off c + length data"
      using chain_append_ok [OF c0(1,2,5)] c0(3,4) by auto
    have lc: "layout (cs[w := c']) w" "datas (cs[w := c']) = datas cs @ data"
      using grow1 [OF c'(2,3,4)] len bs by simp_all
    let ?b = "b\<lparr>chains := cs[w := c'], total_len := length (datas cs) + length data\<rparr>"
    have "?b = form (cs[w := c']) w b"
      by (subst f) (simp add: form_def lc(2))
    then have "ev_to b (length data) 0 (bytes_of b @ data) (count_added (length data) ?b)"
      using ev_to_count(1) [OF ev_to_formI [OF b lc]] by (simp add: bs)
    then show ?thesis
      using c'(1) fr by (auto simp: add_spec_def)
  qed
  have fail: "alloc_fails m \<or> length data > CHAIN_MAX - CHAIN_SIZE"
    if "evbuffer_chain_new m n = None" "n = length data \<or> n \<le> max 4096 (buffer_len c)" for n
    using that c by (auto simp: chain_ok_def size_consts not_less intro: alloc_failsI)
  have more: "\<exists>r. (case evbuffer_chain_new m n of
        None \<Rightarrow> Inr (-1, b)
      | Some tmp \<Rightarrow>
          bindE (if k = 0 then Inr b
                 else bindE (chain_append c (take k data)) (\<lambda>c'.
                      Inr (count_added k (b\<lparr>chains := cs[w := c'],
                             total_len := length (datas cs) + k\<rparr>)))) (\<lambda>b.
          bindE (poke 0 (drop k data) (mem tmp)) (\<lambda>mm.
          bindE (evbuffer_chain_insert b (tmp\<lparr>mem := mm, off := length data - k\<rparr>)) (\<lambda>b.
          Inr (0, evbuffer_invoke_callbacks (count_added (length data - k) b))))))
        = Inr r \<and> add_spec m b data r"
    if n: "length data \<le> n" "n = length data \<or> n \<le> max 4096 (buffer_len c)"
      and k: "k \<le> length data" "k \<noteq> 0 \<longrightarrow> \<not> IMMUTABLE c \<and> misalign c + off c + k \<le> buffer_len c"
    for n k
  proof (cases "evbuffer_chain_new m n")
    case None
    then show ?thesis
      using fail [OF None n(2)] ev_to_refl [OF b] by (auto simp: add_spec_def)
  next
    case (Some tmp)
    note tmp = chain_new_ok [OF m Some]
    define b1 where "b1 = (if k = 0 then Inr b else bindE (chain_append c (take k data)) (\<lambda>c'.
        Inr (count_added k (b\<lparr>chains := cs[w := c'], total_len := length (datas cs) + k\<rparr>))))"
    obtain cs1 b1' where b1': "b1 = Inr b1'" "layout cs1 w" "datas cs1 = datas cs @ take k data"
      "b1' = count_added k (form cs1 w b)"
    proof (cases "k = 0")
      case True
      have "b = count_added 0 (form cs w b)"
        using b by (subst f [symmetric]) (simp add: ev_inv_def)
      with True lay that show thesis
        by (simp add: b1_def)
    next
      case False
      obtain c' where c': "chain_append c (take k data) = Inr c'" "chain_ok c'"
        "chain_data c' = chain_data c @ take k data" "off c' = off c + length (take k data)"
        using chain_append_ok [OF c, of "take k data"] k False by auto
      have lc: "layout (cs[w := c']) w" "datas (cs[w := c']) = datas cs @ take k data"
        using grow1 [OF c'(2,3,4)] len bs by simp_all
      have "b\<lparr>chains := cs[w := c'], total_len := length (datas cs) + k\<rparr> = form (cs[w := c']) w b"
        using k by (subst f) (simp add: form_def lc(2))
      with False c'(1) lc that show thesis
        by (simp add: b1_def)
    qed
    have ld: "0 + length (drop k data) \<le> length (mem tmp)"
      using tmp(1,2) n(1) by (simp add: chain_ok_def)
    obtain mm where mm: "poke 0 (drop k data) (mem tmp) = Inr mm" "length mm = length (mem tmp)"
      "take (length (drop k data)) (drop 0 mm) = drop k data"
      using poke_ok [OF ld] by blast
    define t where "t = tmp\<lparr>mem := mm, off := length data - k\<rparr>"
    have t: "chain_ok t" "chain_data t = drop k data" "off t = length data - k"
      using tmp mm ld by (auto simp: t_def chain_ok_def chain_data_def)
    have l1: "length (datas cs1) + off t < 2 ^ 64"
      using len k by (simp add: t b1'(3) bs)
    note u = used_layout [OF b1'(2) t(1) l1]
    let ?cs = "used cs1 w @ [t]" and ?w = "if off t \<noteq> 0 then length (used cs1 w) else w"
    have ins: "evbuffer_chain_insert b1' t = Inr (count_added k (form ?cs ?w b))"
      using chain_insert_ok [OF b1'(2) t(1) l1, of "count_added k b"]
      by (simp add: b1'(4) count_form)
    have "datas ?cs = bytes_of b @ data"
      using u(1) t(2) b1'(3) bs by simp
    then have "ev_to b (k + (length data - k)) 0 (bytes_of b @ data)
        (count_added (length data - k) (count_added k (form ?cs ?w b)))"
      using ev_to_count(1) [OF ev_to_count(1) [OF ev_to_formI [OF b u(2)]]] by simp
    moreover have "k + (length data - k) = length data"
      using k by simp
    ultimately show ?thesis
      using Some mm(1) ins fr by (fold b1_def) (auto simp: b1'(1) t_def [symmetric] add_spec_def)
  qed
  define n where "n = (let n = (if buffer_len c \<le> EVBUFFER_CHAIN_MAX_AUTO_SIZE div 2
      then 2 * buffer_len c else buffer_len c) in if length data > n then length data else n)"
  have n: "length data \<le> n" "n = length data \<or> n \<le> max 4096 (buffer_len c)"
    by (simp_all add: n_def Let_def EVBUFFER_CHAIN_MAX_AUTO_SIZE_def)
  note def = add_to_def [of m b "last_with_datap b" data, unfolded cw, folded c_def, unfolded Let_def,
      folded n_def [unfolded Let_def]]
  have sp: "misalign c + off c \<le> buffer_len c"
    using c by (simp add: chain_ok_def)
  show ?thesis
  proof (cases "IMMUTABLE c")
    case True
    then show ?thesis
      using more [OF n, of 0] by (simp add: def)
  next
    case False
    consider "length data \<le> buffer_len c - misalign c - off c"
      | "\<not> length data \<le> buffer_len c - misalign c - off c" "evbuffer_chain_should_realign c (length data)"
      | "\<not> length data \<le> buffer_len c - misalign c - off c" "\<not> evbuffer_chain_should_realign c (length data)"
      by blast
    then show ?thesis
    proof cases
      case 1
      then have "misalign c + off c + length data \<le> buffer_len c"
        using sp by simp
      with 1 False mis show ?thesis
        using fits [OF c False refl refl] by (simp add: def)
    next
      case 2
      obtain c' where c': "evbuffer_chain_align c = Inr c'" "chain_ok c'" "chain_data c' = chain_data c"
        "off c' = off c" "misalign c' = 0" "\<not> IMMUTABLE c'" "buffer_len c' = buffer_len c"
        using chain_align_ok [OF c False] by blast
      have "off c \<le> buffer_len c" "length data \<le> buffer_len c - off c"
        using 2(2) sp by (simp_all add: evbuffer_chain_should_realign_def)
      then have "misalign c' + off c' + length data \<le> buffer_len c'"
        using c' by simp
      with 2 False mis np show ?thesis
        using fits [OF c'(2,6,3,4)] c'(1) by (simp add: def)
    next
      case 3
      then have "misalign c + off c + (buffer_len c - misalign c - off c) \<le> buffer_len c"
        using sp by simp
      with 3 False mis np show ?thesis
        using more [OF n, of "buffer_len c - misalign c - off c"] by (simp add: def)
    qed
  qed
qed

lemma add_ok:
  assumes m: "malloc_sized m" and b: "ev_inv b"
  shows "\<exists>r. evbuffer_add m b data = Inr r \<and> add_spec m b data r"
proof (cases "freeze_end b \<or> length data > SIZE_MAX - total_len b")
  case True
  with b ev_to_refl [OF b] show ?thesis
    by (auto simp: evbuffer_add_def add_spec_def ev_inv_def SIZE_MAX_def)
next
  case False
  then have fr: "\<not> freeze_end b" and len: "length (bytes_of b) + length data < 2 ^ 64"
    using b by (auto simp: ev_inv_def layout_def bytes_of_def SIZE_MAX_def)
  show ?thesis
  proof (cases "chains b = []")
    case ne: False
    then have "last_with_datap b < length (chains b)"
      using b by (auto simp: ev_inv_def layout_def lwd_ok_def)
    with False show ?thesis
      using add_to_ok [OF m b ne fr len] by (simp add: evbuffer_add_def)
  next
    case em: True
    then have z: "last_at b = 0" "last_with_datap b = 0" "bytes_of b = []"
      using b by (auto simp: ev_inv_def layout_def lwd_ok_def bytes_of_def)
    show ?thesis
    proof (cases "evbuffer_chain_new m (length data)")
      case None
      with False z em ev_to_refl [OF b] show ?thesis
        by (auto simp: evbuffer_add_def add_spec_def not_less intro: alloc_failsI)
    next
      case (Some c)
      note c = chain_new_ok [OF m Some]
      let ?b = "form [c] 0 b"
      have b0: "b = form [] 0 b" "layout [] 0" "layout [c] 0"
        using form_self [OF b] em z c by (auto simp: layout_def lwd_ok_def)
      have ins: "evbuffer_chain_insert b c = Inr ?b"
        using chain_insert_ok [OF b0(2) c(1), of b] c(4) b0(1) by (simp add: used_def)
      have ib: "ev_inv ?b"
        using ev_inv_form [OF b b0(3)] .
      obtain r where r: "add_to m ?b 0 data = Inr r" "add_spec m ?b data r"
        using add_to_ok [OF m ib _ _ , of data] fr len z c(4) by auto
      have tr: "ev_to b a d xs b''" if "ev_to ?b a d xs b''" for a d xs b''
        using ev_to_trans [OF ev_to_formI [OF b b0(3) refl] that] by simp
      have "evbuffer_add m b data = Inr r"
        using False z em Some ins r(1) by (simp add: evbuffer_add_def)
      moreover have "add_spec m b data r"
        using r(2) fr z(3) c(4) by (auto simp: add_spec_def intro: tr)
      ultimately show ?thesis
        by blast
    qed
  qed
qed

section \<open>At the front\<close>

lemma lwd_cons:
  assumes "lwd_ok cs w" "cs \<noteq> []"
  shows "lwd_ok (t # cs) (if w = 0 \<and> off (cs ! 0) = 0 then 0 else Suc w)"
  using assms by (cases cs; cases w) (auto simp: lwd_ok_def)

lemma prepend_chain_ok:
  assumes m: "malloc_sized m" and b: "ev_inv b" and ne: "chains b \<noteq> []"
    and len: "length (bytes_of b) + length data < 2 ^ 64"
  shows "\<exists>r b'. prepend_chain m b data = Inr (r, b')
    \<and> (r = 0 \<and> (\<exists>b''. ev_to b (length data) 0 (data @ bytes_of b) b'' \<and> b' = evbuffer_invoke_callbacks b'')
       \<or> r = -1 \<and> b' = b \<and> (length data > CHAIN_MAX - CHAIN_SIZE \<or> alloc_fails m))"
proof -
  obtain cs w where f: "b = form cs w b" and lay: "layout cs w" and bs: "bytes_of b = datas cs"
    using b by (rule ev_invE)
  have cw [simp]: "chains b = cs" "last_with_datap b = w" "total_len b = length (datas cs)"
      "last_at b = length cs"
    by (subst f, simp)+
  show ?thesis
  proof (cases "evbuffer_chain_new m (length data)")
    case None
    then show ?thesis
      by (auto simp: prepend_chain_def not_less intro: alloc_failsI)
  next
    case (Some tmp)
    note tmp = chain_new_ok [OF m Some]
    have le: "buffer_len tmp - length data + length data \<le> length (mem tmp)"
      using tmp(1,2) by (simp add: chain_ok_def)
    obtain mm where mm: "poke (buffer_len tmp - length data) data (mem tmp) = Inr mm"
      "length mm = length (mem tmp)" "take (length data) (drop (buffer_len tmp - length data) mm) = data"
      using poke_ok [OF le] by blast
    define t where "t = tmp\<lparr>mem := mm, off := length data, misalign := buffer_len tmp - length data\<rparr>"
    have t: "chain_ok t" "chain_data t = data" "off t = length data"
      using tmp mm by (auto simp: t_def chain_ok_def chain_data_def)
    define v where "v = (if w = 0 \<and> off (cs ! 0) = 0 then 0 else Suc w)"
    have l: "layout (t # cs) v" "datas (t # cs) = data @ bytes_of b"
      using lay t ne bs len lwd_cons [of cs w t] by (auto simp: layout_def v_def)
    have "b\<lparr>chains := t # cs, last_at := Suc (length cs), last_with_datap := v,
            total_len := length (datas cs) + length data\<rparr> = form (t # cs) v b"
      by (subst f) (simp add: form_def l(2) [unfolded datas_simps] t(2) bs add.commute)
    then have "prepend_chain m b data
        = Inr (0, evbuffer_invoke_callbacks (count_added (length data) (form (t # cs) v b)))"
      using tmp(2) Some mm(1) unfolding prepend_chain_def cw
      by (simp only: option.case bindE_simps t_def [symmetric] v_def [symmetric] not_less if_False if_not_P)
    moreover have "ev_to b (length data) 0 (data @ bytes_of b) (count_added (length data) (form (t # cs) v b))"
      using ev_to_count(1) [OF ev_to_formI [OF b l]] by simp
    ultimately show ?thesis
      by blast
  qed
qed

definition prepend_spec :: "malloc \<Rightarrow> evbuffer \<Rightarrow> byte list \<Rightarrow> int \<times> evbuffer \<Rightarrow> bool" where
  "prepend_spec m b data = (\<lambda>(r, b').
     r = 0 \<and> data = [] \<and> b' = b
   \<or> r = 0 \<and> \<not> freeze_start b
       \<and> (\<exists>b''. ev_to b (length data) 0 (data @ bytes_of b) b'' \<and> b' = evbuffer_invoke_callbacks b'')
   \<or> r = -1 \<and> b' = b \<and> (freeze_start b \<or> length (bytes_of b) + length data \<ge> 2 ^ 64)
   \<or> r = -1 \<and> (length data > CHAIN_MAX - CHAIN_SIZE \<or> alloc_fails m)
       \<and> (\<exists>k \<le> length data. ev_to b (length data - k) 0 (drop k data @ bytes_of b) b'))"

lemma layout_upd0:
  assumes "layout cs w" "cs \<noteq> []" "chain_ok c" "w = 0 \<or> 0 < off c \<or> off c = off (cs ! 0)"
    "chain_data c = xs @ chain_data (cs ! 0)" "length (datas cs) + length xs < 2 ^ 64"
  shows "layout (cs[0 := c]) w \<and> datas (cs[0 := c]) = xs @ datas cs"
proof -
  obtain d ds where d: "cs = d # ds"
    using assms(2) by (cases cs) auto
  show ?thesis
    using assms by (cases w) (auto simp: d layout_def lwd_ok_def)
qed

text \<open>The bytes of \<open>bs\<close> written in front of the data of the first chain.\<close>

lemma front_ok:
  assumes "chain_ok c" "\<not> IMMUTABLE c" "length bs \<le> misalign c"
  shows "\<exists>mm. poke (misalign c - length bs) bs (mem c) = Inr mm
    \<and> chain_ok (c\<lparr>mem := mm, off := off c + length bs, misalign := misalign c - length bs\<rparr>)
    \<and> chain_data (c\<lparr>mem := mm, off := off c + length bs, misalign := misalign c - length bs\<rparr>)
        = bs @ chain_data c"
proof -
  let ?p = "misalign c - length bs"
  have le: "?p + length bs \<le> length (mem c)"
    using assms by (simp add: chain_ok_def)
  obtain mm where mm: "poke ?p bs (mem c) = Inr mm" "length mm = length (mem c)"
    "take (length bs) (drop ?p mm) = bs" "drop (?p + length bs) mm = drop (?p + length bs) (mem c)"
    using poke_ok [OF le] by blast
  have "take (length bs + off c) (drop ?p mm) = bs @ chain_data c"
    using mm(3,4) assms(3) take_add [of "length bs" "off c" "drop ?p mm"]
    by (simp add: chain_data_def)
  then show ?thesis
    using assms mm(1,2) by (simp add: chain_ok_def chain_data_def add.commute)
qed

lemma prepend_to_ok:
  assumes m: "malloc_sized m" and b: "ev_inv b" and ne: "chains b \<noteq> []" and fr: "\<not> freeze_start b"
    and len: "length (bytes_of b) + length data < 2 ^ 64" and d: "data \<noteq> []"
  shows "\<exists>r. prepend_to m b data = Inr r \<and> prepend_spec m b data r"
proof -
  obtain cs w where f: "b = form cs w b" and lay: "layout cs w" and bs: "bytes_of b = datas cs"
    using b by (rule ev_invE)
  have cw [simp]: "chains b = cs" "last_with_datap b = w" "total_len b = length (datas cs)"
    by (subst f, simp)+
  define c where "c = cs ! 0"
  define c0 where "c0 = (if off c = 0 then c\<lparr>misalign := buffer_len c\<rparr> else c)"
  have cs: "cs \<noteq> []"
    using ne by simp
  have c: "chain_ok c"
    using cs lay by (auto simp: c_def layout_def)
  have mis: "misalign c \<le> CHAIN_MAX"
    using c by (auto simp: chain_ok_def size_consts)
  note def = prepend_to_def [of m b data, unfolded cw, folded c_def, unfolded Let_def, folded c0_def]
  have chn: "\<exists>r. prepend_chain m b' ys = Inr r \<and> prepend_spec m b data r"
    if th: "ev_inv b'" "ev_to b (length zs) 0 (zs @ bytes_of b) b'" "data = ys @ zs" "chains b' \<noteq> []"
    for b' ys zs
  proof -
    have bb: "bytes_of b' = zs @ bytes_of b"
      using ev_to_bytes [OF th(2)] .
    have l: "length (bytes_of b') + length ys < 2 ^ 64"
      using len by (simp add: bb th(3))
    obtain r b2 where r: "prepend_chain m b' ys = Inr (r, b2)"
      "r = 0 \<and> (\<exists>b''. ev_to b' (length ys) 0 (ys @ bytes_of b') b'' \<and> b2 = evbuffer_invoke_callbacks b'')
       \<or> r = -1 \<and> b2 = b' \<and> (length ys > CHAIN_MAX - CHAIN_SIZE \<or> alloc_fails m)"
      using prepend_chain_ok [OF m th(1,4) l] by blast
    have "prepend_spec m b data (r, b2)"
    proof (cases "r = 0")
      case True
      with r(2) obtain b'' where b'': "ev_to b' (length ys) 0 (ys @ bytes_of b') b''"
        "b2 = evbuffer_invoke_callbacks b''"
        by auto
      from ev_to_trans [OF th(2) b''(1)] have "ev_to b (length data) 0 (data @ bytes_of b) b''"
        by (simp add: bb th(3) add.commute)
      with True b''(2) fr show ?thesis
        by (auto simp: prepend_spec_def)
    next
      case False
      with r(2) have r': "r = -1" "b2 = b'" "length ys > CHAIN_MAX - CHAIN_SIZE \<or> alloc_fails m"
        by auto
      have "ev_to b (length data - length ys) 0 (drop (length ys) data @ bytes_of b) b'"
        using th(2,3) by simp
      moreover have "length ys \<le> length data"
        by (simp add: th(3))
      ultimately have "\<exists>k \<le> length data. ev_to b (length data - k) 0 (drop k data @ bytes_of b) b'"
        by blast
      moreover have "length data > CHAIN_MAX - CHAIN_SIZE \<or> alloc_fails m"
        using r'(3) th(3) by auto
      ultimately show ?thesis
        using r'(1,2) by (simp add: prepend_spec_def)
    qed
    with r(1) show ?thesis
      by blast
  qed
  show ?thesis
  proof (cases "IMMUTABLE c")
    case True
    have "ev_to b (length []) 0 ([] @ bytes_of b) b"
      using ev_to_refl [OF b] by simp
    from chn [OF b this, of data] ne True show ?thesis
      by (simp add: def)
  next
    case im: False
    have c0: "chain_ok c0" "\<not> IMMUTABLE c0" "chain_data c0 = chain_data c" "off c0 = off c"
      using c im by (auto simp: c0_def chain_ok_def)
    have put: "\<exists>b'. bindE (poke (misalign c0 - length zs) zs (mem c0)) (\<lambda>mm.
        Inr (count_added (length zs) (b\<lparr>chains := cs[0 := c0\<lparr>mem := mm, off := off c0 + length zs,
            misalign := misalign c0 - length zs\<rparr>], total_len := length (datas cs) + length zs\<rparr>)))
        = Inr b' \<and> ev_to b (length zs) 0 (zs @ bytes_of b) b' \<and> chains b' \<noteq> []"
      if zs: "length zs \<le> misalign c0" "length zs \<le> length data" for zs
    proof -
      obtain mm where mm: "poke (misalign c0 - length zs) zs (mem c0) = Inr mm"
        and ok: "chain_ok (c0\<lparr>mem := mm, off := off c0 + length zs, misalign := misalign c0 - length zs\<rparr>)"
        and dat: "chain_data (c0\<lparr>mem := mm, off := off c0 + length zs,
            misalign := misalign c0 - length zs\<rparr>) = zs @ chain_data c"
        using front_ok [OF c0(1,2) zs(1)] c0(3) by auto
      define c1 where "c1 = c0\<lparr>mem := mm, off := off c0 + length zs, misalign := misalign c0 - length zs\<rparr>"
      have l: "layout (cs[0 := c1]) w \<and> datas (cs[0 := c1]) = zs @ datas cs"
      proof (rule layout_upd0 [OF lay cs])
        show "chain_ok c1" "chain_data c1 = zs @ chain_data (cs ! 0)"
          using ok dat by (simp_all add: c1_def c_def)
        show "length (datas cs) + length zs < 2 ^ 64"
          using len zs(2) bs by simp
        show "w = 0 \<or> 0 < off c1 \<or> off c1 = off (cs ! 0)"
          using c0(4) by (auto simp: c1_def c_def)
      qed
      have "b\<lparr>chains := cs[0 := c1], total_len := length (datas cs) + length zs\<rparr> = form (cs[0 := c1]) w b"
        using l by (subst f) (simp add: form_def add.commute)
      moreover have "ev_to b (length zs) 0 (zs @ bytes_of b) (count_added (length zs) (form (cs[0 := c1]) w b))"
        using ev_to_count(1) [OF ev_to_formI [OF b conjunct1 [OF l] conjunct2 [OF l]]] by (simp add: bs)
      ultimately show ?thesis
        using mm cs by (simp add: c1_def)
    qed
    consider "length data \<le> misalign c0" | "\<not> length data \<le> misalign c0" "misalign c0 \<noteq> 0"
      | "\<not> length data \<le> misalign c0" "misalign c0 = 0"
      by blast
    then show ?thesis
    proof cases
      case 1
      then show ?thesis
        using put [OF 1] mis im fr by (auto simp: def prepend_spec_def)
    next
      case 2
      let ?zs = "drop (length data - misalign c0) data"
      obtain b' where b': "bindE (poke (misalign c0 - length ?zs) ?zs (mem c0)) (\<lambda>mm.
        Inr (count_added (length ?zs) (b\<lparr>chains := cs[0 := c0\<lparr>mem := mm, off := off c0 + length ?zs,
            misalign := misalign c0 - length ?zs\<rparr>], total_len := length (datas cs) + length ?zs\<rparr>)))
        = Inr b'" "ev_to b (length ?zs) 0 (?zs @ bytes_of b) b'" "chains b' \<noteq> []"
        using put [of ?zs] 2 by auto
      show ?thesis
        using chn [OF ev_to_inv [OF b b'(2)] b'(2) _ b'(3), of "take (length data - misalign c0) data"]
          2 im mis b'(1) by (simp add: def)
    next
      case 3
      have l: "layout (cs[0 := c0]) w \<and> datas (cs[0 := c0]) = [] @ datas cs"
        by (rule layout_upd0 [OF lay cs c0(1)]) (use c0 len bs in \<open>auto simp: c_def\<close>)
      have e: "b\<lparr>chains := cs[0 := c0]\<rparr> = form (cs[0 := c0]) w b"
        using l by (subst f) (simp add: form_def)
      have "ev_to b (length []) 0 ([] @ bytes_of b) (form (cs[0 := c0]) w b)"
        using ev_to_formI [OF b conjunct1 [OF l]] l by (simp add: bs)
      from chn [OF ev_to_inv [OF b this] this, of data] cs 3 im mis show ?thesis
        by (simp add: def e)
    qed
  qed
qed

lemma prepend_ok:
  assumes m: "malloc_sized m" and b: "ev_inv b"
  shows "\<exists>r. evbuffer_prepend m b data = Inr r \<and> prepend_spec m b data r"
proof (cases "data = [] \<or> freeze_start b \<or> length data > SIZE_MAX - total_len b")
  case True
  with b show ?thesis
    unfolding evbuffer_prepend_def by (auto simp: prepend_spec_def ev_inv_def SIZE_MAX_def)
next
  case False
  then have fr: "\<not> freeze_start b" and ne: "data \<noteq> []" and len: "length (bytes_of b) + length data < 2 ^ 64"
    using b by (auto simp: ev_inv_def layout_def bytes_of_def SIZE_MAX_def)
  show ?thesis
  proof (cases "chains b = []")
    case nc: False
    then show ?thesis
      using prepend_to_ok [OF m b nc fr len ne] False unfolding evbuffer_prepend_def by simp
  next
    case em: True
    then have z: "last_at b = 0" "last_with_datap b = 0" "bytes_of b = []"
      using b by (auto simp: ev_inv_def layout_def lwd_ok_def bytes_of_def)
    show ?thesis
    proof (cases "evbuffer_chain_new m (length data)")
      case None
      have "ev_to b (length data - length data) 0 (drop (length data) data @ bytes_of b) b"
        using ev_to_refl [OF b] by simp
      with None False z em show ?thesis
        by (auto simp: evbuffer_prepend_def prepend_spec_def not_less intro: alloc_failsI)
    next
      case (Some c)
      note c = chain_new_ok [OF m Some]
      let ?b = "form [c] 0 b"
      have b0: "b = form [] 0 b" "layout [] 0" "layout [c] 0"
        using form_self [OF b] em z c by (auto simp: layout_def lwd_ok_def)
      have ins: "evbuffer_chain_insert b c = Inr ?b"
        using chain_insert_ok [OF b0(2) c(1), of b] c(4) b0(1) by (simp add: used_def)
      have ib: "ev_inv ?b"
        using ev_inv_form [OF b b0(3)] .
      obtain r where r: "prepend_to m ?b data = Inr r" "prepend_spec m ?b data r"
        using prepend_to_ok [OF m ib _ _ _ ne] fr len z c(4) by auto
      have tr: "ev_to b a d xs b''" if "ev_to ?b a d xs b''" for a d xs b''
        using ev_to_trans [OF ev_to_formI [OF b b0(3) refl] that] by simp
      have "evbuffer_prepend m b data = Inr r"
        using False em Some ins r(1) by (simp add: evbuffer_prepend_def)
      moreover have "prepend_spec m b data r"
        using r(2) fr z(3) c(4) ne len by (auto simp: prepend_spec_def intro: tr)
      ultimately show ?thesis
        by blast
    qed
  qed
qed

end
