(* ===== verification/Evbuf_Take.thy ===== *)
theory Evbuf_Take
  imports Evbuf_Add
begin

text \<open>
  Taking bytes from the front of a buffer: \<open>evbuffer_drain\<close>, \<open>evbuffer_copyout_from\<close>,
  \<open>evbuffer_remove\<close> and \<open>evbuffer_pullup\<close>. A chain that is freed leaves the list; a pointer
  to a \<open>next\<close> field of a freed chain that the code would keep is a fault.
\<close>

section \<open>Draining\<close>

definition HAS_PINNED_R :: "evbuffer \<Rightarrow> bool" where
  "HAS_PINNED_R b \<longleftrightarrow> last_at b \<noteq> 0 \<and> CHAIN_PINNED_R (chains b ! (last_at b - 1))"

definition ZERO_CHAIN :: "evbuffer \<Rightarrow> evbuffer" where
  "ZERO_CHAIN b = b\<lparr>chains := [], last_at := 0, last_with_datap := 0, total_len := 0\<rparr>"

text \<open>
  The loop that frees chains, from chain number \<open>i\<close> on: how many chains are gone, the bytes
  remaining, where \<open>last_with_datap\<close> points (still in the old numbering), what is left.
\<close>

fun drain_loop :: "nat \<Rightarrow> nat \<Rightarrow> nat \<Rightarrow> evbuffer_chain list
    \<Rightarrow> (nat \<times> nat \<times> nat \<times> evbuffer_chain list) res" where
  "drain_loop i remaining l [] = Inl NullDeref"
| "drain_loop i remaining l (c # cs) =
    (if remaining \<ge> off c then
       let remaining = remaining - off c;
           l = (if i = l then 0 else l);
           l = (if Suc i = l then 0 else l) in
       if CHAIN_PINNED_R c then
         if remaining = 0
         then Inr (i, remaining, l, c\<lparr>misalign := misalign c + off c, off := 0\<rparr> # cs)
         else Inl AssertFailed
       else drain_loop (Suc i) remaining l cs
     else Inr (i, remaining, l, c # cs))"

definition evbuffer_drain :: "evbuffer \<Rightarrow> nat \<Rightarrow> (int \<times> evbuffer) res" where
  "evbuffer_drain b len =
    (let old_len = total_len b in
     if old_len = 0 then Inr (0, b)
     else if freeze_start b then Inr (-1, b)
     else if len \<ge> old_len \<and> \<not> HAS_PINNED_R b
     then Inr (0, evbuffer_invoke_callbacks (count_deleted old_len (ZERO_CHAIN b)))
     else
       let len = (if len \<ge> old_len then old_len else len) in
       bindE (drain_loop 0 len (last_with_datap b) (chains b)) (\<lambda>(n, remaining, l, cs).
       case cs of
         [] \<Rightarrow> Inl NullDeref
       | c # cs \<Rightarrow>
           if off c < remaining then Inl AssertFailed
           else if l \<noteq> 0 \<and> l \<le> n \<or> last_at b \<le> n then Inl NullDeref
           else Inr (0, evbuffer_invoke_callbacks (count_deleted len
             (b\<lparr>total_len := old_len - len,
                chains := c\<lparr>misalign := misalign c + remaining, off := off c - remaining\<rparr> # cs,
                last_with_datap := l - n, last_at := last_at b - n\<rparr>)))))"

section \<open>Copying out\<close>

text \<open>A position in a buffer: the chain (by its number, NULL past the end) and the place in it.\<close>

record evbuffer_ptr =
  pos :: int
  ptr_chain :: "nat option"
  pos_in_chain :: nat

definition SSIZE_MAX :: int where "SSIZE_MAX = 2 ^ 63 - 1"

fun copy_loop :: "nat \<Rightarrow> nat \<Rightarrow> evbuffer_chain list \<Rightarrow> byte list res" where
  "copy_loop datlen p [] = (if datlen = 0 then Inr [] else Inl NullDeref)"
| "copy_loop datlen p (c # cs) =
    (if datlen = 0 then Inr []
     else if p \<le> off c \<and> datlen \<ge> off c - p then
       let copylen = off c - p in
       bindE (peek (misalign c + p) copylen (mem c)) (\<lambda>bs.
       if cs = [] \<and> datlen - copylen \<noteq> 0 then Inl AssertFailed
       else bindE (copy_loop (datlen - copylen) 0 cs) (\<lambda>bs'. Inr (bs @ bs')))
     else if datlen + p \<le> off c then peek (misalign c + p) datlen (mem c)
     else Inl AssertFailed)"

text \<open>
  The result is the code's, with the bytes stored at the caller's address. The subtraction
  \<open>EV_SSIZE_MAX - pos->pos\<close> overflows for a position that was not found.
\<close>

definition evbuffer_copyout_from ::
  "evbuffer \<Rightarrow> evbuffer_ptr option \<Rightarrow> nat \<Rightarrow> (int \<times> byte list) res" where
  "evbuffer_copyout_from b start datlen =
    (let go = (\<lambda>datlen cs p.
       if datlen = 0 then Inr (0, [])
       else if freeze_start b then Inr (-1, [])
       else bindE (copy_loop datlen p cs) (\<lambda>bs. Inr (int datlen, bs))) in
     case start of
       None \<Rightarrow> go (if datlen > total_len b then total_len b else datlen) (chains b) 0
     | Some q \<Rightarrow>
         if pos q < 0 then Inl OutOfBounds
         else if int datlen > SSIZE_MAX - pos q then Inr (-1, [])
         else go (if int datlen + pos q > int (total_len b)
                  then nat ((int (total_len b) - pos q) mod 2 ^ 64) else datlen)
                 (case ptr_chain q of None \<Rightarrow> [] | Some k \<Rightarrow> drop k (chains b)) (pos_in_chain q))"

definition evbuffer_copyout :: "evbuffer \<Rightarrow> nat \<Rightarrow> (int \<times> byte list) res" where
  "evbuffer_copyout b datlen = evbuffer_copyout_from b None datlen"

text \<open>The value returned is an \<open>int\<close>.\<close>

definition as_int :: "int \<Rightarrow> int" where
  "as_int n = sint (word_of_int n :: u32)"

definition evbuffer_remove :: "evbuffer \<Rightarrow> nat \<Rightarrow> (int \<times> byte list \<times> evbuffer) res" where
  "evbuffer_remove b datlen =
     bindE (evbuffer_copyout_from b None datlen) (\<lambda>(n, bs).
     if n > 0
     then bindE (evbuffer_drain b (nat n)) (\<lambda>(r, b). Inr (as_int (if r < 0 then -1 else n), bs, b))
     else Inr (as_int n, bs, b))"

section \<open>Pulling up\<close>

fun pull_blocked :: "nat \<Rightarrow> evbuffer_chain list \<Rightarrow> bool" where
  "pull_blocked remaining [] \<longleftrightarrow> False"
| "pull_blocked remaining (c # cs) \<longleftrightarrow>
     CHAIN_PINNED c \<or> off c < remaining \<and> pull_blocked (remaining - off c) cs"

text \<open>
  The loop that copies and frees the chains that are pulled up entirely, from chain number \<open>i\<close>
  on. \<open>lw\<close> is the chain that \<open>last_with_data\<close> held before it, \<open>l\<close> the place \<open>last_with_datap\<close>
  points at; \<open>rl\<close> and \<open>rp\<close> say whether one of them has been freed.
\<close>

fun pull_loop :: "nat \<Rightarrow> nat \<Rightarrow> nat option \<Rightarrow> nat \<Rightarrow> bool \<Rightarrow> bool \<Rightarrow> evbuffer_chain list
    \<Rightarrow> (byte list \<times> nat \<times> nat \<times> bool \<times> bool \<times> evbuffer_chain list) res" where
  "pull_loop i sz lw l rl rp [] = Inr ([], i, sz, rl, rp, [])"
| "pull_loop i sz lw l rl rp (c # cs) =
    (if sz \<ge> off c then
       bindE (peek (misalign c) (off c) (mem c)) (\<lambda>bs.
       bindE (pull_loop (Suc i) (sz - off c) lw l (rl \<or> lw = Some i) (rp \<or> l = Suc i) cs)
         (\<lambda>(bs', r). Inr (bs @ bs', r)))
     else Inr ([], i, sz, rl, rp, c # cs))"

text \<open>
  The rest of the function once \<open>tmp\<close>, the chain that takes the bytes, is chosen: they go to
  the place \<open>p\<close> of its memory, and come from the chains \<open>cs\<close>, numbered from \<open>s\<close> on. In the
  list afterwards \<open>tmp\<close> is first.
\<close>

definition pull_into :: "evbuffer \<Rightarrow> evbuffer_chain \<Rightarrow> nat \<Rightarrow> nat \<Rightarrow> nat \<Rightarrow> nat option
    \<Rightarrow> evbuffer_chain list \<Rightarrow> (byte list option \<times> evbuffer) res" where
  "pull_into b tmp p s sz lw cs =
    bindE (pull_loop s sz lw (last_with_datap b) False False cs) (\<lambda>(bs, n, sz, rl, rp, rest).
    bindE (case rest of
             [] \<Rightarrow> Inr (bs, [])
           | c # rest \<Rightarrow>
               bindE (peek (misalign c) sz (mem c)) (\<lambda>bs'.
               Inr (bs @ bs', c\<lparr>misalign := misalign c + sz, off := off c - sz\<rparr> # rest)))
      (\<lambda>(bs, rest).
    bindE (poke p bs (mem tmp)) (\<lambda>mm.
    bindE (if rl then Inr 0
           else if rp then Inr (case rest of [] \<Rightarrow> 0 | c # _ \<Rightarrow> if off c \<noteq> 0 then 1 else 0)
           else if last_with_datap b = 0 then Inr 0
           else if n \<le> last_with_datap b - 1 then Inr (Suc (last_with_datap b) - n)
           else if s = 1 \<and> last_with_datap b = 1 then Inr 1
           else Inl NullDeref) (\<lambda>l.
    bindE (if rest = [] then Inr 1
           else if last_at b \<le> n then Inl NullDeref else Inr (Suc (last_at b) - n)) (\<lambda>la.
    let tmp = tmp\<lparr>mem := mm\<rparr> in
    Inr (Some (chain_data tmp),
         b\<lparr>chains := tmp # rest, last_with_datap := l, last_at := la\<rparr>))))))"

text \<open>The pointer returned is represented by the data found there, NULL by \<open>None\<close>.\<close>

definition evbuffer_pullup :: "malloc \<Rightarrow> evbuffer \<Rightarrow> int \<Rightarrow> (byte list option \<times> evbuffer) res" where
  "evbuffer_pullup m b len =
    (let sz = (if len < 0 then total_len b else nat len) in
     if sz = 0 \<or> sz > total_len b then Inr (None, b)
     else
       case chains b of
         [] \<Rightarrow> Inl NullDeref
       | c # cs \<Rightarrow>
           if off c \<ge> sz then Inr (Some (chain_data c), b)
           else if pull_blocked (sz - off c) cs then Inr (None, b)
           else if CHAIN_PINNED c then
             if CHAIN_SPACE_LEN c < sz - off c then Inr (None, b)
             else pull_into b (c\<lparr>off := sz\<rparr>) (misalign c + off c) 1 (sz - off c)
                    (Some (last_with_datap b)) cs
           else if buffer_len c - misalign c \<ge> sz
           then pull_into b (c\<lparr>off := sz\<rparr>) (misalign c + off c) 1 (sz - off c)
                  (Some (last_with_datap b)) cs
           else
             case evbuffer_chain_new m sz of
               None \<Rightarrow> Inr (None, b)
             | Some tmp \<Rightarrow>
                 pull_into b (tmp\<lparr>off := sz\<rparr>) 0 0 sz
                   (if last_with_datap b = 0 then None else Some (last_with_datap b)) (c # cs))"

end
