(* ===== verification/Evbuf_Take_Inv.thy ===== *)
theory Evbuf_Take_Inv
  imports Evbuf_Take
begin

text \<open>Draining, copying out and pulling up, on byte sequences.\<close>

section \<open>Draining\<close>

lemma datas_len_cons: "chain_ok c \<Longrightarrow> length (datas (c # cs)) = off c + length (datas cs)"
  by simp

lemma drain_loop_ok:
  assumes "\<forall>c\<in>set cs. chain_ok c" "remaining < length (datas cs)"
  shows "\<exists>pre c post r. cs = pre @ c # post \<and> remaining = length (datas pre) + r \<and> r < off c
    \<and> drain_loop i remaining l cs
        = Inr (i + length pre, r, if pre \<noteq> [] \<and> i \<le> l \<and> l \<le> i + length pre then 0 else l, c # post)"
  using assms
proof (induction cs arbitrary: i remaining l)
  case (Cons c cs)
  have c: "chain_ok c" "\<not> CHAIN_PINNED_R c"
    using Cons.prems(1) pinned_r [of c] by (auto simp: chain_ok_def)
  show ?case
  proof (cases "off c \<le> remaining")
    case False
    then show ?thesis
      by (intro exI [of _ "[]"]) simp
  next
    case True
    define l' where "l' = (let l = (if i = l then 0 else l) in if Suc i = l then 0 else l)"
    have "remaining - off c < length (datas cs)"
      using Cons.prems True c by simp
    then obtain pre d post r where IH: "cs = pre @ d # post" "remaining - off c = length (datas pre) + r"
      "r < off d" "drain_loop (Suc i) (remaining - off c) l' cs
        = Inr (Suc i + length pre, r, if pre \<noteq> [] \<and> Suc i \<le> l' \<and> l' \<le> Suc i + length pre then 0 else l',
               d # post)"
      using Cons.IH [of "remaining - off c" "Suc i" l'] Cons.prems(1) by auto
    have "drain_loop i remaining l (c # cs) = drain_loop (Suc i) (remaining - off c) l' cs"
      using True c(2) by (simp add: l'_def Let_def)
    then have "drain_loop i remaining l (c # cs) = Inr (i + length (c # pre), r,
        if (c # pre) \<noteq> [] \<and> i \<le> l \<and> l \<le> i + length (c # pre) then 0 else l, d # post)"
      unfolding IH(4) by (auto simp: l'_def Let_def)
    moreover have "remaining = length (datas (c # pre)) + r" "c # cs = (c # pre) @ d # post"
      using IH(1,2) True c by simp_all
    ultimately show ?thesis
      using IH(3) by blast
  qed
qed simp

lemma chain_cut_ok:
  assumes "chain_ok c" "r < off c"
  shows "chain_ok (c\<lparr>misalign := misalign c + r, off := off c - r\<rparr>)"
    "chain_data (c\<lparr>misalign := misalign c + r, off := off c - r\<rparr>) = drop r (chain_data c)"
  using assms by (auto simp: chain_ok_def chain_data_def drop_take add.commute)

text \<open>Chains in front are gone: where \<open>last_with_datap\<close> is then.\<close>

lemma lwd_drop:
  assumes "lwd_ok (pre @ c # post) l" "off c \<noteq> 0" "off c' \<noteq> 0"
  shows "pre = [] \<or> l = length pre \<or> length pre < l"
    "lwd_ok (c' # post) (if l \<le> length pre then 0 else l - length pre)"
proof -
  have le: "length pre \<le> l"
  proof (rule ccontr)
    assume "\<not> length pre \<le> l"
    then have "c \<in> set (drop (Suc l) (pre @ c # post))"
      by simp
    with assms(1,2) show False
      by (auto simp: lwd_ok_def)
  qed
  then show "pre = [] \<or> l = length pre \<or> length pre < l"
    by auto
  show "lwd_ok (c' # post) (if l \<le> length pre then 0 else l - length pre)"
    using assms le by (cases "l = length pre") (auto simp: lwd_ok_def nth_append Suc_diff_le)
qed

lemma not_has_pinned:
  assumes "ev_inv b"
  shows "\<not> HAS_PINNED_R b"
proof -
  have "\<not> CHAIN_PINNED (chains b ! (last_at b - 1))" if "last_at b \<noteq> 0"
    using assms that by (auto simp: ev_inv_def layout_def chain_ok_def)
  then show ?thesis
    using pinned_r by (auto simp: HAS_PINNED_R_def)
qed

definition drain_spec :: "evbuffer \<Rightarrow> nat \<Rightarrow> int \<times> evbuffer \<Rightarrow> bool" where
  "drain_spec b len = (\<lambda>(r, b').
     r = 0 \<and> bytes_of b = [] \<and> b' = b
   \<or> r = 0 \<and> bytes_of b \<noteq> [] \<and> \<not> freeze_start b
       \<and> (\<exists>b''. ev_to b 0 (min len (length (bytes_of b))) (drop len (bytes_of b)) b''
              \<and> b' = evbuffer_invoke_callbacks b'')
   \<or> r = -1 \<and> bytes_of b \<noteq> [] \<and> freeze_start b \<and> b' = b)"

lemma drain_ok:
  assumes b: "ev_inv b"
  shows "\<exists>r. evbuffer_drain b len = Inr r \<and> drain_spec b len r"
proof -
  obtain cs w where f: "b = form cs w b" and lay: "layout cs w" and bs: "bytes_of b = datas cs"
    using b by (rule ev_invE)
  have cw: "chains b = cs" "last_with_datap b = w" "total_len b = length (datas cs)"
      "last_at b = length cs"
    by (subst f, simp)+
  note np = not_has_pinned [OF b]
  consider "datas cs = []" | "datas cs \<noteq> []" "freeze_start b"
    | "datas cs \<noteq> []" "\<not> freeze_start b" "length (datas cs) \<le> len"
    | "datas cs \<noteq> []" "\<not> freeze_start b" "len < length (datas cs)"
    by linarith
  then show ?thesis
  proof cases
    case 1
    then show ?thesis
      by (simp add: evbuffer_drain_def drain_spec_def cw bs)
  next
    case 2
    then show ?thesis
      by (simp add: evbuffer_drain_def drain_spec_def cw bs Let_def)
  next
    case 3
    have l: "layout [] 0"
      by (simp add: layout_def lwd_ok_def)
    have z: "ZERO_CHAIN b = form [] 0 b"
      by (simp add: ZERO_CHAIN_def form_def)
    have "ev_to b 0 (length (datas cs)) [] (count_deleted (length (datas cs)) (form [] 0 b))"
      using ev_to_count(2) [OF ev_to_formI [OF b l refl]] by simp
    with 3 np show ?thesis
      by (auto simp: evbuffer_drain_def drain_spec_def cw bs Let_def z)
  next
    case 4
    obtain pre c post r where d: "cs = pre @ c # post" "len = length (datas pre) + r" "r < off c"
      "drain_loop 0 len w cs = Inr (length pre, r, if pre \<noteq> [] \<and> w \<le> length pre then 0 else w, c # post)"
      using drain_loop_ok [of cs len 0 w] layoutD(1) [OF lay] 4(3) by auto
    define c' where "c' = c\<lparr>misalign := misalign c + r, off := off c - r\<rparr>"
    define l where "l = (if pre \<noteq> [] \<and> w \<le> length pre then 0 else w)"
    define v where "v = (if w \<le> length pre then 0 else w - length pre)"
    have ok: "chain_ok c" and okp: "\<forall>x\<in>set pre. chain_ok x"
      using layoutD(1) [OF lay] by (auto simp: d(1))
    note c' = chain_cut_ok [OF ok d(3), folded c'_def]
    have nz: "off c \<noteq> 0" "off c' \<noteq> 0"
      using d(3) by (auto simp: c'_def)
    have lw: "lwd_ok (c' # post) v" "pre = [] \<or> w = length pre \<or> length pre < w"
      using lwd_drop [OF layoutD(2) [OF lay, unfolded d(1)] nz] by (simp_all add: v_def)
    have lv: "l - length pre = v" "\<not> (l \<noteq> 0 \<and> l \<le> length pre)"
      using lw(2) by (auto simp: l_def v_def)
    have da: "datas (c' # post) = drop len (datas cs)"
      using d(3) c'(2) ok by (simp add: d(1,2))
    have "layout (c' # post) v"
      using lay lw(1) c'(1) da layoutD(3) [OF lay] by (auto simp: layout_def d(1))
    then have ev: "ev_to b 0 len (drop len (datas cs)) (count_deleted len (form (c' # post) v b))"
      using ev_to_count(2) [OF ev_to_formI [OF b _ da]] by simp
    have tl: "length (datas cs) - len = length (datas (c' # post))"
      by (simp only: da length_drop)
    have "b\<lparr>total_len := length (datas cs) - len, chains := c' # post, last_with_datap := l - length pre,
            last_at := length cs - length pre\<rparr> = form (c' # post) v b"
      unfolding tl lv(1) by (simp add: form_def d(1))
    then have "evbuffer_drain b len
        = Inr (0, evbuffer_invoke_callbacks (count_deleted len (form (c' # post) v b)))"
      using 4 d(3) lv(2) unfolding evbuffer_drain_def Let_def cw
      by (simp add: d(4) l_def [symmetric] c'_def [symmetric]) (simp add: d(1))
    moreover have "min len (length (datas cs)) = len"
      using 4 by simp
    ultimately show ?thesis
      using 4 ev bs by (auto simp: drain_spec_def)
  qed
qed

section \<open>Copying out\<close>

lemma peek_data:
  assumes "chain_ok c" "p + n \<le> off c"
  shows "peek (misalign c + p) n (mem c) = Inr (take n (drop p (chain_data c)))"
  using assms by (auto simp: peek_def chain_ok_def chain_data_def drop_take add.commute min_def)

lemma copy_loop_ok:
  assumes "\<forall>c\<in>set cs. chain_ok c" "p + n \<le> length (datas cs)" "cs \<noteq> [] \<longrightarrow> p \<le> off (hd cs)"
  shows "copy_loop n p cs = Inr (take n (drop p (datas cs)))"
  using assms
proof (induction cs arbitrary: n p)
  case (Cons c cs)
  have c: "chain_ok c" and p: "p \<le> off c"
    using Cons.prems by auto
  consider "n = 0" | "n \<noteq> 0" "off c - p \<le> n" | "n < off c - p"
    by linarith
  then show ?case
  proof cases
    case 2
    have pk: "peek (misalign c + p) (off c - p) (mem c) = Inr (drop p (chain_data c))"
      using peek_data [OF c, of p "off c - p"] p c by simp
    have le: "0 + (n - (off c - p)) \<le> length (datas cs)"
      using Cons.prems(2) p c by simp
    have "copy_loop (n - (off c - p)) 0 cs = Inr (take (n - (off c - p)) (datas cs))"
      using Cons.IH [of 0 "n - (off c - p)"] Cons.prems(1) le by simp
    moreover have "cs = [] \<longrightarrow> n = off c - p"
      using le 2 by auto
    ultimately show ?thesis
      using 2 p pk c by (simp add: Let_def)
  next
    case 3
    then show ?thesis
      using p c peek_data [OF c, of p n] by simp
  qed simp
qed simp

lemma copyout_ok:
  assumes b: "ev_inv b"
  shows "evbuffer_copyout_from b None n =
    Inr (if bytes_of b = [] \<or> n = 0 then (0, [])
         else if freeze_start b then (-1, [])
         else (int (min n (length (bytes_of b))), take n (bytes_of b)))"
proof -
  have l: "total_len b = length (bytes_of b)" "\<forall>c\<in>set (chains b). chain_ok c"
    using b by (auto simp: ev_inv_def layout_def)
  define k where "k = (if n > total_len b then total_len b else n)"
  have "copy_loop k 0 (chains b) = Inr (take k (bytes_of b))"
    using copy_loop_ok [of "chains b" 0 k] l by (simp add: bytes_of_def k_def)
  moreover have "take k (bytes_of b) = take n (bytes_of b)" "k = min n (length (bytes_of b))"
    "k = 0 \<longleftrightarrow> bytes_of b = [] \<or> n = 0"
    using l(1) by (auto simp: k_def)
  ultimately show ?thesis
    by (auto simp: evbuffer_copyout_from_def Let_def k_def [symmetric])
qed

text \<open>The count returned is right below 2 GB.\<close>

lemma as_int_of_nat [simp]: "k < 2 ^ 31 \<Longrightarrow> as_int (int k) = int k"
  unfolding as_int_def sint_sbintrunc' by (simp add: signed_take_bit_int_eq_self)

lemma remove_ok:
  assumes b: "ev_inv b"
  shows "\<exists>r bs b'. evbuffer_remove b n = Inr (r, bs, b') \<and>
    (if bytes_of b = [] \<or> n = 0 then r = 0 \<and> bs = [] \<and> b' = b
     else if freeze_start b then r = -1 \<and> bs = [] \<and> b' = b
     else bs = take n (bytes_of b) \<and> r = as_int (int (length bs))
        \<and> (\<exists>b''. ev_to b 0 (length bs) (drop n (bytes_of b)) b'' \<and> b' = evbuffer_invoke_callbacks b''))"
proof -
  consider "bytes_of b = [] \<or> n = 0" | "bytes_of b \<noteq> []" "n \<noteq> 0" "freeze_start b"
    | "bytes_of b \<noteq> []" "n \<noteq> 0" "\<not> freeze_start b"
    by blast
  then show ?thesis
  proof cases
    case 1
    then show ?thesis
      by (auto simp: evbuffer_remove_def copyout_ok [OF b] as_int_def)
  next
    case 2
    then show ?thesis
      by (simp add: evbuffer_remove_def copyout_ok [OF b] as_int_def)
  next
    case 3
    define k where "k = min n (length (bytes_of b))"
    have k: "0 < k" "k \<le> n" "drop k (bytes_of b) = drop n (bytes_of b)"
      "min k (length (bytes_of b)) = k" "length (take n (bytes_of b)) = k"
      using 3 by (auto simp: k_def min_def)
    obtain b' where d: "evbuffer_drain b k = Inr (0, b')"
      "\<exists>b''. ev_to b 0 k (drop n (bytes_of b)) b'' \<and> b' = evbuffer_invoke_callbacks b''"
      using drain_ok [OF b, of k] 3 k by (auto simp: drain_spec_def)
    then show ?thesis
      using 3 k by (simp add: evbuffer_remove_def copyout_ok [OF b] k_def [symmetric])
  qed
qed

section \<open>Pulling up\<close>

lemma pull_loop_ok:
  assumes "\<forall>c\<in>set cs. chain_ok c" "sz \<le> length (datas cs)"
  shows "\<exists>pre rest r. cs = pre @ rest \<and> sz = length (datas pre) + r
    \<and> (case rest of [] \<Rightarrow> r = 0 | c # _ \<Rightarrow> r < off c)
    \<and> pull_loop s sz lw l rl rp cs = Inr (datas pre, s + length pre, r,
        rl \<or> (\<exists>j. lw = Some j \<and> s \<le> j \<and> j < s + length pre),
        rp \<or> s < l \<and> l \<le> s + length pre, rest)"
  using assms
proof (induction cs arbitrary: s sz rl rp)
  case (Cons c cs)
  have c: "chain_ok c"
    using Cons.prems(1) by simp
  show ?case
  proof (cases "off c \<le> sz")
    case False
    then show ?thesis
      by (intro exI [of _ "[]"] exI [of _ "c # cs"] exI [of _ sz]) auto
  next
    case True
    have "sz - off c \<le> length (datas cs)"
      using Cons.prems(2) True c by simp
    then obtain pre rest r where IH: "cs = pre @ rest" "sz - off c = length (datas pre) + r"
      "case rest of [] \<Rightarrow> r = 0 | c # _ \<Rightarrow> r < off c"
      "pull_loop (Suc s) (sz - off c) lw l (rl \<or> lw = Some s) (rp \<or> l = Suc s) cs
        = Inr (datas pre, Suc s + length pre, r,
          (rl \<or> lw = Some s) \<or> (\<exists>j. lw = Some j \<and> Suc s \<le> j \<and> j < Suc s + length pre),
          (rp \<or> l = Suc s) \<or> Suc s < l \<and> l \<le> Suc s + length pre, rest)"
      using Cons.IH [of "sz - off c" "Suc s" "rl \<or> lw = Some s" "rp \<or> l = Suc s"] Cons.prems(1)
      by (meson list.set_intros(2))
    have pk: "peek (misalign c) (off c) (mem c) = Inr (chain_data c)"
      using peek_data [OF c, of 0 "off c"] c by simp
    have "((rl \<or> lw = Some s) \<or> (\<exists>j. lw = Some j \<and> Suc s \<le> j \<and> j < Suc s + length pre))
        = (rl \<or> (\<exists>j. lw = Some j \<and> s \<le> j \<and> j < s + length (c # pre)))"
      by (cases lw) (auto simp: less_Suc_eq_le)
    moreover have "((rp \<or> l = Suc s) \<or> Suc s < l \<and> l \<le> Suc s + length pre)
        = (rp \<or> s < l \<and> l \<le> s + length (c # pre))"
      by auto
    ultimately have "pull_loop s sz lw l rl rp (c # cs) = Inr (datas (c # pre), s + length (c # pre), r,
        rl \<or> (\<exists>j. lw = Some j \<and> s \<le> j \<and> j < s + length (c # pre)),
        rp \<or> s < l \<and> l \<le> s + length (c # pre), rest)"
      using True pk IH(4) by simp
    moreover have "sz = length (datas (c # pre)) + r"
      using IH(2) True c by simp
    ultimately show ?thesis
      using IH(1,3) by (intro exI [of _ "c # pre"] exI [of _ rest] exI [of _ r]) simp
  qed
qed auto

lemma lwd_pull:
  assumes "lwd_ok (front @ c # post) w" "off c \<noteq> 0" "off c' \<noteq> 0"
  shows "length front \<le> w" "lwd_ok (t # c' # post) (Suc w - length front)"
proof -
  show le: "length front \<le> w"
    using lwd_drop(1) [OF assms] by auto
  have "lwd_ok (c' # post) (if w \<le> length front then 0 else w - length front)"
    using lwd_drop(2) [OF assms] .
  then have "lwd_ok (c' # post) (w - length front)"
    by (simp split: if_splits)
  then show "lwd_ok (t # c' # post) (Suc w - length front)"
    using le assms(3) by (auto simp: lwd_ok_def Suc_diff_le nth_Cons')
qed

text \<open>
  The chains of the buffer are those before the loop's (\<open>head\<close>, the chain that is filled up, or
  none when a new one is used) and those of the loop.
\<close>

lemma pull_into_ok:
  assumes b: "ev_inv b" and ch: "chains b = head @ cs" "length head = s" "s \<le> 1"
    and lw: "lw = (if s = 0 \<and> last_with_datap b = 0 then None else Some (last_with_datap b))"
    and sz: "0 < sz" "sz \<le> length (datas cs)" "s = 0 \<Longrightarrow> cs \<noteq> [] \<and> off (hd cs) < sz"
    and tmp: "length (mem tmp) = buffer_len tmp" "off tmp = k + sz" "p = misalign tmp + k"
      "misalign tmp + off tmp \<le> buffer_len tmp" "buffer_len tmp \<le> CHAIN_MAX - CHAIN_SIZE"
      "\<not> CHAIN_PINNED tmp" "\<not> IMMUTABLE tmp"
    and old: "take k (drop (misalign tmp) (mem tmp)) = datas head"
  shows "\<exists>d b'. pull_into b tmp p s sz lw cs = Inr (Some d, b') \<and> ev_to b 0 0 (bytes_of b) b'
    \<and> d = take (k + sz) (bytes_of b) \<and> length (datas head) = k"
proof -
  define w where "w = last_with_datap b"
  have lay: "layout (head @ cs) w" and bs: "bytes_of b = datas head @ datas cs"
    and la: "last_at b = length (head @ cs)" and tl: "total_len b = length (bytes_of b)"
    using b ch by (auto simp: ev_inv_def w_def bytes_of_def)
  obtain pre rest r where d: "cs = pre @ rest" "sz = length (datas pre) + r"
    "case rest of [] \<Rightarrow> r = 0 | c # _ \<Rightarrow> r < off c"
    and loop: "pull_loop s sz lw w False False cs = Inr (datas pre, s + length pre, r,
        \<exists>j. lw = Some j \<and> s \<le> j \<and> j < s + length pre, s < w \<and> w \<le> s + length pre, rest)"
    using pull_loop_ok [of cs sz s lw w False False] lay sz(2) by (auto simp: layout_def)
  have lt: "length (take sz (datas cs)) = sz"
    using sz(2) by simp
  define rest' where "rest' = (case rest of [] \<Rightarrow> [] | c # rest \<Rightarrow>
      c\<lparr>misalign := misalign c + r, off := off c - r\<rparr> # rest)"
  have cut: "(case rest of [] \<Rightarrow> Inr (datas pre, [])
      | c # rest \<Rightarrow> bindE (peek (misalign c) r (mem c)) (\<lambda>bs'.
           Inr (datas pre @ bs', c\<lparr>misalign := misalign c + r, off := off c - r\<rparr> # rest)))
      = Inr (take sz (datas cs), rest')"
    and rd: "datas rest' = drop sz (datas cs)" and rok: "\<forall>c\<in>set rest'. chain_ok c"
  proof -
    show "(case rest of [] \<Rightarrow> Inr (datas pre, [])
      | c # rest \<Rightarrow> bindE (peek (misalign c) r (mem c)) (\<lambda>bs'.
           Inr (datas pre @ bs', c\<lparr>misalign := misalign c + r, off := off c - r\<rparr> # rest)))
      = Inr (take sz (datas cs), rest')"
    proof (cases rest)
      case Nil
      then show ?thesis
        using d by (simp add: rest'_def)
    next
      case (Cons c post)
      have c: "chain_ok c" and r: "r < off c"
        using lay d(3) by (auto simp: layout_def d(1) Cons)
      have "peek (misalign c) r (mem c) = Inr (take r (chain_data c))"
        using peek_data [OF c, of 0 r] r by simp
      then show ?thesis
        using d(2) r c by (simp add: rest'_def Cons d(1))
    qed
    show "datas rest' = drop sz (datas cs)" "\<forall>c\<in>set rest'. chain_ok c"
      using lay d(2,3) chain_cut_ok [of "hd rest" r]
      by (cases rest; simp add: rest'_def d(1) layout_def)+
  qed
  have le: "p + length (take sz (datas cs)) \<le> length (mem tmp)"
    using tmp lt by simp
  obtain mm where mm: "poke p (take sz (datas cs)) (mem tmp) = Inr mm" "length mm = length (mem tmp)"
    "take p mm = take p (mem tmp)" "take (length (take sz (datas cs))) (drop p mm) = take sz (datas cs)"
    using poke_ok [OF le] by blast
  define t where "t = tmp\<lparr>mem := mm\<rparr>"
  have klen: "length (datas head) = k"
    using old [symmetric] tmp by simp
  have "take k (drop (misalign tmp) mm) = datas head"
    using mm(3) old tmp(3) by (simp add: take_drop add.commute)
  moreover have "take sz (drop k (drop (misalign tmp) mm)) = take sz (datas cs)"
    using mm(4) lt tmp(3) by (simp add: add.commute)
  ultimately have td: "chain_data t = datas head @ take sz (datas cs)"
    using tmp(2) by (simp add: t_def chain_data_def take_add)
  have tok: "chain_ok t"
    using tmp mm(2) by (simp add: t_def chain_ok_def)
  define l where "l = (if rest = [] then 0 else Suc w - (s + length pre))"
  have lw': "lwd_ok (t # rest') l \<and> (rest \<noteq> [] \<longrightarrow> s + length pre \<le> w)"
  proof (cases rest)
    case Nil
    then show ?thesis
      by (simp add: l_def rest'_def lwd_ok_def)
  next
    case (Cons c post)
    then have r: "r < off c"
      using d(3) by simp
    have "lwd_ok ((head @ pre) @ c # post) w"
      using lay by (simp add: layout_def d(1) Cons)
    from lwd_pull(1) [OF this, of "c\<lparr>misalign := misalign c + r, off := off c - r\<rparr>"]
      lwd_pull(2) [OF this, of "c\<lparr>misalign := misalign c + r, off := off c - r\<rparr>" t] r
    show ?thesis
      by (simp add: l_def rest'_def Cons ch(2))
  qed
  have ls: "(if \<exists>j. lw = Some j \<and> s \<le> j \<and> j < s + length pre then Inr 0
      else if s < w \<and> w \<le> s + length pre
           then Inr (case rest' of [] \<Rightarrow> 0 | c # _ \<Rightarrow> if off c \<noteq> 0 then 1 else 0)
      else if w = 0 then Inr 0
      else if s + length pre \<le> w - 1 then Inr (Suc w - (s + length pre))
      else if s = 1 \<and> w = 1 then Inr 1
      else Inl NullDeref) = Inr l"
  proof (cases rest)
    case Nil
    then have "cs = pre" "rest' = []"
      using d(1) by (simp_all add: rest'_def)
    moreover have "pre \<noteq> []"
      using d Nil sz(1) by auto
    ultimately have "w < s + length pre"
      using lay ch(2) by (auto simp: layout_def lwd_ok_def)
    then show ?thesis
      using ch(3) \<open>rest' = []\<close> by (cases "w = 0") (auto simp: l_def Nil lw w_def [symmetric])
  next
    case (Cons c post)
    have le: "s + length pre \<le> w"
      using lw' Cons by simp
    have ne: "s = 0 \<Longrightarrow> pre \<noteq> []"
      using sz(3) d Cons by auto
    then have "0 < s + length pre"
      by (cases s) auto
    then have "0 < w"
      using le by (rule less_le_trans)
    note le ne this
    moreover have "rest' = c\<lparr>misalign := misalign c + r, off := off c - r\<rparr> # post" "off c - r \<noteq> 0"
      using d(3) Cons by (simp_all add: rest'_def)
    ultimately show ?thesis
      using ch(3) by (auto simp: l_def Cons lw w_def [symmetric])
  qed
  have las: "(if rest' = [] then Inr 1 else if last_at b \<le> s + length pre then Inl NullDeref
      else Inr (Suc (last_at b) - (s + length pre))) = Inr (length (t # rest'))"
    using d(1) ch(2) la by (cases rest) (auto simp: rest'_def)
  have da: "datas (t # rest') = bytes_of b"
    using td rd bs by simp
  have lay': "layout (t # rest') l"
    using lw' tok rok da lay bs by (simp add: layout_def)
  have "pull_into b tmp p s sz lw cs
      = Inr (Some (chain_data t), b\<lparr>chains := t # rest', last_with_datap := l,
             last_at := length (t # rest')\<rparr>)"
    unfolding pull_into_def w_def [symmetric] loop bindE_simps prod.case cut mm(1) ls las Let_def t_def ..
  moreover have "b\<lparr>chains := t # rest', last_with_datap := l, last_at := length (t # rest')\<rparr>
      = form (t # rest') l b"
    by (simp add: form_def da [unfolded datas_simps] tl [symmetric])
  moreover have "chain_data t = take (k + sz) (bytes_of b)"
    using td bs klen by simp
  ultimately show ?thesis
    using ev_to_formI [OF b lay' da] klen by simp
qed

lemma not_blocked: "\<forall>c\<in>set cs. chain_ok c \<Longrightarrow> \<not> pull_blocked n cs"
  by (induction cs arbitrary: n) (auto simp: chain_ok_def)

lemma ev_pullup_eq:
  "ev_pullup n b = (let k = (if n < 0 then length b else nat n) in
     if k = 0 \<or> k > length b then None else Some (take k b))"
  by (simp add: ev_pullup_def Let_def not_less)

definition pullup_spec :: "malloc \<Rightarrow> evbuffer \<Rightarrow> int \<Rightarrow> byte list option \<times> evbuffer \<Rightarrow> bool" where
  "pullup_spec m b n = (\<lambda>(p, b').
     ev_to b 0 0 (bytes_of b) b'
   \<and> (case ev_pullup n (bytes_of b) of
        None \<Rightarrow> p = None
      | Some bs \<Rightarrow> (case p of None \<Rightarrow> length bs > CHAIN_MAX - CHAIN_SIZE \<or> alloc_fails m
                   | Some ds \<Rightarrow> take (length bs) ds = bs)))"

lemma pullup_ok:
  assumes m: "malloc_sized m" and b: "ev_inv b"
  shows "\<exists>r. evbuffer_pullup m b n = Inr r \<and> pullup_spec m b n r"
proof -
  define k where "k = (if n < 0 then total_len b else nat n)"
  have tl: "total_len b = length (bytes_of b)"
    using b by (simp add: ev_inv_def)
  have ks: "ev_pullup n (bytes_of b)
      = (if k = 0 \<or> k > length (bytes_of b) then None else Some (take k (bytes_of b)))"
    by (simp add: ev_pullup_eq k_def tl)
  note def = evbuffer_pullup_def [of m b n, folded k_def, unfolded Let_def]
  show ?thesis
  proof (cases "k = 0 \<or> k > length (bytes_of b)")
    case True
    then show ?thesis
      using ev_to_refl [OF b] by (auto simp: def ks pullup_spec_def tl k_def)
  next
    case False
    then have k: "k \<noteq> 0" "k \<le> length (bytes_of b)"
      by auto
    obtain c cs where ch: "chains b = c # cs"
      using k by (cases "chains b") (auto simp: bytes_of_def)
    have c: "chain_ok c" and cs: "\<forall>c\<in>set cs. chain_ok c"
      using b ch by (auto simp: ev_inv_def layout_def)
    have bs: "bytes_of b = chain_data c @ datas cs"
      by (simp add: bytes_of_def ch)
    have fin: "pullup_spec m b n (Some d, b')"
      if "ev_to b 0 0 (bytes_of b) b'" "take k d = take k (bytes_of b)" for d b'
      using that k by (simp add: pullup_spec_def ks)
    consider "k \<le> off c" | "off c < k" "k \<le> buffer_len c - misalign c"
      | "off c < k" "\<not> k \<le> buffer_len c - misalign c"
      by linarith
    then show ?thesis
    proof cases
      case 1
      have "take k (chain_data c) = take k (bytes_of b)"
        using 1 c bs by simp
      with 1 k fin [OF ev_to_refl [OF b]] ch show ?thesis
        by (auto simp: def tl)
    next
      case 2
      have im: "\<not> IMMUTABLE c"
        using 2 c by (auto simp: chain_ok_def)
      have "\<exists>d b'. pull_into b (c\<lparr>off := k\<rparr>) (misalign c + off c) 1 (k - off c)
            (Some (last_with_datap b)) cs = Inr (Some d, b') \<and> ev_to b 0 0 (bytes_of b) b'
          \<and> d = take (off c + (k - off c)) (bytes_of b) \<and> length (datas [c]) = off c"
        by (rule pull_into_ok [OF b, where head = "[c]"])
           (use 2 c k bs im ch in \<open>auto simp: chain_ok_def chain_data_def\<close>)
      then obtain d b' where r: "pull_into b (c\<lparr>off := k\<rparr>) (misalign c + off c) 1 (k - off c)
            (Some (last_with_datap b)) cs = Inr (Some d, b')" "ev_to b 0 0 (bytes_of b) b'"
          "d = take k (bytes_of b)"
        using 2 by auto
      show ?thesis
        using fin [OF r(2)] r(1,3) 2 k ch not_blocked [OF cs] c by (auto simp: def tl chain_ok_def)
    next
      case 3
      show ?thesis
      proof (cases "evbuffer_chain_new m k")
        case None
        have "pullup_spec m b n (None, b)"
          using ev_to_refl [OF b] k alloc_failsI [OF None] by (auto simp: pullup_spec_def ks not_less [symmetric])
        then show ?thesis
          using 3 k None ch not_blocked [OF cs] c by (auto simp: def tl chain_ok_def)
      next
        case (Some tmp)
        note tmp = chain_new_ok [OF m Some]
        have np: "\<not> CHAIN_PINNED c"
          using c by (simp add: chain_ok_def)
        let ?lw = "if last_with_datap b = 0 then None else Some (last_with_datap b)"
        have "\<exists>d b'. pull_into b (tmp\<lparr>off := k\<rparr>) 0 0 k ?lw (c # cs)
              = Inr (Some d, b') \<and> ev_to b 0 0 (bytes_of b) b'
            \<and> d = take (0 + k) (bytes_of b) \<and> length (datas []) = 0"
          by (rule pull_into_ok [OF b, where head = "[]"])
             (use 3 tmp k bs ch in \<open>auto simp: chain_ok_def\<close>)
        then obtain d b' where r: "pull_into b (tmp\<lparr>off := k\<rparr>) 0 0 k ?lw (c # cs)
              = Inr (Some d, b')" "ev_to b 0 0 (bytes_of b) b'" "d = take k (bytes_of b)"
          by auto
        show ?thesis
          using fin [OF r(2)] r(1,3) 3 k ch not_blocked [OF cs] np Some by (auto simp: def tl)
      qed
    qed
  qed
qed

end
