(* ===== verification/Evbuf_Move.thy ===== *)
theory Evbuf_Move
  imports Evbuf_Take_Inv
begin

text \<open>
  Moving bytes between buffers without copying them: \<open>evbuffer_add_buffer\<close>,
  \<open>evbuffer_prepend_buffer\<close> and \<open>evbuffer_remove_buffer\<close> relink whole chains. The two buffers
  may be the same one, so these operations work on a store, the list of all buffers; a buffer
  is its position there. \<open>evbuffer_add_reference\<close> links the memory of the caller.
\<close>

section \<open>Operations\<close>

text \<open>
  Read-pinned chains stay behind: they are cut off here and given back by \<open>RESTORE_PINNED\<close>.
  No result is the allocation having failed.
\<close>

definition PRESERVE_PINNED ::
  "malloc \<Rightarrow> evbuffer \<Rightarrow> (evbuffer_chain list \<times> evbuffer) option res" where
  "PRESERVE_PINNED m src =
    (if \<not> HAS_PINNED_R src then Inr (Some ([], src))
     else
       let w = last_with_datap src; cs = chains src;
           p = (if w < length cs \<and> CHAIN_PINNED_R (cs ! w) then w else Suc w) in
       if length cs \<le> p then Inl NullDeref
       else if \<not> CHAIN_PINNED_R (cs ! p) then Inl AssertFailed
       else
         let c = cs ! p in
         if off c \<noteq> 0 then
           if p \<noteq> w then Inl AssertFailed
           else case evbuffer_chain_new m (off c) of
             None \<Rightarrow> Inr None
           | Some tmp \<Rightarrow>
               bindE (peek (misalign c) (off c) (mem c)) (\<lambda>bs.
               bindE (poke 0 bs (mem tmp)) (\<lambda>mm.
               Inr (Some (c\<lparr>misalign := misalign c + off c, off := 0\<rparr> # drop (Suc p) cs,
                 src\<lparr>chains := take p cs @ [tmp\<lparr>mem := mm, off := off c\<rparr>], last_at := Suc p\<rparr>))))
         else Inr (Some (drop p cs, src\<lparr>chains := take p cs, last_at := Suc w\<rparr>)))"

definition RESTORE_PINNED :: "evbuffer \<Rightarrow> evbuffer_chain list \<Rightarrow> evbuffer" where
  "RESTORE_PINNED src pinned =
     (if pinned = [] then ZERO_CHAIN src
      else src\<lparr>chains := pinned, last_at := length pinned, last_with_datap := 0, total_len := 0\<rparr>)"

definition COPY_CHAIN :: "evbuffer \<Rightarrow> evbuffer \<Rightarrow> evbuffer" where
  "COPY_CHAIN dst src =
     dst\<lparr>chains := chains src,
         last_with_datap := (if last_with_datap src = 0 then 0 else last_with_datap src),
         last_at := last_at src, total_len := total_len src\<rparr>"

definition APPEND_CHAIN :: "evbuffer \<Rightarrow> evbuffer \<Rightarrow> evbuffer res" where
  "APPEND_CHAIN dst src =
     bindE (evbuffer_free_trailing_empty_chains dst) (\<lambda>(chp, dst).
     Inr (dst\<lparr>chains := take chp (chains dst) @ chains src,
              last_with_datap := (if last_with_datap src = 0 then chp else chp + last_with_datap src),
              last_at := chp + last_at src,
              total_len := szadd (total_len dst) (total_len src)\<rparr>))"

text \<open>
  The first case of the source tests \<open>*dst->last_with_datap\<close> after \<open>dst->first\<close> has changed,
  so that it is met only by a pointer into a chain.
\<close>

definition PREPEND_CHAIN :: "evbuffer \<Rightarrow> evbuffer \<Rightarrow> evbuffer" where
  "PREPEND_CHAIN dst src =
     (let n = length (chains src); w = last_with_datap dst in
      dst\<lparr>chains := chains src @ chains dst,
          total_len := szadd (total_len dst) (total_len src),
          last_with_datap :=
            (if w \<noteq> 0 \<and> length (chains dst) \<le> w
             then (if last_with_datap src = 0 then 0 else last_with_datap src)
             else if w = 0 then last_at src else n + w),
          last_at := (if last_at dst = 0 then 0 else n + last_at dst)\<rparr>)"

definition evbuffer_add_buffer ::
  "malloc \<Rightarrow> evbuffer list \<Rightarrow> nat \<Rightarrow> nat \<Rightarrow> (int \<times> evbuffer list) res" where
  "evbuffer_add_buffer m st j i =
    (let outbuf = st ! j; inbuf = st ! i;
         in_total_len = total_len inbuf; out_total_len = total_len outbuf in
     if in_total_len = 0 \<or> j = i then Inr (0, st)
     else if freeze_end outbuf \<or> freeze_start inbuf then Inr (-1, st)
     else bindE (PRESERVE_PINNED m inbuf) (\<lambda>r. case r of
         None \<Rightarrow> Inr (-1, st)
       | Some (pinned, inbuf) \<Rightarrow>
           bindE (if out_total_len = 0 then Inr (COPY_CHAIN outbuf inbuf)
                  else APPEND_CHAIN outbuf inbuf) (\<lambda>outbuf.
           let inbuf = count_deleted in_total_len (RESTORE_PINNED inbuf pinned);
               outbuf = count_added in_total_len outbuf in
           Inr (0, st[i := evbuffer_invoke_callbacks inbuf,
                      j := evbuffer_invoke_callbacks outbuf]))))"

definition evbuffer_prepend_buffer ::
  "malloc \<Rightarrow> evbuffer list \<Rightarrow> nat \<Rightarrow> nat \<Rightarrow> (int \<times> evbuffer list) res" where
  "evbuffer_prepend_buffer m st j i =
    (let outbuf = st ! j; inbuf = st ! i;
         in_total_len = total_len inbuf; out_total_len = total_len outbuf in
     if in_total_len = 0 \<or> i = j then Inr (0, st)
     else if freeze_start outbuf \<or> freeze_start inbuf then Inr (-1, st)
     else bindE (PRESERVE_PINNED m inbuf) (\<lambda>r. case r of
         None \<Rightarrow> Inr (-1, st)
       | Some (pinned, inbuf) \<Rightarrow>
           let outbuf = (if out_total_len = 0 then COPY_CHAIN outbuf inbuf
                         else PREPEND_CHAIN outbuf inbuf);
               inbuf = count_deleted in_total_len (RESTORE_PINNED inbuf pinned);
               outbuf = count_added in_total_len outbuf in
           Inr (0, st[i := evbuffer_invoke_callbacks inbuf,
                      j := evbuffer_invoke_callbacks outbuf])))"

text \<open>The walk of \<open>advance_last_with_data\<close> over the chains after the one designated.\<close>

fun advance :: "nat \<Rightarrow> nat \<Rightarrow> evbuffer_chain list \<Rightarrow> nat" where
  "advance i l [] = l"
| "advance i l (c # cs) = advance (Suc i) (if off c \<noteq> 0 then i else l) cs"

definition advance_last_with_data :: "evbuffer \<Rightarrow> evbuffer" where
  "advance_last_with_data b =
     (let w = last_with_datap b in
      if length (chains b) \<le> w then b
      else b\<lparr>last_with_datap := advance (Suc w) w (drop (Suc w) (chains b))\<rparr>)"

fun remove_loop :: "nat \<Rightarrow> nat \<Rightarrow> nat \<Rightarrow> nat \<Rightarrow> evbuffer_chain list
    \<Rightarrow> (nat \<times> nat \<times> nat \<times> nat) res" where
  "remove_loop i nread datlen l [] = Inl NullDeref"
| "remove_loop i nread datlen l (c # cs) =
    (if off c \<le> datlen then
       if i = l then Inl AssertFailed
       else remove_loop (Suc i) (nread + off c) (datlen - off c) (if l = Suc i then 0 else l) cs
     else Inr (i, nread, datlen, l))"

text \<open>
  The whole chains first, then the bytes still missing by \<open>evbuffer_add\<close>, whose result is
  not looked at.
\<close>

definition evbuffer_remove_buffer ::
  "malloc \<Rightarrow> evbuffer list \<Rightarrow> nat \<Rightarrow> nat \<Rightarrow> nat \<Rightarrow> (int \<times> evbuffer list) res" where
  "evbuffer_remove_buffer m st s d datlen =
    (let src = st ! s; dst = st ! d in
     if datlen = 0 \<or> d = s then Inr (0, st)
     else if freeze_end dst \<or> freeze_start src then Inr (-1, st)
     else if datlen \<ge> total_len src then
       bindE (evbuffer_add_buffer m st d s) (\<lambda>(_, st). Inr (as_int (int (total_len src)), st))
     else
       bindE (remove_loop 0 0 datlen (last_with_datap src) (chains src)) (\<lambda>(k, nread, datlen, l).
       if l \<noteq> 0 \<and> l \<le> k \<or> last_at src \<le> k then Inl NullDeref
       else
       bindE (if k = 0 then Inr dst
              else bindE (evbuffer_free_trailing_empty_chains dst) (\<lambda>(chp, dst).
                let moved = take k (chains src);
                    dst = (if chains dst = [] then dst\<lparr>chains := moved, last_at := k\<rparr>
                           else dst\<lparr>chains := take chp (chains dst) @ moved, last_at := chp + k\<rparr>);
                    dst = advance_last_with_data dst in
                Inr (count_added nread (dst\<lparr>total_len := szadd (total_len dst) nread\<rparr>)))) (\<lambda>dst.
       let src = src\<lparr>chains := drop k (chains src), last_with_datap := l - k,
                     last_at := last_at src - k\<rparr>;
           c = chains src ! 0 in
       bindE (peek (misalign c) datlen (mem c)) (\<lambda>bs.
       bindE (evbuffer_add m dst bs) (\<lambda>(_, dst).
       let nread = nread + datlen;
           src = count_deleted nread
             (src\<lparr>chains := (chains src)[0 := c\<lparr>misalign := misalign c + datlen,
                                               off := off c - datlen\<rparr>],
                  total_len := total_len src - nread\<rparr>) in
       Inr (as_int (int nread),
            if nread \<noteq> 0
            then st[d := evbuffer_invoke_callbacks dst, s := evbuffer_invoke_callbacks src]
            else st[d := dst, s := src]))))))"

text \<open>The cleanup function and its argument are not modelled.\<close>

definition evbuffer_add_reference :: "malloc \<Rightarrow> evbuffer \<Rightarrow> byte list \<Rightarrow> (int \<times> evbuffer) res" where
  "evbuffer_add_reference m b data =
    (case evbuffer_chain_new m 16 of
       None \<Rightarrow> Inr (-1, b)
     | Some c \<Rightarrow>
         if freeze_end b then Inr (-1, b)
         else
           bindE (evbuffer_chain_insert b
             (c\<lparr>flags := flags c OR (EVBUFFER_REFERENCE OR EVBUFFER_IMMUTABLE), mem := data,
                buffer_len := length data, off := length data\<rparr>)) (\<lambda>b.
           Inr (0, evbuffer_invoke_callbacks (count_added (length data) b))))"

end
