(* ===== verification/Evbuf_Move_Inv.thy ===== *)
theory Evbuf_Move_Inv
  imports Evbuf_Move
begin

text \<open>Relinking chains between buffers, on byte sequences.\<close>

text \<open>What a buffer has become: in order, with these bytes, as frozen as before.\<close>

definition becomes :: "evbuffer \<Rightarrow> evbuf \<Rightarrow> evbuffer \<Rightarrow> bool" where
  "becomes b bs b' \<longleftrightarrow> ev_inv b' \<and> bytes_of b' = bs
     \<and> freeze_start b' = freeze_start b \<and> freeze_end b' = freeze_end b"

lemma ev_to_becomes:
  "ev_inv b \<Longrightarrow> ev_to b a d bs b' \<Longrightarrow> becomes b bs b'"
  "ev_inv b \<Longrightarrow> ev_to b a d bs b' \<Longrightarrow> becomes b bs (evbuffer_invoke_callbacks b')"
  by (simp_all add: becomes_def ev_to_inv ev_to_bytes ev_to_freeze)

lemma becomes_refl: "ev_inv b \<Longrightarrow> becomes b (bytes_of b) b"
  by (simp add: becomes_def)

lemma becomes_invoke: "becomes b bs b' \<Longrightarrow> becomes b bs (evbuffer_invoke_callbacks b')"
  by (simp add: becomes_def)

lemma becomes_trans: "becomes b bs b' \<Longrightarrow> becomes b' cs b'' \<Longrightarrow> becomes b cs b''"
  by (simp add: becomes_def)

section \<open>Layouts joined\<close>

lemma lwd_data:
  assumes "layout cs w" "datas cs \<noteq> []"
  shows "cs \<noteq> []" "w < length cs" "off (cs ! w) \<noteq> 0"
proof -
  show ne: "cs \<noteq> []"
    using assms(2) by auto
  show w: "w < length cs"
    using lwd_at(1) [OF assms(1) ne] .
  show "off (cs ! w) \<noteq> 0"
  proof
    assume z: "off (cs ! w) = 0"
    then have "w = 0"
      using assms(1) ne by (auto simp: layout_def lwd_ok_def)
    with lwd_at(2) [OF assms(1) ne] z assms(2) show False
      by simp
  qed
qed

lemma layout_append:
  assumes "\<forall>c\<in>set as. chain_ok c" "layout cs w" "datas cs \<noteq> []"
    "length (datas as) + length (datas cs) < 2 ^ 64"
  shows "layout (as @ cs) (length as + w)"
  using assms lwd_data [OF assms(2,3)] by (auto simp: layout_def lwd_ok_def)

lemma used_ok:
  assumes "layout cs w"
  shows "datas (used cs w) = datas cs" "\<forall>c\<in>set (used cs w). chain_ok c"
    "length (used cs w) \<le> length cs" "used cs w = [] \<longrightarrow> w = 0"
    "cs \<noteq> [] \<longrightarrow> length (used cs w) = (if off (cs ! w) = 0 then w else Suc w)"
    "w \<le> length (used cs w)"
    "used cs w \<noteq> [] \<longrightarrow> w < length (used cs w) \<and> used cs w ! w = cs ! w \<and> off (cs ! w) \<noteq> 0"
proof -
  show "datas (used cs w) = datas cs"
  proof (cases "cs = []")
    case False
    obtain pre c post where d: "cs = pre @ c # post" "w = length pre" "\<forall>x\<in>set post. off x = 0"
      "pre \<noteq> [] \<longrightarrow> off c \<noteq> 0"
      using lwd_split [OF layoutD(2) [OF assms] False] .
    have "used cs w = (if off c = 0 then [] else pre @ [c])"
      using d(4) by (auto simp: used_def d(1,2))
    moreover have "datas post = []"
      using d(3) by (rule datas_empty)
    ultimately show ?thesis
      using d(4) by (auto simp: d(1))
  qed (simp add: used_def)
  show "\<forall>c\<in>set (used cs w). chain_ok c"
    using layoutD(1) [OF assms] by (auto simp: used_def dest: in_set_takeD)
  have lw: "cs = [] \<and> w = 0 \<or> w < length cs \<and> (w \<noteq> 0 \<longrightarrow> off (cs ! w) \<noteq> 0)"
    using layoutD(2) [OF assms] unfolding lwd_ok_def by blast
  show "length (used cs w) \<le> length cs"
    by (simp add: used_def)
  show len: "cs \<noteq> [] \<longrightarrow> length (used cs w) = (if off (cs ! w) = 0 then w else Suc w)"
    using lw by (auto simp: used_def min_def)
  have nil: "cs = [] \<longrightarrow> used cs w = []"
    by (simp add: used_def)
  show "used cs w = [] \<longrightarrow> w = 0" "w \<le> length (used cs w)"
    using lw len nil by (auto split: if_splits)
  show "used cs w \<noteq> [] \<longrightarrow> w < length (used cs w) \<and> used cs w ! w = cs ! w \<and> off (cs ! w) \<noteq> 0"
  proof (cases "off (cs ! w) = 0 \<or> cs = []")
    case True
    then have "used cs w = []"
      using lw by (auto simp: used_def)
    then show ?thesis
      by simp
  next
    case False
    then show ?thesis
      using lw by (simp add: used_def)
  qed
qed

lemma free_trailing_form:
  assumes "layout cs w"
  shows "evbuffer_free_trailing_empty_chains (form cs w b)
    = Inr (length (used cs w), (form cs w b)\<lparr>chains := used cs w\<rparr>)"
proof (cases "cs = []")
  case True
  then show ?thesis
    using assms by (simp add: evbuffer_free_trailing_empty_chains_def used_def form_def
        layout_def lwd_ok_def)
next
  case False
  then show ?thesis
    using free_trailing_ok [OF assms False, of b] used_ok(5) [OF assms] by (simp add: used_def)
qed

lemma advance_ok:
  "advance i l cs = l \<and> (\<forall>c\<in>set cs. off c = 0)
   \<or> (\<exists>q < length cs. advance i l cs = i + q \<and> off (cs ! q) \<noteq> 0 \<and> (\<forall>c\<in>set (drop (Suc q) cs). off c = 0))"
proof (induction cs arbitrary: i l)
  case (Cons c cs)
  let ?l = "if off c \<noteq> 0 then i else l"
  from Cons.IH [of "Suc i" ?l] show ?case
  proof (elim disjE exE conjE)
    assume *: "advance (Suc i) ?l cs = ?l" "\<forall>c\<in>set cs. off c = 0"
    then show ?thesis
      by (cases "off c = 0") (auto intro!: exI [of _ 0])
  next
    fix q
    assume *: "q < length cs" "advance (Suc i) ?l cs = Suc i + q" "off (cs ! q) \<noteq> 0"
      "\<forall>c\<in>set (drop (Suc q) cs). off c = 0"
    then show ?thesis
      by (intro disjI2 exI [of _ "Suc q"]) simp
  qed
qed simp

lemma advance_lwd:
  assumes "w < length cs" "w \<noteq> 0 \<longrightarrow> off (cs ! w) \<noteq> 0"
  shows "lwd_ok cs (advance (Suc w) w (drop (Suc w) cs))"
  using advance_ok [of "Suc w" w "drop (Suc w) cs"]
proof (elim disjE exE conjE)
  assume "advance (Suc w) w (drop (Suc w) cs) = w" "\<forall>c\<in>set (drop (Suc w) cs). off c = 0"
  with assms show ?thesis
    by (auto simp: lwd_ok_def)
next
  fix q
  assume *: "q < length (drop (Suc w) cs)" "advance (Suc w) w (drop (Suc w) cs) = Suc w + q"
    "off (drop (Suc w) cs ! q) \<noteq> 0" "\<forall>c\<in>set (drop (Suc q) (drop (Suc w) cs)). off c = 0"
  then show ?thesis
    by (auto simp: lwd_ok_def add.commute)
qed

section \<open>All of a buffer\<close>

definition st_inv :: "evbuffer list \<Rightarrow> bool" where
  "st_inv st \<longleftrightarrow> (\<forall>b\<in>set st. ev_inv b)"

definition move_spec :: "evbuffer list \<Rightarrow> nat \<Rightarrow> nat \<Rightarrow> bool \<Rightarrow> evbuf \<Rightarrow> int \<times> evbuffer list \<Rightarrow> bool" where
  "move_spec st j i frozen bs = (\<lambda>(r, st').
     (bytes_of (st ! i) = [] \<or> j = i) \<and> r = 0 \<and> st' = st
   \<or> bytes_of (st ! i) \<noteq> [] \<and> j \<noteq> i \<and> frozen \<and> r = -1 \<and> st' = st
   \<or> bytes_of (st ! i) \<noteq> [] \<and> j \<noteq> i \<and> \<not> frozen \<and> r = 0
     \<and> (\<exists>ob ib. ev_to (st ! j) (length (bytes_of (st ! i))) 0 bs ob
          \<and> ev_to (st ! i) 0 (length (bytes_of (st ! i))) [] ib
          \<and> st' = st[i := evbuffer_invoke_callbacks ib, j := evbuffer_invoke_callbacks ob]))"

lemma move_specI:
  assumes "bytes_of (st ! i) \<noteq> []" "j \<noteq> i"
    "ev_to (st ! j) (length (bytes_of (st ! i))) 0 bs ob"
    "ev_to (st ! i) 0 (length (bytes_of (st ! i))) [] ib"
  shows "\<not> frozen \<Longrightarrow> move_spec st j i frozen bs
      (0, st[i := evbuffer_invoke_callbacks ib, j := evbuffer_invoke_callbacks ob])"
    "frozen \<Longrightarrow> move_spec st j i frozen bs (-1, st)"
  using assms by (auto simp: move_spec_def)

lemma st_inv_nth: "st_inv st \<Longrightarrow> i < length st \<Longrightarrow> ev_inv (st ! i)"
  by (simp add: st_inv_def)

lemma restore_ok:
  assumes "ev_inv b"
  shows "ev_to b 0 n [] (count_deleted n (RESTORE_PINNED b []))"
proof -
  have z: "RESTORE_PINNED b [] = form [] 0 b"
    by (simp add: RESTORE_PINNED_def ZERO_CHAIN_def form_def)
  have "ev_to b 0 0 [] (form [] 0 b)"
    by (rule ev_to_formI [OF assms]) (simp_all add: layout_def lwd_ok_def)
  from ev_to_count(2) [OF this, of n] show ?thesis
    by (simp add: z)
qed

lemma move_ok:
  assumes st: "st_inv st" "i < length st" "j < length st"
    and small: "length (bytes_of (st ! i)) + length (bytes_of (st ! j)) < 2 ^ 64"
  shows "\<exists>r. evbuffer_add_buffer m st j i = Inr r \<and>
      move_spec st j i (freeze_end (st ! j) \<or> freeze_start (st ! i))
        (bytes_of (st ! j) @ bytes_of (st ! i)) r" (is ?A)
    and "\<exists>r. evbuffer_prepend_buffer m st j i = Inr r \<and>
      move_spec st j i (freeze_start (st ! j) \<or> freeze_start (st ! i))
        (bytes_of (st ! i) @ bytes_of (st ! j)) r" (is ?P)
proof -
  have ib: "ev_inv (st ! i)" and ob: "ev_inv (st ! j)"
    using st by (simp_all add: st_inv_nth)
  obtain ds v where fi: "st ! i = form ds v (st ! i)" and li: "layout ds v"
    and bi: "bytes_of (st ! i) = datas ds"
    using ib by (rule ev_invE)
  obtain cs w where fj: "st ! j = form cs w (st ! j)" and lj: "layout cs w"
    and bj: "bytes_of (st ! j) = datas cs"
    using ob by (rule ev_invE)
  have ci: "chains (st ! i) = ds" "last_with_datap (st ! i) = v" "total_len (st ! i) = length (datas ds)"
      "last_at (st ! i) = length ds"
    by (subst fi, simp)+
  have cj: "chains (st ! j) = cs" "last_with_datap (st ! j) = w" "total_len (st ! j) = length (datas cs)"
      "last_at (st ! j) = length cs"
    by (subst fj, simp)+
  have pp: "PRESERVE_PINNED m (st ! i) = Inr (Some ([], st ! i))"
    using not_has_pinned [OF ib] by (simp add: PRESERVE_PINNED_def)
  let ?n = "length (datas ds)"
  note ri = restore_ok [OF ib, of ?n]
  have cpy: "COPY_CHAIN (st ! j) (st ! i) = form ds v (st ! j)"
    by (simp add: COPY_CHAIN_def form_def ci)
  have copy: "ev_to (st ! j) ?n 0 (datas ds) (count_added ?n (COPY_CHAIN (st ! j) (st ! i)))"
    using ev_to_count(1) [OF ev_to_formI [OF ob li refl], of ?n] by (simp add: cpy)
  have sum: "length (datas cs) + length (datas ds) < 2 ^ 64"
    using small by (simp add: bi bj)
  have app: "\<exists>b. APPEND_CHAIN (st ! j) (st ! i) = Inr b
      \<and> ev_to (st ! j) ?n 0 (datas cs @ datas ds) (count_added ?n b)" if ne: "datas ds \<noteq> []"
  proof -
    let ?cs = "used cs w @ ds" and ?w = "length (used cs w) + v"
    have l: "layout ?cs ?w" "datas ?cs = datas cs @ datas ds"
      using layout_append [OF used_ok(2) [OF lj] li ne] used_ok(1) [OF lj] sum by simp_all
    have "APPEND_CHAIN (st ! j) (st ! i) = Inr (form ?cs ?w (st ! j))"
      unfolding APPEND_CHAIN_def
      by (subst fj, subst free_trailing_form [OF lj])
         (simp add: ci form_def szadd_id [OF sum] used_ok(1) [OF lj])
    then show ?thesis
      using ev_to_count(1) [OF ev_to_formI [OF ob l], of ?n] by simp
  qed
  have pre: "ev_to (st ! j) ?n 0 (datas ds @ datas cs) (count_added ?n (PREPEND_CHAIN (st ! j) (st ! i)))"
    if ne: "datas cs \<noteq> []"
  proof -
    let ?cs = "ds @ cs" and ?w = "length ds + w"
    have l: "layout ?cs ?w" "datas ?cs = datas ds @ datas cs"
      using layout_append [OF layoutD(1) [OF li] lj ne] sum by simp_all
    have "PREPEND_CHAIN (st ! j) (st ! i) = form ?cs ?w (st ! j)"
      using lwd_data [OF lj ne] sum
      by (simp add: PREPEND_CHAIN_def Let_def ci cj form_def szadd_id add.commute)
    then show ?thesis
      using ev_to_count(1) [OF ev_to_formI [OF ob l], of ?n] by simp
  qed
  consider "datas ds = [] \<or> j = i" | "datas ds \<noteq> []" "j \<noteq> i"
    by blast
  note cs' = this
  show ?A
    using cs'
  proof cases
    case 1
    then show ?thesis
      by (auto simp: evbuffer_add_buffer_def move_spec_def bi ci)
  next
    case 2
    have ne: "bytes_of (st ! i) \<noteq> []"
      using 2 by (simp add: bi)
    obtain b where b: "APPEND_CHAIN (st ! j) (st ! i) = Inr b"
      "ev_to (st ! j) ?n 0 (datas cs @ datas ds) (count_added ?n b)"
      using app [OF 2(1)] by blast
    show ?thesis
      using pp 2 copy b move_specI [OF ne 2(2) _ ri [folded bi]]
      by (cases "datas cs = []") (auto simp: evbuffer_add_buffer_def bi bj ci cj Let_def)
  qed
  show ?P
    using cs'
  proof cases
    case 1
    then show ?thesis
      by (auto simp: evbuffer_prepend_buffer_def move_spec_def bi ci)
  next
    case 2
    have ne: "bytes_of (st ! i) \<noteq> []"
      using 2 by (simp add: bi)
    show ?thesis
      using pp 2 copy pre move_specI [OF ne 2(2) _ ri [folded bi]]
      by (cases "datas cs = []") (auto simp: evbuffer_prepend_buffer_def bi bj ci cj Let_def)
  qed
qed

section \<open>Part of a buffer\<close>

lemma remove_loop_ok:
  assumes "\<forall>c\<in>set pre. chain_ok c" "r < off c" "i + length pre \<le> l \<or> l = 0 \<and> 0 < i"
  shows "remove_loop i nread (length (datas pre) + r) l (pre @ c # post)
    = Inr (i + length pre, nread + length (datas pre), r,
           if pre \<noteq> [] \<and> l = i + length pre then 0 else l)"
  using assms
proof (induction pre arbitrary: i nread l)
  case (Cons d pre)
  have d: "chain_ok d"
    using Cons.prems(1) by simp
  define l' where "l' = (if l = Suc i then 0 else l)"
  have "Suc i + length pre \<le> l' \<or> l' = 0 \<and> 0 < Suc i"
    using Cons.prems(3) by (auto simp: l'_def)
  then have "remove_loop (Suc i) (nread + off d) (length (datas pre) + r) l' (pre @ c # post)
    = Inr (Suc i + length pre, (nread + off d) + length (datas pre), r,
           if pre \<noteq> [] \<and> l' = Suc i + length pre then 0 else l')"
    using Cons.IH [of "Suc i" l' "nread + off d"] Cons.prems by simp
  moreover have "i \<noteq> l"
    using Cons.prems(3) by auto
  moreover have "(if pre \<noteq> [] \<and> l' = Suc i + length pre then 0 else l')
      = (if l = Suc (i + length pre) then 0 else l)"
    using Cons.prems(3) by (cases pre) (auto simp: l'_def)
  ultimately show ?case
    using d by (simp add: l'_def [symmetric] add.assoc [symmetric])
qed simp

text \<open>The whole chains \<open>pre\<close> put behind a buffer.\<close>

lemma append_moved:
  assumes b: "ev_inv b" and pre: "\<forall>c\<in>set pre. chain_ok c" "pre \<noteq> []"
    and small: "length (bytes_of b) + length (datas pre) < 2 ^ 64"
  shows "\<exists>b'. bindE (evbuffer_free_trailing_empty_chains b) (\<lambda>(chp, dst).
      let dst = (if chains dst = [] then dst\<lparr>chains := pre, last_at := length pre\<rparr>
                 else dst\<lparr>chains := take chp (chains dst) @ pre, last_at := chp + length pre\<rparr>);
          dst = advance_last_with_data dst in
      Inr (count_added (length (datas pre))
        (dst\<lparr>total_len := szadd (total_len dst) (length (datas pre))\<rparr>))) = Inr b'
    \<and> ev_to b (length (datas pre)) 0 (bytes_of b @ datas pre) b'"
proof -
  obtain cs w where f: "b = form cs w b" and lay: "layout cs w" and bs: "bytes_of b = datas cs"
    using b by (rule ev_invE)
  define u where "u = used cs w"
  note u = used_ok [OF lay, folded u_def]
  have ft: "evbuffer_free_trailing_empty_chains b = Inr (length u, (form cs w b)\<lparr>chains := u\<rparr>)"
    by (subst f) (simp add: free_trailing_form [OF lay] u_def)
  have w: "w < length (u @ pre)" "w \<noteq> 0 \<longrightarrow> off ((u @ pre) ! w) \<noteq> 0"
    using u(4,7) pre(2) by (cases "u = []"; auto simp: nth_append)+
  define v where "v = advance (Suc w) w (drop (Suc w) (u @ pre))"
  have l: "layout (u @ pre) v" "datas (u @ pre) = bytes_of b @ datas pre"
    using advance_lwd [OF w] u(1,2) pre(1) small bs by (auto simp: layout_def v_def)
  have z: "szadd (length (datas cs)) (length (datas pre)) = length (datas (u @ pre))"
    using small u(1) by (simp add: bs szadd_id)
  let ?b = "(form cs w b)\<lparr>chains := u @ pre, last_at := length (u @ pre)\<rparr>"
  have e: "(if chains ((form cs w b)\<lparr>chains := u\<rparr>) = []
      then (form cs w b)\<lparr>chains := u, chains := pre, last_at := length pre\<rparr>
      else (form cs w b)\<lparr>chains := u, chains := take (length u) (chains ((form cs w b)\<lparr>chains := u\<rparr>)) @ pre,
                         last_at := length u + length pre\<rparr>) = ?b"
    by simp
  have a: "advance_last_with_data ?b = ?b\<lparr>last_with_datap := v\<rparr>"
    using w(1) unfolding v_def by (simp add: advance_last_with_data_def Let_def)
  have fm: "?b\<lparr>last_with_datap := v, total_len := szadd (total_len (?b\<lparr>last_with_datap := v\<rparr>)) (length (datas pre))\<rparr>
      = form (u @ pre) v b"
    using z by (simp add: form_def)
  have "ev_to b (length (datas pre)) 0 (bytes_of b @ datas pre)
      (count_added (length (datas pre)) (form (u @ pre) v b))"
    using ev_to_count(1) [OF ev_to_formI [OF b l]] by simp
  then show ?thesis
    unfolding ft bindE_simps prod.case Let_def e a fm by blast
qed

lemma add_becomes:
  assumes "malloc_sized m" "ev_inv b" "\<not> freeze_end b" "length (bytes_of b) + length data < 2 ^ 64"
  shows "\<exists>r b'. evbuffer_add m b data = Inr (r, b') \<and>
    (\<exists>k. becomes b (bytes_of b @ take k data) b'
       \<and> (k \<ge> length data \<or> length data > CHAIN_MAX - CHAIN_SIZE \<or> alloc_fails m))"
proof -
  obtain r b' where r: "evbuffer_add m b data = Inr (r, b')" "add_spec m b data (r, b')"
    using add_ok [OF assms(1,2)] by (metis surj_pair)
  from r(2) assms(3,4) consider
      b'' where "ev_to b (length data) 0 (bytes_of b @ data) b''" "b' = evbuffer_invoke_callbacks b''"
    | "ev_to b 0 0 (bytes_of b) b'" "length data > CHAIN_MAX - CHAIN_SIZE \<or> alloc_fails m"
    unfolding add_spec_def by auto
  then have "\<exists>k. becomes b (bytes_of b @ take k data) b'
       \<and> (k \<ge> length data \<or> length data > CHAIN_MAX - CHAIN_SIZE \<or> alloc_fails m)"
  proof cases
    case 1
    then have "becomes b (bytes_of b @ take (length data) data) b'"
      using ev_to_becomes(2) [OF assms(2)] by simp
    then show ?thesis
      by blast
  next
    case 2
    then have "becomes b (bytes_of b @ take 0 data) b'"
      using ev_to_becomes(1) [OF assms(2)] by simp
    with 2(2) show ?thesis
      by blast
  qed
  with r(1) show ?thesis
    by blast
qed

text \<open>
  What has gone from the source arrives at the end of the destination, in order; when an
  allocation fails, only a part of it does.
\<close>

definition remove_spec ::
  "malloc \<Rightarrow> evbuffer list \<Rightarrow> nat \<Rightarrow> nat \<Rightarrow> nat \<Rightarrow> int \<times> evbuffer list \<Rightarrow> bool" where
  "remove_spec m st s d n = (\<lambda>(r, st').
     (n = 0 \<or> d = s) \<and> r = 0 \<and> st' = st
   \<or> n \<noteq> 0 \<and> d \<noteq> s \<and> (freeze_end (st ! d) \<or> freeze_start (st ! s)) \<and> r = -1 \<and> st' = st
   \<or> n \<noteq> 0 \<and> d \<noteq> s \<and> \<not> (freeze_end (st ! d) \<or> freeze_start (st ! s))
     \<and> r = as_int (int (min n (length (bytes_of (st ! s)))))
     \<and> (\<exists>db sb k. st' = st[d := db, s := sb]
          \<and> becomes (st ! s) (drop n (bytes_of (st ! s))) sb
          \<and> becomes (st ! d) (bytes_of (st ! d) @ take k (bytes_of (st ! s))) db
          \<and> k \<le> n \<and> (k = n \<or> length (bytes_of (st ! s)) > CHAIN_MAX - CHAIN_SIZE \<or> alloc_fails m)))"

lemma remove_part_ok:
  assumes m: "malloc_sized m" and st: "st_inv st" "s < length st" "d < length st"
    and nz: "n \<noteq> 0" "d \<noteq> s" "\<not> freeze_end (st ! d)" "\<not> freeze_start (st ! s)"
    and lt: "n < length (bytes_of (st ! s))"
    and small: "length (bytes_of (st ! s)) + length (bytes_of (st ! d)) < 2 ^ 64"
  shows "\<exists>r. evbuffer_remove_buffer m st s d n = Inr r \<and> remove_spec m st s d n r"
proof -
  define src where "src = st ! s"
  define dst where "dst = st ! d"
  have si: "ev_inv src" and di: "ev_inv dst"
    using st by (simp_all add: st_inv_nth src_def dst_def)
  obtain cs w where fs: "src = form cs w src" and lay: "layout cs w" and bs: "bytes_of src = datas cs"
    using si by (rule ev_invE)
  have ci: "chains src = cs" "last_with_datap src = w" "total_len src = length (datas cs)"
      "last_at src = length cs"
    by (subst fs, simp)+
  have lt': "n < length (datas cs)"
    using lt bs by (simp add: src_def)
  obtain pre c post r where d: "cs = pre @ c # post" "n = length (datas pre) + r" "r < off c"
    using drain_loop_ok [OF layoutD(1) [OF lay] lt', of 0 0] by auto
  have ok: "chain_ok c" and okp: "\<forall>x\<in>set pre. chain_ok x"
    using layoutD(1) [OF lay] by (auto simp: d(1))
  define c' where "c' = c\<lparr>misalign := misalign c + r, off := off c - r\<rparr>"
  note c' = chain_cut_ok [OF ok d(3), folded c'_def]
  have nzo: "off c \<noteq> 0" "off c' \<noteq> 0"
    using d(3) by (auto simp: c'_def)
  define v where "v = (if w \<le> length pre then 0 else w - length pre)"
  have lw: "lwd_ok (c' # post) v" "length pre \<le> w"
    using lwd_drop [OF layoutD(2) [OF lay, unfolded d(1)] nzo] by (auto simp: v_def)
  define l where "l = (if pre \<noteq> [] \<and> w = length pre then 0 else w)"
  have loop: "remove_loop 0 0 n w cs = Inr (length pre, length (datas pre), r, l)"
    using remove_loop_ok [OF okp d(3), of 0 w 0 post] lw(2) by (simp add: d(1,2) l_def)
  have lv: "l - length pre = v" "\<not> (l \<noteq> 0 \<and> l \<le> length pre \<or> length cs \<le> length pre)"
    using lw(2) by (auto simp: l_def v_def d(1))
  have da: "datas (c' # post) = drop n (datas cs)"
    using d(3) c'(2) ok by (simp add: d(1,2))
  have "layout (c' # post) v"
    using lay lw(1) c'(1) da layoutD(3) [OF lay] by (auto simp: layout_def d(1))
  then have sb: "becomes src (drop n (datas cs)) (count_deleted n (form (c' # post) v src))"
    using ev_to_becomes(1) [OF si ev_to_count(2) [OF ev_to_formI [OF si _ da]]] by simp
  define dst1 where "dst1 = (if length pre = 0 then Inr dst
      else bindE (evbuffer_free_trailing_empty_chains dst) (\<lambda>(chp, dst).
        let dst = (if chains dst = [] then dst\<lparr>chains := pre, last_at := length pre\<rparr>
                   else dst\<lparr>chains := take chp (chains dst) @ pre, last_at := chp + length pre\<rparr>);
            dst = advance_last_with_data dst in
        Inr (count_added (length (datas pre))
          (dst\<lparr>total_len := szadd (total_len dst) (length (datas pre))\<rparr>))))"
  have sm: "length (bytes_of dst) + length (datas cs) < 2 ^ 64"
    using small bs by (simp add: src_def dst_def add.commute)
  obtain db1 where db1: "dst1 = Inr db1" "becomes dst (bytes_of dst @ datas pre) db1"
  proof (cases "pre = []")
    case True
    with that becomes_refl [OF di] show thesis
      by (simp add: dst1_def)
  next
    case False
    have "length (bytes_of dst) + length (datas pre) < 2 ^ 64"
      using sm by (simp add: d(1))
    from append_moved [OF di okp False this] obtain b' where
      b': "dst1 = Inr b'" "ev_to dst (length (datas pre)) 0 (bytes_of dst @ datas pre) b'"
      using False unfolding dst1_def by auto
    with that ev_to_becomes(1) [OF di] show thesis
      by blast
  qed
  have pk: "peek (misalign c) r (mem c) = Inr (take r (chain_data c))"
    using peek_data [OF ok, of 0 r] d(3) by simp
  have i1: "ev_inv db1" "\<not> freeze_end db1" "bytes_of db1 = bytes_of dst @ datas pre"
    using db1(2) nz by (simp_all add: becomes_def dst_def)
  have l1: "length (bytes_of db1) + length (take r (chain_data c)) < 2 ^ 64"
    using sm d(3) ok by (simp add: i1(3) d(1))
  obtain rr db2 k where db2: "evbuffer_add m db1 (take r (chain_data c)) = Inr (rr, db2)"
    "becomes db1 (bytes_of db1 @ take k (take r (chain_data c))) db2"
    "k \<ge> length (take r (chain_data c)) \<or> length (take r (chain_data c)) > CHAIN_MAX - CHAIN_SIZE \<or> alloc_fails m"
    using add_becomes [OF m i1(1,2) l1] by blast
  define j where "j = length (datas pre) + min k r"
  have tj: "bytes_of db1 @ take k (take r (chain_data c)) = bytes_of dst @ take j (bytes_of src)"
    using d(3) ok by (simp add: i1(3) j_def bs d(1) min.commute take_add)
  have db: "becomes dst (bytes_of dst @ take j (bytes_of src)) db2"
    using becomes_trans [OF db1(2) db2(2)] unfolding tj .
  have rl: "r \<le> length (bytes_of src)" "length (take r (chain_data c)) = r"
    using d(3) ok by (simp_all add: bs d(1))
  have jn: "j \<le> n \<and> (j = n \<or> length (bytes_of src) > CHAIN_MAX - CHAIN_SIZE \<or> alloc_fails m)"
    using db2(3) rl by (auto simp: j_def d(2))
  have e0: "(drop (length pre) cs)[0 := c'] = c' # post" "drop (length pre) cs ! 0 = c"
    by (simp_all add: d(1))
  have tl: "length (datas cs) - n = length (datas (c' # post))"
    by (simp only: da length_drop)
  have fin: "src\<lparr>chains := drop (length pre) cs, last_with_datap := v,
        last_at := length cs - length pre, chains := c' # post,
        total_len := length (datas cs) - n\<rparr> = form (c' # post) v src"
    unfolding tl by (simp add: form_def d(1))
  have g: "(n = 0 \<or> d = s) = False" "(freeze_end dst \<or> freeze_start src) = False"
    "(length (datas cs) \<le> n) = False" "(l \<noteq> 0 \<and> l \<le> length pre \<or> length cs \<le> length pre) = False"
    "(length (datas pre) + r \<noteq> 0) = True"
    using nz lt' lv(2) d(2) by (simp_all add: src_def dst_def)
  have tk: "take (length pre) cs = pre"
    by (simp add: d(1))
  have dst1: "(if length pre = 0 then Inr dst
      else bindE (evbuffer_free_trailing_empty_chains dst) (\<lambda>(chp, dst).
        Inr (count_added (length (datas pre))
          ((advance_last_with_data (if chains dst = [] then dst\<lparr>chains := pre, last_at := length pre\<rparr>
                   else dst\<lparr>chains := take chp (chains dst) @ pre, last_at := chp + length pre\<rparr>))
           \<lparr>total_len := szadd (total_len (advance_last_with_data
              (if chains dst = [] then dst\<lparr>chains := pre, last_at := length pre\<rparr>
               else dst\<lparr>chains := take chp (chains dst) @ pre, last_at := chp + length pre\<rparr>)))
             (length (datas pre))\<rparr>)))) = Inr db1"
    using db1(1) unfolding dst1_def Let_def .
  have sel: "chains (src\<lparr>chains := drop (length pre) cs, last_with_datap := v,
      last_at := length cs - length pre\<rparr>) = drop (length pre) cs"
    "total_len (src\<lparr>chains := drop (length pre) cs, last_with_datap := v,
      last_at := length cs - length pre\<rparr>) = length (datas cs)"
    by (simp_all add: ci)
  have "evbuffer_remove_buffer m st s d n = Inr (as_int (int n),
      st[d := evbuffer_invoke_callbacks db2,
         s := evbuffer_invoke_callbacks (count_deleted n (form (c' # post) v src))])"
    unfolding evbuffer_remove_buffer_def src_def [symmetric] dst_def [symmetric] Let_def ci g loop
      bindE_simps prod.case tk dst1 lv(1) sel e0 pk db2(1) if_False if_True
    unfolding d(2) [symmetric] c'_def [symmetric] e0 fin ..
  moreover have "remove_spec m st s d n (as_int (int n),
      st[d := evbuffer_invoke_callbacks db2,
         s := evbuffer_invoke_callbacks (count_deleted n (form (c' # post) v src))])"
    using nz lt jn becomes_invoke [OF db] becomes_invoke [OF sb]
    unfolding remove_spec_def src_def [symmetric] dst_def [symmetric]
    by (auto simp: bs)
  ultimately show ?thesis
    by blast
qed

lemma remove_buffer_ok:
  assumes m: "malloc_sized m" and st: "st_inv st" "s < length st" "d < length st"
    and small: "length (bytes_of (st ! s)) + length (bytes_of (st ! d)) < 2 ^ 64"
  shows "\<exists>r. evbuffer_remove_buffer m st s d n = Inr r \<and> remove_spec m st s d n r"
proof -
  have si: "ev_inv (st ! s)" and di: "ev_inv (st ! d)"
    using st by (simp_all add: st_inv_nth)
  have tl: "total_len (st ! s) = length (bytes_of (st ! s))"
    using si by (simp add: ev_inv_def)
  consider "n = 0 \<or> d = s"
    | "n \<noteq> 0" "d \<noteq> s" "freeze_end (st ! d) \<or> freeze_start (st ! s)"
    | "n \<noteq> 0" "d \<noteq> s" "\<not> freeze_end (st ! d)" "\<not> freeze_start (st ! s)"
        "length (bytes_of (st ! s)) \<le> n"
    | "n \<noteq> 0" "d \<noteq> s" "\<not> freeze_end (st ! d)" "\<not> freeze_start (st ! s)"
        "n < length (bytes_of (st ! s))"
    by linarith
  then show ?thesis
  proof cases
    case 1
    then show ?thesis
      by (auto simp: evbuffer_remove_buffer_def remove_spec_def)
  next
    case 2
    then show ?thesis
      by (auto simp: evbuffer_remove_buffer_def remove_spec_def)
  next
    case 4
    then show ?thesis
      using remove_part_ok [OF m st _ _ _ _ _ small] by blast
  next
    case 3
    let ?bs = "bytes_of (st ! s)"
    obtain rr st' where a: "evbuffer_add_buffer m st d s = Inr (rr, st')"
      "move_spec st d s (freeze_end (st ! d) \<or> freeze_start (st ! s)) (bytes_of (st ! d) @ ?bs) (rr, st')"
      using move_ok(1) [OF st small, of m] by (metis surj_pair)
    have *: "\<exists>db sb. st' = st[d := db, s := sb] \<and> becomes (st ! s) [] sb
        \<and> becomes (st ! d) (bytes_of (st ! d) @ ?bs) db"
    proof (cases "?bs = []")
      case True
      then have "st' = st[d := st ! d, s := st ! s]"
        using a(2) 3 by (simp add: move_spec_def)
      with True becomes_refl [OF si] becomes_refl [OF di] show ?thesis
        by (intro exI [of _ "st ! d"] exI [of _ "st ! s"]) simp
    next
      case False
      with a(2) 3 obtain ob ib where o: "ev_to (st ! d) (length ?bs) 0 (bytes_of (st ! d) @ ?bs) ob"
        "ev_to (st ! s) 0 (length ?bs) [] ib"
        "st' = st[s := evbuffer_invoke_callbacks ib, d := evbuffer_invoke_callbacks ob]"
        by (auto simp: move_spec_def)
      then have "st' = st[d := evbuffer_invoke_callbacks ob, s := evbuffer_invoke_callbacks ib]"
        using 3(2) by (simp add: list_update_swap)
      with ev_to_becomes(2) [OF di o(1)] ev_to_becomes(2) [OF si o(2)] show ?thesis
        by blast
    qed
    then obtain db sb where b: "st' = st[d := db, s := sb]" "becomes (st ! s) (drop n ?bs) sb"
      "becomes (st ! d) (bytes_of (st ! d) @ take n ?bs) db"
      using 3(5) by auto
    have "evbuffer_remove_buffer m st s d n = Inr (as_int (int (length ?bs)), st')"
      using 3 a(1) by (simp add: evbuffer_remove_buffer_def tl)
    moreover have "remove_spec m st s d n (as_int (int (length ?bs)), st')"
    proof -
      have "\<exists>db' sb' k. st' = st[d := db', s := sb'] \<and> becomes (st ! s) (drop n ?bs) sb'
          \<and> becomes (st ! d) (bytes_of (st ! d) @ take k ?bs) db' \<and> k \<le> n
          \<and> (k = n \<or> length ?bs > CHAIN_MAX - CHAIN_SIZE \<or> alloc_fails m)"
        using b by blast
      moreover have "min n (length ?bs) = length ?bs"
        using 3(5) by simp
      ultimately show ?thesis
        using 3(1-4) unfolding remove_spec_def prod.case by simp
    qed
    ultimately show ?thesis
      by blast
  qed
qed

section \<open>References\<close>

lemma reference_flags:
  "IMMUTABLE (c\<lparr>flags := f OR (EVBUFFER_REFERENCE OR EVBUFFER_IMMUTABLE)\<rparr>)"
  "f = 0 \<Longrightarrow> \<not> CHAIN_PINNED (c\<lparr>flags := f OR (EVBUFFER_REFERENCE OR EVBUFFER_IMMUTABLE)\<rparr>)"
proof -
  have "(f OR (EVBUFFER_REFERENCE OR EVBUFFER_IMMUTABLE)) AND EVBUFFER_IMMUTABLE = EVBUFFER_IMMUTABLE"
    by (simp add: word_ao_dist word_bw_assocs EVBUFFER_IMMUTABLE_def EVBUFFER_REFERENCE_def)
       (metis word_ao_absorbs(4) word_bw_comms(2) word_bw_lcs(2) or.left_commute)?
  then show "IMMUTABLE (c\<lparr>flags := f OR (EVBUFFER_REFERENCE OR EVBUFFER_IMMUTABLE)\<rparr>)"
    by (simp add: IMMUTABLE_def EVBUFFER_IMMUTABLE_def)
  show "f = 0 \<Longrightarrow> \<not> CHAIN_PINNED (c\<lparr>flags := f OR (EVBUFFER_REFERENCE OR EVBUFFER_IMMUTABLE)\<rparr>)"
    by (simp add: CHAIN_PINNED_def EVBUFFER_MEM_PINNED_ANY_def EVBUFFER_MEM_PINNED_R_def
        EVBUFFER_MEM_PINNED_W_def EVBUFFER_REFERENCE_def EVBUFFER_IMMUTABLE_def)
qed

lemma add_reference_ok:
  assumes m: "malloc_sized m" and b: "ev_inv b"
    and len: "length data \<le> CHAIN_MAX - CHAIN_SIZE" "length (bytes_of b) + length data < 2 ^ 64"
  shows "\<exists>r b'. evbuffer_add_reference m b data = Inr (r, b')
    \<and> (r = 0 \<and> \<not> freeze_end b \<and> becomes b (bytes_of b @ data) b'
       \<or> r = -1 \<and> b' = b \<and> (freeze_end b \<or> alloc_fails m))"
proof (cases "evbuffer_chain_new m 16")
  case None
  then have "alloc_fails m"
    by (rule alloc_failsI) (simp add: size_consts)
  with None show ?thesis
    by (simp add: evbuffer_add_reference_def)
next
  case (Some c)
  have c: "misalign c = 0" "flags c = 0"
    using Some by (auto simp: evbuffer_chain_new_def Let_def split: if_splits option.splits)
  define t where "t = c\<lparr>flags := flags c OR (EVBUFFER_REFERENCE OR EVBUFFER_IMMUTABLE), mem := data,
                buffer_len := length data, off := length data\<rparr>"
  have p: "\<not> CHAIN_PINNED t"
    using reference_flags(2) [OF c(2), of c] by (simp add: t_def CHAIN_PINNED_def)
  have t: "chain_ok t" "chain_data t = data" "off t = length data"
    using c p len by (simp_all add: t_def chain_ok_def chain_data_def)
  obtain cs w where f: "b = form cs w b" and lay: "layout cs w" and bs: "bytes_of b = datas cs"
    using b by (rule ev_invE)
  have l: "length (datas cs) + off t < 2 ^ 64"
    using len(2) by (simp add: t(3) bs)
  note u = used_layout [OF lay t(1) l]
  let ?cs = "used cs w @ [t]" and ?w = "if off t \<noteq> 0 then length (used cs w) else w"
  have "evbuffer_chain_insert b t = Inr (form ?cs ?w b)"
    using chain_insert_ok [OF lay t(1) l, of b] f by simp
  moreover have "datas ?cs = bytes_of b @ data"
    using u(1) t(2) bs by simp
  then have "becomes b (bytes_of b @ data)
      (evbuffer_invoke_callbacks (count_added (length data) (form ?cs ?w b)))"
    using ev_to_becomes(2) [OF b ev_to_count(1) [OF ev_to_formI [OF b u(2)]]] by simp
  ultimately show ?thesis
    using Some by (simp add: evbuffer_add_reference_def t_def [symmetric])
qed

end
