(* ===== verification/Evbuf_Room.thy ===== *)
theory Evbuf_Room
  imports Evbuf_Move_Inv
begin

text \<open>
  Making room at the end of a buffer, and input and output on descriptors:
  \<open>evbuffer_expand_singlechain\<close>, \<open>evbuffer_expand_fast_\<close>, \<open>evbuffer_read\<close> and
  \<open>evbuffer_write_atmost\<close>. The kernel is a parameter: how many bytes \<open>ioctl\<close> reports, what
  \<open>readv\<close> delivers into the vectors it is given, how much \<open>writev\<close> takes.
\<close>

section \<open>Room in one chain\<close>

text \<open>The chain with the room is given by its number.\<close>

definition evbuffer_expand_singlechain ::
  "malloc \<Rightarrow> evbuffer \<Rightarrow> nat \<Rightarrow> (nat option \<times> evbuffer) res" where
  "evbuffer_expand_singlechain m b datlen =
    (let w = last_with_datap b;
         k = (if w < length (chains b) \<and> CHAIN_SPACE_LEN (chains b ! w) = 0 then Suc w else w);
         done_ok = (\<lambda>k b. if datlen \<le> CHAIN_SPACE_LEN (chains b ! k) then Inr (Some k, b)
                          else Inl AssertFailed);
         insert_new =
           bindE (evbuffer_chain_insert_new m b datlen) (\<lambda>(r, b).
           case r of None \<Rightarrow> Inr (None, b) | Some k \<Rightarrow> done_ok k b) in
     if length (chains b) \<le> k then insert_new
     else
       let c = chains b ! k in
       if IMMUTABLE c \<or> CHAIN_PINNED c then insert_new
       else if CHAIN_SPACE_LEN c \<ge> datlen then done_ok k b
       else if off c = 0 then insert_new
       else if evbuffer_chain_should_realign c datlen
       then bindE (evbuffer_chain_align c) (\<lambda>c. done_ok k (b\<lparr>chains := (chains b)[k := c]\<rparr>))
       else if CHAIN_SPACE_LEN c < buffer_len c div 8 \<or> off c > MAX_TO_COPY_IN_EXPAND
            \<or> datlen \<ge> CHAIN_MAX - off c
       then if Suc k < length (chains b) \<and> CHAIN_SPACE_LEN (chains b ! Suc k) \<ge> datlen
            then done_ok (Suc k) b else insert_new
       else
         case evbuffer_chain_new m (off c + datlen) of
           None \<Rightarrow> Inr (None, b)
         | Some tmp \<Rightarrow>
             bindE (peek (misalign c) (off c) (mem c)) (\<lambda>bs.
             bindE (poke 0 bs (mem tmp)) (\<lambda>mm.
             done_ok k (b\<lparr>chains := (chains b)[k := tmp\<lparr>off := off c, mem := mm\<rparr>],
               last_at := (if last_at b = Suc k then Suc k else last_at b)\<rparr>))))"

definition evbuffer_expand :: "malloc \<Rightarrow> evbuffer \<Rightarrow> nat \<Rightarrow> (int \<times> evbuffer) res" where
  "evbuffer_expand m b datlen =
     bindE (evbuffer_expand_singlechain m b datlen) (\<lambda>(r, b).
     Inr (if r = None then -1 else 0, b))"

section \<open>Room in several chains\<close>

text \<open>
  The loop over the chains from \<open>last_with_datap\<close> on. It gives the chains, realigned where they
  are empty, the room found, how many chains have it, and whether that is enough.
\<close>

fun room_loop :: "nat \<Rightarrow> nat \<Rightarrow> nat \<Rightarrow> nat \<Rightarrow> bool \<Rightarrow> evbuffer_chain list
    \<Rightarrow> (evbuffer_chain list \<times> nat \<times> nat \<times> bool) res" where
  "room_loop n datlen avail used_n first [] = Inr ([], avail, used_n, False)"
| "room_loop n datlen avail used_n first (c # cs) =
    (if off c \<noteq> 0 \<and> \<not> first then Inl AssertFailed
     else
       let (c, avail, used_n) =
         (if off c \<noteq> 0
          then if CHAIN_SPACE_LEN c \<noteq> 0 then (c, avail + CHAIN_SPACE_LEN c, Suc used_n)
               else (c, avail, used_n)
          else (c\<lparr>misalign := 0\<rparr>, avail + buffer_len c, Suc used_n)) in
       if avail \<ge> datlen then Inr (c # cs, avail, used_n, True)
       else if used_n = n then Inr (c # cs, avail, used_n, False)
       else bindE (room_loop n datlen avail used_n False cs) (\<lambda>(cs, r). Inr (c # cs, r)))"

definition evbuffer_expand_fast :: "malloc \<Rightarrow> evbuffer \<Rightarrow> nat \<Rightarrow> nat \<Rightarrow> (int \<times> evbuffer) res" where
  "evbuffer_expand_fast m b datlen n =
    (if n < 2 then Inl AssertFailed
     else if last_at b = 0 \<or> IMMUTABLE (chains b ! (last_at b - 1)) then
       case evbuffer_chain_new m datlen of
         None \<Rightarrow> Inr (-1, b)
       | Some c \<Rightarrow> bindE (evbuffer_chain_insert b c) (\<lambda>b. Inr (0, b))
     else
       let w = last_with_datap b in
       bindE (room_loop n datlen 0 0 True (drop w (chains b))) (\<lambda>(cs, avail, used_n, enough).
       let b = b\<lparr>chains := take w (chains b) @ cs\<rparr> in
       if enough then Inr (0, b)
       else if used_n < n then
         case evbuffer_chain_new m (datlen - avail) of
           None \<Rightarrow> Inr (-1, b)
         | Some tmp \<Rightarrow>
             Inr (0, b\<lparr>chains := take (last_at b) (chains b) @ [tmp], last_at := Suc (last_at b)\<rparr>)
       else
         case drop w (chains b) of
           [] \<Rightarrow> Inl NullDeref
         | c # rest \<Rightarrow>
             let rmv_all = (off c = 0);
                 avail = (if rmv_all then 0 else CHAIN_SPACE_LEN c);
                 gone = (if rmv_all then c # rest else rest) in
             if rmv_all \<and> w \<noteq> 0 then Inl AssertFailed
             else if \<not> list_all (\<lambda>c. off c = 0) gone then Inl AssertFailed
             else if datlen < avail then Inl AssertFailed
             else
               case evbuffer_chain_new m (datlen - avail) of
                 None \<Rightarrow>
                   Inr (-1, if rmv_all then ZERO_CHAIN b
                            else b\<lparr>chains := take (Suc w) (chains b), last_at := Suc w\<rparr>)
               | Some tmp \<Rightarrow>
                   Inr (0, if rmv_all
                           then b\<lparr>chains := [tmp], last_at := 1, last_with_datap := 0\<rparr>
                           else b\<lparr>chains := take (Suc w) (chains b) @ [tmp],
                                  last_at := Suc (Suc w)\<rparr>)))"

section \<open>Reading from a descriptor\<close>

definition EVBUFFER_MAX_READ :: int where "EVBUFFER_MAX_READ = 4096"
definition NUM_READ_IOVEC :: nat where "NUM_READ_IOVEC = 4"

text \<open>
  The vectors point to the free space of consecutive chains: their lengths, the first chain
  being the number returned. With \<open>exact\<close> they hold no more than \<open>howmuch\<close> bytes.
\<close>

fun vecs_loop :: "nat \<Rightarrow> nat \<Rightarrow> bool \<Rightarrow> evbuffer_chain list \<Rightarrow> nat list res" where
  "vecs_loop 0 left exact cs = Inr []"
| "vecs_loop (Suc n) left exact cs =
    (if left = 0 then Inr []
     else case cs of
       [] \<Rightarrow> Inl NullDeref
     | c # cs \<Rightarrow>
         let avail = (if exact \<and> CHAIN_SPACE_LEN c > left then left else CHAIN_SPACE_LEN c) in
         bindE (vecs_loop n (left - avail) exact cs) (\<lambda>vs. Inr (avail # vs)))"

definition evbuffer_read_setup_vecs ::
  "evbuffer \<Rightarrow> nat \<Rightarrow> nat \<Rightarrow> bool \<Rightarrow> (nat \<times> nat list) res" where
  "evbuffer_read_setup_vecs b howmuch n_vecs_avail exact =
    (let w = last_with_datap b in
     if length (chains b) \<le> w then Inl AssertFailed
     else
       let k = (if CHAIN_SPACE_LEN (chains b ! w) = 0 then Suc w else w) in
       if length (chains b) \<le> k then Inl AssertFailed
       else bindE (vecs_loop n_vecs_avail howmuch exact (drop k (chains b))) (\<lambda>vs. Inr (k, vs)))"

text \<open>\<open>readv\<close> fills the vectors one after the other with the bytes it got.\<close>

fun scatter :: "nat list \<Rightarrow> byte list \<Rightarrow> evbuffer_chain list \<Rightarrow> evbuffer_chain list res" where
  "scatter [] bs cs = Inr cs"
| "scatter (v # vs) bs [] = (if bs = [] then Inr [] else Inl NullDeref)"
| "scatter (v # vs) bs (c # cs) =
     bindE (poke (misalign c + off c) (take v bs) (mem c)) (\<lambda>mm.
     bindE (scatter vs (drop v bs) cs) (\<lambda>cs. Inr (c\<lparr>mem := mm\<rparr> # cs)))"

text \<open>
  The lengths of the chains are brought up to date: the chains, and the place of the last one
  that got bytes, where the loop breaks off.
\<close>

fun commit_loop :: "nat \<Rightarrow> nat \<Rightarrow> nat \<Rightarrow> nat \<Rightarrow> evbuffer_chain list
    \<Rightarrow> (evbuffer_chain list \<times> nat) res" where
  "commit_loop 0 remaining k l cs = Inr (cs, l)"
| "commit_loop (Suc n) remaining k l [] = Inl NullDeref"
| "commit_loop (Suc n) remaining k l (c # cs) =
    (let space = (if CHAIN_SPACE_LEN c > CHAIN_MAX then CHAIN_MAX else CHAIN_SPACE_LEN c) in
     if space < remaining
     then bindE (commit_loop n (remaining - space) (Suc k) l cs) (\<lambda>(cs, l).
          Inr (c\<lparr>off := off c + space\<rparr> # cs, l))
     else Inr (c\<lparr>off := off c + remaining\<rparr> # cs, k))"

text \<open>
  \<open>avail\<close> is what \<open>ioctl\<close> says is readable, \<open>readv\<close> gives for the room offered the bytes read,
  or nothing for the failure -1.
\<close>

definition evbuffer_read ::
  "malloc \<Rightarrow> int \<Rightarrow> (nat \<Rightarrow> byte list option) \<Rightarrow> evbuffer \<Rightarrow> int \<Rightarrow> (int \<times> evbuffer) res" where
  "evbuffer_read m avail readv b howmuch =
    (if freeze_end b then Inr (-1, b)
     else
       let n = (if avail \<le> 0 \<or> avail > EVBUFFER_MAX_READ then EVBUFFER_MAX_READ else avail);
           howmuch = (if howmuch < 0 \<or> howmuch > n then n else howmuch) in
       bindE (evbuffer_expand_fast m b (nat howmuch) NUM_READ_IOVEC) (\<lambda>(r, b).
       if r = -1 then Inr (-1, b)
       else
         bindE (evbuffer_read_setup_vecs b (nat howmuch) NUM_READ_IOVEC True) (\<lambda>(k, vs).
         case readv (sum_list vs) of
           None \<Rightarrow> Inr (-1, b)
         | Some bs \<Rightarrow>
             if bs = [] then Inr (0, b)
             else
               bindE (scatter vs bs (drop k (chains b))) (\<lambda>cs.
               bindE (commit_loop (length vs) (length bs) k (last_with_datap b) cs) (\<lambda>(cs, l).
               Inr (int (length bs), evbuffer_invoke_callbacks (count_added (length bs)
                 (b\<lparr>chains := take k (chains b) @ cs, last_with_datap := l,
                    total_len := szadd (total_len b) (length bs)\<rparr>))))))))"

section \<open>Writing to a descriptor\<close>

definition NUM_WRITE_IOVEC :: nat where "NUM_WRITE_IOVEC = 128"

text \<open>What is offered to \<open>writev\<close>: bytes of at most \<open>n\<close> chains, at most \<open>howmuch\<close> of them.\<close>

fun gather :: "nat \<Rightarrow> nat \<Rightarrow> evbuffer_chain list \<Rightarrow> byte list res" where
  "gather 0 howmuch cs = Inr []"
| "gather (Suc n) howmuch [] = Inr []"
| "gather (Suc n) howmuch (c # cs) =
    (if howmuch = 0 then Inr []
     else if howmuch \<ge> off c
     then bindE (peek (misalign c) (off c) (mem c)) (\<lambda>bs.
          bindE (gather n (howmuch - off c) cs) (\<lambda>bs'. Inr (bs @ bs')))
     else peek (misalign c) howmuch (mem c))"

definition evbuffer_write_iovec ::
  "(byte list \<Rightarrow> int) \<Rightarrow> evbuffer \<Rightarrow> nat \<Rightarrow> int res" where
  "evbuffer_write_iovec writev b howmuch =
     bindE (gather NUM_WRITE_IOVEC howmuch (chains b)) (\<lambda>bs.
     Inr (if chains b = [] \<or> howmuch = 0 then 0 else writev bs))"

definition evbuffer_write_atmost ::
  "(byte list \<Rightarrow> int) \<Rightarrow> evbuffer \<Rightarrow> int \<Rightarrow> (int \<times> evbuffer) res" where
  "evbuffer_write_atmost writev b howmuch =
    (if freeze_start b then Inr (-1, b)
     else
       let howmuch = (if howmuch < 0 \<or> nat howmuch > total_len b then total_len b else nat howmuch) in
       bindE (if howmuch > 0 then evbuffer_write_iovec writev b howmuch else Inr (-1)) (\<lambda>n.
       if n > 0 then bindE (evbuffer_drain b (nat n)) (\<lambda>(_, b). Inr (n, b))
       else Inr (n, b)))"

definition evbuffer_write :: "(byte list \<Rightarrow> int) \<Rightarrow> evbuffer \<Rightarrow> (int \<times> evbuffer) res" where
  "evbuffer_write writev b = evbuffer_write_atmost writev b (-1)"

end
