(* ===== verification/Evbuf_Room_Inv.thy ===== *)
theory Evbuf_Room_Inv
  imports Evbuf_Room
begin

text \<open>
  Making room changes nothing of what a buffer holds, and gives the room asked for.
\<close>

section \<open>Room in one chain\<close>

lemma space_ok:
  "chain_ok c \<Longrightarrow> \<not> IMMUTABLE c \<Longrightarrow> misalign c + off c + CHAIN_SPACE_LEN c = buffer_len c"
  "IMMUTABLE c \<Longrightarrow> CHAIN_SPACE_LEN c = 0"
  by (auto simp: CHAIN_SPACE_LEN_def chain_ok_def)

text \<open>A new chain at the end.\<close>

lemma insert_new_ok:
  assumes m: "malloc_sized m" and b: "ev_inv b"
  shows "\<exists>r b'. evbuffer_chain_insert_new m b n = Inr (r, b') \<and> ev_to b 0 0 (bytes_of b) b'
    \<and> (case r of None \<Rightarrow> b' = b \<and> evbuffer_chain_new m n = None
        | Some k \<Rightarrow> \<exists>c. evbuffer_chain_new m n = Some c
            \<and> chains b' = used (chains b) (last_with_datap b) @ [c]
            \<and> k = length (used (chains b) (last_with_datap b))
            \<and> last_with_datap b' = last_with_datap b)"
proof (cases "evbuffer_chain_new m n")
  case None
  then show ?thesis
    using ev_to_refl [OF b] by (auto simp: evbuffer_chain_insert_new_def)
next
  case (Some c)
  obtain cs w where f: "b = form cs w b" and lay: "layout cs w" and bs: "bytes_of b = datas cs"
    using b by (rule ev_invE)
  have cw: "chains b = cs" "last_with_datap b = w"
    by (subst f, simp)+
  note c = chain_new_ok [OF m Some]
  have l: "length (datas cs) + off c < 2 ^ 64"
    using layoutD(3) [OF lay] c(4) by simp
  note u = used_layout [OF lay c(1) l]
  have "evbuffer_chain_insert b c = Inr (form (used cs w @ [c]) w b)"
    using chain_insert_ok [OF lay c(1) l, of b] f c(4) by simp
  moreover have "ev_to b 0 0 (bytes_of b) (form (used cs w @ [c]) w b)"
    using u c(4) bs by (intro ev_to_formI [OF b]) simp_all
  ultimately show ?thesis
    using Some by (auto simp: evbuffer_chain_insert_new_def cw)
qed

lemma beyond_lwd:
  assumes "layout cs w" "k < length cs" "w < k"
  shows "off (cs ! k) = 0"
proof -
  have "cs ! k \<in> set (drop (Suc w) cs)"
    using assms(2,3) by (auto simp: in_set_conv_nth intro!: exI [of _ "k - Suc w"])
  then show ?thesis
    using assms by (auto simp: layout_def lwd_ok_def)
qed

lemma singlechain_ok:
  assumes m: "malloc_sized m" and b: "ev_inv b"
  shows "\<exists>r b'. evbuffer_expand_singlechain m b n = Inr (r, b') \<and> ev_to b 0 0 (bytes_of b) b'
    \<and> (case r of None \<Rightarrow> alloc_fails m \<or> n + MAX_TO_COPY_IN_EXPAND > CHAIN_MAX - CHAIN_SIZE
        | Some k \<Rightarrow> k < length (chains b') \<and> n \<le> CHAIN_SPACE_LEN (chains b' ! k))"
proof -
  obtain cs w where f: "b = form cs w b" and lay: "layout cs w" and bs: "bytes_of b = datas cs"
    using b by (rule ev_invE)
  have cw: "chains b = cs" "last_with_datap b = w" "last_at b = length cs"
    by (subst f, simp)+
  define k where "k = (if w < length cs \<and> CHAIN_SPACE_LEN (cs ! w) = 0 then Suc w else w)"
  define ok where "ok = (\<lambda>k b. if n \<le> CHAIN_SPACE_LEN (chains b ! k) then Inr (Some k, b)
      else Inl AssertFailed :: (nat option \<times> evbuffer) res)"
  define new where "new = bindE (evbuffer_chain_insert_new m b n) (\<lambda>(r, b).
           case r of None \<Rightarrow> Inr (None, b) | Some k \<Rightarrow> ok k b)"
  let ?P = "\<lambda>x. \<exists>r b'. x = Inr (r, b') \<and> ev_to b 0 0 (bytes_of b) b'
    \<and> (case r of None \<Rightarrow> alloc_fails m \<or> n + MAX_TO_COPY_IN_EXPAND > CHAIN_MAX - CHAIN_SIZE
        | Some k \<Rightarrow> k < length (chains b') \<and> n \<le> CHAIN_SPACE_LEN (chains b' ! k))"
  have fails: "alloc_fails m \<or> n + MAX_TO_COPY_IN_EXPAND > CHAIN_MAX - CHAIN_SIZE"
    if "evbuffer_chain_new m j = None" "j \<le> n + MAX_TO_COPY_IN_EXPAND" for j
    using alloc_failsI [OF that(1)] that(2) by linarith
  have new: "?P new"
  proof -
    obtain r b' where i: "evbuffer_chain_insert_new m b n = Inr (r, b')" "ev_to b 0 0 (bytes_of b) b'"
      "case r of None \<Rightarrow> b' = b \<and> evbuffer_chain_new m n = None
        | Some k \<Rightarrow> \<exists>c. evbuffer_chain_new m n = Some c \<and> chains b' = used cs w @ [c]
            \<and> k = length (used cs w) \<and> last_with_datap b' = w"
      using insert_new_ok [OF m b, of n] unfolding cw by blast
    show ?thesis
    proof (cases r)
      case None
      then show ?thesis
        using i fails [of n] by (simp add: new_def)
    next
      case (Some j)
      with i(3) obtain c where c: "evbuffer_chain_new m n = Some c" "chains b' = used cs w @ [c]"
        "j = length (used cs w)"
        by auto
      have "n \<le> CHAIN_SPACE_LEN (chains b' ! j)"
        using chain_new_ok [OF m c(1)] by (simp add: c CHAIN_SPACE_LEN_def)
      then show ?thesis
        using Some i c by (simp add: new_def ok_def)
    qed
  qed
  note def = evbuffer_expand_singlechain_def [of m b n, folded ok_def, unfolded Let_def cw,
      folded k_def, folded new_def]
  show ?thesis
  proof (cases "k < length cs")
    case False
    then show ?thesis
      using new by (simp add: def)
  next
    case kl: True
    define c where "c = cs ! k"
    have c: "chain_ok c" and np: "\<not> CHAIN_PINNED c"
      using layout_at [OF lay kl] by (simp_all add: c_def chain_ok_def)
    have ne: "cs \<noteq> []"
      using kl by auto
    have kw: "k = w" if "off c \<noteq> 0"
      using that beyond_lwd [OF lay kl] by (auto simp: k_def c_def split: if_splits)
    have upd: "?P (ok k (b\<lparr>chains := cs[k := c']\<rparr>))"
      if "chain_ok c'" "chain_data c' = chain_data c" "off c' = off c" "off c \<noteq> 0"
        "n \<le> CHAIN_SPACE_LEN c'" for c'
    proof -
      have w: "w < length cs" "datas cs = datas (take w cs) @ chain_data c"
        using lwd_at [OF lay ne] kw [OF that(4)] by (simp_all add: c_def)
      have l: "layout (cs[w := c']) w" "datas (cs[w := c']) = datas cs"
        using layout_upd_lwd [OF lay ne that(1)] that(2,3,4) layoutD(3) [OF lay]
        by (simp_all add: w(2) that(2))
      have "b\<lparr>chains := cs[k := c']\<rparr> = form (cs[w := c']) w b"
        by (subst f) (simp add: form_def l(2) kw [OF that(4)])
      then show ?thesis
        using ev_to_formI [OF b l] w(1) that(5) kw [OF that(4)] by (simp add: ok_def bs)
    qed
    consider "IMMUTABLE c" | "\<not> IMMUTABLE c" "n \<le> CHAIN_SPACE_LEN c"
      | "\<not> IMMUTABLE c" "\<not> n \<le> CHAIN_SPACE_LEN c" "off c = 0"
      | "\<not> IMMUTABLE c" "\<not> n \<le> CHAIN_SPACE_LEN c" "off c \<noteq> 0" "evbuffer_chain_should_realign c n"
      | "\<not> IMMUTABLE c" "\<not> n \<le> CHAIN_SPACE_LEN c" "off c \<noteq> 0" "\<not> evbuffer_chain_should_realign c n"
      by blast
    then show ?thesis
    proof cases
      case 1
      then show ?thesis
        using new kl by (simp add: def c_def)
    next
      case 2
      then show ?thesis
        using kl np ev_to_refl [OF b] by (simp add: def c_def ok_def cw)
    next
      case 3
      then show ?thesis
        using new kl np by (simp add: def c_def)
    next
      case 4
      obtain c' where c': "evbuffer_chain_align c = Inr c'" "chain_ok c'" "chain_data c' = chain_data c"
        "off c' = off c" "misalign c' = 0" "\<not> IMMUTABLE c'" "buffer_len c' = buffer_len c"
        using chain_align_ok [OF c 4(1)] by blast
      have "n \<le> CHAIN_SPACE_LEN c'"
        using 4 c' by (simp add: CHAIN_SPACE_LEN_def evbuffer_chain_should_realign_def)
      from upd [OF c'(2,3,4) 4(3) this] show ?thesis
        using 4 kl np c'(1) by (simp add: def c_def)
    next
      case 5
      show ?thesis
      proof (cases "CHAIN_SPACE_LEN c < buffer_len c div 8 \<or> off c > MAX_TO_COPY_IN_EXPAND
            \<or> n \<ge> CHAIN_MAX - off c")
        case True
        have nxt: "?P (ok (Suc k) b)" if "Suc k < length cs" "n \<le> CHAIN_SPACE_LEN (cs ! Suc k)"
          using that ev_to_refl [OF b] by (simp add: ok_def cw)
        show ?thesis
          using 5 kl np True new nxt by (simp add: def c_def [symmetric])
      next
        case False
        show ?thesis
        proof (cases "evbuffer_chain_new m (off c + n)")
          case None
          then show ?thesis
            using 5 kl np False ev_to_refl [OF b] fails [OF None] by (simp add: def c_def [symmetric])
        next
          case (Some tmp)
          note tmp = chain_new_ok [OF m Some]
          have pk: "peek (misalign c) (off c) (mem c) = Inr (chain_data c)"
            using peek_data [OF c, of 0 "off c"] c by simp
          have le: "0 + length (chain_data c) \<le> length (mem tmp)"
            using tmp(1,2) c by (simp add: chain_ok_def [of tmp])
          obtain mm where mm: "poke 0 (chain_data c) (mem tmp) = Inr mm" "length mm = length (mem tmp)"
            "take (length (chain_data c)) (drop 0 mm) = chain_data c"
            using poke_ok [OF le] by blast
          define c' where "c' = tmp\<lparr>off := off c, mem := mm\<rparr>"
          have c': "chain_ok c'" "chain_data c' = chain_data c" "off c' = off c" "n \<le> CHAIN_SPACE_LEN c'"
            using tmp mm c le by (simp_all add: c'_def chain_ok_def [of "_\<lparr>off := _, mem := _\<rparr>"]
                chain_ok_def [of tmp] chain_data_def [of "_\<lparr>off := _, mem := _\<rparr>"] CHAIN_SPACE_LEN_def)
          have "b\<lparr>chains := cs[k := c'], last_at := length cs\<rparr> = b\<lparr>chains := cs[k := c']\<rparr>"
            by (subst (1 2) f) (simp add: form_def)
          with upd [OF c'(1-3) 5(3) c'(4)] show ?thesis
            using 5 kl np False Some pk mm(1)
            by (simp add: def c_def [symmetric] c'_def [symmetric] ok_def [symmetric])
        qed
      qed
    qed
  qed
qed

section \<open>Room in several chains\<close>

definition spaces :: "evbuffer_chain list \<Rightarrow> nat" where
  "spaces cs = sum_list (map CHAIN_SPACE_LEN cs)"

lemma spaces_simps [simp]:
  "spaces [] = 0" "spaces (c # cs) = CHAIN_SPACE_LEN c + spaces cs"
  "spaces (cs @ ds) = spaces cs + spaces ds"
  by (simp_all add: spaces_def)

lemma spaces_take_mono: "i \<le> j \<Longrightarrow> spaces (take i cs) \<le> spaces (take j cs)"
proof -
  assume "i \<le> j"
  then have "take j cs = take i cs @ take (j - i) (drop i cs)"
    by (metis le_add_diff_inverse take_add)
  then show ?thesis
    by simp
qed

text \<open>Empty chains are realigned; nothing else of a chain changes.\<close>

definition realigned :: "evbuffer_chain \<Rightarrow> evbuffer_chain" where
  "realigned c = (if off c = 0 then c\<lparr>misalign := 0\<rparr> else c)"

lemma realigned_ok [simp]:
  "chain_ok c \<Longrightarrow> chain_ok (realigned c)" "off (realigned c) = off c"
  "chain_data (realigned c) = chain_data c"
  by (auto simp: realigned_def chain_ok_def chain_data_def)

text \<open>The chains counted by the loop: not a first one that is full.\<close>

definition counted :: "evbuffer_chain list \<Rightarrow> nat" where
  "counted cs = length (filter (\<lambda>c. off c = 0 \<or> CHAIN_SPACE_LEN c \<noteq> 0) cs)"

lemma counted_simps [simp]: "counted [] = 0"
  "counted (c # cs) = (if off c = 0 \<or> CHAIN_SPACE_LEN c \<noteq> 0 then 1 else 0) + counted cs"
  by (simp_all add: counted_def)

lemma counted_le: "counted cs \<le> length cs"
  by (simp add: counted_def)

lemma room_loop_ok:
  assumes "\<forall>c\<in>set cs. chain_ok c" "\<forall>c\<in>set (if first then tl cs else cs). off c = 0" "used_n < n"
  shows "\<exists>q \<le> length cs. \<exists>a u e.
    room_loop n datlen avail used_n first cs = Inr (map realigned (take q cs) @ drop q cs, a, u, e)
    \<and> a = avail + spaces (map realigned (take q cs)) \<and> u = used_n + counted (map realigned (take q cs))
    \<and> u \<le> n \<and> (e \<longleftrightarrow> cs \<noteq> [] \<and> datlen \<le> a) \<and> (\<not> e \<longrightarrow> q = length cs \<or> u = n) \<and> (cs \<noteq> [] \<longrightarrow> 0 < q)"
  using assms
proof (induction cs arbitrary: avail used_n first)
  case Nil
  then show ?case
    by (auto intro!: exI [of _ False])
next
  case (Cons c cs)
  have c: "chain_ok c" and z: "\<forall>c\<in>set (if False then tl cs else cs). off c = 0"
    "\<not> (off c \<noteq> 0 \<and> \<not> first)"
    using Cons.prems by (auto split: if_splits)
  define a' where "a' = avail + CHAIN_SPACE_LEN (realigned c)"
  define u' where "u' = used_n + counted [realigned c]"
  have bl: "CHAIN_SPACE_LEN (realigned c) = (if off c = 0 then buffer_len c else CHAIN_SPACE_LEN c)"
    using c by (auto simp: realigned_def CHAIN_SPACE_LEN_def chain_ok_def IMMUTABLE_def)
  have st: "(if off c \<noteq> 0
          then if CHAIN_SPACE_LEN c \<noteq> 0 then (c, avail + CHAIN_SPACE_LEN c, Suc used_n)
               else (c, avail, used_n)
          else (c\<lparr>misalign := 0\<rparr>, avail + buffer_len c, Suc used_n)) = (realigned c, a', u')"
    using bl by (simp add: a'_def u'_def) (simp add: realigned_def)
  have un: "u' \<le> n"
    using Cons.prems(3) by (simp add: u'_def)
  have step: "room_loop n datlen avail used_n first (c # cs) =
      (if datlen \<le> a' then Inr (realigned c # cs, a', u', True)
       else if u' = n then Inr (realigned c # cs, a', u', False)
       else bindE (room_loop n datlen a' u' False cs) (\<lambda>(cs, r). Inr (realigned c # cs, r)))"
    using z(2) by (simp only: room_loop.simps st Let_def prod.case if_False)
  let ?P = "\<lambda>q a u e. q \<le> length (c # cs) \<and>
    room_loop n datlen avail used_n first (c # cs)
      = Inr (map realigned (take q (c # cs)) @ drop q (c # cs), a, u, e)
    \<and> a = avail + spaces (map realigned (take q (c # cs)))
    \<and> u = used_n + counted (map realigned (take q (c # cs)))
    \<and> u \<le> n \<and> (e \<longleftrightarrow> c # cs \<noteq> [] \<and> datlen \<le> a)
    \<and> (\<not> e \<longrightarrow> q = length (c # cs) \<or> u = n) \<and> (c # cs \<noteq> [] \<longrightarrow> 0 < q)"
  have "\<exists>q a u e. ?P q a u e"
  proof (cases "datlen \<le> a' \<or> u' = n")
    case True
    then have "room_loop n datlen avail used_n first (c # cs)
        = Inr (map realigned (take 1 (c # cs)) @ drop 1 (c # cs), a', u', datlen \<le> a')"
      unfolding step by (cases "datlen \<le> a'") simp_all
    moreover have "a' = avail + spaces (map realigned (take 1 (c # cs)))"
      "u' = used_n + counted (map realigned (take 1 (c # cs)))"
      by (simp_all add: a'_def u'_def)
    moreover have "1 \<le> length (c # cs)" "0 < (1::nat)" "c # cs \<noteq> []" "\<not> datlen \<le> a' \<longrightarrow> u' = n"
      using True by auto
    ultimately have "?P 1 a' u' (datlen \<le> a')"
      using un by blast
    then show ?thesis
      by blast
  next
    case False
    with un have "u' < n"
      by simp
    from Cons.IH [OF _ z(1) this, of a'] Cons.prems(1) obtain q a u e where IH: "q \<le> length cs"
      "room_loop n datlen a' u' False cs = Inr (map realigned (take q cs) @ drop q cs, a, u, e)"
      "a = a' + spaces (map realigned (take q cs))" "u = u' + counted (map realigned (take q cs))"
      "u \<le> n" "e \<longleftrightarrow> cs \<noteq> [] \<and> datlen \<le> a" "\<not> e \<longrightarrow> q = length cs \<or> u = n"
      by auto
    have "datlen \<le> a \<longrightarrow> cs \<noteq> []"
      using False IH(1,3) by auto
    have "room_loop n datlen avail used_n first (c # cs)
        = Inr (map realigned (take (Suc q) (c # cs)) @ drop (Suc q) (c # cs), a, u, e)"
      unfolding step using False IH(2) by simp
    moreover have "a = avail + spaces (map realigned (take (Suc q) (c # cs)))"
      "u = used_n + counted (map realigned (take (Suc q) (c # cs)))"
      unfolding IH(3,4) by (simp_all add: a'_def u'_def)
    moreover have "Suc q \<le> length (c # cs)" "0 < Suc q" "c # cs \<noteq> []"
      "\<not> e \<longrightarrow> Suc q = length (c # cs) \<or> u = n" "e \<longleftrightarrow> c # cs \<noteq> [] \<and> datlen \<le> a"
      using IH(1,6,7) \<open>datlen \<le> a \<longrightarrow> cs \<noteq> []\<close> by auto
    ultimately have "?P (Suc q) a u e"
      using IH(5) by blast
    then show ?thesis
      by blast
  qed
  then show ?case
    by blast
qed

text \<open>
  The room that \<open>evbuffer_read_setup_vecs_\<close> will find in \<open>n\<close> chains.
\<close>

definition first_space :: "evbuffer_chain list \<Rightarrow> nat \<Rightarrow> nat" where
  "first_space cs w = (if CHAIN_SPACE_LEN (cs ! w) = 0 then Suc w else w)"

definition room_for :: "nat \<Rightarrow> nat \<Rightarrow> evbuffer \<Rightarrow> bool" where
  "room_for n datlen b \<longleftrightarrow>
     last_with_datap b < length (chains b)
     \<and> first_space (chains b) (last_with_datap b) < length (chains b)
     \<and> datlen \<le> spaces (take n (drop (first_space (chains b) (last_with_datap b)) (chains b)))"

text \<open>It is there when \<open>q\<close> chains from \<open>last_with_datap\<close> on have it and at most \<open>n\<close> of them count.\<close>

lemma room_forI:
  assumes "w < length cs" "0 < datlen" "datlen \<le> spaces (take q (drop w cs))"
    "counted (take q (drop w cs)) \<le> n" "\<forall>c\<in>set (drop (Suc w) cs). off c = 0"
    "chains b = cs" "last_with_datap b = w"
  shows "room_for n datlen b"
proof -
  define ds where "ds = drop (Suc w) cs"
  have d: "drop w cs = cs ! w # ds"
    using assms(1) by (simp add: ds_def Cons_nth_drop_Suc)
  have q: "0 < q"
    using assms(2,3) by (cases q) auto
  have fz: "counted (take j ds) = length (take j ds)" for j
  proof -
    have "filter (\<lambda>c. off c = 0 \<or> CHAIN_SPACE_LEN c \<noteq> 0) (take j ds) = take j ds"
      using assms(5) by (intro filter_True) (auto simp: ds_def dest: in_set_takeD)
    then show ?thesis
      by (simp add: counted_def)
  qed
  have cc: "counted (take q (drop w cs))
      = (if off (cs ! w) = 0 \<or> CHAIN_SPACE_LEN (cs ! w) \<noteq> 0 then 1 else 0) + length (take (q - 1) ds)"
    using q fz [of "q - 1"] by (cases q) (auto simp: d counted_def)
  show ?thesis
  proof (cases "CHAIN_SPACE_LEN (cs ! w) = 0")
    case True
    have "datlen \<le> spaces (take (q - 1) ds)"
      using assms(3) q True by (cases q) (simp_all add: d)
    moreover have "take (q - 1) ds = take (length (take (q - 1) ds)) ds"
      by (metis length_take take_take min.idem take_all_iff nat_le_linear min_def length_take)
    moreover have "length (take (q - 1) ds) \<le> n"
      using assms(4) unfolding cc by linarith
    ultimately have "datlen \<le> spaces (take n ds)"
      using spaces_take_mono by (metis order_trans)
    moreover have "ds \<noteq> []"
      using \<open>datlen \<le> spaces (take (q - 1) ds)\<close> assms(2) by auto
    ultimately show ?thesis
      using assms(1) True by (simp add: room_for_def first_space_def assms(6,7) ds_def)
  next
    case False
    have "take q (drop w cs) = take (length (take q (drop w cs))) (drop w cs)"
      by (metis append_eq_conv_conj append_take_drop_id)
    moreover have "length (take q (drop w cs)) \<le> n"
      using assms(4) False q unfolding cc by (cases q) (simp_all add: d)
    ultimately have "datlen \<le> spaces (take n (drop w cs))"
      using spaces_take_mono assms(3) by (metis order_trans)
    then show ?thesis
      using assms(1) False by (simp add: room_for_def first_space_def assms(6,7))
  qed
qed

lemma map_realigned:
  assumes "\<And>c. f (realigned c) = f c"
  shows "map f (take w cs @ map realigned (take q (drop w cs)) @ drop q (drop w cs)) = map f cs"
proof -
  have "map f (map realigned xs) = map f xs" for xs
    using assms by simp
  then have "map f (take w cs @ map realigned (take q (drop w cs)) @ drop q (drop w cs))
      = map f (take w cs @ take q (drop w cs) @ drop q (drop w cs))"
    by (simp only: map_append)
  then show ?thesis
    by (simp only: append_take_drop_id)
qed

lemma realigned_list:
  assumes "layout cs w" "w \<le> length cs"
  shows "layout (take w cs @ map realigned (take q (drop w cs)) @ drop q (drop w cs)) w"
    "datas (take w cs @ map realigned (take q (drop w cs)) @ drop q (drop w cs)) = datas cs"
    "length (take w cs @ map realigned (take q (drop w cs)) @ drop q (drop w cs)) = length cs"
proof -
  let ?cs = "take w cs @ map realigned (take q (drop w cs)) @ drop q (drop w cs)"
  have offs: "map off ?cs = map off cs" and dats: "map chain_data ?cs = map chain_data cs"
    by (rule map_realigned, simp)+
  show len: "length ?cs = length cs"
    using offs by (metis length_map)
  show dt: "datas ?cs = datas cs"
    using dats by (simp only: datas_def)
  have ok: "\<forall>c\<in>set ?cs. chain_ok c"
    using layoutD(1) [OF assms(1)]
    by (auto intro!: realigned_ok(1) dest!: in_set_takeD in_set_dropD)
  have "lwd_ok ?cs w"
    unfolding lwd_ok_def
  proof (cases "cs = []")
    case True
    then show "?cs = [] \<and> w = 0 \<or> w < length ?cs \<and> (w \<noteq> 0 \<longrightarrow> off (?cs ! w) \<noteq> 0)
        \<and> (\<forall>c\<in>set (drop (Suc w) ?cs). off c = 0)"
      using assms by simp
  next
    case False
    then have w: "w < length cs" "w \<noteq> 0 \<longrightarrow> off (cs ! w) \<noteq> 0" "\<forall>c\<in>set (drop (Suc w) cs). off c = 0"
      using layoutD(2) [OF assms(1)] by (auto simp: lwd_ok_def)
    have "off ` set (drop (Suc w) ?cs) = off ` set (drop (Suc w) cs)"
      using offs by (metis drop_map list.set_map)
    then have "\<forall>c\<in>set (drop (Suc w) ?cs). off c = 0"
      using w(3) by (metis (no_types, lifting) imageE imageI)
    moreover have "off (?cs ! w) = off (cs ! w)"
      using offs w(1) len by (metis nth_map)
    ultimately show "?cs = [] \<and> w = 0 \<or> w < length ?cs \<and> (w \<noteq> 0 \<longrightarrow> off (?cs ! w) \<noteq> 0)
        \<and> (\<forall>c\<in>set (drop (Suc w) ?cs). off c = 0)"
      using w(1,2) len by presburger
  qed
  then show "layout ?cs w"
    using ok dt layoutD(3) [OF assms(1)] by (simp add: layout_def)
qed

lemma counted_small: "counted (cs @ ds) = counted cs + counted ds" "counted [c] \<le> 1"
  by (simp_all add: counted_def)

definition fast_spec :: "malloc \<Rightarrow> evbuffer \<Rightarrow> nat \<Rightarrow> nat \<Rightarrow> int \<times> evbuffer \<Rightarrow> bool" where
  "fast_spec m b datlen n = (\<lambda>(r, b'). ev_to b 0 0 (bytes_of b) b'
     \<and> (r = 0 \<and> (0 < datlen \<longrightarrow> room_for n datlen b')
        \<or> r = -1 \<and> (alloc_fails m \<or> datlen > CHAIN_MAX - CHAIN_SIZE)))"

lemma expand_fast_new:
  assumes m: "malloc_sized m" and b: "ev_inv b" and n: "2 \<le> n"
  shows "\<exists>r. (case evbuffer_chain_new m datlen of
         None \<Rightarrow> Inr (-1, b)
       | Some c \<Rightarrow> bindE (evbuffer_chain_insert b c) (\<lambda>b. Inr (0, b))) = Inr r \<and> fast_spec m b datlen n r"
proof (cases "evbuffer_chain_new m datlen")
  case None
  then show ?thesis
    using ev_to_refl [OF b] alloc_failsI [OF None] by (auto simp: fast_spec_def not_less [symmetric])
next
  case (Some c)
  let ?u = "used (chains b) (last_with_datap b)"
  obtain b' where b': "evbuffer_chain_insert b c = Inr b'" "ev_to b 0 0 (bytes_of b) b'"
    "chains b' = ?u @ [c]" "last_with_datap b' = last_with_datap b"
  proof -
    obtain r b' where r: "evbuffer_chain_insert_new m b datlen = Inr (r, b')" "ev_to b 0 0 (bytes_of b) b'"
      "case r of None \<Rightarrow> b' = b \<and> evbuffer_chain_new m datlen = None
        | Some k \<Rightarrow> \<exists>c. evbuffer_chain_new m datlen = Some c \<and> chains b' = ?u @ [c]
            \<and> k = length ?u \<and> last_with_datap b' = last_with_datap b"
      using insert_new_ok [OF m b, of datlen] by blast
    from r(1) obtain b1 where "evbuffer_chain_insert b c = Inr b1" "b' = b1" "r \<noteq> None"
      unfolding evbuffer_chain_insert_new_def Some option.case by (elim bindE_InrE) auto
    with r Some that show thesis
      by auto
  qed
  have lay: "layout (chains b) (last_with_datap b)"
    using b by (simp add: ev_inv_def)
  note u = used_ok [OF lay]
  have c: "datlen \<le> CHAIN_SPACE_LEN c" "0 < CHAIN_SPACE_LEN c"
    using chain_new_ok [OF m Some] by (simp_all add: CHAIN_SPACE_LEN_def)
  have "room_for n datlen b'" if "0 < datlen"
  proof (rule room_forI [OF _ that _ _ _ b'(3,4), where q = 2])
    let ?w = "last_with_datap b"
    have w: "?w \<le> length ?u" "?u \<noteq> [] \<longrightarrow> Suc ?w = length ?u"
    proof -
      show "?w \<le> length ?u"
        using u(6) .
      show "?u \<noteq> [] \<longrightarrow> Suc ?w = length ?u"
      proof
        assume ne: "?u \<noteq> []"
        then have "chains b \<noteq> []" "off (chains b ! ?w) \<noteq> 0"
          using u(7) by (auto simp: used_def)
        then show "Suc ?w = length ?u"
          using u(5) by simp
      qed
    qed
    show "?w < length (?u @ [c])"
      using w(1) by simp
    have sp: "datlen \<le> spaces (take 2 (drop ?w (?u @ [c])))"
    proof (cases "?u = []")
      case True
      then show ?thesis
        using u(4) c by simp
    next
      case False
      then have "drop ?w (?u @ [c]) = [?u ! ?w, c]"
        using w(2) u(7) by (simp add: Cons_nth_drop_Suc [symmetric] nth_append)
      then show ?thesis
        using c by simp
    qed
    then show "datlen \<le> spaces (take 2 (drop ?w (?u @ [c])))" .
    have "counted (take 2 (drop ?w (?u @ [c]))) \<le> length (take 2 (drop ?w (?u @ [c])))"
      by (rule counted_le)
    also have "\<dots> \<le> 2"
      by simp
    finally show "counted (take 2 (drop ?w (?u @ [c]))) \<le> n"
      using n by simp
    show "\<forall>x\<in>set (drop (Suc ?w) (?u @ [c])). off x = 0"
      using w(2) u(4) chain_new_ok(4) [OF m Some] by (cases "?u = []") simp_all
  qed
  then show ?thesis
    using Some b'(1,2) by (auto simp: fast_spec_def)
qed

lemma expand_fast_ok:
  assumes m: "malloc_sized m" and b: "ev_inv b" and n: "2 \<le> n"
  shows "\<exists>r. evbuffer_expand_fast m b datlen n = Inr r \<and> fast_spec m b datlen n r"
proof (cases "last_at b = 0 \<or> IMMUTABLE (chains b ! (last_at b - 1))")
  case True
  then show ?thesis
    using expand_fast_new [OF m b n, of datlen] n by (simp add: evbuffer_expand_fast_def)
next
  case False
  obtain cs w where f: "b = form cs w b" and lay: "layout cs w" and bs: "bytes_of b = datas cs"
    using b by (rule ev_invE)
  have cw: "chains b = cs" "last_with_datap b = w" "last_at b = length cs"
    by (subst f, simp)+
  have ne: "cs \<noteq> []"
    using False cw by auto
  note w = lwd_at [OF lay ne]
  have tz: "\<forall>c\<in>set (tl (drop w cs)). off c = 0"
    using layoutD(2) [OF lay] ne by (simp add: lwd_ok_def tl_drop [symmetric] drop_Suc)
  have ok: "\<forall>c\<in>set (drop w cs). chain_ok c"
    using layoutD(1) [OF lay] by (auto dest: in_set_dropD)
  obtain q a u e where q: "q \<le> length (drop w cs)"
    "room_loop n datlen 0 0 True (drop w cs)
      = Inr (map realigned (take q (drop w cs)) @ drop q (drop w cs), a, u, e)"
    "a = 0 + spaces (map realigned (take q (drop w cs)))"
    "u = 0 + counted (map realigned (take q (drop w cs)))" "u \<le> n"
    "e \<longleftrightarrow> drop w cs \<noteq> [] \<and> datlen \<le> a" "\<not> e \<longrightarrow> q = length (drop w cs) \<or> u = n"
    "drop w cs \<noteq> [] \<longrightarrow> 0 < q"
    using room_loop_ok [OF ok, of True 0 n datlen 0] tz n by auto
  define ds where "ds = map realigned (take q (drop w cs)) @ drop q (drop w cs)"
  define cs1 where "cs1 = take w cs @ ds"
  define b1 where "b1 = b\<lparr>chains := cs1\<rparr>"
  note r = realigned_list [OF lay, of q, folded ds_def cs1_def, OF less_imp_le [OF w(1)]]
  have b1: "b1 = form cs1 w b" "ev_to b 0 0 (bytes_of b) b1"
  proof -
    show "b1 = form cs1 w b"
      unfolding b1_def by (subst f) (simp add: form_def r(2,3))
    then show "ev_to b 0 0 (bytes_of b) b1"
      using ev_to_formI [OF b r(1,2)] by (simp add: bs)
  qed
  have sel: "chains b1 = cs1" "last_at b1 = length cs" "last_with_datap b1 = w"
    by (simp_all add: b1_def cw)
  have d1: "drop w cs1 = ds" "take q ds = map realigned (take q (drop w cs))" "w < length cs1"
    "take w cs1 = take w cs" "ds \<noteq> []" "length ds = length (drop w cs)"
    using w(1) q(1) by (auto simp: cs1_def ds_def min_def)
  have tz1: "\<forall>c\<in>set (drop (Suc w) cs1). off c = 0"
    using layoutD(2) [OF r(1)] d1(3) by (auto simp: lwd_ok_def)
  have qa: "a = spaces (take q ds)" "u = counted (take q ds)" "0 < q"
    using q(3,4,8) w(1) by (simp_all add: d1(2))
  have i1: "ev_inv b1"
    using ev_to_inv [OF b b1(2)] .
  have new: "\<exists>r. (case evbuffer_chain_new m j of None \<Rightarrow> Inr (-1, b0) | Some tmp \<Rightarrow> Inr (0, g tmp)) = Inr r
      \<and> fast_spec m b datlen n r"
    if "j \<le> datlen" "ev_to b 0 0 (bytes_of b) b0"
      "\<And>tmp. evbuffer_chain_new m j = Some tmp \<Longrightarrow> ev_to b 0 0 (bytes_of b) (g tmp)"
      "\<And>tmp. evbuffer_chain_new m j = Some tmp \<Longrightarrow> 0 < datlen \<Longrightarrow> room_for n datlen (g tmp)"
    for j b0 and g :: "evbuffer_chain \<Rightarrow> evbuffer"
  proof (cases "evbuffer_chain_new m j")
    case None
    have "alloc_fails m \<or> datlen > CHAIN_MAX - CHAIN_SIZE"
      using alloc_failsI [OF None] that(1) by linarith
    with None that(2) show ?thesis
      by (simp add: fast_spec_def)
  next
    case (Some tmp)
    then show ?thesis
      using that(3,4) by (simp add: fast_spec_def)
  qed
  have g: "(n < 2) = False" "(length cs = 0 \<or> IMMUTABLE (cs ! (length cs - 1))) = False"
    using n False by (auto simp: cw)
  note def = evbuffer_expand_fast_def [of m b datlen n, unfolded cw Let_def, unfolded g if_False q(2) bindE_simps
      prod.case, folded ds_def cs1_def b1_def, unfolded sel]
  consider "e" | "\<not> e" "u < n" | "\<not> e" "u = n"
    using q(5) by linarith
  then show ?thesis
  proof cases
    case 1
    have "room_for n datlen b1" if "0 < datlen"
      by (rule room_forI [OF d1(3) that _ _ tz1 sel(1,3), where q = q])
         (use 1 q(5,6) qa in \<open>simp_all add: d1(1)\<close>)
    then show ?thesis
      using 1 b1(2) by (simp add: def fast_spec_def)
  next
    case 2
    then have ql: "q = length ds"
      using q(7) d1(6) by auto
    let ?g = "\<lambda>tmp. b1\<lparr>chains := take (length cs) cs1 @ [tmp], last_at := Suc (length cs)\<rparr>"
    have "\<exists>r. (case evbuffer_chain_new m (datlen - a) of None \<Rightarrow> Inr (-1, b1) | Some tmp \<Rightarrow> Inr (0, ?g tmp))
        = Inr r \<and> fast_spec m b datlen n r"
    proof (rule new)
      fix tmp assume new: "evbuffer_chain_new m (datlen - a) = Some tmp"
      note tmp = chain_new_ok [OF m new]
      have sp: "datlen - a \<le> CHAIN_SPACE_LEN tmp"
        using tmp by (simp add: CHAIN_SPACE_LEN_def)
      have l: "layout (cs1 @ [tmp]) w" "datas (cs1 @ [tmp]) = bytes_of b"
        using r(1,2) d1(3) tmp(1,4) tz1 bs
        by (auto simp: layout_def lwd_ok_def nth_append)
      have gf: "?g tmp = form (cs1 @ [tmp]) w b1"
        unfolding b1_def by (subst f) (simp add: form_def tmp(4) r(2,3))
      show "ev_to b 0 0 (bytes_of b) (?g tmp)"
        unfolding gf using ev_to_trans [OF b1(2) ev_to_formI [OF i1 l]] by simp
      show "room_for n datlen (?g tmp)" if "0 < datlen"
      proof (rule room_forI [OF _ that, where q = "Suc q"])
        show "chains (?g tmp) = cs1 @ [tmp]" "last_with_datap (?g tmp) = w"
          using r(3) by (simp_all add: sel)
        show "w < length (cs1 @ [tmp])" "\<forall>c\<in>set (drop (Suc w) (cs1 @ [tmp])). off c = 0"
          using d1(3) tz1 tmp(4) by simp_all
        have t: "take (Suc q) (drop w (cs1 @ [tmp])) = take q ds @ [tmp]"
          using d1(1,3) by (simp add: ql)
        show "datlen \<le> spaces (take (Suc q) (drop w (cs1 @ [tmp])))"
          unfolding t using sp qa(1) by simp
        show "counted (take (Suc q) (drop w (cs1 @ [tmp]))) \<le> n"
          unfolding t counted_small(1) using 2 qa(2) counted_small(2) [of tmp] by linarith
      qed
    qed (use b1(2) in simp_all)
    then show ?thesis
      using 2 by (simp only: def if_True if_False)
  next
    case 3
    obtain c post where ds: "ds = c # post"
      using d1(5) by (cases ds) auto
    have cw1: "cs1 ! w = c" "drop (Suc w) cs1 = post" "take (Suc w) cs1 = take w cs @ [c]"
      using d1(1,3,4) ds by (metis nth_via_drop, metis drop_Suc list.sel(3) tl_drop, metis take_Suc_conv_app_nth nth_via_drop)
    have pz: "\<forall>x\<in>set post. off x = 0"
      using tz1 cw1(2) by simp
    have lt: "a < datlen"
      using 3 q(6) w(1) by auto
    have sc: "CHAIN_SPACE_LEN c \<le> a"
      using qa(1,3) by (cases q) (simp_all add: ds)
    show ?thesis
    proof (cases "off c = 0")
      case True
      then have w0: "w = 0"
        using layoutD(2) [OF r(1)] d1(3) cw1(1) by (auto simp: lwd_ok_def)
      have em: "bytes_of b = []"
        using r(2) bs True pz datas_empty [of post] w0 d1(1) ds by simp
      let ?g = "\<lambda>tmp. b1\<lparr>chains := [tmp], last_at := 1, last_with_datap := 0\<rparr>"
      have "\<exists>r. (case evbuffer_chain_new m (datlen - 0) of None \<Rightarrow> Inr (-1, ZERO_CHAIN b1)
          | Some tmp \<Rightarrow> Inr (0, ?g tmp)) = Inr r \<and> fast_spec m b datlen n r"
      proof (rule new)
        have l0: "layout [] 0"
          by (simp add: layout_def lwd_ok_def)
        have "ZERO_CHAIN b1 = form [] 0 b1"
          by (simp add: ZERO_CHAIN_def form_def)
        then show "ev_to b 0 0 (bytes_of b) (ZERO_CHAIN b1)"
          using ev_to_trans [OF b1(2) ev_to_formI [OF i1 l0]] em by simp
        fix tmp assume new: "evbuffer_chain_new m (datlen - 0) = Some tmp"
        note tmp = chain_new_ok [OF m new]
        have l: "layout [tmp] 0" "datas [tmp] = bytes_of b"
          using tmp em by (simp_all add: layout_def lwd_ok_def)
        have gf: "?g tmp = form [tmp] 0 b1"
          unfolding b1_def by (subst f) (simp add: form_def tmp(4) em [unfolded bs])
        show "ev_to b 0 0 (bytes_of b) (?g tmp)"
          unfolding gf using ev_to_trans [OF b1(2) ev_to_formI [OF i1 l]] by simp
        show "room_for n datlen (?g tmp)" if "0 < datlen"
          by (rule room_forI [OF _ that, where q = 1 and cs = "[tmp]" and w = 0])
             (use tmp n in \<open>simp_all add: CHAIN_SPACE_LEN_def\<close>)
      qed simp
      then show ?thesis
        using 3 True w0 pz d1(1) ds cw1 by (simp add: def list_all_iff cong: option.case_cong)
    next
      case nz: False
      let ?cs = "take (Suc w) cs1"
      let ?g = "\<lambda>tmp. b1\<lparr>chains := ?cs @ [tmp], last_at := Suc (Suc w)\<rparr>"
      let ?z = "b1\<lparr>chains := ?cs, last_at := Suc w\<rparr>"
      have dt: "datas ?cs = datas cs"
      proof -
        have "datas cs1 = datas ?cs @ datas (drop (Suc w) cs1)"
          by (metis append_take_drop_id datas_simps(3))
        then show ?thesis
          using r(2) pz datas_empty [of post] cw1(2) by simp
      qed
      have cl: "\<forall>x\<in>set ?cs. chain_ok x"
        using layoutD(1) [OF r(1)] by (auto dest: in_set_takeD)
      have len: "length ?cs = Suc w" "?cs ! w = c" "min (length cs1) (Suc w) = Suc w"
        using d1(3) cw1(1) by simp_all
      have "\<exists>r. (case evbuffer_chain_new m (datlen - CHAIN_SPACE_LEN c) of None \<Rightarrow> Inr (-1, ?z)
          | Some tmp \<Rightarrow> Inr (0, ?g tmp)) = Inr r \<and> fast_spec m b datlen n r"
      proof (rule new)
        have l0: "layout ?cs w" "datas ?cs = bytes_of b"
          using cl dt len nz layoutD(3) [OF lay] bs by (auto simp: layout_def lwd_ok_def)
        have "?z = form ?cs w b1"
          unfolding b1_def by (subst f) (simp add: form_def dt len(3))
        then show "ev_to b 0 0 (bytes_of b) ?z"
          using ev_to_trans [OF b1(2) ev_to_formI [OF i1 l0]] by simp
        fix tmp assume new: "evbuffer_chain_new m (datlen - CHAIN_SPACE_LEN c) = Some tmp"
        note tmp = chain_new_ok [OF m new]
        have l: "layout (?cs @ [tmp]) w" "datas (?cs @ [tmp]) = bytes_of b"
          using cl dt len nz layoutD(3) [OF lay] bs tmp(1,4)
          by (auto simp: layout_def lwd_ok_def nth_append)
        have gf: "?g tmp = form (?cs @ [tmp]) w b1"
          unfolding b1_def by (subst f) (simp add: form_def dt len(3) tmp(4))
        show "ev_to b 0 0 (bytes_of b) (?g tmp)"
          unfolding gf using ev_to_trans [OF b1(2) ev_to_formI [OF i1 l]] by simp
        show "room_for n datlen (?g tmp)" if "0 < datlen"
        proof (rule room_forI [OF _ that, where q = 2 and cs = "?cs @ [tmp]" and w = w])
          have t: "take 2 (drop w (?cs @ [tmp])) = [c, tmp]"
            using cw1(3) w(1) by (simp add: min_def)
          show "datlen \<le> spaces (take 2 (drop w (?cs @ [tmp])))"
            unfolding t using tmp by (simp add: CHAIN_SPACE_LEN_def [of tmp])
          have "counted [c, tmp] \<le> 2"
            using counted_le [of "[c, tmp]"] by simp
          then show "counted (take 2 (drop w (?cs @ [tmp]))) \<le> n"
            unfolding t using n by simp
        qed (use len tmp(4) in \<open>simp_all add: sel\<close>)
      qed (use sc in simp_all)
      moreover have "\<not> datlen < CHAIN_SPACE_LEN c"
        using sc lt by simp
      ultimately show ?thesis
        using 3 nz pz d1(1) ds by (simp add: def list_all_iff cong: option.case_cong)
    qed
  qed
qed

end
