(* ===== verification/Evbuf_IO_Inv.thy ===== *)
theory Evbuf_IO_Inv
  imports Evbuf_Room_Inv
begin

text \<open>
  \<open>evbuffer_read\<close> appends exactly the bytes that \<open>readv\<close> delivered, wherever the vectors led
  them; \<open>evbuffer_write_atmost\<close> offers the kernel the first bytes of the buffer and takes away
  those it accepted.
\<close>

section \<open>The vectors\<close>

lemma vecs_loop_ok:
  assumes "left \<le> spaces (take n cs)"
  shows "\<exists>vs. vecs_loop n left True cs = Inr vs \<and> sum_list vs = left \<and> length vs \<le> length cs
    \<and> length vs \<le> n"
  using assms
proof (induction n arbitrary: left cs)
  case (Suc n)
  show ?case
  proof (cases "left = 0")
    case False
    with Suc.prems obtain c ds where cs: "cs = c # ds"
      by (cases cs) auto
    define v where "v = (if CHAIN_SPACE_LEN c > left then left else CHAIN_SPACE_LEN c)"
    have "left - v \<le> spaces (take n ds)"
      using Suc.prems by (auto simp: cs v_def)
    from Suc.IH [OF this] obtain vs where vs: "vecs_loop n (left - v) True ds = Inr vs"
      "sum_list vs = left - v" "length vs \<le> length ds" "length vs \<le> n"
      by blast
    have "v \<le> left"
      by (simp add: v_def)
    with False vs show ?thesis
      by (simp add: cs v_def [symmetric])
  qed simp
qed simp

lemma scatter_Nil:
  assumes "\<forall>c\<in>set cs. chain_ok c" "length vs \<le> length cs"
  shows "scatter vs [] cs = Inr cs"
  using assms
proof (induction vs arbitrary: cs)
  case (Cons v vs)
  then obtain c ds where cs: "cs = c # ds"
    by (cases cs) auto
  have "poke (misalign c + off c) [] (mem c) = Inr (mem c)"
    using Cons.prems by (simp add: poke_def cs chain_ok_def)
  moreover have "c\<lparr>mem := mem c\<rparr> = c"
    by simp
  ultimately show ?case
    using Cons by (simp add: cs)
qed simp

text \<open>
  What \<open>readv\<close> stored and the loop over the lengths counted, together: the bytes at the end of
  the data, and the place of the last chain that got some.
\<close>

lemma scatter_commit_ok:
  assumes "vecs_loop n left True cs = Inr vs" "bs \<noteq> []" "length bs \<le> left" "left \<le> spaces (take n cs)"
    "\<forall>c\<in>set cs. chain_ok c" "\<forall>c\<in>set (tl cs). off c = 0"
  shows "\<exists>cs' j. bindE (scatter vs bs cs) (commit_loop (length vs) (length bs) k l) = Inr (cs', k + j)
    \<and> (\<forall>c\<in>set cs'. chain_ok c) \<and> length cs' = length cs \<and> datas cs' = datas cs @ bs
    \<and> j < length cs' \<and> off (cs' ! j) \<noteq> 0 \<and> (\<forall>c\<in>set (drop (Suc j) cs'). off c = 0)"
  using assms
proof (induction n arbitrary: left cs vs bs k)
  case 0
  then show ?case
    by simp
next
  case (Suc n)
  have left: "left \<noteq> 0"
    using Suc.prems(2,3) by (cases bs) auto
  with Suc.prems(4) obtain c ds where cs: "cs = c # ds"
    by (cases cs) auto
  have c: "chain_ok c" and ds: "\<forall>c\<in>set ds. chain_ok c" "\<forall>c\<in>set ds. off c = 0"
    using Suc.prems(5,6) by (simp_all add: cs)
  have dz: "datas ds = []"
    using ds(2) by (rule datas_empty)
  define v where "v = (if CHAIN_SPACE_LEN c > left then left else CHAIN_SPACE_LEN c)"
  obtain vs' where vs: "vs = v # vs'" and vs': "vecs_loop n (left - v) True ds = Inr vs'"
    using Suc.prems(1) left by (auto simp: cs v_def [symmetric] Let_def elim!: bindE_InrE)
  have lds: "left - v \<le> spaces (take n ds)"
    using Suc.prems(4) by (auto simp: cs v_def)
  have lv: "length vs' \<le> length ds"
    using vecs_loop_ok [OF lds] vs' by auto
  have sp: "CHAIN_SPACE_LEN c \<le> CHAIN_MAX"
    using c by (auto simp: CHAIN_SPACE_LEN_def chain_ok_def size_consts)
  have vl: "v \<le> CHAIN_SPACE_LEN c"
    by (simp add: v_def)
  have room: "misalign c + off c + length (take v bs) \<le> buffer_len c"
    using vl c by (auto simp: CHAIN_SPACE_LEN_def chain_ok_def split: if_splits)
  have le: "misalign c + off c + length (take v bs) \<le> length (mem c)"
    using room c by (simp add: chain_ok_def)
  obtain mm where mm: "poke (misalign c + off c) (take v bs) (mem c) = Inr mm"
    using poke_ok [OF le] by blast
  define c' where "c' = c\<lparr>mem := mm, off := off c + length (take v bs)\<rparr>"
  have c': "chain_ok c'" "chain_data c' = chain_data c @ take v bs"
  proof -
    show "chain_ok c'" "chain_data c' = chain_data c @ take v bs"
    proof (atomize (full), cases "IMMUTABLE c")
      case True
      then have "take v bs = []"
        using vl by (simp add: space_ok(2))
      moreover from this have "mm = mem c"
        using mm unfolding \<open>take v bs = []\<close> by (simp add: poke_def split: if_splits)
      ultimately have "c' = c"
        unfolding c'_def \<open>take v bs = []\<close> by simp
      then show "chain_ok c' \<and> chain_data c' = chain_data c @ take v bs"
        using c \<open>take v bs = []\<close> by simp
    next
      case False
      then show "chain_ok c' \<and> chain_data c' = chain_data c @ take v bs"
        using chain_append_ok [OF c False room] mm by (auto simp: chain_append_def c'_def)
    qed
  qed
  have cm: "CHAIN_SPACE_LEN (c\<lparr>mem := mm\<rparr>) = CHAIN_SPACE_LEN c"
    by (simp add: CHAIN_SPACE_LEN_def)
  show ?case
  proof (cases "CHAIN_SPACE_LEN c < length bs")
    case True
    then have v: "v = CHAIN_SPACE_LEN c"
      using Suc.prems(3) by (auto simp: v_def)
    have bs: "drop v bs \<noteq> []" "length (drop v bs) \<le> left - v"
      using True Suc.prems(3) by (auto simp: v)
    have tz: "\<forall>c\<in>set (tl ds). off c = 0"
      using ds(2) by (cases ds) simp_all
    obtain cs' j where IH: "bindE (scatter vs' (drop v bs) ds)
        (commit_loop (length vs') (length (drop v bs)) (Suc k) l) = Inr (cs', Suc k + j)"
      "\<forall>c\<in>set cs'. chain_ok c" "length cs' = length ds" "datas cs' = datas ds @ drop v bs"
      "j < length cs'" "off (cs' ! j) \<noteq> 0" "\<forall>c\<in>set (drop (Suc j) cs'). off c = 0"
      using Suc.IH [OF vs' bs lds ds(1) tz, of "Suc k"] by blast
    obtain es where es: "scatter vs' (drop v bs) ds = Inr es"
      "commit_loop (length vs') (length bs - v) (Suc k) l es = Inr (cs', Suc k + j)"
      using IH(1) by (auto elim!: bindE_InrE)
    have tv: "length (take v bs) = v"
      using True v by simp
    have "bindE (scatter vs bs cs) (commit_loop (length vs) (length bs) k l)
        = Inr (c' # cs', k + Suc j)"
      using True sp es mm tv by (simp add: vs cs cm v c'_def Let_def)
    then show ?thesis
      using IH(2-7) c' dz by (intro exI [of _ "c' # cs'"] exI [of _ "Suc j"]) (simp add: cs)
  next
    case False
    then have v: "take v bs = bs" "drop v bs = []"
      using Suc.prems(3) by (auto simp: v_def)
    have "bindE (scatter vs bs cs) (commit_loop (length vs) (length bs) k l) = Inr (c' # ds, k + 0)"
      using False sp mm v scatter_Nil [OF ds(1) lv] by (simp add: vs cs cm c'_def Let_def)
    moreover have "off c' \<noteq> 0"
      using Suc.prems(2) v(1) by (simp add: c'_def)
    ultimately show ?thesis
      using c' ds dz v(1) by (intro exI [of _ "c' # ds"] exI [of _ 0]) (simp add: cs)
  qed
qed

section \<open>Reading\<close>

text \<open>What \<open>readv\<close> documents: no more bytes than the vectors hold.\<close>

definition readv_fits :: "(nat \<Rightarrow> byte list option) \<Rightarrow> bool" where
  "readv_fits readv \<longleftrightarrow> (\<forall>n bs. readv n = Some bs \<longrightarrow> length bs \<le> n)"

text \<open>The number of bytes a call asks the kernel for.\<close>

definition asked :: "int \<Rightarrow> int \<Rightarrow> nat" where
  "asked avail howmuch =
     (let n = (if avail \<le> 0 \<or> avail > EVBUFFER_MAX_READ then EVBUFFER_MAX_READ else avail) in
      nat (if howmuch < 0 \<or> howmuch > n then n else howmuch))"

lemma asked_le: "asked avail howmuch \<le> 4096"
  by (auto simp: asked_def EVBUFFER_MAX_READ_def Let_def)

text \<open>The effect on the buffer, with the callbacks still to be run when bytes were added.\<close>

definition read_effect ::
  "malloc \<Rightarrow> int \<Rightarrow> (nat \<Rightarrow> byte list option) \<Rightarrow> evbuffer \<Rightarrow> int \<Rightarrow> int \<times> evbuffer \<Rightarrow> bool" where
  "read_effect m avail readv b howmuch = (\<lambda>(r, b').
     if freeze_end b then r = -1 \<and> b' = b
     else case readv (asked avail howmuch) of
       None \<Rightarrow> r = -1 \<and> ev_to b 0 0 (bytes_of b) b'
     | Some bs \<Rightarrow> r = -1 \<and> alloc_fails m \<and> ev_to b 0 0 (bytes_of b) b'
         \<or> r = 0 \<and> bs = [] \<and> ev_to b 0 0 (bytes_of b) b'
         \<or> r = int (length bs) \<and> bs \<noteq> [] \<and>
           (\<exists>b''. ev_to b (length bs) 0 (bytes_of b @ bs) b'' \<and> b' = evbuffer_invoke_callbacks b''))"

definition read_spec ::
  "malloc \<Rightarrow> int \<Rightarrow> (nat \<Rightarrow> byte list option) \<Rightarrow> evbuffer \<Rightarrow> int \<Rightarrow> int \<times> evbuffer \<Rightarrow> bool" where
  "read_spec m avail readv b howmuch = (\<lambda>(r, b').
     if freeze_end b then r = -1 \<and> b' = b
     else case readv (asked avail howmuch) of
       None \<Rightarrow> r = -1 \<and> becomes b (bytes_of b) b'
     | Some bs \<Rightarrow> r = -1 \<and> alloc_fails m \<and> becomes b (bytes_of b) b'
         \<or> r = int (length bs) \<and> becomes b (bytes_of b @ bs) b')"

lemma read_effect_becomes:
  "ev_inv b \<Longrightarrow> read_effect m avail readv b howmuch r \<Longrightarrow> read_spec m avail readv b howmuch r"
  by (auto simp: read_effect_def read_spec_def ev_to_becomes split: if_splits option.splits)

lemma room_setup:
  assumes "room_for n k b" "ev_inv b"
  shows "\<exists>vs j. evbuffer_read_setup_vecs b k n True = Inr (j, vs) \<and> sum_list vs = k
    \<and> j = first_space (chains b) (last_with_datap b) \<and> j < length (chains b)
    \<and> vecs_loop n k True (drop j (chains b)) = Inr vs \<and> k \<le> spaces (take n (drop j (chains b)))"
  using assms vecs_loop_ok [of k n "drop (first_space (chains b) (last_with_datap b)) (chains b)"]
  by (auto simp: room_for_def evbuffer_read_setup_vecs_def first_space_def Let_def)

lemma tail_empty:
  assumes "layout cs w" "w \<le> k" "k < length cs"
  shows "\<forall>c\<in>set (tl (drop k cs)). off c = 0"
proof -
  have "set (tl (drop k cs)) \<subseteq> set (drop (Suc w) cs)"
    using assms(2) by (simp add: tl_drop drop_Suc [symmetric] set_drop_subset_set_drop)
  moreover have "\<forall>c\<in>set (drop (Suc w) cs). off c = 0"
    using layoutD(2) [OF assms(1)] assms(3) by (auto simp: lwd_ok_def)
  ultimately show ?thesis
    by blast
qed

lemma read_effect_ok:
  assumes m: "malloc_sized m" and rv: "readv_fits readv" and b: "ev_inv b"
    and hm: "howmuch \<noteq> 0" and small: "length (bytes_of b) + 4096 < 2 ^ 64"
  shows "\<exists>r. evbuffer_read m avail readv b howmuch = Inr r \<and> read_effect m avail readv b howmuch r"
proof (cases "freeze_end b")
  case True
  then show ?thesis
    by (simp add: evbuffer_read_def read_effect_def)
next
  case fr: False
  define k where "k = asked avail howmuch"
  have k: "0 < k"
    using hm by (auto simp: k_def asked_def EVBUFFER_MAX_READ_def Let_def)
  have k2: "k \<le> 4096"
    using asked_le by (simp add: k_def)
  obtain r b1 where x: "evbuffer_expand_fast m b k NUM_READ_IOVEC = Inr (r, b1)"
    "fast_spec m b k NUM_READ_IOVEC (r, b1)"
    using expand_fast_ok [OF m b, of NUM_READ_IOVEC k] by (auto simp: NUM_READ_IOVEC_def)
  note def = evbuffer_read_def [of m avail readv b howmuch, unfolded Let_def,
      folded asked_def [unfolded Let_def], folded k_def]
  have e1: "ev_to b 0 0 (bytes_of b) b1"
    using x(2) by (simp add: fast_spec_def)
  note bc = ev_to_becomes(1) [OF b e1]
  have i1: "ev_inv b1" and by1: "bytes_of b1 = bytes_of b"
    using bc by (simp_all add: becomes_def)
  show ?thesis
  proof (cases "r = -1")
    case True
    have "alloc_fails m"
      using x(2) True k2 by (auto simp: fast_spec_def size_consts)
    then show ?thesis
      using True fr x(1) e1 by (auto simp: def read_effect_def k_def [symmetric] split: option.splits)
  next
    case False
    then have "room_for NUM_READ_IOVEC k b1"
      using x(2) k by (auto simp: fast_spec_def)
    from room_setup [OF this i1] obtain vs j where
      vs: "evbuffer_read_setup_vecs b1 k NUM_READ_IOVEC True = Inr (j, vs)" "sum_list vs = k"
      "j = first_space (chains b1) (last_with_datap b1)" "j < length (chains b1)"
      "vecs_loop NUM_READ_IOVEC k True (drop j (chains b1)) = Inr vs"
      "k \<le> spaces (take NUM_READ_IOVEC (drop j (chains b1)))"
      by blast
    show ?thesis
    proof (cases "readv k")
      case None
      then show ?thesis
        using False fr x(1) vs(1,2) e1 by (simp add: def read_effect_def k_def [symmetric])
    next
      case (Some bs)
      show ?thesis
      proof (cases "bs = []")
        case True
        then show ?thesis
          using Some False fr x(1) vs(1,2) e1 by (simp add: def read_effect_def k_def [symmetric])
      next
        case nb: False
        have lb: "length bs \<le> k"
          using rv Some by (simp add: readv_fits_def)
        obtain cs w where f: "b1 = form cs w b1" and lay: "layout cs w" and bs: "bytes_of b1 = datas cs"
          using i1 by (rule ev_invE)
        have cw: "chains b1 = cs" "last_with_datap b1 = w" "last_at b1 = length cs"
            "total_len b1 = length (datas cs)"
          by (subst f, simp)+
        have jw: "w \<le> j" "j \<le> Suc w" "j < length cs"
          using vs(3,4) by (auto simp: cw first_space_def)
        have okd: "\<forall>c\<in>set (drop j cs). chain_ok c"
          using layoutD(1) [OF lay] by (auto dest: in_set_dropD)
        obtain cs' i where c: "bindE (scatter vs bs (drop j cs)) (commit_loop (length vs) (length bs) j w)
            = Inr (cs', j + i)" "\<forall>c\<in>set cs'. chain_ok c" "length cs' = length (drop j cs)"
          "datas cs' = datas (drop j cs) @ bs" "i < length cs'" "off (cs' ! i) \<noteq> 0"
          "\<forall>c\<in>set (drop (Suc i) cs'). off c = 0"
          using scatter_commit_ok [OF vs(5) nb lb vs(6), unfolded cw, OF okd tail_empty [OF lay jw(1,3)]]
          by blast
        let ?cs = "take j cs @ cs'"
        have da: "datas ?cs = bytes_of b1 @ bs"
          by (simp add: c(4) bs) (metis append_assoc append_take_drop_id datas_simps(3))
        have lay': "layout ?cs (j + i)"
          unfolding layout_def
        proof (intro conjI)
          show "\<forall>c\<in>set ?cs. chain_ok c"
            using c(2) layoutD(1) [OF lay] by (auto dest: in_set_takeD)
          show "lwd_ok ?cs (j + i)"
          proof -
            have "j + i < length ?cs"
              using c(3,5) jw by simp
            then show ?thesis
              using c(3,6,7) jw unfolding lwd_ok_def by (simp add: nth_append)
          qed
          show "length (datas ?cs) < 2 ^ 64"
            using small lb k2 by1 unfolding da by simp
        qed
        let ?b = "b1\<lparr>chains := ?cs, last_with_datap := j + i,
                    total_len := szadd (length (datas cs)) (length bs)\<rparr>"
        have z: "szadd (length (datas cs)) (length bs) = length (datas ?cs)"
          using da small lb k2 by1 bs by (simp add: szadd_id)
        have "?b = form ?cs (j + i) b1"
          unfolding z by (subst f) (use c(3) jw in \<open>simp add: form_def\<close>)
        then have "ev_to b (length bs) 0 (bytes_of b @ bs) (count_added (length bs) ?b)"
          using ev_to_trans [OF e1 ev_to_count(1) [OF ev_to_formI [OF i1 lay' da]]] by1 by simp
        moreover obtain es where "scatter vs bs (drop j cs) = Inr es"
          "commit_loop (length vs) (length bs) j w es = Inr (cs', j + i)"
          using c(1) by (rule bindE_InrE)
        then have "evbuffer_read m avail readv b howmuch
            = Inr (int (length bs), evbuffer_invoke_callbacks (count_added (length bs) ?b))"
          using Some False fr x(1) vs(1,2) nb by (simp add: def cw)
        ultimately show ?thesis
          using Some fr nb by (auto simp: read_effect_def k_def [symmetric])
      qed
    qed
  qed
qed

lemma read_ok:
  assumes "malloc_sized m" "readv_fits readv" "ev_inv b" "howmuch \<noteq> 0" "length (bytes_of b) + 4096 < 2 ^ 64"
  shows "\<exists>r. evbuffer_read m avail readv b howmuch = Inr r \<and> read_spec m avail readv b howmuch r"
  using read_effect_ok [OF assms] read_effect_becomes [OF assms(3)] by blast

section \<open>Writing\<close>

definition writev_fits :: "(byte list \<Rightarrow> int) \<Rightarrow> bool" where
  "writev_fits writev \<longleftrightarrow> (\<forall>bs. writev bs \<le> int (length bs))"

lemma gather_ok:
  assumes "\<forall>c\<in>set cs. chain_ok c"
  shows "\<exists>j \<le> k. gather n k cs = Inr (take j (datas cs))"
  using assms
proof (induction n k cs rule: gather.induct)
  case (3 n k c cs)
  have c: "chain_ok c"
    using "3.prems" by simp
  consider "k = 0" | "k \<noteq> 0" "off c \<le> k" | "k < off c"
    by linarith
  then show ?case
  proof cases
    case 2
    obtain j where j: "j \<le> k - off c" "gather n (k - off c) cs = Inr (take j (datas cs))"
      using "3.IH" [OF 2(1)] 2(2) "3.prems" by auto
    have "peek (misalign c) (off c) (mem c) = Inr (chain_data c)"
      using peek_data [OF c, of 0 "off c"] c by simp
    with 2 j c have "gather (Suc n) k (c # cs) = Inr (take (off c + j) (datas (c # cs)))"
      by simp
    moreover have "off c + j \<le> k"
      using 2 j by simp
    ultimately show ?thesis
      by blast
  next
    case 3
    have "peek (misalign c) k (mem c) = Inr (take k (chain_data c))"
      using peek_data [OF c, of 0 k] 3 by simp
    with 3 c have "gather (Suc n) k (c # cs) = Inr (take k (datas (c # cs)))"
      by simp
    then show ?thesis
      by blast
  qed auto
qed auto

definition write_effect :: "(byte list \<Rightarrow> int) \<Rightarrow> evbuffer \<Rightarrow> int \<Rightarrow> int \<times> evbuffer \<Rightarrow> bool" where
  "write_effect writev b howmuch = (\<lambda>(r, b').
     if freeze_start b \<or> bytes_of b = [] \<or> howmuch = 0 then r = -1 \<and> b' = b
     else \<exists>j. r = writev (take j (bytes_of b)) \<and> (0 \<le> howmuch \<longrightarrow> int j \<le> howmuch)
        \<and> r \<le> int (length (take j (bytes_of b)))
        \<and> (if r \<le> 0 then b' = b
            else \<exists>b''. ev_to b 0 (nat r) (drop (nat r) (bytes_of b)) b'' \<and> b' = evbuffer_invoke_callbacks b''))"

definition write_spec :: "(byte list \<Rightarrow> int) \<Rightarrow> evbuffer \<Rightarrow> int \<Rightarrow> int \<times> evbuffer \<Rightarrow> bool" where
  "write_spec writev b howmuch = (\<lambda>(r, b').
     if freeze_start b \<or> bytes_of b = [] \<or> howmuch = 0 then r = -1 \<and> b' = b
     else \<exists>j. r = writev (take j (bytes_of b)) \<and> (0 \<le> howmuch \<longrightarrow> int j \<le> howmuch)
        \<and> (if r \<le> 0 then b' = b else becomes b (drop (nat r) (bytes_of b)) b'))"

lemma write_effect_becomes:
  "ev_inv b \<Longrightarrow> write_effect writev b howmuch r \<Longrightarrow> write_spec writev b howmuch r"
  by (auto simp: write_effect_def write_spec_def ev_to_becomes split: if_splits)

lemma write_effect_ok:
  assumes wv: "writev_fits writev" and b: "ev_inv b"
  shows "\<exists>r. evbuffer_write_atmost writev b howmuch = Inr r \<and> write_effect writev b howmuch r"
proof -
  have tl: "total_len b = length (bytes_of b)" and ok: "\<forall>c\<in>set (chains b). chain_ok c"
    using b by (auto simp: ev_inv_def layout_def)
  define k where "k = (if howmuch < 0 \<or> nat howmuch > total_len b then total_len b else nat howmuch)"
  note def = evbuffer_write_atmost_def [of writev b howmuch, unfolded Let_def, folded k_def]
  have k0: "k = 0 \<longleftrightarrow> bytes_of b = [] \<or> howmuch = 0"
    by (auto simp: k_def tl)
  consider "freeze_start b" | "\<not> freeze_start b" "k = 0" | "\<not> freeze_start b" "k \<noteq> 0"
    by blast
  then show ?thesis
  proof cases
    case 1
    then show ?thesis
      by (simp add: def write_effect_def)
  next
    case 2
    then show ?thesis
      using k0 by (auto simp: def write_effect_def)
  next
    case 3
    have ne: "bytes_of b \<noteq> []" "howmuch \<noteq> 0" "chains b \<noteq> []"
      using 3 k0 by (auto simp: bytes_of_def)
    obtain j where j: "j \<le> k" "gather NUM_WRITE_IOVEC k (chains b) = Inr (take j (bytes_of b))"
      using gather_ok [OF ok, of k NUM_WRITE_IOVEC] by (auto simp: bytes_of_def)
    have jk: "0 \<le> howmuch \<longrightarrow> int j \<le> howmuch"
      using j(1) by (auto simp: k_def split: if_splits)
    define r where "r = writev (take j (bytes_of b))"
    have wi: "evbuffer_write_iovec writev b k = Inr r"
      using j(2) ne 3 by (simp add: evbuffer_write_iovec_def r_def)
    show ?thesis
    proof (cases "0 < r")
      case False
      then have "evbuffer_write_atmost writev b howmuch = Inr (r, b)"
        using 3 wi by (simp add: def)
      moreover have "r \<le> int (length (take j (bytes_of b)))"
        using False by simp
      ultimately show ?thesis
        using False 3 ne jk r_def by (auto simp: write_effect_def intro!: exI [of _ j])
    next
      case True
      have rj: "r \<le> int (length (take j (bytes_of b)))"
        using wv unfolding writev_fits_def r_def by blast
      then have rl: "nat r \<le> length (bytes_of b)"
        by simp
      obtain q b' where d: "evbuffer_drain b (nat r) = Inr (q, b')" "drain_spec b (nat r) (q, b')"
        using drain_ok [OF b, of "nat r"] by auto
      then have "\<exists>b''. ev_to b 0 (nat r) (drop (nat r) (bytes_of b)) b'' \<and> b' = evbuffer_invoke_callbacks b''"
        using ne(1) 3(1) rl by (auto simp: drain_spec_def min_absorb1)
      moreover have "evbuffer_write_atmost writev b howmuch = Inr (r, b')"
        using 3 wi True d(1) by (simp add: def)
      ultimately show ?thesis
        using True 3 ne jk rj r_def by (auto simp: write_effect_def intro!: exI [of _ j])
    qed
  qed
qed

lemma write_ok:
  assumes "writev_fits writev" "ev_inv b"
  shows "\<exists>r. evbuffer_write_atmost writev b howmuch = Inr r \<and> write_spec writev b howmuch r"
  using write_effect_ok [OF assms] write_effect_becomes [OF assms(2)] by blast

end
