(* ===== verification/Evbuf_Search.thy ===== *)
theory Evbuf_Search
  imports Evbuf_IO_Inv
begin

text \<open>
  Positions, searching and reading lines: \<open>evbuffer_ptr_set\<close>, \<open>evbuffer_search_range\<close>,
  \<open>evbuffer_search_eol\<close>, \<open>evbuffer_readln\<close> and \<open>evbuffer_find\<close>. The functions walk over
  the chains from a position on; a position names its chain by number.
\<close>

definition PTR_NOT_FOUND :: evbuffer_ptr where
  "PTR_NOT_FOUND = \<lparr>pos = -1, ptr_chain = None, pos_in_chain = 0\<rparr>"

text \<open>The chains from a position on.\<close>

definition from_chain :: "evbuffer \<Rightarrow> evbuffer_ptr \<Rightarrow> evbuffer_chain list" where
  "from_chain b q = (case ptr_chain q of None \<Rightarrow> [] | Some k \<Rightarrow> drop k (chains b))"

definition chain_no :: "evbuffer_ptr \<Rightarrow> nat" where
  "chain_no q = (case ptr_chain q of None \<Rightarrow> 0 | Some k \<Rightarrow> k)"

definition ptr_first :: "evbuffer \<Rightarrow> evbuffer_ptr" where
  "ptr_first b = \<lparr>pos = 0, ptr_chain = (if chains b = [] then None else Some 0), pos_in_chain = 0\<rparr>"

section \<open>Setting and moving a position\<close>

datatype ptr_how = PTR_SET | PTR_ADD

fun ptr_walk :: "nat \<Rightarrow> nat \<Rightarrow> nat \<Rightarrow> evbuffer_chain list \<Rightarrow> (nat \<times> nat) option \<times> nat" where
  "ptr_walk k position left [] = (None, left)"
| "ptr_walk k position left (c # cs) =
    (if position + left \<ge> off c
     then ptr_walk (Suc k) 0 (position + left - off c) cs
     else (Some (k, position + left), left))"

definition evbuffer_ptr_set ::
  "evbuffer \<Rightarrow> evbuffer_ptr \<Rightarrow> nat \<Rightarrow> ptr_how \<Rightarrow> (int \<times> evbuffer_ptr) res" where
  "evbuffer_ptr_set b q position how =
    (let walk = (\<lambda>q left k position cs.
       if left + position > SIZE_MAX then Inl AssertFailed
       else case ptr_walk k position left cs of
         (Some (k, p), _) \<Rightarrow> Inr (0, q\<lparr>ptr_chain := Some k, pos_in_chain := p\<rparr>)
       | (None, left) \<Rightarrow>
           if left = 0 then Inr (0, q\<lparr>ptr_chain := None, pos_in_chain := 0\<rparr>)
           else Inr (-1, PTR_NOT_FOUND)) in
     case how of
       PTR_SET \<Rightarrow> walk (q\<lparr>pos := int position\<rparr>) position 0 0 (chains b)
     | PTR_ADD \<Rightarrow>
         if pos q < 0 \<or> SIZE_MAX < position + nat (pos q) then Inr (-1, q)
         else walk (q\<lparr>pos := pos q + int position\<rparr>) position (chain_no q) (pos_in_chain q)
                (from_chain b q))"

definition evbuffer_ptr_subtract ::
  "evbuffer \<Rightarrow> evbuffer_ptr \<Rightarrow> nat \<Rightarrow> (int \<times> evbuffer_ptr) res" where
  "evbuffer_ptr_subtract b q howfar =
    (if pos q < 0 then Inr (-1, q)
     else if howfar > nat (pos q) then Inr (-1, q)
     else if ptr_chain q \<noteq> None \<and> howfar \<le> pos_in_chain q
     then Inr (0, q\<lparr>pos_in_chain := pos_in_chain q - howfar, pos := pos q - int howfar\<rparr>)
     else evbuffer_ptr_set b q (nat (pos q) - howfar) PTR_SET)"

section \<open>Searching for characters\<close>

fun memchr :: "byte \<Rightarrow> byte list \<Rightarrow> nat option" where
  "memchr ch [] = None"
| "memchr ch (x # xs) = (if x = ch then Some 0 else map_option Suc (memchr ch xs))"

lemma memchr_less: "memchr ch xs = Some i \<Longrightarrow> i < length xs"
  by (induction xs arbitrary: i) (auto split: if_splits)

lemma peek_length: "peek p n m = Inr bs \<Longrightarrow> length bs = n"
  by (auto simp: peek_def split: if_splits)

definition CHUNK_SZ :: nat where "CHUNK_SZ = 128"

definition CR :: byte where "CR = 13"
definition LF :: byte where "LF = 10"

function find_eol_char :: "byte list \<Rightarrow> nat option" where
  "find_eol_char s =
    (if s = [] then None
     else
       let chunk = (if CHUNK_SZ < length s then CHUNK_SZ else length s);
           cr = memchr CR (take chunk s); lf = memchr LF (take chunk s) in
       case cr of
         Some i \<Rightarrow> (case lf of Some j \<Rightarrow> if j < i then Some j else Some i | None \<Rightarrow> Some i)
       | None \<Rightarrow> (case lf of
             Some j \<Rightarrow> Some j
           | None \<Rightarrow> map_option ((+) CHUNK_SZ) (find_eol_char (drop CHUNK_SZ s))))"
  by auto
termination
  by (relation "measure length") (auto simp: CHUNK_SZ_def)

declare find_eol_char.simps [simp del]

text \<open>
  The loop of \<open>evbuffer_strchr\<close> and \<open>evbuffer_find_eol_char\<close>, with the search in one block of
  memory as its argument. No result is the value -1.
\<close>

fun chain_find :: "(byte list \<Rightarrow> nat option) \<Rightarrow> nat \<Rightarrow> nat \<Rightarrow> int \<Rightarrow> evbuffer_chain list
    \<Rightarrow> evbuffer_ptr option res" where
  "chain_find f k i p [] = Inr None"
| "chain_find f k i p (c # cs) =
    (if i > off c then Inl OutOfBounds
     else bindE (peek (misalign c + i) (off c - i) (mem c)) (\<lambda>bs.
     case f bs of
       Some j \<Rightarrow> Inr (Some \<lparr>pos = p + int j, ptr_chain = Some k, pos_in_chain = i + j\<rparr>)
     | None \<Rightarrow> chain_find f (Suc k) 0 (p + int (off c - i)) cs))"

definition evbuffer_strchr :: "evbuffer \<Rightarrow> evbuffer_ptr \<Rightarrow> byte \<Rightarrow> evbuffer_ptr option res" where
  "evbuffer_strchr b it ch =
     chain_find (memchr ch) (chain_no it) (pos_in_chain it) (pos it) (from_chain b it)"

definition evbuffer_find_eol_char :: "evbuffer \<Rightarrow> evbuffer_ptr \<Rightarrow> evbuffer_ptr option res" where
  "evbuffer_find_eol_char b it =
     chain_find find_eol_char (chain_no it) (pos_in_chain it) (pos it) (from_chain b it)"

text \<open>The number of bytes of the set from a position on; the position is not used afterwards.\<close>

fun span_loop :: "byte list \<Rightarrow> nat \<Rightarrow> evbuffer_chain list \<Rightarrow> nat res" where
  "span_loop chrset i [] = Inr 0"
| "span_loop chrset i (c # cs) =
    bindE (peek (misalign c + i) (off c - i) (mem c)) (\<lambda>bs.
    let n = length (takeWhile (\<lambda>x. x \<in> set chrset) bs) in
    if n < length bs then Inr n
    else bindE (span_loop chrset 0 cs) (\<lambda>n'. Inr (n + n')))"

definition evbuffer_strspn :: "evbuffer \<Rightarrow> evbuffer_ptr \<Rightarrow> byte list \<Rightarrow> nat res" where
  "evbuffer_strspn b q chrset = span_loop chrset (pos_in_chain q) (from_chain b q)"

definition evbuffer_getchr :: "evbuffer \<Rightarrow> evbuffer_ptr \<Rightarrow> byte option res" where
  "evbuffer_getchr b it =
    (case from_chain b it of
       [] \<Rightarrow> Inr None
     | c # _ \<Rightarrow> bindE (byte_at (mem c) (misalign c + pos_in_chain it)) (\<lambda>x. Inr (Some x)))"

section \<open>Searching for strings\<close>

text \<open>Whether the bytes at a position are those of \<open>what\<close>.\<close>

fun cmp_loop :: "byte list \<Rightarrow> nat \<Rightarrow> evbuffer_chain list \<Rightarrow> bool res" where
  "cmp_loop what position [] = Inr True"
| "cmp_loop what position (c # cs) =
    (if what = [] then Inr True
     else
       let n = (if length what + position > off c then off c - position else length what) in
       bindE (peek (misalign c + position) n (mem c)) (\<lambda>bs.
       if bs \<noteq> take n what then Inr False else cmp_loop (drop n what) 0 cs))"

definition evbuffer_ptr_memcmp :: "evbuffer \<Rightarrow> evbuffer_ptr \<Rightarrow> byte list \<Rightarrow> bool res" where
  "evbuffer_ptr_memcmp b q what =
    (if pos q < 0 \<or> SIZE_MAX < nat (pos q) + length what \<or> nat (pos q) + length what > total_len b
     then Inr False
     else cmp_loop what (pos_in_chain q) (from_chain b q))"

text \<open>
  The loop of \<open>evbuffer_search_range\<close>: \<open>cs\<close> are the chains from number \<open>k\<close> on, \<open>p\<close> the place in
  the first of them and \<open>at\<close> the position of it in the buffer.
\<close>

function search_loop :: "evbuffer \<Rightarrow> byte list \<Rightarrow> evbuffer_ptr option \<Rightarrow> nat \<Rightarrow> nat \<Rightarrow> int
    \<Rightarrow> evbuffer_chain list \<Rightarrow> evbuffer_ptr res" where
  "search_loop b what end_ptr k p at [] = Inr PTR_NOT_FOUND"
| "search_loop b what end_ptr k p at (c # cs) =
    (if p > off c then Inl OutOfBounds
     else case peek (misalign c + p) (off c - p) (mem c) of
       Inl e \<Rightarrow> Inl e
     | Inr bs \<Rightarrow>
         (case memchr (hd what) bs of
            Some i \<Rightarrow>
              let q = \<lparr>pos = at + int i, ptr_chain = Some k, pos_in_chain = p + i\<rparr> in
              (case evbuffer_ptr_memcmp b q what of
                 Inl e \<Rightarrow> Inl e
               | Inr True \<Rightarrow>
                   (case end_ptr of
                      Some e \<Rightarrow> Inr (if pos q + int (length what) > pos e then PTR_NOT_FOUND else q)
                    | None \<Rightarrow> Inr q)
               | Inr False \<Rightarrow>
                   if Suc (p + i) = off c
                   then search_loop b what end_ptr (Suc k) 0 (at + int i + 1) cs
                   else search_loop b what end_ptr k (Suc (p + i)) (at + int i + 1) (c # cs))
          | None \<Rightarrow>
              if end_ptr \<noteq> None \<and> ptr_chain (the end_ptr) = Some k then Inr PTR_NOT_FOUND
              else search_loop b what end_ptr (Suc k) 0 (at + int (off c - p)) cs))"
  by pat_completeness auto
termination
  by (relation "measures [\<lambda>(b, what, e, k, p, at, cs). length cs,
                          \<lambda>(b, what, e, k, p, at, cs). off (hd cs) - p]")
     (auto dest!: memchr_less peek_length)

definition evbuffer_search_range :: "evbuffer \<Rightarrow> byte list \<Rightarrow> evbuffer_ptr option
    \<Rightarrow> evbuffer_ptr option \<Rightarrow> evbuffer_ptr res" where
  "evbuffer_search_range b what start end_ptr =
    (let q = (case start of Some q \<Rightarrow> q | None \<Rightarrow> ptr_first b) in
     if what = [] \<or> int (length what) > SSIZE_MAX then Inr q
     else search_loop b what end_ptr (chain_no q) (pos_in_chain q) (pos q) (from_chain b q))"

definition evbuffer_search ::
  "evbuffer \<Rightarrow> byte list \<Rightarrow> evbuffer_ptr option \<Rightarrow> evbuffer_ptr res" where
  "evbuffer_search b what start = evbuffer_search_range b what start None"

text \<open>\<open>evbuffer_find\<close>: the data from the place found on, contiguous.\<close>

definition evbuffer_find ::
  "malloc \<Rightarrow> evbuffer \<Rightarrow> byte list \<Rightarrow> (byte list option \<times> evbuffer) res" where
  "evbuffer_find m b what =
     bindE (evbuffer_search b what None) (\<lambda>q.
     if pos q < 0 then Inr (None, b)
     else bindE (evbuffer_pullup m b (pos q + int (length what))) (\<lambda>(r, b).
          Inr (map_option (drop (nat (pos q))) r, b)))"

section \<open>Lines\<close>

datatype evbuffer_eol_style = EOL_ANY | EOL_CRLF | EOL_CRLF_STRICT | EOL_LF | EOL_NUL

text \<open>
  Where the line ends and how many bytes the terminator has. The code also sets the length when
  nothing is found; it is 0 then.
\<close>

definition evbuffer_search_eol ::
  "evbuffer \<Rightarrow> evbuffer_ptr option \<Rightarrow> evbuffer_eol_style \<Rightarrow> (evbuffer_ptr \<times> nat) res" where
  "evbuffer_search_eol b start style =
    (if start \<noteq> None \<and> ptr_chain (the start) = None then Inr (PTR_NOT_FOUND, 0)
     else
       let it = (case start of Some q \<Rightarrow> q | None \<Rightarrow> ptr_first b);
           one = (\<lambda>r. case r of None \<Rightarrow> Inr (PTR_NOT_FOUND, 0) | Some it \<Rightarrow> Inr (it, 1)) in
       case style of
         EOL_ANY \<Rightarrow>
           bindE (evbuffer_find_eol_char b it) (\<lambda>r. case r of
             None \<Rightarrow> Inr (PTR_NOT_FOUND, 0)
           | Some it \<Rightarrow> bindE (evbuffer_strspn b it [CR, LF]) (\<lambda>n. Inr (it, n)))
       | EOL_CRLF_STRICT \<Rightarrow>
           bindE (evbuffer_search b [CR, LF] (Some it)) (\<lambda>it.
           if pos it < 0 then Inr (PTR_NOT_FOUND, 0) else Inr (it, 2))
       | EOL_CRLF \<Rightarrow>
           bindE (evbuffer_strchr b it LF) (\<lambda>r. case r of
             None \<Rightarrow> Inr (PTR_NOT_FOUND, 0)
           | Some it' \<Rightarrow>
               if pos it' = pos it then Inr (it', 1)
               else bindE (evbuffer_ptr_subtract b it' 1) (\<lambda>(r, it2).
                 if r < 0 then Inr (it', 1)
                 else bindE (evbuffer_getchr b it2) (\<lambda>x.
                      if x = Some CR then Inr (it2, 2) else Inr (it', 1))))
       | EOL_LF \<Rightarrow> bindE (evbuffer_strchr b it LF) one
       | EOL_NUL \<Rightarrow> bindE (evbuffer_strchr b it 0) one)"

text \<open>The line without its terminator (the NUL that ends it is left out), or NULL.\<close>

definition evbuffer_readln ::
  "malloc \<Rightarrow> evbuffer \<Rightarrow> evbuffer_eol_style \<Rightarrow> (byte list option \<times> evbuffer) res" where
  "evbuffer_readln m b style =
    (if freeze_start b then Inr (None, b)
     else
       bindE (evbuffer_search_eol b None style) (\<lambda>(it, extra_drain).
       if pos it < 0 then Inr (None, b)
       else
         let n_to_copy = nat (pos it) in
         case m (n_to_copy + 1) of
           None \<Rightarrow> Inr (None, b)
         | Some _ \<Rightarrow>
             bindE (evbuffer_remove b n_to_copy) (\<lambda>(_, line, b).
             bindE (evbuffer_drain b extra_drain) (\<lambda>(_, b).
             Inr (Some line, b)))))"

definition evbuffer_readline :: "malloc \<Rightarrow> evbuffer \<Rightarrow> (byte list option \<times> evbuffer) res" where
  "evbuffer_readline m b = evbuffer_readln m b EOL_ANY"

end
