(* ===== verification/Evbuf_Search_Inv.thy ===== *)
theory Evbuf_Search_Inv
  imports Evbuf_Search
begin

text \<open>Searching in a buffer is searching in the bytes it holds.\<close>

section \<open>Positions\<close>

text \<open>The position \<open>q\<close> is byte number \<open>n\<close>; the place may be the end of its chain.\<close>

definition ptr_in :: "evbuffer \<Rightarrow> evbuffer_ptr \<Rightarrow> nat \<Rightarrow> bool" where
  "ptr_in b q n \<longleftrightarrow> pos q = int n \<and> (\<exists>k. ptr_chain q = Some k \<and> k < length (chains b)
     \<and> pos_in_chain q \<le> off (chains b ! k)
     \<and> n = length (datas (take k (chains b))) + pos_in_chain q)"

lemma ev_inv_chains: "ev_inv b \<Longrightarrow> \<forall>c\<in>set (chains b). chain_ok c"
  by (simp add: ev_inv_def layout_def)

lemma bytes_split: "bytes_of b = datas (take k (chains b)) @ datas (drop k (chains b))"
  unfolding bytes_of_def by (metis append_take_drop_id datas_simps(3))

lemma ptr_inD:
  assumes "ev_inv b" "ptr_in b q n"
  shows "n \<le> length (bytes_of b)" "from_chain b q \<noteq> []"
    "\<forall>c\<in>set (from_chain b q). chain_ok c" "pos_in_chain q \<le> off (hd (from_chain b q))"
    "drop (pos_in_chain q) (datas (from_chain b q)) = drop n (bytes_of b)"
    "pos_in_chain q \<le> length (datas (from_chain b q))"
proof -
  obtain k where k: "ptr_chain q = Some k" "k < length (chains b)" "pos_in_chain q \<le> off (chains b ! k)"
    "n = length (datas (take k (chains b))) + pos_in_chain q"
    using assms(2) by (auto simp: ptr_in_def)
  have f: "from_chain b q = drop k (chains b)"
    by (simp add: from_chain_def k(1))
  have d: "drop k (chains b) = chains b ! k # drop (Suc k) (chains b)"
    using k(2) by (simp add: Cons_nth_drop_Suc)
  have ok: "chain_ok (chains b ! k)"
    using ev_inv_chains [OF assms(1)] k(2) by simp
  show "from_chain b q \<noteq> []" "pos_in_chain q \<le> off (hd (from_chain b q))"
    using k(2,3) by (simp_all add: f hd_drop_conv_nth)
  show "\<forall>c\<in>set (from_chain b q). chain_ok c"
    using ev_inv_chains [OF assms(1)] by (auto simp: f dest: in_set_dropD)
  show "drop (pos_in_chain q) (datas (from_chain b q)) = drop n (bytes_of b)"
    by (simp add: f bytes_split [of b k] k(4))
  show le: "pos_in_chain q \<le> length (datas (from_chain b q))"
    using k(3) ok by (simp add: f d)
  show "n \<le> length (bytes_of b)"
    using le by (simp add: f bytes_split [of b k] k(4))
qed

section \<open>First occurrences\<close>

fun first_idx :: "('a \<Rightarrow> bool) \<Rightarrow> 'a list \<Rightarrow> nat option" where
  "first_idx P [] = None"
| "first_idx P (x # xs) = (if P x then Some 0 else map_option Suc (first_idx P xs))"

lemma first_idx_append:
  "first_idx P (xs @ ys) = (case first_idx P xs of Some i \<Rightarrow> Some i
     | None \<Rightarrow> map_option ((+) (length xs)) (first_idx P ys))"
  by (cases "first_idx P ys"; induction xs) (auto split: option.splits)

lemma first_idx_less: "first_idx P xs = Some i \<Longrightarrow> i < length xs"
  by (induction xs arbitrary: i) (auto split: if_splits)

lemma first_idx_None: "first_idx P xs = None \<longleftrightarrow> (\<forall>x\<in>set xs. \<not> P x)"
  by (induction xs) auto

lemma first_idx_Some: "first_idx P xs = Some i \<longleftrightarrow> i < length xs \<and> P (xs ! i) \<and> (\<forall>x\<in>set (take i xs). \<not> P x)"
proof (induction xs arbitrary: i)
  case (Cons x xs)
  then show ?case
    by (cases i) auto
qed simp

lemma memchr_idx: "memchr ch = first_idx (\<lambda>x. x = ch)"
proof
  show "memchr ch xs = first_idx (\<lambda>x. x = ch) xs" for xs
    by (induction xs) auto
qed

lemma first_of_two:
  "first_idx (\<lambda>x. P x \<or> Q x) xs =
    (case first_idx P xs of
       Some i \<Rightarrow> (case first_idx Q xs of Some j \<Rightarrow> if j < i then Some j else Some i | None \<Rightarrow> Some i)
     | None \<Rightarrow> first_idx Q xs)"
  by (induction xs) (auto split: option.splits)

text \<open>The search in pieces of 128 bytes finds the first terminator.\<close>

lemma find_eol_char_idx: "find_eol_char = first_idx (\<lambda>x. x = CR \<or> x = LF)"
proof
  show "find_eol_char s = first_idx (\<lambda>x. x = CR \<or> x = LF) s" for s
  proof (induction s rule: find_eol_char.induct)
    case (1 s)
    show ?case
    proof (cases "s = []")
      case True
      then show ?thesis
        by (simp add: find_eol_char.simps)
    next
      case False
      let ?n = "if CHUNK_SZ < length s then CHUNK_SZ else length s"
      have t: "take ?n s = take CHUNK_SZ s"
        by simp
      have s: "first_idx (\<lambda>x. x = CR \<or> x = LF) s =
        (case first_idx (\<lambda>x. x = CR \<or> x = LF) (take CHUNK_SZ s) of Some i \<Rightarrow> Some i
         | None \<Rightarrow> map_option ((+) CHUNK_SZ) (first_idx (\<lambda>x. x = CR \<or> x = LF) (drop CHUNK_SZ s)))"
      proof (cases "length s \<le> CHUNK_SZ")
        case True
        then show ?thesis
          by (simp split: option.splits)
      next
        case False
        then have l: "length (take CHUNK_SZ s) = CHUNK_SZ"
          by simp
        show ?thesis
          using first_idx_append [of "\<lambda>x. x = CR \<or> x = LF" "take CHUNK_SZ s" "drop CHUNK_SZ s"]
          unfolding l append_take_drop_id .
      qed
      note f2 = first_of_two [of "\<lambda>x. x = CR" "\<lambda>x. x = LF" "take CHUNK_SZ s"]
      show ?thesis
      proof (cases "first_idx (\<lambda>x. x = CR) (take CHUNK_SZ s)")
        case None
        show ?thesis
        proof (cases "first_idx (\<lambda>x. x = LF) (take CHUNK_SZ s)")
          case n2: None
          have "find_eol_char (drop CHUNK_SZ s) = first_idx (\<lambda>x. x = CR \<or> x = LF) (drop CHUNK_SZ s)"
            using "1.IH" [OF False refl] None n2 unfolding memchr_idx t by blast
          then show ?thesis
            using False None n2 unfolding find_eol_char.simps [of s] Let_def memchr_idx t s f2
            by simp
        next
          case (Some j)
          then show ?thesis
            using False None unfolding find_eol_char.simps [of s] Let_def memchr_idx t s f2
            by simp
        qed
      next
        case (Some i)
        then show ?thesis
          using False unfolding find_eol_char.simps [of s] Let_def memchr_idx t s f2
          by (simp split: option.splits)
      qed
    qed
  qed
qed

lemma chain_find_ok:
  assumes "\<forall>c\<in>set cs. chain_ok c" "cs \<noteq> [] \<longrightarrow> i \<le> off (hd cs)"
  shows "chain_find (first_idx P) k i p cs =
    (case first_idx P (drop i (datas cs)) of None \<Rightarrow> Inr None
     | Some n \<Rightarrow> chain_find (first_idx P) k i p cs)
   \<and> (\<forall>n. first_idx P (drop i (datas cs)) = Some n \<longrightarrow>
        (\<exists>j l. chain_find (first_idx P) k i p cs
           = Inr (Some \<lparr>pos = p + int n, ptr_chain = Some (k + j), pos_in_chain = l\<rparr>)
         \<and> j < length cs \<and> l < off (cs ! j) \<and> i + n = length (datas (take j cs)) + l))"
  using assms
proof (induction cs arbitrary: i k p)
  case (Cons c cs)
  have c: "chain_ok c" and i: "i \<le> off c"
    using Cons.prems by auto
  have pk: "peek (misalign c + i) (off c - i) (mem c) = Inr (drop i (chain_data c))"
    using peek_data [OF c, of i "off c - i"] i c by simp
  have d: "drop i (datas (c # cs)) = drop i (chain_data c) @ datas cs"
    using i c by simp
  show ?case
  proof (cases "first_idx P (drop i (chain_data c))")
    case (Some n)
    have "i + n < off c"
      using first_idx_less [OF Some] c by simp
    moreover have "chain_find (first_idx P) k i p (c # cs)
        = Inr (Some \<lparr>pos = p + int n, ptr_chain = Some (k + 0), pos_in_chain = i + n\<rparr>)"
      using i pk Some by simp
    moreover have "first_idx P (drop i (datas (c # cs))) = Some n"
      unfolding d first_idx_append Some by simp
    ultimately show ?thesis
      by (auto intro!: exI [of _ 0])
  next
    case None
    have st: "chain_find (first_idx P) k i p (c # cs)
        = chain_find (first_idx P) (Suc k) 0 (p + int (off c - i)) cs"
      using i pk None by simp
    have fi: "first_idx P (drop i (datas (c # cs))) = map_option ((+) (off c - i)) (first_idx P (datas cs))"
      unfolding d first_idx_append None using c by simp
    have ok: "\<forall>c\<in>set cs. chain_ok c" "cs \<noteq> [] \<longrightarrow> 0 \<le> off (hd cs)"
      using Cons.prems(1) by simp_all
    show ?thesis
    proof (cases "first_idx P (datas cs)")
      case n2: None
      then show ?thesis
        using Cons.IH [OF ok, of "Suc k" "p + int (off c - i)"] unfolding st fi by simp
    next
      case (Some n)
      obtain j l where j: "chain_find (first_idx P) (Suc k) 0 (p + int (off c - i)) cs
           = Inr (Some \<lparr>pos = p + int (off c - i) + int n, ptr_chain = Some (Suc k + j), pos_in_chain = l\<rparr>)"
         "j < length cs" "l < off (cs ! j)" "0 + n = length (datas (take j cs)) + l"
        using Cons.IH [OF ok, of "Suc k" "p + int (off c - i)"] Some by auto
      show ?thesis
        unfolding st fi Some using i c j
        by (auto intro!: exI [of _ "Suc j"])
    qed
  qed
qed simp

text \<open>A search by characters from a position of the buffer.\<close>

lemma find_from_ok:
  assumes b: "ev_inv b" and q: "ptr_in b q n"
  shows "\<exists>r. chain_find (first_idx P) (chain_no q) (pos_in_chain q) (pos q) (from_chain b q) = Inr r
    \<and> (case first_idx P (drop n (bytes_of b)) of
         None \<Rightarrow> r = None
       | Some j \<Rightarrow> \<exists>q'. r = Some q' \<and> ptr_in b q' (n + j))"
proof -
  note d = ptr_inD [OF b q]
  obtain k where k: "pos q = int n" "ptr_chain q = Some k" "k < length (chains b)"
    "n = length (datas (take k (chains b))) + pos_in_chain q"
    using q by (auto simp: ptr_in_def)
  have f: "from_chain b q = drop k (chains b)" "chain_no q = k"
    by (simp_all add: from_chain_def chain_no_def k(2))
  note cf = chain_find_ok [of "from_chain b q" "pos_in_chain q" P k "pos q", OF d(3)]
  show ?thesis
  proof (cases "first_idx P (drop n (bytes_of b))")
    case None
    then show ?thesis
      using cf d(4,5) by (simp add: f(2))
  next
    case (Some j)
    then obtain i l where i: "chain_find (first_idx P) k (pos_in_chain q) (pos q) (from_chain b q)
        = Inr (Some \<lparr>pos = pos q + int j, ptr_chain = Some (k + i), pos_in_chain = l\<rparr>)"
      "i < length (from_chain b q)" "l < off (from_chain b q ! i)"
      "pos_in_chain q + j = length (datas (take i (from_chain b q))) + l"
      using cf d(4,5) by auto
    have "datas (take (k + i) (chains b)) = datas (take k (chains b)) @ datas (take i (drop k (chains b)))"
      by (simp add: take_add)
    then have "ptr_in b \<lparr>pos = pos q + int j, ptr_chain = Some (k + i), pos_in_chain = l\<rparr> (n + j)"
      using i(2-4) k by (auto simp: ptr_in_def f(1))
    then show ?thesis
      using i(1) Some by (auto simp: f(2))
  qed
qed

lemma ptr_first_in:
  assumes "ev_inv b" "chains b \<noteq> []"
  shows "ptr_in b (ptr_first b) 0"
  using assms by (simp add: ptr_in_def ptr_first_def)

section \<open>Strings\<close>

fun find_sub :: "byte list \<Rightarrow> byte list \<Rightarrow> nat option" where
  "find_sub what [] = (if what = [] then Some 0 else None)"
| "find_sub what (x # xs) =
     (if take (length what) (x # xs) = what then Some 0 else map_option Suc (find_sub what xs))"

lemma find_sub_Some:
  "find_sub what bs = Some j \<longleftrightarrow> j \<le> length bs \<and> take (length what) (drop j bs) = what
     \<and> (\<forall>i<j. take (length what) (drop i bs) \<noteq> what)"
proof (induction bs arbitrary: j)
  case Nil
  then show ?case
    by auto
next
  case (Cons x xs)
  show ?case
  proof (cases "take (length what) (x # xs) = what")
    case True
    then show ?thesis
      by (cases j) auto
  next
    case False
    then show ?thesis
      using Cons.IH by (cases j) (auto simp: less_Suc_eq_0_disj all_conj_distrib)
  qed
qed

lemma find_sub_skip:
  assumes "\<forall>x\<in>set as. x \<noteq> hd what" "what \<noteq> []"
  shows "find_sub what (as @ ys) = map_option ((+) (length as)) (find_sub what ys)"
  using assms
proof (induction as)
  case Nil
  then show ?case
    by (cases "find_sub what ys") auto
next
  case (Cons x as)
  obtain y what' where w: "what = y # what'"
    using Cons.prems(2) by (cases what) auto
  have "take (length what) (x # as @ ys) \<noteq> what"
    using Cons.prems by (simp add: w)
  then show ?case
    using Cons by (cases "find_sub what ys") auto
qed

lemma find_sub_step:
  "take (length what) (drop n bs) \<noteq> what \<Longrightarrow> n < length bs \<Longrightarrow>
     find_sub what (drop n bs) = map_option Suc (find_sub what (drop (Suc n) bs))"
  by (cases "drop n bs") (auto simp: drop_Suc drop_tl)

lemma find_sub_short: "length bs < length what \<Longrightarrow> find_sub what bs = None"
proof (induction bs)
  case (Cons x xs)
  moreover have "take (length what) (x # xs) \<noteq> what"
    using Cons.prems by (metis length_take min.strict_order_iff nat_neq_iff)
  ultimately show ?case
    by simp
qed auto

lemma cmp_loop_ok:
  assumes "\<forall>c\<in>set cs. chain_ok c" "cs \<noteq> [] \<longrightarrow> p \<le> off (hd cs)" "p + length what \<le> length (datas cs)"
  shows "cmp_loop what p cs = Inr (take (length what) (drop p (datas cs)) = what)"
  using assms
proof (induction cs arbitrary: what p)
  case (Cons c cs)
  have c: "chain_ok c" and p: "p \<le> off c"
    using Cons.prems by auto
  show ?case
  proof (cases "what = []")
    case False
    define n where "n = (if length what + p > off c then off c - p else length what)"
    have n: "p + n \<le> off c" "n \<le> length what"
      using p by (auto simp: n_def)
    have pk: "peek (misalign c + p) n (mem c) = Inr (take n (drop p (chain_data c)))"
      using peek_data [OF c n(1)] .
    have d: "drop p (datas (c # cs)) = drop p (chain_data c) @ datas cs"
      using p c by simp
    have rest: "cmp_loop (drop n what) 0 cs = Inr (take (length (drop n what)) (datas cs) = drop n what)"
      if "n = off c - p"
    proof -
      have "0 + length (drop n what) \<le> length (datas cs)"
        using Cons.prems(3) c p that by simp
      then show ?thesis
        using Cons.IH [of 0 "drop n what"] Cons.prems(1) by simp
    qed
    have stop: "cmp_loop [] 0 cs = Inr True"
      by (cases cs) simp_all
    consider "n = off c - p" | "n = length what" "off c - p > n"
    proof (cases "n = off c - p")
      case False
      then have "n = length what" "n < off c - p"
        using n(1) by (auto simp: n_def split: if_splits)
      with that(2) show thesis
        by blast
    qed
    then show ?thesis
    proof cases
      case 1
      have t: "take n (drop p (chain_data c)) = drop p (chain_data c)"
        using 1 c by simp
      have "take (length what) (drop p (chain_data c) @ datas cs) = what \<longleftrightarrow>
          drop p (chain_data c) = take n what \<and> take (length what - n) (datas cs) = drop n what"
        using 1 n c p by (auto simp: append_eq_conv_conj)
      then show ?thesis
        using False rest [OF 1] pk unfolding d by (auto simp: n_def [symmetric] Let_def t)
    next
      case 2
      have "take (length what) (drop p (chain_data c) @ datas cs) = take n (drop p (chain_data c))"
        using 2 c by simp
      then show ?thesis
        using False pk stop 2(1) unfolding d by (auto simp: n_def [symmetric] Let_def)
    qed
  qed simp
qed simp

lemma memcmp_ok:
  assumes b: "ev_inv b" and q: "ptr_in b q n"
  shows "evbuffer_ptr_memcmp b q what = Inr (take (length what) (drop n (bytes_of b)) = what)"
proof -
  note d = ptr_inD [OF b q]
  have pq: "pos q = int n"
    using q by (simp add: ptr_in_def)
  have tl: "total_len b = length (bytes_of b)" "length (bytes_of b) < 2 ^ 64"
    using b by (auto simp: ev_inv_def layout_def bytes_of_def)
  show ?thesis
  proof (cases "n + length what > length (bytes_of b)")
    case True
    then have "take (length what) (drop n (bytes_of b)) \<noteq> what"
      using d(1) by (metis add.commute add_diff_inverse_nat leD length_drop length_take
          min.cobounded1 nat_add_left_cancel_le)
    then show ?thesis
      using True by (simp add: evbuffer_ptr_memcmp_def pq tl(1))
  next
    case False
    have "length (datas (from_chain b q)) - pos_in_chain q = length (bytes_of b) - n"
      by (metis d(5) length_drop)
    then have "pos_in_chain q + length what \<le> length (datas (from_chain b q))"
      using False d(1,6) by linarith
    then have "cmp_loop what (pos_in_chain q) (from_chain b q)
        = Inr (take (length what) (drop n (bytes_of b)) = what)"
      using cmp_loop_ok [OF d(3) impI [OF d(4)]] d(5) by simp
    then show ?thesis
      using False tl by (simp add: evbuffer_ptr_memcmp_def pq SIZE_MAX_def)
  qed
qed

lemma ptr_in_at:
  assumes "k < length (chains b)" "p \<le> off (chains b ! k)"
  shows "ptr_in b \<lparr>pos = int (length (datas (take k (chains b))) + p), ptr_chain = Some k,
      pos_in_chain = p\<rparr> (length (datas (take k (chains b))) + p)"
  using assms by (simp add: ptr_in_def)

declare search_loop.simps(2) [simp del]

lemma search_loop_ok:
  assumes b: "ev_inv b" and w: "what \<noteq> []"
    and k: "cs = drop k (chains b)" "cs \<noteq> [] \<longrightarrow> p \<le> off (hd cs)"
      "n = length (datas (take k (chains b))) + (if cs = [] then 0 else p)"
  shows "\<exists>q. search_loop b what None k p (int n) cs = Inr q
    \<and> (case find_sub what (drop n (bytes_of b)) of
         None \<Rightarrow> q = PTR_NOT_FOUND
       | Some j \<Rightarrow> ptr_in b q (n + j))"
  using k
proof (induction "length cs + (length (bytes_of b) - n)" arbitrary: k p cs n rule: less_induct)
  case less
  note prems = less.prems
  show ?case
  proof (cases cs)
    case Nil
    have "bytes_of b = datas (take k (chains b))"
      using bytes_split [of b k] prems(1) Nil by simp
    then have "drop n (bytes_of b) = []"
      using prems(3) Nil by simp
    then show ?thesis
      using w Nil by simp
  next
    case (Cons c cs')
    have kl: "k < length (chains b)" and ck: "chains b ! k = c" and cs: "cs' = drop (Suc k) (chains b)"
      using prems(1) Cons by (metis drop_all list.distinct(1) not_le,
          metis nth_via_drop, metis drop_Suc list.sel(3) tl_drop)
    have c: "chain_ok c" and p: "p \<le> off c"
      using ev_inv_chains [OF b] kl ck prems(2) Cons by auto
    define bs where "bs = drop p (chain_data c)"
    have pk: "peek (misalign c + p) (off c - p) (mem c) = Inr bs"
      using peek_data [OF c, of p "off c - p"] p c by (simp add: bs_def)
    have lb: "length bs = off c - p"
      using c by (simp add: bs_def)
    have tk: "datas (take (Suc k) (chains b)) = datas (take k (chains b)) @ chain_data c"
      using kl ck by (simp add: take_Suc_conv_app_nth)
    have n: "n = length (datas (take k (chains b))) + p"
      using prems(3) Cons by simp
    have "bytes_of b = datas (take k (chains b)) @ chain_data c @ datas cs'"
      using bytes_split [of b k] unfolding prems(1) [symmetric] Cons by simp
    then have dn: "drop n (bytes_of b) = bs @ datas cs'"
      using p c by (simp add: n bs_def)
    have nl: "n + (off c - p) = length (datas (take (Suc k) (chains b)))"
      using p c by (simp add: n tk)
    have dd: "drop (n + (off c - p)) (bytes_of b) = datas cs'"
      using dn lb by (metis add.commute append_eq_conv_conj drop_drop)
    note step = search_loop.simps(2) [of b what None k p "int n" c cs', folded Cons]
    have next_chain: "\<exists>q. search_loop b what None (Suc k) 0 (int (n + (off c - p))) cs' = Inr q
      \<and> (case find_sub what (datas cs') of None \<Rightarrow> q = PTR_NOT_FOUND
         | Some j \<Rightarrow> ptr_in b q (n + (off c - p) + j))"
      using less.hyps [of cs' "n + (off c - p)" "Suc k" 0] Cons cs nl unfolding dd by simp
    show ?thesis
    proof (cases "memchr (hd what) bs")
      case None
      have "find_sub what (drop n (bytes_of b)) = map_option ((+) (length bs)) (find_sub what (datas cs'))"
        unfolding dn
        by (rule find_sub_skip [OF _ w]) (use None in \<open>simp add: memchr_idx first_idx_None\<close>)
      moreover have "search_loop b what None k p (int n) cs
          = search_loop b what None (Suc k) 0 (int (n + (off c - p))) cs'"
        using p pk None unfolding of_nat_add step by simp
      ultimately show ?thesis
        using next_chain lb by (auto split: option.splits simp: add.assoc)
    next
      case (Some i)
      then have i: "i < length bs" "bs ! i = hd what" "\<forall>x\<in>set (take i bs). x \<noteq> hd what"
        by (simp_all add: memchr_idx first_idx_Some)
      let ?q = "\<lparr>pos = int n + int i, ptr_chain = Some k, pos_in_chain = p + i\<rparr>"
      have q: "ptr_in b ?q (n + i)"
        using kl ck i(1) lb by (simp add: ptr_in_def n)
      note mc = memcmp_ok [OF b q, of what]
      have sk: "find_sub what (drop n (bytes_of b)) = map_option ((+) i) (find_sub what (drop (n + i) (bytes_of b)))"
      proof -
        have "drop (n + i) (bytes_of b) = drop i (drop n (bytes_of b))"
          by (simp add: add.commute)
        then have "drop n (bytes_of b) = take i bs @ drop (n + i) (bytes_of b)"
          unfolding dn using i(1) by simp
        moreover have "length (take i bs) = i"
          using i(1) by simp
        ultimately show ?thesis
          using find_sub_skip [OF i(3) w, of "drop (n + i) (bytes_of b)"] by simp
      qed
      have nle: "n + i < length (bytes_of b)"
        using arg_cong [OF dn, of length] i(1) by simp
      show ?thesis
      proof (cases "take (length what) (drop (n + i) (bytes_of b)) = what")
        case True
        then have "find_sub what (drop (n + i) (bytes_of b)) = Some 0"
          by (simp add: find_sub_Some)
        then show ?thesis
          using True p pk Some mc q sk unfolding step by (simp add: Let_def)
      next
        case False
        then have st: "find_sub what (drop n (bytes_of b))
            = map_option ((+) (Suc i)) (find_sub what (drop (n + Suc i) (bytes_of b)))"
          using sk find_sub_step [OF False nle] by (cases "find_sub what (drop (n + Suc i) (bytes_of b))") simp_all
        have ret: "search_loop b what None k p (int n) cs
            = (if Suc (p + i) = off c then search_loop b what None (Suc k) 0 (int (n + Suc i)) cs'
               else search_loop b what None k (Suc (p + i)) (int (n + Suc i)) cs)"
          using p pk Some mc False unfolding step by (simp add: add.assoc add.commute)
        have "\<exists>q. search_loop b what None k p (int n) cs = Inr q
          \<and> (case find_sub what (drop (n + Suc i) (bytes_of b)) of None \<Rightarrow> q = PTR_NOT_FOUND
             | Some j \<Rightarrow> ptr_in b q (n + Suc i + j))"
        proof (cases "Suc (p + i) = off c")
          case True
          then have e: "n + Suc i = n + (off c - p)"
            by simp
          show ?thesis
            using next_chain True unfolding ret e dd by simp
        next
          case False
          then have "Suc (p + i) \<le> off c" "length cs + (length (bytes_of b) - (n + Suc i))
              < length cs + (length (bytes_of b) - n)"
            using i(1) lb nle by auto
          moreover have "cs \<noteq> [] \<longrightarrow> Suc (p + i) \<le> off (hd cs)"
            "n + Suc i = length (datas (take k (chains b))) + (if cs = [] then 0 else Suc (p + i))"
            using calculation(1) Cons n by simp_all
          ultimately show ?thesis
            using less.hyps [OF _ prems(1)] False unfolding ret by simp
        qed
        then show ?thesis
          using st by (auto split: option.splits simp: add.assoc)
      qed
    qed
  qed
qed

end
