(* ===== verification/Evbuf_Line_Inv.thy ===== *)
theory Evbuf_Line_Inv
  imports Evbuf_Search_Inv
begin

text \<open>
  Positions set and moved, lines found and read: what the functions of \<open>Evbuf_Search\<close> return,
  on the bytes of the buffer.
\<close>

section \<open>Setting and moving a position\<close>

lemma ptr_walk_ok:
  assumes "\<forall>c\<in>set cs. chain_ok c"
  shows "if q + left < length (datas cs)
    then \<exists>j l p. ptr_walk k q left cs = (Some (k + j, p), l) \<and> j < length cs \<and> p < off (cs ! j)
           \<and> q + left = length (datas (take j cs)) + p
    else cs \<noteq> [] \<longrightarrow> ptr_walk k q left cs = (None, q + left - length (datas cs))"
  using assms
proof (induction cs arbitrary: k q left)
  case (Cons c cs)
  have c: "chain_ok c"
    using Cons.prems by simp
  show ?case
  proof (cases "q + left \<ge> off c")
    case False
    then have "ptr_walk k q left (c # cs) = (Some (k + 0, q + left), left)"
      by simp
    moreover have "q + left < length (datas (c # cs))"
      using False c by simp
    ultimately show ?thesis
      using False by (simp add: exI [of _ "0::nat"])
  next
    case True
    then have st: "ptr_walk k q left (c # cs) = ptr_walk (Suc k) 0 (q + left - off c) cs"
      by simp
    note ih = Cons.IH [of 0 "q + left - off c" "Suc k"]
    show ?thesis
    proof (cases "q + left < length (datas (c # cs))")
      case t: True
      then have "0 + (q + left - off c) < length (datas cs)"
        using c True by simp
      with ih Cons.prems have "\<exists>j l p. ptr_walk (Suc k) 0 (q + left - off c) cs = (Some (Suc (k + j), p), l)
          \<and> j < length cs \<and> p < off (cs ! j) \<and> q + left - off c = length (datas (take j cs)) + p"
        by simp
      then obtain j l p where j: "ptr_walk (Suc k) 0 (q + left - off c) cs = (Some (Suc (k + j), p), l)"
        "j < length cs" "p < off (cs ! j)" "q + left - off c = length (datas (take j cs)) + p"
        by blast
      then have "ptr_walk k q left (c # cs) = (Some (k + Suc j, p), l)" "Suc j < length (c # cs)"
        "p < off ((c # cs) ! Suc j)" "q + left = length (datas (take (Suc j) (c # cs))) + p"
        using st True c by simp_all
      then show ?thesis
        using t by (simp only: if_True) blast
    next
      case f: False
      show ?thesis
      proof (cases "cs = []")
        case False
        then have "ptr_walk (Suc k) 0 (q + left - off c) cs = (None, q + left - off c - length (datas cs))"
          using ih f c Cons.prems True by (simp split: if_splits)
        then show ?thesis
          using f st c by simp
      next
        case nil: True
        show ?thesis
          using f st c by (simp add: nil)
      qed
    qed
  qed
qed simp

text \<open>A position inside the buffer names a byte of its chain.\<close>

definition ptr_byte :: "evbuffer \<Rightarrow> evbuffer_ptr \<Rightarrow> nat \<Rightarrow> bool" where
  "ptr_byte b q n \<longleftrightarrow> ptr_in b q n \<and> n < length (bytes_of b)
     \<and> pos_in_chain q < off (chains b ! chain_no q)"

lemma ptr_set_ok:
  assumes b: "ev_inv b" and n: "n \<le> SIZE_MAX"
  shows "\<exists>r q'. evbuffer_ptr_set b q n PTR_SET = Inr (r, q')
    \<and> (if n < length (bytes_of b) then r = 0 \<and> ptr_byte b q' n
       else if n = length (bytes_of b)
       then r = 0 \<and> q' = \<lparr>pos = int n, ptr_chain = None, pos_in_chain = 0\<rparr>
       else r = -1 \<and> q' = PTR_NOT_FOUND)"
proof -
  note w = ptr_walk_ok [OF ev_inv_chains [OF b], of 0 n 0]
  have bs: "bytes_of b = datas (chains b)"
    by (simp add: bytes_of_def)
  show ?thesis
  proof (cases "n < length (bytes_of b)")
    case True
    then have "\<exists>j l p. ptr_walk 0 0 n (chains b) = (Some (j, p), l) \<and> j < length (chains b)
        \<and> p < off (chains b ! j) \<and> n = length (datas (take j (chains b))) + p"
      using w by (simp add: bs)
    then obtain j l p where j: "ptr_walk 0 0 n (chains b) = (Some (j, p), l)" "j < length (chains b)"
      "p < off (chains b ! j)" "n = length (datas (take j (chains b))) + p"
      by blast
    have "ptr_byte b (q\<lparr>pos := int n, ptr_chain := Some j, pos_in_chain := p\<rparr>) n"
      using j(2-4) True by (simp add: ptr_byte_def ptr_in_def chain_no_def)
    then show ?thesis
      using True n j(1) by (simp add: evbuffer_ptr_set_def Let_def)
  next
    case False
    then have "ptr_walk 0 0 n (chains b) = (None, n - length (bytes_of b))"
      using w by (cases "chains b = []") (simp_all add: bs)
    then show ?thesis
      using False n by (simp add: evbuffer_ptr_set_def Let_def)
  qed
qed

lemma ptr_subtract_ok:
  assumes b: "ev_inv b" and q: "ptr_in b q n" and i: "0 < i" "i \<le> n"
  shows "\<exists>q'. evbuffer_ptr_subtract b q i = Inr (0, q') \<and> ptr_byte b q' (n - i)"
proof -
  obtain k where k: "pos q = int n" "ptr_chain q = Some k" "k < length (chains b)"
    "pos_in_chain q \<le> off (chains b ! k)" "n = length (datas (take k (chains b))) + pos_in_chain q"
    using q by (auto simp: ptr_in_def)
  have n: "n \<le> length (bytes_of b)" "length (bytes_of b) < 2 ^ 64"
    using ptr_inD(1) [OF b q] b by (auto simp: ev_inv_def layout_def bytes_of_def)
  show ?thesis
  proof (cases "i \<le> pos_in_chain q")
    case True
    then have "ptr_byte b (q\<lparr>pos_in_chain := pos_in_chain q - i, pos := pos q - int i\<rparr>) (n - i)"
      using k i n by (auto simp: ptr_byte_def ptr_in_def chain_no_def)
    then show ?thesis
      using True k i by (simp add: evbuffer_ptr_subtract_def)
  next
    case False
    have "n - i \<le> SIZE_MAX" "n - i < length (bytes_of b)"
      using n i by (auto simp: SIZE_MAX_def)
    then obtain q' where "evbuffer_ptr_set b q (n - i) PTR_SET = Inr (0, q')" "ptr_byte b q' (n - i)"
      using ptr_set_ok [OF b, of "n - i" q] by auto
    moreover have "\<not> pos q < 0" "\<not> i > nat (pos q)" "nat (pos q) = n"
      using k(1) i by simp_all
    ultimately show ?thesis
      using False k(2) by (simp add: evbuffer_ptr_subtract_def)
  qed
qed

lemma getchr_ok:
  assumes b: "ev_inv b" and q: "ptr_byte b q n"
  shows "evbuffer_getchr b q = Inr (Some (bytes_of b ! n))"
proof -
  obtain k where k: "ptr_chain q = Some k" "k < length (chains b)" "pos_in_chain q < off (chains b ! k)"
    "n = length (datas (take k (chains b))) + pos_in_chain q"
    using q by (auto simp: ptr_byte_def ptr_in_def chain_no_def)
  let ?c = "chains b ! k"
  have d: "drop k (chains b) = ?c # drop (Suc k) (chains b)"
    using k(2) by (simp add: Cons_nth_drop_Suc)
  have c: "chain_ok ?c"
    using ev_inv_chains [OF b] k(2) by simp
  have "byte_at (mem ?c) (misalign ?c + pos_in_chain q) = Inr (chain_data ?c ! pos_in_chain q)"
    using c k(3) by (auto simp: byte_at_def chain_data_def chain_ok_def)
  moreover have "bytes_of b ! n = chain_data ?c ! pos_in_chain q"
    using c k(3) by (simp add: bytes_split [of b k] k(4) d nth_append)
  ultimately show ?thesis
    by (simp add: evbuffer_getchr_def from_chain_def k(1) d)
qed

lemma span_loop_ok:
  assumes "\<forall>c\<in>set cs. chain_ok c" "cs \<noteq> [] \<longrightarrow> i \<le> off (hd cs)"
  shows "span_loop S i cs = Inr (length (takeWhile (\<lambda>x. x \<in> set S) (drop i (datas cs))))"
  using assms
proof (induction cs arbitrary: i)
  case (Cons c cs)
  have c: "chain_ok c" and i: "i \<le> off c"
    using Cons.prems by auto
  have pk: "peek (misalign c + i) (off c - i) (mem c) = Inr (drop i (chain_data c))"
    using peek_data [OF c, of i "off c - i"] i c by simp
  have d: "drop i (datas (c # cs)) = drop i (chain_data c) @ datas cs"
    using i c by simp
  have ih: "span_loop S 0 cs = Inr (length (takeWhile (\<lambda>x. x \<in> set S) (datas cs)))"
    using Cons by simp
  show ?case
  proof (cases "\<forall>x\<in>set (drop i (chain_data c)). x \<in> set S")
    case True
    then have tw: "takeWhile (\<lambda>x. x \<in> set S) (drop i (chain_data c)) = drop i (chain_data c)"
      "takeWhile (\<lambda>x. x \<in> set S) (drop i (chain_data c) @ datas cs)
        = drop i (chain_data c) @ takeWhile (\<lambda>x. x \<in> set S) (datas cs)"
      by (simp_all add: takeWhile_eq_all_conv)
    show ?thesis
      unfolding d tw span_loop.simps(2) pk ih bindE_simps Let_def by simp
  next
    case False
    then have "length (takeWhile (\<lambda>x. x \<in> set S) (drop i (chain_data c))) < length (drop i (chain_data c))"
      by (metis length_takeWhile_le nat_less_le takeWhile_eq_all_conv takeWhile_eq_take take_all_iff)
    moreover have "takeWhile (\<lambda>x. x \<in> set S) (drop i (chain_data c) @ datas cs)
        = takeWhile (\<lambda>x. x \<in> set S) (drop i (chain_data c))"
      using False by (metis takeWhile_append1)
    ultimately show ?thesis
      using pk unfolding d by (simp add: Let_def)
  qed
qed simp

lemma strspn_ok:
  assumes b: "ev_inv b" and q: "ptr_in b q n"
  shows "evbuffer_strspn b q S = Inr (length (takeWhile (\<lambda>x. x \<in> set S) (drop n (bytes_of b))))"
  using span_loop_ok [OF ptr_inD(3) [OF b q] impI [OF ptr_inD(4) [OF b q]]] ptr_inD(5) [OF b q]
  by (simp add: evbuffer_strspn_def)

section \<open>Lines\<close>

text \<open>Where the first line of some bytes ends, and the length of its terminator.\<close>

fun eol_at :: "evbuffer_eol_style \<Rightarrow> byte list \<Rightarrow> (nat \<times> nat) option" where
  "eol_at EOL_ANY bs = map_option (\<lambda>i. (i, length (takeWhile (\<lambda>x. x = CR \<or> x = LF) (drop i bs))))
     (first_idx (\<lambda>x. x = CR \<or> x = LF) bs)"
| "eol_at EOL_CRLF bs = map_option (\<lambda>i. if 0 < i \<and> bs ! (i - 1) = CR then (i - 1, 2) else (i, 1))
     (first_idx (\<lambda>x. x = LF) bs)"
| "eol_at EOL_CRLF_STRICT bs = map_option (\<lambda>i. (i, 2)) (find_sub [CR, LF] bs)"
| "eol_at EOL_LF bs = map_option (\<lambda>i. (i, 1)) (first_idx (\<lambda>x. x = LF) bs)"
| "eol_at EOL_NUL bs = map_option (\<lambda>i. (i, 1)) (first_idx (\<lambda>x. x = 0) bs)"

lemma not_found_pos: "pos PTR_NOT_FOUND < 0"
  by (simp add: PTR_NOT_FOUND_def)

lemma ptr_in_pos: "ptr_in b q n \<Longrightarrow> pos q = int n"
  by (simp add: ptr_in_def)

lemma search_ok:
  assumes b: "ev_inv b" and w: "what \<noteq> []" "length what < 2 ^ 63" and q: "ptr_in b q n"
  shows "\<exists>q'. evbuffer_search b what (Some q) = Inr q' \<and>
    (case find_sub what (drop n (bytes_of b)) of None \<Rightarrow> q' = PTR_NOT_FOUND
     | Some j \<Rightarrow> ptr_in b q' (n + j))"
proof -
  obtain k where k: "pos q = int n" "ptr_chain q = Some k" "k < length (chains b)"
    "pos_in_chain q \<le> off (chains b ! k)" "n = length (datas (take k (chains b))) + pos_in_chain q"
    using q by (auto simp: ptr_in_def)
  have "drop k (chains b) \<noteq> [] \<longrightarrow> pos_in_chain q \<le> off (hd (drop k (chains b)))"
    "n = length (datas (take k (chains b))) + (if drop k (chains b) = [] then 0 else pos_in_chain q)"
    using k by (simp_all add: hd_drop_conv_nth)
  from search_loop_ok [OF b w(1) refl this] show ?thesis
    using w k by (simp add: evbuffer_search_def evbuffer_search_range_def from_chain_def chain_no_def
        SSIZE_MAX_def)
qed

lemma strchr_ok:
  assumes b: "ev_inv b" and q: "ptr_in b q n"
  shows "\<exists>r. evbuffer_strchr b q ch = Inr r
    \<and> (case first_idx (\<lambda>x. x = ch) (drop n (bytes_of b)) of None \<Rightarrow> r = None
       | Some j \<Rightarrow> \<exists>q'. r = Some q' \<and> ptr_in b q' (n + j))"
  unfolding evbuffer_strchr_def memchr_idx by (rule find_from_ok [OF b q])

lemma find_eol_ok:
  assumes b: "ev_inv b" and q: "ptr_in b q n"
  shows "\<exists>r. evbuffer_find_eol_char b q = Inr r
    \<and> (case first_idx (\<lambda>x. x = CR \<or> x = LF) (drop n (bytes_of b)) of None \<Rightarrow> r = None
       | Some j \<Rightarrow> \<exists>q'. r = Some q' \<and> ptr_in b q' (n + j))"
  unfolding evbuffer_find_eol_char_def find_eol_char_idx by (rule find_from_ok [OF b q])

text \<open>A search for a line end from a position on.\<close>

lemma search_eol_ok:
  assumes b: "ev_inv b" and q: "ptr_in b q n"
  shows "\<exists>q' l. evbuffer_search_eol b (Some q) style = Inr (q', l)
    \<and> (case eol_at style (drop n (bytes_of b)) of None \<Rightarrow> q' = PTR_NOT_FOUND \<and> l = 0
       | Some (i, d) \<Rightarrow> ptr_in b q' (n + i) \<and> l = d)"
proof (cases style)
  case EOL_ANY
  show ?thesis
  proof (cases "first_idx (\<lambda>x. x = CR \<or> x = LF) (drop n (bytes_of b))")
    case None
    then show ?thesis
      using find_eol_ok [OF b q] q EOL_ANY by (auto simp: evbuffer_search_eol_def ptr_in_def)
  next
    case (Some j)
    then obtain q' where q': "evbuffer_find_eol_char b q = Inr (Some q')" "ptr_in b q' (n + j)"
      using find_eol_ok [OF b q] by auto
    have "(\<lambda>x. x \<in> set [CR, LF]) = (\<lambda>x. x = CR \<or> x = LF)"
      by auto
    then show ?thesis
      using q' strspn_ok [OF b q'(2), of "[CR, LF]"] Some q EOL_ANY
      by (auto simp: evbuffer_search_eol_def ptr_in_def add.commute)
  qed
next
  case EOL_CRLF_STRICT
  obtain q' where q': "evbuffer_search b [CR, LF] (Some q) = Inr q'"
    "case find_sub [CR, LF] (drop n (bytes_of b)) of None \<Rightarrow> q' = PTR_NOT_FOUND
     | Some j \<Rightarrow> ptr_in b q' (n + j)"
    using search_ok [OF b _ _ q, of "[CR, LF]"] by auto
  then show ?thesis
    using q EOL_CRLF_STRICT not_found_pos
    by (cases "find_sub [CR, LF] (drop n (bytes_of b))") (auto simp: evbuffer_search_eol_def ptr_in_def)
next
  case EOL_LF
  then show ?thesis
    using strchr_ok [OF b q, of LF] q
    by (cases "first_idx (\<lambda>x. x = LF) (drop n (bytes_of b))") (auto simp: evbuffer_search_eol_def ptr_in_def)
next
  case EOL_NUL
  then show ?thesis
    using strchr_ok [OF b q, of 0] q
    by (cases "first_idx (\<lambda>x. x = 0) (drop n (bytes_of b))") (auto simp: evbuffer_search_eol_def ptr_in_def)
next
  case EOL_CRLF
  have qc: "ptr_chain q \<noteq> None" "pos q = int n"
    using q by (auto simp: ptr_in_def)
  show ?thesis
  proof (cases "first_idx (\<lambda>x. x = LF) (drop n (bytes_of b))")
    case None
    then show ?thesis
      using strchr_ok [OF b q, of LF] qc EOL_CRLF by (auto simp: evbuffer_search_eol_def)
  next
    case (Some j)
    then obtain q' where q': "evbuffer_strchr b q LF = Inr (Some q')" "ptr_in b q' (n + j)"
      using strchr_ok [OF b q, of LF] by auto
    show ?thesis
    proof (cases "j = 0")
      case True
      then show ?thesis
        using q' Some qc EOL_CRLF ptr_in_pos [OF q'(2)] by (auto simp: evbuffer_search_eol_def)
    next
      case False
      then obtain q2 where q2: "evbuffer_ptr_subtract b q' 1 = Inr (0, q2)" "ptr_byte b q2 (n + j - 1)"
        using ptr_subtract_ok [OF b q'(2), of 1] by auto
      have "bytes_of b ! (n + j - 1) = drop n (bytes_of b) ! (j - 1)"
        using False ptr_inD(1) [OF b q] by (simp add: Nat.add_diff_assoc)
      moreover have "ptr_in b q2 (n + (j - 1))"
        using q2(2) False by (simp add: ptr_byte_def Nat.add_diff_assoc)
      ultimately show ?thesis
        using q' q2(1) getchr_ok [OF b q2(2)] Some qc EOL_CRLF False ptr_in_pos [OF q'(2)]
        by (auto simp: evbuffer_search_eol_def)
    qed
  qed
qed

lemma eol_first_ok:
  assumes b: "ev_inv b"
  shows "\<exists>q' l. evbuffer_search_eol b None style = Inr (q', l)
    \<and> (case eol_at style (bytes_of b) of None \<Rightarrow> pos q' < 0
       | Some (i, d) \<Rightarrow> pos q' = int i \<and> i \<le> length (bytes_of b) \<and> l = d)"
proof (cases "chains b = []")
  case True
  then have "bytes_of b = []"
    by (simp add: bytes_of_def)
  then show ?thesis
    using True by (cases style) (auto simp: evbuffer_search_eol_def evbuffer_find_eol_char_def
        evbuffer_strchr_def evbuffer_search_def evbuffer_search_range_def from_chain_def ptr_first_def
        SSIZE_MAX_def PTR_NOT_FOUND_def)
next
  case False
  then have "evbuffer_search_eol b None style = evbuffer_search_eol b (Some (ptr_first b)) style"
    by (simp add: evbuffer_search_eol_def ptr_first_def)
  moreover note ptr_first_in [OF b False]
  ultimately show ?thesis
    using search_eol_ok [OF b, of "ptr_first b" 0 style] not_found_pos
    by (cases "eol_at style (bytes_of b)") (auto dest: ptr_in_pos ptr_inD(1) [OF b])
qed

lemma drain_becomes:
  assumes b: "ev_inv b" and fr: "\<not> freeze_start b"
  shows "\<exists>b'. evbuffer_drain b n = Inr (0, b') \<and> becomes b (drop n (bytes_of b)) b'"
  using drain_ok [OF b, of n] fr b
  by (auto simp: drain_spec_def intro: ev_to_becomes(2)) (metis becomes_refl)

lemma remove_becomes:
  assumes b: "ev_inv b" and fr: "\<not> freeze_start b"
  shows "\<exists>r b'. evbuffer_remove b n = Inr (r, take n (bytes_of b), b')
    \<and> becomes b (drop n (bytes_of b)) b' \<and> r = as_int (int (min n (length (bytes_of b))))"
proof -
  have z: "as_int 0 = 0"
    by (simp add: as_int_def)
  obtain r bs b' where r: "evbuffer_remove b n = Inr (r, bs, b')"
    "if bytes_of b = [] \<or> n = 0 then r = 0 \<and> bs = [] \<and> b' = b
     else if freeze_start b then r = -1 \<and> bs = [] \<and> b' = b
     else bs = take n (bytes_of b) \<and> r = as_int (int (length bs))
        \<and> (\<exists>b''. ev_to b 0 (length bs) (drop n (bytes_of b)) b'' \<and> b' = evbuffer_invoke_callbacks b'')"
    using remove_ok [OF b, of n] by blast
  show ?thesis
  proof (cases "bytes_of b = [] \<or> n = 0")
    case True
    then show ?thesis
      using r becomes_refl [OF b] z by auto
  next
    case False
    then show ?thesis
      using r fr ev_to_becomes(2) [OF b] by (auto simp: min.commute)
  qed
qed

text \<open>A line is read whole or not at all.\<close>

lemma readln_ok:
  assumes b: "ev_inv b"
  shows "\<exists>r b'. evbuffer_readln m b style = Inr (r, b') \<and>
    (case eol_at style (bytes_of b) of
       None \<Rightarrow> r = None \<and> b' = b
     | Some (i, d) \<Rightarrow>
         if freeze_start b \<or> m (i + 1) = None then r = None \<and> b' = b
         else r = Some (take i (bytes_of b)) \<and> becomes b (drop (i + d) (bytes_of b)) b')"
proof (cases "freeze_start b")
  case True
  then show ?thesis
    by (auto simp: evbuffer_readln_def split: option.splits)
next
  case fr: False
  obtain q l where q: "evbuffer_search_eol b None style = Inr (q, l)"
    "case eol_at style (bytes_of b) of None \<Rightarrow> pos q < 0
     | Some (i, d) \<Rightarrow> pos q = int i \<and> i \<le> length (bytes_of b) \<and> l = d"
    using eol_first_ok [OF b] by blast
  show ?thesis
  proof (cases "eol_at style (bytes_of b)")
    case None
    then show ?thesis
      using q fr by (simp add: evbuffer_readln_def)
  next
    case (Some e)
    obtain i where e: "e = (i, l)" and i: "pos q = int i" "i \<le> length (bytes_of b)"
      using q(2) Some by (cases e) auto
    show ?thesis
    proof (cases "m (i + 1)")
      case None
      then show ?thesis
        using q(1) i(1) fr Some by (simp add: evbuffer_readln_def e)
    next
      case (Some blk)
      obtain r b1 where r: "evbuffer_remove b i = Inr (r, take i (bytes_of b), b1)"
        "becomes b (drop i (bytes_of b)) b1"
        using remove_becomes [OF b fr, of i] by blast
      then have "ev_inv b1" "\<not> freeze_start b1" "bytes_of b1 = drop i (bytes_of b)"
        using fr by (simp_all add: becomes_def)
      then obtain b2 where d: "evbuffer_drain b1 l = Inr (0, b2)" "becomes b1 (drop (i + l) (bytes_of b)) b2"
        using drain_becomes [of b1 l] by (auto simp: add.commute)
      have "evbuffer_readln m b style = Inr (Some (take i (bytes_of b)), b2)"
        using q(1) i(1) fr Some r(1) d(1) by (simp add: evbuffer_readln_def)
      then show ?thesis
        using becomes_trans [OF r(2) d(2)] \<open>eol_at style (bytes_of b) = Some e\<close> e fr Some by simp
    qed
  qed
qed

section \<open>Finding a string\<close>

lemma search_first_ok:
  assumes b: "ev_inv b" and w: "what \<noteq> []" "length what < 2 ^ 63"
  shows "\<exists>q. evbuffer_search b what None = Inr q \<and>
    (case find_sub what (bytes_of b) of None \<Rightarrow> pos q < 0
     | Some j \<Rightarrow> pos q = int j \<and> take (length what) (drop j (bytes_of b)) = what)"
proof (cases "chains b = []")
  case True
  then have "bytes_of b = []"
    by (simp add: bytes_of_def)
  then show ?thesis
    using True w by (simp add: evbuffer_search_def evbuffer_search_range_def from_chain_def ptr_first_def
        SSIZE_MAX_def PTR_NOT_FOUND_def)
next
  case False
  then have "evbuffer_search b what None = evbuffer_search b what (Some (ptr_first b))"
    by (simp add: evbuffer_search_def evbuffer_search_range_def)
  then show ?thesis
    using search_ok [OF b w ptr_first_in [OF b False]] not_found_pos
    by (cases "find_sub what (bytes_of b)")
      (auto dest: ptr_in_pos find_sub_Some [THEN iffD1])
qed

lemma find_ok:
  assumes m: "malloc_sized m" and b: "ev_inv b" and w: "what \<noteq> []" "length what < 2 ^ 63"
  shows "\<exists>r b'. evbuffer_find m b what = Inr (r, b') \<and> becomes b (bytes_of b) b' \<and>
    (case find_sub what (bytes_of b) of
       None \<Rightarrow> r = None
     | Some j \<Rightarrow> (case r of
           None \<Rightarrow> j + length what > CHAIN_MAX - CHAIN_SIZE \<or> alloc_fails m
         | Some ds \<Rightarrow> take (length what) ds = what))"
proof -
  obtain q where q: "evbuffer_search b what None = Inr q"
    "case find_sub what (bytes_of b) of None \<Rightarrow> pos q < 0
     | Some j \<Rightarrow> pos q = int j \<and> take (length what) (drop j (bytes_of b)) = what"
    using search_first_ok [OF b w] by blast
  show ?thesis
  proof (cases "find_sub what (bytes_of b)")
    case None
    then show ?thesis
      using q becomes_refl [OF b] by (simp add: evbuffer_find_def)
  next
    case (Some j)
    then have j: "pos q = int j" "take (length what) (drop j (bytes_of b)) = what"
      using q(2) by auto
    let ?n = "pos q + int (length what)"
    have le: "j + length what \<le> length (bytes_of b)"
      using arg_cong [OF j(2), of length] w(1) by (cases "j \<le> length (bytes_of b)") auto
    have p: "ev_pullup ?n (bytes_of b) = Some (take (j + length what) (bytes_of b))"
      using le w(1) j(1) by (simp add: ev_pullup_def nat_add_distrib)
    obtain r b' where r: "evbuffer_pullup m b ?n = Inr (r, b')" "pullup_spec m b ?n (r, b')"
      using pullup_ok [OF m b, of ?n] by auto
    then have "becomes b (bytes_of b) b'"
      using ev_to_becomes(1) [OF b] by (auto simp: pullup_spec_def)
    moreover have "case map_option (drop j) r of None \<Rightarrow> j + length what > CHAIN_MAX - CHAIN_SIZE \<or> alloc_fails m
         | Some ds \<Rightarrow> take (length what) ds = what"
    proof (cases r)
      case None
      then show ?thesis
        using r(2) p le by (auto simp: pullup_spec_def min_def split: if_splits)
    next
      case (Some ds)
      then have t: "take (j + length what) ds = take (j + length what) (bytes_of b)"
        using r(2) p le by (auto simp: pullup_spec_def min_def split: if_splits)
      have "take (length what) (drop j ds) = drop j (take (j + length what) ds)"
        by (simp add: drop_take)
      also have "\<dots> = take (length what) (drop j (bytes_of b))"
        unfolding t by (simp add: drop_take)
      finally show ?thesis
        using j(2) Some by simp
    qed
    ultimately show ?thesis
      using r(1) q(1) j(1) Some by (simp add: evbuffer_find_def)
  qed
qed

end
