(* ===== verification/Evbuf_Script.thy ===== *)
theory Evbuf_Script
  imports Evbuf_Line_Inv
begin

text \<open>
  Programs over several buffers: the calls of \<open>event2/buffer.h\<close>, what they do in the model, and
  what they promise on buffers that are nothing but byte sequences. The two locales are the
  interface of a machine whose operations consume a bounded resource, here the 64-bit lengths.
\<close>

section \<open>Machines with a bounded resource\<close>

fun run_calls :: "('op \<Rightarrow> 's \<Rightarrow> ('r \<times> 's) res) \<Rightarrow> 'op list \<Rightarrow> 's \<Rightarrow> ('r list \<times> 's) res" where
  "run_calls f [] s = Inr ([], s)"
| "run_calls f (op # ops) s =
     bindE (f op s) (\<lambda>(r, s). bindE (run_calls f ops s) (\<lambda>(rs, s). Inr (r # rs, s)))"

fun spec_run :: "('op \<Rightarrow> 'a \<Rightarrow> 'r \<Rightarrow> 'a \<Rightarrow> bool) \<Rightarrow> 'op list \<Rightarrow> 'a \<Rightarrow> 'r list \<Rightarrow> 'a \<Rightarrow> bool" where
  "spec_run p [] a rs a' \<longleftrightarrow> rs = [] \<and> a' = a"
| "spec_run p (op # ops) a rs a' \<longleftrightarrow>
     (\<exists>r b rs'. rs = r # rs' \<and> p op a r b \<and> spec_run p ops b rs' a')"

locale bounded_machine =
  fixes call :: "'op \<Rightarrow> 's \<Rightarrow> ('r \<times> 's) res"
    and invar :: "'s \<Rightarrow> bool"
    and legal :: "'op \<Rightarrow> bool"
    and volume :: "'s \<Rightarrow> nat"
    and cost :: "'op \<Rightarrow> nat"
    and limit :: nat
  assumes call_ok: "invar s \<Longrightarrow> legal op \<Longrightarrow> volume s + cost op \<le> limit \<Longrightarrow>
    \<exists>r t. call op s = Inr (r, t) \<and> invar t \<and> volume t \<le> volume s + cost op"
begin

lemma run_ok:
  "invar s \<Longrightarrow> \<forall>op\<in>set ops. legal op \<Longrightarrow> volume s + sum_list (map cost ops) \<le> limit \<Longrightarrow>
    \<exists>rs t. run_calls call ops s = Inr (rs, t) \<and> invar t
      \<and> volume t \<le> volume s + sum_list (map cost ops) \<and> length rs = length ops"
proof (induction ops arbitrary: s)
  case (Cons op ops)
  have "legal op" "volume s + cost op \<le> limit"
    using Cons.prems by auto
  from call_ok [OF Cons.prems(1) this] obtain r u where
    u: "call op s = Inr (r, u)" "invar u" "volume u \<le> volume s + cost op"
    by blast
  have "volume u + sum_list (map cost ops) \<le> limit"
    using Cons.prems(3) u(3) by simp
  with Cons.IH [OF u(2)] Cons.prems(2) obtain rs t where
    "run_calls call ops u = Inr (rs, t)" "invar t"
    "volume t \<le> volume u + sum_list (map cost ops)" "length rs = length ops"
    by auto
  then show ?case
    using u by simp
qed simp

end

locale bounded_refinement = bounded_machine call invar legal volume cost limit
  for call :: "'op \<Rightarrow> 's \<Rightarrow> ('r \<times> 's) res"
    and invar :: "'s \<Rightarrow> bool"
    and legal :: "'op \<Rightarrow> bool"
    and volume :: "'s \<Rightarrow> nat"
    and cost :: "'op \<Rightarrow> nat"
    and limit :: nat +
  fixes abs :: "'s \<Rightarrow> 'a"
    and allowed :: "'op \<Rightarrow> 'a \<Rightarrow> 'r \<Rightarrow> 'a \<Rightarrow> bool"
  assumes call_allowed: "invar s \<Longrightarrow> legal op \<Longrightarrow> volume s + cost op \<le> limit \<Longrightarrow>
    call op s = Inr (r, t) \<Longrightarrow> allowed op (abs s) r (abs t)"
begin

lemma run_refines:
  "invar s \<Longrightarrow> \<forall>op\<in>set ops. legal op \<Longrightarrow> volume s + sum_list (map cost ops) \<le> limit \<Longrightarrow>
    \<exists>rs t. run_calls call ops s = Inr (rs, t) \<and> invar t \<and> spec_run allowed ops (abs s) rs (abs t)"
proof (induction ops arbitrary: s)
  case (Cons op ops)
  have l: "legal op" "volume s + cost op \<le> limit"
    using Cons.prems by auto
  from call_ok [OF Cons.prems(1) l] obtain r u where
    u: "call op s = Inr (r, u)" "invar u" "volume u \<le> volume s + cost op"
    by blast
  have "volume u + sum_list (map cost ops) \<le> limit"
    using Cons.prems(3) u(3) by simp
  with Cons.IH [OF u(2)] Cons.prems(2) obtain rs t where
    "run_calls call ops u = Inr (rs, t)" "invar t" "spec_run allowed ops (abs u) rs (abs t)"
    by auto
  then show ?case
    using u call_allowed [OF Cons.prems(1) l u(1)] by auto
qed simp

end

section \<open>Calls on buffers\<close>

text \<open>
  Buffers are numbered. What the kernel answers is part of a call: the bytes that \<open>readv\<close>
  delivers for the room offered, the number of bytes that \<open>writev\<close> takes.
\<close>

datatype ev_call =
    Add_data nat "byte list"
  | Prepend_data nat "byte list"
  | Add_reference nat "byte list"
  | Add_buffer nat nat
  | Prepend_buffer nat nat
  | Remove_buffer nat nat nat
  | Drain nat nat
  | Remove nat nat
  | Copyout nat nat
  | Pullup nat int
  | Find nat "byte list"
  | Readln nat evbuffer_eol_style
  | Expand nat nat
  | Read_fd nat int "nat \<Rightarrow> byte list option" int
  | Write_fd nat "byte list \<Rightarrow> int" int
  | Freeze nat bool
  | Unfreeze nat bool
  | Get_length nat

datatype ev_result = Status int | Bytes "byte list option" | Counted int "byte list"

text \<open>A function of one buffer, in the store.\<close>

definition on_buffer ::
  "evbuffer list \<Rightarrow> nat \<Rightarrow> (evbuffer \<Rightarrow> ('a \<times> evbuffer) res) \<Rightarrow> ('a \<Rightarrow> ev_result)
    \<Rightarrow> (ev_result \<times> evbuffer list) res" where
  "on_buffer st i f out =
     (if i < length st then bindE (f (st ! i)) (\<lambda>(r, b). Inr (out r, st[i := b])) else Inl NullDeref)"

definition on_buffers ::
  "evbuffer list \<Rightarrow> nat \<Rightarrow> nat \<Rightarrow> (int \<times> evbuffer list) res \<Rightarrow> (ev_result \<times> evbuffer list) res" where
  "on_buffers st i j r =
     (if i < length st \<and> j < length st then bindE r (\<lambda>(r, st). Inr (Status r, st)) else Inl NullDeref)"

definition asked_for :: "int \<Rightarrow> nat \<Rightarrow> nat" where
  "asked_for n len = (if n < 0 then len else nat n)"

fun ev_exec :: "malloc \<Rightarrow> ev_call \<Rightarrow> evbuffer list \<Rightarrow> (ev_result \<times> evbuffer list) res" where
  "ev_exec m (Add_data i bs) st = on_buffer st i (\<lambda>b. evbuffer_add m b bs) Status"
| "ev_exec m (Prepend_data i bs) st = on_buffer st i (\<lambda>b. evbuffer_prepend m b bs) Status"
| "ev_exec m (Add_reference i bs) st = on_buffer st i (\<lambda>b. evbuffer_add_reference m b bs) Status"
| "ev_exec m (Add_buffer j i) st = on_buffers st i j (evbuffer_add_buffer m st j i)"
| "ev_exec m (Prepend_buffer j i) st = on_buffers st i j (evbuffer_prepend_buffer m st j i)"
| "ev_exec m (Remove_buffer i j n) st = on_buffers st i j (evbuffer_remove_buffer m st i j n)"
| "ev_exec m (Drain i n) st = on_buffer st i (\<lambda>b. evbuffer_drain b n) Status"
| "ev_exec m (Remove i n) st =
     on_buffer st i (\<lambda>b. bindE (evbuffer_remove b n) (\<lambda>(r, bs, b). Inr ((r, bs), b)))
       (\<lambda>(r, bs). Counted r bs)"
| "ev_exec m (Copyout i n) st =
     on_buffer st i (\<lambda>b. bindE (evbuffer_copyout b n) (\<lambda>r. Inr (r, b))) (\<lambda>(r, bs). Counted r bs)"
| "ev_exec m (Pullup i n) st =
     on_buffer st i (\<lambda>b. bindE (evbuffer_pullup m b n) (\<lambda>(r, b').
       Inr (map_option (take (asked_for n (total_len b))) r, b'))) Bytes"
| "ev_exec m (Find i what) st =
     on_buffer st i (\<lambda>b. evbuffer_find m b what) (\<lambda>r. Bytes (map_option (take (length what)) r))"
| "ev_exec m (Readln i style) st = on_buffer st i (\<lambda>b. evbuffer_readln m b style) Bytes"
| "ev_exec m (Expand i n) st = on_buffer st i (\<lambda>b. evbuffer_expand m b n) Status"
| "ev_exec m (Read_fd i avail readv n) st =
     on_buffer st i (\<lambda>b. evbuffer_read m avail readv b n) Status"
| "ev_exec m (Write_fd i writev n) st =
     on_buffer st i (\<lambda>b. evbuffer_write_atmost writev b n) Status"
| "ev_exec m (Freeze i start) st = on_buffer st i (\<lambda>b. Inr (0, evbuffer_freeze b start)) Status"
| "ev_exec m (Unfreeze i start) st = on_buffer st i (\<lambda>b. Inr (0, evbuffer_unfreeze b start)) Status"
| "ev_exec m (Get_length i) st =
     on_buffer st i (\<lambda>b. Inr (int (evbuffer_get_length b), b)) Status"

text \<open>The calls that are legal on a store of \<open>n\<close> buffers, and how many bytes they add at most.\<close>

fun legal_call :: "nat \<Rightarrow> ev_call \<Rightarrow> bool" where
  "legal_call n (Add_data i bs) \<longleftrightarrow> i < n"
| "legal_call n (Prepend_data i bs) \<longleftrightarrow> i < n"
| "legal_call n (Add_reference i bs) \<longleftrightarrow> i < n \<and> length bs \<le> CHAIN_MAX - CHAIN_SIZE"
| "legal_call n (Add_buffer j i) \<longleftrightarrow> i < n \<and> j < n"
| "legal_call n (Prepend_buffer j i) \<longleftrightarrow> i < n \<and> j < n"
| "legal_call n (Remove_buffer i j k) \<longleftrightarrow> i < n \<and> j < n"
| "legal_call n (Drain i k) \<longleftrightarrow> i < n"
| "legal_call n (Remove i k) \<longleftrightarrow> i < n"
| "legal_call n (Copyout i k) \<longleftrightarrow> i < n"
| "legal_call n (Pullup i k) \<longleftrightarrow> i < n"
| "legal_call n (Find i what) \<longleftrightarrow> i < n \<and> length what < 2 ^ 63"
| "legal_call n (Readln i style) \<longleftrightarrow> i < n"
| "legal_call n (Expand i k) \<longleftrightarrow> i < n"
| "legal_call n (Read_fd i avail readv k) \<longleftrightarrow> i < n \<and> readv_fits readv \<and> k \<noteq> 0"
| "legal_call n (Write_fd i writev k) \<longleftrightarrow> i < n \<and> writev_fits writev"
| "legal_call n (Freeze i start) \<longleftrightarrow> i < n"
| "legal_call n (Unfreeze i start) \<longleftrightarrow> i < n"
| "legal_call n (Get_length i) \<longleftrightarrow> i < n"

fun call_cost :: "ev_call \<Rightarrow> nat" where
  "call_cost (Add_data i bs) = length bs"
| "call_cost (Prepend_data i bs) = length bs"
| "call_cost (Add_reference i bs) = length bs"
| "call_cost (Read_fd i avail readv k) = 4096"
| "call_cost _ = 0"

section \<open>What the calls promise\<close>

text \<open>A buffer as its client sees it: its bytes, and whether its start and its end are frozen.\<close>

type_synonym ev_view = "evbuf \<times> bool \<times> bool"

definition view :: "evbuffer \<Rightarrow> ev_view" where
  "view b = (bytes_of b, freeze_start b, freeze_end b)"

definition vbytes :: "ev_view list \<Rightarrow> nat \<Rightarrow> evbuf" where
  "vbytes vs i = fst (vs ! i)"

definition starts_frozen :: "ev_view list \<Rightarrow> nat \<Rightarrow> bool" where
  "starts_frozen vs i = fst (snd (vs ! i))"

definition ends_frozen :: "ev_view list \<Rightarrow> nat \<Rightarrow> bool" where
  "ends_frozen vs i = snd (snd (vs ! i))"

definition set_bytes :: "nat \<Rightarrow> evbuf \<Rightarrow> ev_view list \<Rightarrow> ev_view list" where
  "set_bytes i bs vs = vs[i := (bs, snd (vs ! i))]"

text \<open>
  The results allowed when memory does not run out. Only what goes to a descriptor is not
  determined: of the bytes asked for, as many as the chains offered hold.
\<close>

fun ev_allowed :: "ev_call \<Rightarrow> ev_view list \<Rightarrow> ev_result \<Rightarrow> ev_view list \<Rightarrow> bool" where
  "ev_allowed (Add_data i bs) vs r vs' \<longleftrightarrow>
     (if ends_frozen vs i then (r, vs') = (Status (-1), vs)
      else (r, vs') = (Status 0, set_bytes i (ev_add (vbytes vs i) bs) vs))"
| "ev_allowed (Prepend_data i bs) vs r vs' \<longleftrightarrow>
     (if bs \<noteq> [] \<and> starts_frozen vs i then (r, vs') = (Status (-1), vs)
      else (r, vs') = (Status 0, set_bytes i (bs @ vbytes vs i) vs))"
| "ev_allowed (Add_reference i bs) vs r vs' \<longleftrightarrow>
     (if ends_frozen vs i then (r, vs') = (Status (-1), vs)
      else (r, vs') = (Status 0, set_bytes i (ev_add (vbytes vs i) bs) vs))"
| "ev_allowed (Add_buffer j i) vs r vs' \<longleftrightarrow>
     (if vbytes vs i = [] \<or> j = i then (r, vs') = (Status 0, vs)
      else if ends_frozen vs j \<or> starts_frozen vs i then (r, vs') = (Status (-1), vs)
      else (r, vs') = (Status 0, set_bytes j (vbytes vs j @ vbytes vs i) (set_bytes i [] vs)))"
| "ev_allowed (Prepend_buffer j i) vs r vs' \<longleftrightarrow>
     (if vbytes vs i = [] \<or> j = i then (r, vs') = (Status 0, vs)
      else if starts_frozen vs j \<or> starts_frozen vs i then (r, vs') = (Status (-1), vs)
      else (r, vs') = (Status 0, set_bytes j (vbytes vs i @ vbytes vs j) (set_bytes i [] vs)))"
| "ev_allowed (Remove_buffer i j n) vs r vs' \<longleftrightarrow>
     (if n = 0 \<or> j = i then (r, vs') = (Status 0, vs)
      else if ends_frozen vs j \<or> starts_frozen vs i then (r, vs') = (Status (-1), vs)
      else (r, vs') = (Status (as_int (int (min n (length (vbytes vs i))))),
        set_bytes i (drop n (vbytes vs i)) (set_bytes j (vbytes vs j @ take n (vbytes vs i)) vs)))"
| "ev_allowed (Drain i n) vs r vs' \<longleftrightarrow>
     (if vbytes vs i = [] then (r, vs') = (Status 0, vs)
      else if starts_frozen vs i then (r, vs') = (Status (-1), vs)
      else (r, vs') = (Status 0, set_bytes i (ev_drain n (vbytes vs i)) vs))"
| "ev_allowed (Remove i n) vs r vs' \<longleftrightarrow>
     (if vbytes vs i = [] \<or> n = 0 then (r, vs') = (Counted 0 [], vs)
      else if starts_frozen vs i then (r, vs') = (Counted (-1) [], vs)
      else let (bs, rest) = ev_remove n (vbytes vs i) in
        (r, vs') = (Counted (as_int (int (length bs))) bs, set_bytes i rest vs))"
| "ev_allowed (Copyout i n) vs r vs' \<longleftrightarrow>
     (if vbytes vs i = [] \<or> n = 0 then (r, vs') = (Counted 0 [], vs)
      else if starts_frozen vs i then (r, vs') = (Counted (-1) [], vs)
      else (r, vs') = (Counted (int (min n (length (vbytes vs i)))) (take n (vbytes vs i)), vs))"
| "ev_allowed (Pullup i n) vs r vs' \<longleftrightarrow> (r, vs') = (Bytes (ev_pullup n (vbytes vs i)), vs)"
| "ev_allowed (Find i what) vs r vs' \<longleftrightarrow>
     (r, vs') = (Bytes (if what = [] \<or> find_sub what (vbytes vs i) = None then None else Some what), vs)"
| "ev_allowed (Readln i style) vs r vs' \<longleftrightarrow>
     (case eol_at style (vbytes vs i) of
        None \<Rightarrow> (r, vs') = (Bytes None, vs)
      | Some (k, d) \<Rightarrow>
          if starts_frozen vs i then (r, vs') = (Bytes None, vs)
          else (r, vs') = (Bytes (Some (take k (vbytes vs i))), set_bytes i (drop (k + d) (vbytes vs i)) vs))"
| "ev_allowed (Expand i n) vs r vs' \<longleftrightarrow>
     vs' = vs \<and> (r = Status 0 \<or> r = Status (-1) \<and> n + MAX_TO_COPY_IN_EXPAND > CHAIN_MAX - CHAIN_SIZE)"
| "ev_allowed (Read_fd i avail readv n) vs r vs' \<longleftrightarrow>
     (if ends_frozen vs i then (r, vs') = (Status (-1), vs)
      else case readv (asked avail n) of
        None \<Rightarrow> (r, vs') = (Status (-1), vs)
      | Some bs \<Rightarrow> (r, vs') = (Status (int (length bs)), set_bytes i (vbytes vs i @ bs) vs))"
| "ev_allowed (Write_fd i writev n) vs r vs' \<longleftrightarrow>
     (if starts_frozen vs i \<or> vbytes vs i = [] \<or> n = 0 then (r, vs') = (Status (-1), vs)
      else \<exists>j \<le> length (vbytes vs i). (0 \<le> n \<longrightarrow> int j \<le> n)
        \<and> (r, vs') = (Status (writev (take j (vbytes vs i))),
             set_bytes i (drop (nat (writev (take j (vbytes vs i)))) (vbytes vs i)) vs))"
| "ev_allowed (Freeze i start) vs r vs' \<longleftrightarrow>
     (r, vs') = (Status 0, vs[i := (vbytes vs i, start \<or> starts_frozen vs i, \<not> start \<or> ends_frozen vs i)])"
| "ev_allowed (Unfreeze i start) vs r vs' \<longleftrightarrow>
     (r, vs') = (Status 0, vs[i := (vbytes vs i, \<not> start \<and> starts_frozen vs i, start \<and> ends_frozen vs i)])"
| "ev_allowed (Get_length i) vs r vs' \<longleftrightarrow> (r, vs') = (Status (int (length (vbytes vs i))), vs)"

end
