(* ===== verification/Evbuf_Step.thy ===== *)
theory Evbuf_Step
  imports Evbuf_Script
begin

text \<open>
  Every call keeps the buffers in order, never leaves defined behaviour, and does what it
  promises as long as memory does not run out.
\<close>

section \<open>The store\<close>

definition bytes_held :: "evbuffer list \<Rightarrow> nat" where
  "bytes_held st = sum_list (map (\<lambda>b. length (bytes_of b)) st)"

definition memory_ok :: "malloc \<Rightarrow> bool" where
  "memory_ok m \<longleftrightarrow> malloc_sized m \<and> (\<forall>n. m n \<noteq> None)"

lemma memory_okD:
  assumes "memory_ok m"
  shows "malloc_sized m" "\<not> alloc_fails m" "m n \<noteq> None"
proof -
  have m: "m k \<noteq> None" for k
    using assms unfolding memory_ok_def by blast
  then show "m n \<noteq> None" "malloc_sized m"
    using assms unfolding memory_ok_def by blast+
  have "evbuffer_chain_new m k \<noteq> None" if "k \<le> CHAIN_MAX - CHAIN_SIZE" for k
    using that m [of "grow MIN_BUFFER_SIZE (k + CHAIN_SIZE)"] m [of "k + CHAIN_SIZE"]
    by (auto simp: evbuffer_chain_new_def Let_def)
  then show "\<not> alloc_fails m"
    unfolding alloc_fails_def by blast
qed

lemma held_sum: "bytes_held st = (\<Sum>k<length st. length (bytes_of (st ! k)))"
  by (simp add: bytes_held_def sum_list_sum_nth lessThan_atLeast0)

lemma length_le_held: "i < length st \<Longrightarrow> length (bytes_of (st ! i)) \<le> bytes_held st"
  unfolding held_sum by (rule member_le_sum) auto

lemma held_two:
  assumes "i < length st" "j < length st" "i \<noteq> j"
  shows "length (bytes_of (st ! i)) + length (bytes_of (st ! j)) \<le> bytes_held st"
proof -
  have "(\<Sum>k\<in>{i, j}. length (bytes_of (st ! k))) \<le> bytes_held st"
    unfolding held_sum by (rule sum_mono2) (use assms in auto)
  then show ?thesis
    using assms(3) by simp
qed

lemma held_update:
  assumes "i < length st"
  shows "bytes_held (st[i := b]) = bytes_held st + length (bytes_of b) - length (bytes_of (st ! i))"
  using assms by (simp add: bytes_held_def map_update sum_list_update)

section \<open>Views\<close>

lemma view_nth [simp]:
  assumes "i < length st"
  shows "vbytes (map view st) i = bytes_of (st ! i)"
    "starts_frozen (map view st) i = freeze_start (st ! i)"
    "ends_frozen (map view st) i = freeze_end (st ! i)"
  using assms by (simp_all add: vbytes_def starts_frozen_def ends_frozen_def view_def)

lemma view_becomes:
  "i < length st \<Longrightarrow> becomes (st ! i) bs b \<Longrightarrow> map view (st[i := b]) = set_bytes i bs (map view st)"
  by (simp add: map_update set_bytes_def becomes_def view_def)

lemma set_bytes_same [simp]:
  "i < length st \<Longrightarrow> bytes_of (st ! i) = bs \<Longrightarrow> set_bytes i bs (map view st) = map view st"
  by (auto simp: set_bytes_def view_def list_update_same_conv)

section \<open>What a call does\<close>

definition step_ok :: "malloc \<Rightarrow> ev_call \<Rightarrow> evbuffer list \<Rightarrow> bool" where
  "step_ok m op st \<longleftrightarrow> (\<exists>r st'. ev_exec m op st = Inr (r, st') \<and> st_inv st' \<and> length st' = length st
     \<and> bytes_held st' \<le> bytes_held st + call_cost op
     \<and> (memory_ok m \<and> bytes_held st + call_cost op \<le> CHAIN_MAX - CHAIN_SIZE
          \<longrightarrow> ev_allowed op (map view st) r (map view st')))"

lemma step_one:
  assumes "ev_exec m op st = on_buffer st i f out" "st_inv st" "i < length st"
    and "f (st ! i) = Inr (r, b)" "becomes (st ! i) bs b"
    and "length bs \<le> length (bytes_of (st ! i)) + call_cost op"
    and "memory_ok m \<Longrightarrow> bytes_held st + call_cost op \<le> CHAIN_MAX - CHAIN_SIZE \<Longrightarrow>
      ev_allowed op (map view st) (out r) (set_bytes i bs (map view st))"
  shows "step_ok m op st"
proof -
  have "ev_exec m op st = Inr (out r, st[i := b])"
    using assms(1,3,4) by (simp add: on_buffer_def)
  moreover have "st_inv (st[i := b])"
    using assms(2,5) by (auto simp: st_inv_def becomes_def dest: set_update_subset_insert [THEN subsetD])
  moreover have "bytes_held (st[i := b]) \<le> bytes_held st + call_cost op"
    using assms(3,5,6) length_le_held [OF assms(3)]
    by (simp add: held_update becomes_def)
  ultimately show ?thesis
    using assms(7) view_becomes [OF assms(3,5)] unfolding step_ok_def by auto
qed

lemma view_freeze:
  "view (evbuffer_freeze b s) = (bytes_of b, s \<or> freeze_start b, \<not> s \<or> freeze_end b)"
  "view (evbuffer_unfreeze b s) = (bytes_of b, \<not> s \<and> freeze_start b, s \<and> freeze_end b)"
  "ev_inv b \<Longrightarrow> ev_inv (evbuffer_freeze b s)" "ev_inv b \<Longrightarrow> ev_inv (evbuffer_unfreeze b s)"
  by (auto simp: view_def evbuffer_freeze_def evbuffer_unfreeze_def ev_inv_def bytes_of_def)

section \<open>The calls on one buffer\<close>

text \<open>What the bound of the calls gives for one buffer.\<close>

lemma bound_one:
  assumes "i < length st" "bytes_held st + n < 2 ^ 64"
  shows "length (bytes_of (st ! i)) + n < 2 ^ 64"
  using assms length_le_held [OF assms(1)] by linarith

lemma chain_max_less: "CHAIN_MAX - CHAIN_SIZE < 2 ^ 64"
  by (simp add: CHAIN_MAX_def CHAIN_SIZE_def)

lemma add_cases:
  assumes "malloc_sized m" "ev_inv b"
  obtains r b' where "evbuffer_add m b data = Inr (r, b')"
    "becomes b (if r = 0 then bytes_of b @ data else bytes_of b) b'"
    "r = 0 \<and> \<not> freeze_end b \<or> r = -1 \<and> (freeze_end b \<or> length data > CHAIN_MAX - CHAIN_SIZE \<or> alloc_fails m
          \<or> length (bytes_of b) + length data \<ge> 2 ^ 64)"
proof -
  obtain r b' where "evbuffer_add m b data = Inr (r, b')" "add_spec m b data (r, b')"
    using add_ok [OF assms, of data] by auto
  with that [of r b'] show thesis
    using ev_to_becomes [OF assms(2)] by (auto simp: add_spec_def)
qed

lemma step_add:
  assumes "malloc_sized m" "st_inv st" "i < length st"
  shows "step_ok m (Add_data i data) st"
proof -
  note b = st_inv_nth [OF assms(2,3)]
  obtain r b' where r: "evbuffer_add m (st ! i) data = Inr (r, b')"
    "becomes (st ! i) (if r = 0 then bytes_of (st ! i) @ data else bytes_of (st ! i)) b'"
    "r = 0 \<and> \<not> freeze_end (st ! i) \<or> r = -1 \<and> (freeze_end (st ! i)
       \<or> length data > CHAIN_MAX - CHAIN_SIZE \<or> alloc_fails m
       \<or> length (bytes_of (st ! i)) + length data \<ge> 2 ^ 64)"
    using add_cases [OF assms(1) b] by blast
  show ?thesis
  proof (rule step_one [OF ev_exec.simps(1) assms(2,3) r(1,2)])
    assume "memory_ok m" "bytes_held st + call_cost (Add_data i data) \<le> CHAIN_MAX - CHAIN_SIZE"
    then have "\<not> alloc_fails m" "length data \<le> CHAIN_MAX - CHAIN_SIZE"
      "length (bytes_of (st ! i)) + length data < 2 ^ 64"
      using memory_okD(2) bound_one [OF assms(3), of "length data"] chain_max_less by auto
    then show "ev_allowed (Add_data i data) (map view st) (Status r)
        (set_bytes i (if r = 0 then bytes_of (st ! i) @ data else bytes_of (st ! i)) (map view st))"
      using r(3) assms(3) by (auto simp: ev_add_def)
  qed simp
qed

lemma step_prepend:
  assumes "malloc_sized m" "st_inv st" "i < length st"
  shows "step_ok m (Prepend_data i data) st"
proof (cases "data = []")
  case True
  show ?thesis
    by (rule step_one [OF ev_exec.simps(2) assms(2,3) _ becomes_refl [OF st_inv_nth [OF assms(2,3)]]])
      (use True assms(3) in \<open>simp_all add: evbuffer_prepend_def\<close>)
next
  case False
  note b = st_inv_nth [OF assms(2,3)]
  obtain r b' where r: "evbuffer_prepend m (st ! i) data = Inr (r, b')" "prepend_spec m (st ! i) data (r, b')"
    using prepend_ok [OF assms(1) b, of data] by auto
  have "\<exists>k \<le> length data. becomes (st ! i) (drop k data @ bytes_of (st ! i)) b'
    \<and> (r = 0 \<and> k = 0 \<and> \<not> freeze_start (st ! i)
       \<or> r = -1 \<and> k = length data \<and> freeze_start (st ! i)
       \<or> r = -1 \<and> (length data > CHAIN_MAX - CHAIN_SIZE \<or> alloc_fails m
           \<or> length (bytes_of (st ! i)) + length data \<ge> 2 ^ 64))"
    using r(2) False ev_to_becomes [OF b] becomes_refl [OF b] unfolding prepend_spec_def
    by (auto intro: exI [of _ "length data"] exI [of _ "0::nat"])
  then obtain k where k: "k \<le> length data" "becomes (st ! i) (drop k data @ bytes_of (st ! i)) b'"
    "r = 0 \<and> k = 0 \<and> \<not> freeze_start (st ! i)
       \<or> r = -1 \<and> k = length data \<and> freeze_start (st ! i)
       \<or> r = -1 \<and> (length data > CHAIN_MAX - CHAIN_SIZE \<or> alloc_fails m
           \<or> length (bytes_of (st ! i)) + length data \<ge> 2 ^ 64)"
    by blast
  show ?thesis
  proof (rule step_one [OF ev_exec.simps(2) assms(2,3) r(1) k(2)])
    assume "memory_ok m" "bytes_held st + call_cost (Prepend_data i data) \<le> CHAIN_MAX - CHAIN_SIZE"
    then have "\<not> alloc_fails m" "length data \<le> CHAIN_MAX - CHAIN_SIZE"
      "length (bytes_of (st ! i)) + length data < 2 ^ 64"
      using memory_okD(2) bound_one [OF assms(3), of "length data"] chain_max_less by auto
    then show "ev_allowed (Prepend_data i data) (map view st) (Status r)
        (set_bytes i (drop k data @ bytes_of (st ! i)) (map view st))"
      using k(3) assms(3) False by auto
  qed simp
qed

lemma step_reference:
  assumes "malloc_sized m" "st_inv st" "i < length st"
    and "length data \<le> CHAIN_MAX - CHAIN_SIZE" "bytes_held st + length data < 2 ^ 64"
  shows "step_ok m (Add_reference i data) st"
proof -
  note b = st_inv_nth [OF assms(2,3)]
  obtain r b' where r: "evbuffer_add_reference m (st ! i) data = Inr (r, b')"
    "r = 0 \<and> \<not> freeze_end (st ! i) \<and> becomes (st ! i) (bytes_of (st ! i) @ data) b'
       \<or> r = -1 \<and> b' = st ! i \<and> (freeze_end (st ! i) \<or> alloc_fails m)"
    using add_reference_ok [OF assms(1) b assms(4) bound_one [OF assms(3,5)]] by blast
  then have bc: "becomes (st ! i) (if r = 0 then bytes_of (st ! i) @ data else bytes_of (st ! i)) b'"
    using becomes_refl [OF b] by auto
  show ?thesis
    by (rule step_one [OF ev_exec.simps(3) assms(2,3) r(1) bc])
      (use r(2) assms(3) memory_okD(2) in \<open>auto simp: ev_add_def\<close>)
qed

lemma step_drain:
  assumes "st_inv st" "i < length st"
  shows "step_ok m (Drain i n) st"
proof -
  note b = st_inv_nth [OF assms]
  obtain r b' where r: "evbuffer_drain (st ! i) n = Inr (r, b')" "drain_spec (st ! i) n (r, b')"
    using drain_ok [OF b, of n] by auto
  have bc: "becomes (st ! i) (if r = 0 then drop n (bytes_of (st ! i)) else bytes_of (st ! i)) b'"
    using r(2) ev_to_becomes [OF b] becomes_refl [OF b] by (auto simp: drain_spec_def)
  show ?thesis
    by (rule step_one [OF ev_exec.simps(7) assms r(1) bc])
      (use r(2) assms(2) in \<open>auto simp: drain_spec_def ev_drain_def\<close>)
qed

lemma step_remove:
  assumes "st_inv st" "i < length st"
  shows "step_ok m (Remove i n) st"
proof -
  note b = st_inv_nth [OF assms]
  obtain r bs b' where r: "evbuffer_remove (st ! i) n = Inr (r, bs, b')" and sp:
    "if bytes_of (st ! i) = [] \<or> n = 0 then r = 0 \<and> bs = [] \<and> b' = st ! i
     else if freeze_start (st ! i) then r = -1 \<and> bs = [] \<and> b' = st ! i
     else bs = take n (bytes_of (st ! i)) \<and> r = as_int (int (length bs))
        \<and> (\<exists>b''. ev_to (st ! i) 0 (length bs) (drop n (bytes_of (st ! i))) b''
               \<and> b' = evbuffer_invoke_callbacks b'')"
    using remove_ok [OF b, of n] by blast
  have bc: "becomes (st ! i) (if freeze_start (st ! i) then bytes_of (st ! i)
      else drop n (bytes_of (st ! i))) b'"
    using sp ev_to_becomes(2) [OF b] becomes_refl [OF b] by (auto split: if_splits)
  have f: "bindE (evbuffer_remove (st ! i) n) (\<lambda>(r, bs, b). Inr ((r, bs), b)) = Inr ((r, bs), b')"
    by (simp add: r)
  show ?thesis
    by (rule step_one [OF ev_exec.simps(8) assms f bc])
      (use sp assms(2) in \<open>auto simp: ev_remove_def split: if_splits\<close>)
qed

lemma step_copyout:
  assumes "st_inv st" "i < length st"
  shows "step_ok m (Copyout i n) st"
proof -
  note b = st_inv_nth [OF assms]
  have f: "bindE (evbuffer_copyout (st ! i) n) (\<lambda>r. Inr (r, st ! i))
      = Inr (if bytes_of (st ! i) = [] \<or> n = 0 then (0, [])
         else if freeze_start (st ! i) then (-1, [])
         else (int (min n (length (bytes_of (st ! i)))), take n (bytes_of (st ! i))), st ! i)"
    by (simp add: evbuffer_copyout_def copyout_ok [OF b])
  show ?thesis
    by (rule step_one [OF ev_exec.simps(9) assms f becomes_refl [OF b]]) (use assms(2) in auto)
qed

lemma step_pullup:
  assumes "malloc_sized m" "st_inv st" "i < length st"
  shows "step_ok m (Pullup i n) st"
proof -
  note b = st_inv_nth [OF assms(2,3)]
  obtain p b' where r: "evbuffer_pullup m (st ! i) n = Inr (p, b')" "pullup_spec m (st ! i) n (p, b')"
    using pullup_ok [OF assms(1) b, of n] by auto
  then have bc: "becomes (st ! i) (bytes_of (st ! i)) b'"
    by (auto simp: pullup_spec_def intro: ev_to_becomes(1) [OF b])
  let ?k = "asked_for n (total_len (st ! i))"
  have f: "bindE (evbuffer_pullup m (st ! i) n) (\<lambda>(r, b'). Inr (map_option (take ?k) r, b'))
      = Inr (map_option (take ?k) p, b')"
    by (simp add: r(1))
  show ?thesis
  proof (rule step_one [OF ev_exec.simps(10) assms(2,3) f bc])
    assume mo: "memory_ok m" and le: "bytes_held st + call_cost (Pullup i n) \<le> CHAIN_MAX - CHAIN_SIZE"
    have "total_len (st ! i) = length (bytes_of (st ! i))"
      using b by (simp add: ev_inv_def)
    then have ks: "ev_pullup n (bytes_of (st ! i))
        = (if ?k = 0 \<or> ?k > length (bytes_of (st ! i)) then None else Some (take ?k (bytes_of (st ! i))))"
      by (simp add: ev_pullup_eq asked_for_def)
    have "map_option (take ?k) p = ev_pullup n (bytes_of (st ! i))"
    proof (cases "ev_pullup n (bytes_of (st ! i))")
      case None
      then show ?thesis
        using r(2) by (simp add: pullup_spec_def)
    next
      case (Some bs)
      then have bs: "bs = take ?k (bytes_of (st ! i))" "length bs = ?k"
        using ks by (auto split: if_splits)
      have "length bs \<le> length (bytes_of (st ! i))"
        using bs by (metis length_take min.cobounded1)
      then have "length bs \<le> CHAIN_MAX - CHAIN_SIZE"
        using le length_le_held [OF assms(3)] by simp
      then show ?thesis
        using r(2) Some bs(2) memory_okD(2) [OF mo] by (auto simp: pullup_spec_def split: option.splits)
    qed
    then show "ev_allowed (Pullup i n) (map view st) (Bytes (map_option (take ?k) p))
        (set_bytes i (bytes_of (st ! i)) (map view st))"
      using assms(3) by simp
  qed simp
qed

lemma step_find:
  assumes "malloc_sized m" "st_inv st" "i < length st" "length what < 2 ^ 63"
  shows "step_ok m (Find i what) st"
proof (cases "what = []")
  case True
  note b = st_inv_nth [OF assms(2,3)]
  have "evbuffer_find m (st ! i) what = Inr (None, st ! i)"
    using True by (simp add: evbuffer_find_def evbuffer_search_def evbuffer_search_range_def Let_def
        ptr_first_def evbuffer_pullup_def)
  then show ?thesis
    by (rule step_one [OF ev_exec.simps(11) assms(2,3) _ becomes_refl [OF b]])
      (use True assms(3) in simp_all)
next
  case False
  note b = st_inv_nth [OF assms(2,3)]
  obtain r b' where r: "evbuffer_find m (st ! i) what = Inr (r, b')" "becomes (st ! i) (bytes_of (st ! i)) b'"
    "case find_sub what (bytes_of (st ! i)) of None \<Rightarrow> r = None
     | Some j \<Rightarrow> (case r of
           None \<Rightarrow> j + length what > CHAIN_MAX - CHAIN_SIZE \<or> alloc_fails m
         | Some ds \<Rightarrow> take (length what) ds = what)"
    using find_ok [OF assms(1) b False assms(4)] by blast
  show ?thesis
  proof (rule step_one [OF ev_exec.simps(11) assms(2,3) r(1,2)])
    assume mo: "memory_ok m" and le: "bytes_held st + call_cost (Find i what) \<le> CHAIN_MAX - CHAIN_SIZE"
    show "ev_allowed (Find i what) (map view st) (Bytes (map_option (take (length what)) r))
        (set_bytes i (bytes_of (st ! i)) (map view st))"
    proof (cases "find_sub what (bytes_of (st ! i))")
      case None
      then show ?thesis
        using r(3) assms(3) by simp
    next
      case (Some j)
      then have "take (length what) (drop j (bytes_of (st ! i))) = what"
        unfolding find_sub_Some by blast
      then have "length what \<le> length (drop j (bytes_of (st ! i)))"
        by (metis length_take min.cobounded1)
      then have "j + length what \<le> CHAIN_MAX - CHAIN_SIZE"
        using le length_le_held [OF assms(3)] False by (cases what) simp_all
      then obtain ds where "r = Some ds" "take (length what) ds = what"
        using r(3) Some memory_okD(2) [OF mo] by (cases r) simp_all
      then show ?thesis
        using assms(3) False Some by simp
    qed
  qed simp
qed

lemma step_readln:
  assumes "st_inv st" "i < length st"
  shows "step_ok m (Readln i style) st"
proof -
  note b = st_inv_nth [OF assms]
  obtain r b' where r: "evbuffer_readln m (st ! i) style = Inr (r, b')" and sp:
    "case eol_at style (bytes_of (st ! i)) of
       None \<Rightarrow> r = None \<and> b' = st ! i
     | Some (k, d) \<Rightarrow>
         if freeze_start (st ! i) \<or> m (k + 1) = None then r = None \<and> b' = st ! i
         else r = Some (take k (bytes_of (st ! i))) \<and> becomes (st ! i) (drop (k + d) (bytes_of (st ! i))) b'"
    using readln_ok [OF b, of m style] by blast
  obtain n where n: "becomes (st ! i) (drop n (bytes_of (st ! i))) b'"
    "r \<noteq> None \<Longrightarrow> \<exists>k d. eol_at style (bytes_of (st ! i)) = Some (k, d) \<and> n = k + d"
    "r = None \<Longrightarrow> n = 0"
  proof (cases r)
    case None
    then have "b' = st ! i"
      using sp by (auto split: option.splits if_splits)
    then show thesis
      using that [of 0] None becomes_refl [OF b] by simp
  next
    case (Some l)
    then obtain k d where "eol_at style (bytes_of (st ! i)) = Some (k, d)"
      "becomes (st ! i) (drop (k + d) (bytes_of (st ! i))) b'"
      using sp by (auto split: option.splits if_splits)
    then show thesis
      using that [of "k + d"] Some by simp
  qed
  show ?thesis
    by (rule step_one [OF ev_exec.simps(12) assms r n(1)])
      (use sp n(2,3) assms(2) memory_okD(3) in \<open>auto split: option.splits if_splits\<close>)
qed

lemma step_expand:
  assumes "malloc_sized m" "st_inv st" "i < length st"
  shows "step_ok m (Expand i n) st"
proof -
  note b = st_inv_nth [OF assms(2,3)]
  obtain k b' where r: "evbuffer_expand_singlechain m (st ! i) n = Inr (k, b')"
    "ev_to (st ! i) 0 0 (bytes_of (st ! i)) b'"
    "k = None \<longrightarrow> alloc_fails m \<or> n + MAX_TO_COPY_IN_EXPAND > CHAIN_MAX - CHAIN_SIZE"
    using singlechain_ok [OF assms(1) b, of n] by (auto split: option.splits)
  have f: "evbuffer_expand m (st ! i) n = Inr (if k = None then -1 else 0, b')"
    by (simp add: evbuffer_expand_def r(1))
  show ?thesis
    by (rule step_one [OF ev_exec.simps(13) assms(2,3) f ev_to_becomes(1) [OF b r(2)]])
      (use r(3) assms(3) memory_okD(2) in auto)
qed

lemma step_read:
  assumes "malloc_sized m" "st_inv st" "i < length st" "readv_fits readv" "n \<noteq> 0"
    and "bytes_held st + 4096 < 2 ^ 64"
  shows "step_ok m (Read_fd i avail readv n) st"
proof -
  note b = st_inv_nth [OF assms(2,3)]
  obtain r b' where r: "evbuffer_read m avail readv (st ! i) n = Inr (r, b')"
    "read_spec m avail readv (st ! i) n (r, b')"
    using read_ok [OF assms(1,4) b assms(5) bound_one [OF assms(3,6)], of avail] by auto
  consider (frozen) "freeze_end (st ! i)" "r = -1" "b' = st ! i"
    | (none) "\<not> freeze_end (st ! i)" "readv (asked avail n) = None" "r = -1"
        "becomes (st ! i) (bytes_of (st ! i)) b'"
    | (fail) bs where "\<not> freeze_end (st ! i)" "readv (asked avail n) = Some bs" "r = -1" "alloc_fails m"
        "becomes (st ! i) (bytes_of (st ! i)) b'"
    | (got) bs where "\<not> freeze_end (st ! i)" "readv (asked avail n) = Some bs" "r = int (length bs)"
        "becomes (st ! i) (bytes_of (st ! i) @ bs) b'"
    using r(2) by (auto simp: read_spec_def split: if_splits option.splits)
  then show ?thesis
  proof cases
    case got
    have "length bs \<le> 4096"
      using assms(4) got(2) asked_le [of avail n] by (fastforce simp: readv_fits_def)
    then show ?thesis
      by (intro step_one [OF ev_exec.simps(14) assms(2,3) r(1) got(4)]) (use got assms(3) in simp_all)
  next
    case frozen
    have bc: "becomes (st ! i) (bytes_of (st ! i)) b'"
      using becomes_refl [OF b] frozen(3) by simp
    then show ?thesis
      by (intro step_one [OF ev_exec.simps(14) assms(2,3) r(1) bc]) (use frozen assms(3) in simp_all)
  next
    case none
    then show ?thesis
      by (intro step_one [OF ev_exec.simps(14) assms(2,3) r(1) none(4)]) (use assms(3) in simp_all)
  next
    case fail
    then show ?thesis
      by (intro step_one [OF ev_exec.simps(14) assms(2,3) r(1) fail(5)]) (use memory_okD(2) in auto)
  qed
qed

lemma step_write:
  assumes "st_inv st" "i < length st" "writev_fits writev"
  shows "step_ok m (Write_fd i writev n) st"
proof -
  note b = st_inv_nth [OF assms(1,2)]
  obtain r b' where r: "evbuffer_write_atmost writev (st ! i) n = Inr (r, b')" "write_spec writev (st ! i) n (r, b')"
    using write_ok [OF assms(3) b, of n] by auto
  show ?thesis
  proof (cases "freeze_start (st ! i) \<or> bytes_of (st ! i) = [] \<or> n = 0")
    case True
    then have "r = -1" "b' = st ! i"
      using r(2) by (simp_all add: write_spec_def)
    moreover from this have bc: "becomes (st ! i) (bytes_of (st ! i)) b'"
      using becomes_refl [OF b] by simp
    ultimately show ?thesis
      by (intro step_one [OF ev_exec.simps(15) assms(1,2) r(1) bc]) (use True assms(2) in simp_all)
  next
    case False
    then obtain j where j: "r = writev (take j (bytes_of (st ! i)))" "0 \<le> n \<longrightarrow> int j \<le> n"
      "if r \<le> 0 then b' = st ! i else becomes (st ! i) (drop (nat r) (bytes_of (st ! i))) b'"
      using r(2) by (auto simp: write_spec_def)
    have bc: "becomes (st ! i) (drop (nat r) (bytes_of (st ! i))) b'"
      using j(3) becomes_refl [OF b] by (cases "r \<le> 0") simp_all
    show ?thesis
    proof (rule step_one [OF ev_exec.simps(15) assms(1,2) r(1) bc])
      define j' where "j' = min j (length (bytes_of (st ! i)))"
      have "j' \<le> length (bytes_of (st ! i))" "0 \<le> n \<longrightarrow> int j' \<le> n"
        "take j' (bytes_of (st ! i)) = take j (bytes_of (st ! i))"
        using j(2) by (auto simp: j'_def min_def)
      then show "ev_allowed (Write_fd i writev n) (map view st) (Status r)
          (set_bytes i (drop (nat r) (bytes_of (st ! i))) (map view st))"
        using False assms(2) j(1) by (auto intro!: exI [of _ j'])
    qed simp
  qed
qed

text \<open>Freezing and asking for the length.\<close>

lemma step_flags:
  assumes "st_inv st" "i < length st"
  shows "step_ok m (Freeze i start) st" "step_ok m (Unfreeze i start) st" "step_ok m (Get_length i) st"
proof -
  note b = st_inv_nth [OF assms]
  have st: "st_inv (st[i := b'])" if "ev_inv b'" for b'
    using assms(1) that by (auto simp: st_inv_def dest: set_update_subset_insert [THEN subsetD])
  have bs: "bytes_of (evbuffer_freeze b start) = bytes_of b" "bytes_of (evbuffer_unfreeze b start) = bytes_of b" for b
    by (simp_all add: evbuffer_freeze_def evbuffer_unfreeze_def bytes_of_def)
  show "step_ok m (Freeze i start) st" "step_ok m (Unfreeze i start) st"
    using assms(2) st view_freeze [of "st ! i" start] b length_le_held [OF assms(2)]
    by (simp_all add: step_ok_def on_buffer_def held_update bs map_update)
  have "evbuffer_get_length (st ! i) = length (bytes_of (st ! i))"
    using b by (simp add: evbuffer_get_length_def ev_inv_def)
  then show "step_ok m (Get_length i) st"
    using assms(2) assms(1) by (simp add: step_ok_def on_buffer_def)
qed

section \<open>The calls on two buffers\<close>

lemma step_same:
  assumes "ev_exec m op st = Inr (r, st)" "st_inv st" "ev_allowed op (map view st) r (map view st)"
  shows "step_ok m op st"
  using assms by (simp add: step_ok_def)

lemma step_two:
  assumes "ev_exec m op st = Inr (r, st[i := x, j := y])" "st_inv st" "i < length st" "j < length st" "i \<noteq> j"
    and "becomes (st ! i) bsi x" "becomes (st ! j) bsj y"
    and "length bsi + length bsj \<le> length (bytes_of (st ! i)) + length (bytes_of (st ! j))"
    and "memory_ok m \<Longrightarrow> bytes_held st \<le> CHAIN_MAX - CHAIN_SIZE \<Longrightarrow>
      ev_allowed op (map view st) r (set_bytes j bsj (set_bytes i bsi (map view st)))"
  shows "step_ok m op st"
proof -
  have "st_inv (st[i := x, j := y])"
    using assms(2,6,7) by (auto simp: st_inv_def becomes_def dest!: set_update_subset_insert [THEN subsetD])
  moreover have "bytes_held (st[i := x, j := y]) \<le> bytes_held st"
    using assms(3-8) held_two [OF assms(3-5)] by (simp add: held_update becomes_def)
  moreover have "map view (st[i := x, j := y]) = set_bytes j bsj (set_bytes i bsi (map view st))"
    using assms(3-7) by (simp add: map_update set_bytes_def becomes_def view_def)
  ultimately show ?thesis
    using assms(1,9) unfolding step_ok_def by auto
qed

lemma step_move:
  assumes "st_inv st" "i < length st" "j < length st" "bytes_held st < 2 ^ 64"
  shows "step_ok m (Add_buffer j i) st" "step_ok m (Prepend_buffer j i) st"
proof -
  have small: "length (bytes_of (st ! i)) + length (bytes_of (st ! j)) < 2 ^ 64" if "i \<noteq> j"
    using held_two [OF assms(2,3) that] assms(4) by linarith
  have go: "step_ok m op st"
    if ex: "ev_exec m op st = on_buffers st i j (Inr (r, st'))"
      and sp: "move_spec st j i fr bs (r, st')"
      and len: "length bs = length (bytes_of (st ! i)) + length (bytes_of (st ! j))"
      and al: "\<And>r vs'. ev_allowed op (map view st) r vs' \<longleftrightarrow>
        (if bytes_of (st ! i) = [] \<or> j = i then (r, vs') = (Status 0, map view st)
         else if fr then (r, vs') = (Status (-1), map view st)
         else (r, vs') = (Status 0, set_bytes j bs (set_bytes i [] (map view st))))"
    for op r st' fr bs
  proof -
    have ex: "ev_exec m op st = Inr (Status r, st')"
      using ex assms(2,3) by (simp add: on_buffers_def)
    show ?thesis
    proof (cases "(bytes_of (st ! i) = [] \<or> j = i) \<or> fr")
      case True
      then have "st' = st" "r = (if bytes_of (st ! i) = [] \<or> j = i then 0 else -1)"
        using sp by (auto simp: move_spec_def)
      then show ?thesis
        using True ex assms(1) by (intro step_same [of _ _ _ "Status r"]) (auto simp: al)
    next
      case False
      then obtain ob ib where r: "r = 0" "ev_to (st ! j) (length (bytes_of (st ! i))) 0 bs ob"
        "ev_to (st ! i) 0 (length (bytes_of (st ! i))) [] ib"
        "st' = st[i := evbuffer_invoke_callbacks ib, j := evbuffer_invoke_callbacks ob]"
        using sp by (auto simp: move_spec_def)
      have bc: "becomes (st ! i) [] (evbuffer_invoke_callbacks ib)"
        "becomes (st ! j) bs (evbuffer_invoke_callbacks ob)"
        using r(2,3) ev_to_becomes(2) st_inv_nth assms(1-3) by blast+
      show ?thesis
        by (rule step_two [OF ex [unfolded r(4)] assms(1-3) _ bc]) (use False r(1) len al in auto)
    qed
  qed
  have eq: "st_inv st" "i < length st" "j < length st"
    by fact+
  show "step_ok m (Add_buffer j i) st"
  proof (cases "i = j")
    case True
    then show ?thesis
      using assms by (intro step_same [of _ _ _ "Status 0"])
        (simp_all add: on_buffers_def evbuffer_add_buffer_def Let_def)
  next
    case False
    obtain r st' where r: "evbuffer_add_buffer m st j i = Inr (r, st')"
      "move_spec st j i (freeze_end (st ! j) \<or> freeze_start (st ! i)) (bytes_of (st ! j) @ bytes_of (st ! i)) (r, st')"
      using move_ok(1) [OF eq small [OF False], of m] by auto
    show ?thesis
      by (rule go [OF _ r(2)]) (use r(1) assms(2,3) in simp_all)
  qed
  show "step_ok m (Prepend_buffer j i) st"
  proof (cases "i = j")
    case True
    then show ?thesis
      using assms by (intro step_same [of _ _ _ "Status 0"])
        (simp_all add: on_buffers_def evbuffer_prepend_buffer_def Let_def)
  next
    case False
    obtain r st' where r: "evbuffer_prepend_buffer m st j i = Inr (r, st')"
      "move_spec st j i (freeze_start (st ! j) \<or> freeze_start (st ! i)) (bytes_of (st ! i) @ bytes_of (st ! j)) (r, st')"
      using move_ok(2) [OF eq small [OF False], of m] by auto
    show ?thesis
      by (rule go [OF _ r(2)]) (use r(1) assms(2,3) in simp_all)
  qed
qed

lemma step_remove_buffer:
  assumes "malloc_sized m" "st_inv st" "i < length st" "j < length st" "bytes_held st < 2 ^ 64"
  shows "step_ok m (Remove_buffer i j n) st"
proof (cases "i = j")
  case True
  then show ?thesis
    using assms by (intro step_same [of _ _ _ "Status 0"])
      (simp_all add: on_buffers_def evbuffer_remove_buffer_def Let_def)
next
  case False
  have small: "length (bytes_of (st ! i)) + length (bytes_of (st ! j)) < 2 ^ 64"
    using held_two [OF assms(3,4) False] assms(5) by linarith
  obtain r st' where r: "evbuffer_remove_buffer m st i j n = Inr (r, st')" "remove_spec m st i j n (r, st')"
    using remove_buffer_ok [OF assms(1-4) small, of n] by auto
  have ex: "ev_exec m (Remove_buffer i j n) st = Inr (Status r, st')"
    using r(1) assms(3,4) by (simp add: on_buffers_def)
  show ?thesis
  proof (cases "n = 0 \<or> freeze_end (st ! j) \<or> freeze_start (st ! i)")
    case True
    then have "st' = st" "r = (if n = 0 then 0 else -1)"
      using r(2) False by (auto simp: remove_spec_def)
    then show ?thesis
      using True ex assms(2-4) False by (intro step_same [of _ _ _ "Status r"]) auto
  next
    case nf: False
    then obtain db sb k where k: "r = as_int (int (min n (length (bytes_of (st ! i)))))"
      "st' = st[j := db, i := sb]" "becomes (st ! i) (drop n (bytes_of (st ! i))) sb"
      "becomes (st ! j) (bytes_of (st ! j) @ take k (bytes_of (st ! i))) db"
      "k \<le> n" "k = n \<or> length (bytes_of (st ! i)) > CHAIN_MAX - CHAIN_SIZE \<or> alloc_fails m"
      using r(2) False by (auto simp: remove_spec_def)
    have len: "length (bytes_of (st ! j) @ take k (bytes_of (st ! i))) + length (drop n (bytes_of (st ! i)))
        \<le> length (bytes_of (st ! j)) + length (bytes_of (st ! i))"
      using k(5) by auto
    show ?thesis
    proof (rule step_two [OF ex [unfolded k(2)] assms(2,4,3) False [symmetric] k(4,3) len])
      assume mo: "memory_ok m" "bytes_held st \<le> CHAIN_MAX - CHAIN_SIZE"
      then have "k = n"
        using k(6) memory_okD(2) [OF mo(1)] length_le_held [OF assms(3)] by auto
      then show "ev_allowed (Remove_buffer i j n) (map view st) (Status r) (set_bytes i (drop n (bytes_of (st ! i)))
          (set_bytes j (bytes_of (st ! j) @ take k (bytes_of (st ! i))) (map view st)))"
        using nf False assms(3,4) k(1) by simp
    qed
  qed
qed

section \<open>All calls\<close>

lemma step_all:
  assumes m: "malloc_sized m" and st: "st_inv st" and l: "legal_call (length st) op"
    and v: "bytes_held st + call_cost op < 2 ^ 64"
  shows "step_ok m op st"
  using l v by (cases op)
    (simp_all add: step_add [OF m st] step_prepend [OF m st] step_reference [OF m st] step_move [OF st]
      step_remove_buffer [OF m st] step_drain [OF st] step_remove [OF st] step_copyout [OF st]
      step_pullup [OF m st] step_find [OF m st] step_readln [OF st] step_expand [OF m st]
      step_read [OF m st] step_write [OF st] step_flags [OF st])

end
