(* ===== verification/Evbuf_Thms.thy ===== *)
theory Evbuf_Thms
  imports Evbuf_Step
begin

text \<open>
  Properties of libevent's buffers: the model of \<open>buffer.c\<close> is a machine whose calls stay within
  the 64-bit lengths, and it refines buffers that are byte sequences.
\<close>

section \<open>The buffers as a machine\<close>

interpretation ev: bounded_machine "ev_exec m" "\<lambda>st. malloc_sized m \<and> st_inv st \<and> length st = n"
  "legal_call n" bytes_held call_cost "2 ^ 64 - 1" for m n
proof unfold_locales
  show "\<exists>r t. ev_exec m op s = Inr (r, t) \<and> (malloc_sized m \<and> st_inv t \<and> length t = n)
      \<and> bytes_held t \<le> bytes_held s + call_cost op"
    if "malloc_sized m \<and> st_inv s \<and> length s = n" "legal_call n op"
      "bytes_held s + call_cost op \<le> 2 ^ 64 - 1" for s op
    using step_all [of m s op] that unfolding step_ok_def by auto
qed

interpretation evr: bounded_refinement "ev_exec m" "\<lambda>st. memory_ok m \<and> st_inv st \<and> length st = n"
  "legal_call n" bytes_held call_cost "CHAIN_MAX - CHAIN_SIZE" "map view" ev_allowed for m n
proof unfold_locales
  have step: "step_ok m op s" if "memory_ok m \<and> st_inv s \<and> length s = n" "legal_call n op"
      "bytes_held s + call_cost op \<le> CHAIN_MAX - CHAIN_SIZE" for s op
    using that step_all [of m s op] memory_okD(1) chain_max_less by simp
  show "\<exists>r t. ev_exec m op s = Inr (r, t) \<and> (memory_ok m \<and> st_inv t \<and> length t = n)
      \<and> bytes_held t \<le> bytes_held s + call_cost op"
    if "memory_ok m \<and> st_inv s \<and> length s = n" "legal_call n op"
      "bytes_held s + call_cost op \<le> CHAIN_MAX - CHAIN_SIZE" for s op
    using step [OF that] that unfolding step_ok_def by auto
  show "ev_allowed op (map view s) r (map view t)"
    if "memory_ok m \<and> st_inv s \<and> length s = n" "legal_call n op"
      "bytes_held s + call_cost op \<le> CHAIN_MAX - CHAIN_SIZE" "ev_exec m op s = Inr (r, t)" for s op r t
    using step [OF that(1-3)] that unfolding step_ok_def by auto
qed

text \<open>Programs start with new buffers.\<close>

definition new_buffers :: "nat \<Rightarrow> evbuffer list" where
  "new_buffers n = replicate n evbuffer_new"

definition ev_run :: "malloc \<Rightarrow> ev_call list \<Rightarrow> nat \<Rightarrow> (ev_result list \<times> evbuffer list) res" where
  "ev_run m ops n = run_calls (ev_exec m) ops (new_buffers n)"

lemma new_buffers_ok:
  "st_inv (new_buffers n)" "length (new_buffers n) = n" "bytes_held (new_buffers n) = 0"
  "map view (new_buffers n) = replicate n ([], False, False)"
proof -
  have "ev_inv evbuffer_new" "bytes_of evbuffer_new = []"
    by (simp_all add: evbuffer_new_def ev_inv_def layout_def lwd_ok_def bytes_of_def)
  then show "st_inv (new_buffers n)" "bytes_held (new_buffers n) = 0"
    "map view (new_buffers n) = replicate n ([], False, False)"
    by (auto simp: new_buffers_def st_inv_def bytes_held_def sum_list_replicate view_def map_replicate
        evbuffer_new_def)
qed (simp add: new_buffers_def)

section \<open>Safety and refinement\<close>



text \<open>C35: While memory is available the buffers are byte sequences: every program over them gives
  the results that the operations on byte sequences give, and leaves the buffers with the bytes
  that those leave, in total at most the largest chain. Frozen ends refuse exactly the calls
  that would change them.
\<close>

theorem evbuf_refines:
  assumes "memory_ok m" "\<forall>op\<in>set ops. legal_call n op"
    "sum_list (map call_cost ops) \<le> CHAIN_MAX - CHAIN_SIZE"
  shows "\<exists>rs st. ev_run m ops n = Inr (rs, st)
    \<and> spec_run ev_allowed ops (replicate n ([], False, False)) rs (map view st)"
  using evr.run_refines [of m "new_buffers n" n ops] assms new_buffers_ok [of n]
  by (fastforce simp: ev_run_def)

theorem evbuf_refines_witness:
  "\<exists>st. ev_run (\<lambda>k. Some (replicate k 0))
     [Add_data 0 [1, 2, 10, 3], Prepend_data 1 [7], Add_buffer 1 0, Readln 1 EOL_LF, Remove 1 5] 2
     = Inr ([Status 0, Status 0, Status 0, Bytes (Some [7, 1, 2]), Counted 1 [3]], st)
   \<and> map view st = [([], False, False), ([], False, False)]"
proof -
  let ?ops = "[Add_data 0 [1, 2, 10, 3], Prepend_data 1 [7], Add_buffer 1 0, Readln 1 EOL_LF, Remove 1 5]"
  have m: "memory_ok (\<lambda>k. Some (replicate k 0))"
    by (auto simp: memory_ok_def malloc_sized_def)
  have l: "\<forall>op\<in>set ?ops. legal_call 2 op"
    by simp
  have c: "sum_list (map call_cost ?ops) \<le> CHAIN_MAX - CHAIN_SIZE"
    by (simp add: CHAIN_MAX_def CHAIN_SIZE_def)
  obtain rs st where r: "ev_run (\<lambda>k. Some (replicate k 0)) ?ops 2 = Inr (rs, st)"
    and sp: "spec_run ev_allowed ?ops (replicate 2 ([], False, False)) rs (map view st)"
    using evbuf_refines [OF m l c] by blast
  have one: "as_int 1 = 1"
    using as_int_of_nat [of 1] by simp
  have two: "replicate 2 v = [v, v]" for v :: ev_view
    by (simp add: numeral_2_eq_2)
  have res: "rs = [Status 0, Status 0, Status 0, Bytes (Some [7, 1, 2]), Counted 1 [3]]"
    "map view st = [([], False, False), ([], False, False)]"
    using sp unfolding two
    by (simp_all add: vbytes_def ends_frozen_def starts_frozen_def set_bytes_def ev_add_def
        ev_remove_def LF_def one)
  show ?thesis
    by (rule exI, rule conjI, rule r [unfolded res(1)], rule res(2))
qed

section \<open>Reading lines\<close>

text \<open>Lines with the terminators that \<open>EVBUFFER_EOL_CRLF\<close> accepts.\<close>

definition line_end :: "bool \<Rightarrow> byte list" where
  "line_end cr = (if cr then [CR, LF] else [LF])"

definition text_of :: "(byte list \<times> bool) list \<Rightarrow> byte list" where
  "text_of ls = concat (map (\<lambda>(l, cr). l @ line_end cr) ls)"

definition is_line :: "byte list \<Rightarrow> bool" where
  "is_line l \<longleftrightarrow> LF \<notin> set l \<and> (l = [] \<or> last l \<noteq> CR)"

lemma first_idx_skip:
  "\<forall>x\<in>set xs. \<not> P x \<Longrightarrow> first_idx P (xs @ ys) = map_option ((+) (length xs)) (first_idx P ys)"
  by (induction xs) (cases "first_idx P ys", auto)+

lemma eol_at_line:
  assumes "is_line l"
  shows "eol_at EOL_CRLF (l @ line_end cr @ rest) = Some (length l, length (line_end cr))"
proof -
  have CRLF: "CR \<noteq> LF"
    by (simp add: CR_def LF_def)
  have "\<forall>x\<in>set l. \<not> x = LF"
    using assms by (auto simp: is_line_def)
  then have "first_idx (\<lambda>x. x = LF) (l @ line_end cr @ rest) = Some (length l + (if cr then 1 else 0))"
    using CRLF by (simp add: first_idx_skip line_end_def)
  moreover have "(l @ line_end cr @ rest) ! (length l - 1) \<noteq> CR" if "l \<noteq> []"
    using assms that by (simp add: is_line_def nth_append last_conv_nth)
  ultimately show ?thesis
    using CRLF by (auto simp: line_end_def nth_append)
qed

lemma eol_at_none: "LF \<notin> set l \<Longrightarrow> eol_at EOL_CRLF l = None"
  by (auto simp: first_idx_None)

text \<open>What the specification says of the calls of such a program.\<close>

lemma spec_run_append:
  "spec_run p (xs @ ys) a rs b \<longleftrightarrow> (\<exists>us vs c. rs = us @ vs \<and> spec_run p xs a us c \<and> spec_run p ys c vs b)"
proof (induction xs arbitrary: a rs)
  case (Cons x xs)
  show ?case
  proof
    assume "spec_run p ((x # xs) @ ys) a rs b"
    then obtain r c rs' where "rs = r # rs'" "p x a r c" "spec_run p (xs @ ys) c rs' b"
      by auto
    moreover from this obtain us vs d where "rs' = us @ vs" "spec_run p xs c us d" "spec_run p ys d vs b"
      using Cons.IH by blast
    ultimately show "\<exists>us vs c. rs = us @ vs \<and> spec_run p (x # xs) a us c \<and> spec_run p ys c vs b"
      using exI [of "\<lambda>us. \<exists>vs c. rs = us @ vs \<and> spec_run p (x # xs) a us c \<and> spec_run p ys c vs b" "r # us"]
      by auto
  next
    assume "\<exists>us vs c. rs = us @ vs \<and> spec_run p (x # xs) a us c \<and> spec_run p ys c vs b"
    then obtain us vs c r d us' where "rs = us @ vs" "us = r # us'" "p x a r d" "spec_run p xs d us' c"
      "spec_run p ys c vs b"
      by auto
    moreover from this have "spec_run p (xs @ ys) d (us' @ vs) b"
      using Cons.IH by blast
    ultimately show "spec_run p ((x # xs) @ ys) a rs b"
      by auto
  qed
qed simp

lemma spec_adds:
  "spec_run ev_allowed (map (Add_data 0) chunks) [(bs, False, False)] rs vs \<Longrightarrow>
    rs = replicate (length chunks) (Status 0) \<and> vs = [(bs @ concat chunks, False, False)]"
proof (induction chunks arbitrary: bs rs)
  case (Cons c chunks)
  then obtain rs' where "rs = Status 0 # rs'"
    "spec_run ev_allowed (map (Add_data 0) chunks) [(bs @ c, False, False)] rs' vs"
    by (auto simp: vbytes_def ends_frozen_def set_bytes_def ev_add_def)
  then show ?case
    using Cons.IH [of "bs @ c" rs'] by simp
qed simp

lemma spec_lines:
  "\<forall>(l, cr)\<in>set ls. is_line l \<Longrightarrow>
   spec_run ev_allowed (map (\<lambda>_. Readln 0 EOL_CRLF) ls) [(text_of ls @ tail, False, False)] rs vs \<Longrightarrow>
    rs = map (\<lambda>(l, cr). Bytes (Some l)) ls \<and> vs = [(tail, False, False)]"
proof (induction ls arbitrary: rs)
  case Nil
  then show ?case
    by (simp add: text_of_def)
next
  case (Cons a ls)
  obtain l cr where a: "a = (l, cr)"
    by fastforce
  have t: "text_of (a # ls) @ tail = l @ line_end cr @ text_of ls @ tail"
    by (simp add: text_of_def a)
  have e: "eol_at EOL_CRLF (l @ line_end cr @ text_of ls @ tail) = Some (length l, length (line_end cr))"
    by (rule eol_at_line) (use Cons.prems(1) a in auto)
  obtain rs' where "rs = Bytes (Some l) # rs'"
    "spec_run ev_allowed (map (\<lambda>_. Readln 0 EOL_CRLF) ls) [(text_of ls @ tail, False, False)] rs' vs"
    using Cons.prems(2) unfolding t
    by (auto simp: vbytes_def starts_frozen_def set_bytes_def e simp del: eol_at.simps)
  then show ?case
    using Cons.IH Cons.prems(1) a by simp
qed

text \<open>C36: A text of lines arrives in pieces of any sizes, cut anywhere, even between CR and LF: once
  it is all in the buffer, \<open>evbuffer_readln\<close> in the style \<open>EVBUFFER_EOL_CRLF\<close> gives exactly its
  lines, in order and without their terminators, then NULL; an unfinished line stays in the
  buffer.
\<close>

theorem evbuf_lines:
  assumes "memory_ok m" "concat chunks = text_of ls @ tail" "\<forall>(l, cr)\<in>set ls. is_line l" "LF \<notin> set tail"
    "length (concat chunks) \<le> CHAIN_MAX - CHAIN_SIZE"
  shows "\<exists>b. ev_run m (map (Add_data 0) chunks @ map (\<lambda>_. Readln 0 EOL_CRLF) ls @ [Readln 0 EOL_CRLF]) 1
      = Inr (replicate (length chunks) (Status 0) @ map (\<lambda>(l, cr). Bytes (Some l)) ls @ [Bytes None], [b])
    \<and> bytes_of b = tail"
proof -
  let ?ops = "map (Add_data 0) chunks @ map (\<lambda>_. Readln 0 EOL_CRLF) ls @ [Readln 0 EOL_CRLF]"
  have "sum_list (map call_cost ?ops) = length (concat chunks)"
    by (simp add: length_concat comp_def sum_list_0)
  moreover have "\<forall>op\<in>set ?ops. legal_call 1 op"
    by auto
  ultimately obtain rs st where r: "ev_run m ?ops 1 = Inr (rs, st)"
    and sp: "spec_run ev_allowed ?ops [([], False, False)] rs (map view st)"
    using evr.run_refines [of m "new_buffers 1" 1 ?ops] assms(1,5) new_buffers_ok [of 1]
    unfolding ev_run_def by (metis add_0 replicate_Suc replicate_0 One_nat_def)
  from sp obtain us vs ws where "rs = us @ vs @ ws" "us = replicate (length chunks) (Status 0)"
    "vs = map (\<lambda>(l, cr). Bytes (Some l)) ls"
    "spec_run ev_allowed [Readln 0 EOL_CRLF] [(tail, False, False)] ws (map view st)"
    unfolding spec_run_append using spec_adds [of chunks "[]"] spec_lines [OF assms(3)] assms(2)
    by (metis append_Nil)
  then have "rs = replicate (length chunks) (Status 0) @ map (\<lambda>(l, cr). Bytes (Some l)) ls @ [Bytes None]"
    "map view st = [(tail, False, False)]"
    using eol_at_none [OF assms(4)] by (auto simp: vbytes_def simp del: eol_at.simps)
  then show ?thesis
    using r by (auto simp: view_def)
qed

theorem evbuf_lines_witness:
  "\<exists>b. ev_run (\<lambda>k. Some (replicate k 0))
     [Add_data 0 [65, 13], Add_data 0 [10, 66], Add_data 0 [10, 67],
      Readln 0 EOL_CRLF, Readln 0 EOL_CRLF, Readln 0 EOL_CRLF] 1
   = Inr ([Status 0, Status 0, Status 0, Bytes (Some [65]), Bytes (Some [66]), Bytes None], [b])
   \<and> bytes_of b = [67]"
proof -
  let ?cs = "[[65, 13], [10, 66], [10, 67]] :: byte list list"
  let ?ls = "[([65], True), ([66], False)] :: (byte list \<times> bool) list"
  have m: "memory_ok (\<lambda>k. Some (replicate k 0))"
    by (auto simp: memory_ok_def malloc_sized_def)
  have t: "concat ?cs = text_of ?ls @ [67]"
    by (simp add: text_of_def line_end_def CR_def LF_def)
  have l: "\<forall>(l, cr)\<in>set ?ls. is_line l" "LF \<notin> set [67]"
    by (simp_all add: is_line_def CR_def LF_def)
  have c: "length (concat ?cs) \<le> CHAIN_MAX - CHAIN_SIZE"
    by (simp add: CHAIN_MAX_def CHAIN_SIZE_def)
  show ?thesis
    using evbuf_lines [OF m t l c] by (simp add: numeral_3_eq_3)
qed

section \<open>Searching\<close>

text \<open>C37: Searching does not depend on how the bytes lie in the chains: from any position of a buffer
  \<open>evbuffer_search\<close> finds the first occurrence of a string, also across chains, and
  \<open>evbuffer_search_eol\<close> the first line end of each style, exactly as a naive search of the byte
  sequence does; the search for CR or LF in steps of 128 bytes is part of it.
\<close>

theorem evbuf_search_naive:
  assumes "ev_inv b" "ptr_in b q n" "what \<noteq> []" "length what < 2 ^ 63"
  shows "\<exists>q' it len. evbuffer_search b what (Some q) = Inr q'
    \<and> (case find_sub what (drop n (bytes_of b)) of None \<Rightarrow> q' = PTR_NOT_FOUND
       | Some j \<Rightarrow> ptr_in b q' (n + j))
    \<and> evbuffer_search_eol b (Some q) style = Inr (it, len)
    \<and> (case eol_at style (drop n (bytes_of b)) of None \<Rightarrow> it = PTR_NOT_FOUND \<and> len = 0
       | Some (i, d) \<Rightarrow> ptr_in b it (n + i) \<and> len = d)"
  using search_ok [OF assms(1,3,4,2)] search_eol_ok [OF assms(1,2)] by blast

definition two_chains :: evbuffer where
  "two_chains = evbuffer_new\<lparr>chains :=
     [\<lparr>buffer_len = 3, misalign = 1, off = 2, flags = 0, mem = [0, 65, 13]\<rparr>,
      \<lparr>buffer_len = 4, misalign = 0, off = 3, flags = 0, mem = [10, 66, 10, 0]\<rparr>],
     last_at := 2, last_with_datap := 1, total_len := 5\<rparr>"

theorem evbuf_search_naive_witness:
  "\<exists>q it. evbuffer_search two_chains [13, 10] (Some (ptr_first two_chains)) = Inr q \<and> pos q = 1
    \<and> evbuffer_search_eol two_chains (Some (ptr_first two_chains)) EOL_ANY = Inr (it, 2) \<and> pos it = 1"
proof -
  have b: "ev_inv two_chains" and ch: "chains two_chains \<noteq> []"
    and bs: "bytes_of two_chains = [65, 13, 10, 66, 10]"
    by (simp_all add: two_chains_def evbuffer_new_def ev_inv_def layout_def lwd_ok_def bytes_of_def datas_def
        chain_data_def chain_ok_def CHAIN_MAX_def CHAIN_SIZE_def CHAIN_PINNED_def IMMUTABLE_def)
  have f: "find_sub [13, 10] (drop 0 (bytes_of two_chains)) = Some 1"
    "eol_at EOL_ANY (drop 0 (bytes_of two_chains)) = Some (1, 2)"
    by (simp_all add: bs CR_def LF_def)
  have w: "[13, 10] \<noteq> ([] :: byte list)" "length ([13, 10] :: byte list) < 2 ^ 63"
    by simp_all
  obtain q it len where q: "evbuffer_search two_chains [13, 10] (Some (ptr_first two_chains)) = Inr q"
    "case find_sub [13, 10] (drop 0 (bytes_of two_chains)) of None \<Rightarrow> q = PTR_NOT_FOUND
     | Some j \<Rightarrow> ptr_in two_chains q (0 + j)"
    "evbuffer_search_eol two_chains (Some (ptr_first two_chains)) EOL_ANY = Inr (it, len)"
    "case eol_at EOL_ANY (drop 0 (bytes_of two_chains)) of None \<Rightarrow> it = PTR_NOT_FOUND \<and> len = 0
     | Some (i, d) \<Rightarrow> ptr_in two_chains it (0 + i) \<and> len = d"
    using evbuf_search_naive [OF b ptr_first_in [OF b ch] w, of EOL_ANY] by blast
  have "ptr_in two_chains q 1" "ptr_in two_chains it 1" "len = 2"
    using q(2,4) unfolding f by simp_all
  then show ?thesis
    using q(1,3) by (auto dest: ptr_in_pos)
qed

end
