(* ===== verification/Token_Bucket.thy ===== *)
theory Token_Bucket
  imports OS_Prelude
begin

text \<open>
  The token buckets of \<open>bufferevent_ratelim.c\<close>: a limit for reading and one for writing, refilled
  at every tick up to a maximum. \<open>ev_token_bucket_update_\<close> avoids the overflow of the obvious
  computation; below it is shown to compute the same.
\<close>

section \<open>Token buckets\<close>

text \<open>
  A limit is an \<open>ev_ssize_t\<close>: an integer, converted from \<open>size_t\<close> by \<open>as_ssize\<close>. Subtracting from
  one that has become too small would leave the type, which C leaves undefined.
\<close>

definition as_ssize :: "int \<Rightarrow> int" where
  "as_ssize n = sint (word_of_int n :: u64)"

record ev_token_bucket =
  read_limit :: int
  write_limit :: int
  last_updated :: u32

record ev_token_bucket_cfg =
  read_rate :: nat
  read_maximum :: nat
  write_rate :: nat
  write_maximum :: nat
  msec_per_tick :: u32

definition ev_token_bucket_init ::
  "ev_token_bucket \<Rightarrow> ev_token_bucket_cfg \<Rightarrow> u32 \<Rightarrow> bool \<Rightarrow> ev_token_bucket" where
  "ev_token_bucket_init k c current_tick reinitialize =
    (if reinitialize
     then k\<lparr>read_limit := (if read_limit k > int (read_maximum c) then int (read_maximum c) else read_limit k),
            write_limit := (if write_limit k > int (write_maximum c) then int (write_maximum c)
                            else write_limit k)\<rparr>
     else \<lparr>read_limit = as_ssize (int (read_rate c)), write_limit = as_ssize (int (write_rate c)),
            last_updated = current_tick\<rparr>)"

text \<open>A limit after some ticks. The difference and the sum are computed in \<open>size_t\<close>.\<close>

definition refill :: "int \<Rightarrow> nat \<Rightarrow> nat \<Rightarrow> nat \<Rightarrow> int" where
  "refill limit maximum rate n_ticks =
    (if nat ((int maximum - limit) mod 2 ^ 64) div n_ticks < rate then as_ssize (int maximum)
     else as_ssize (limit + int (n_ticks * rate)))"

definition ev_token_bucket_update ::
  "ev_token_bucket \<Rightarrow> ev_token_bucket_cfg \<Rightarrow> u32 \<Rightarrow> int \<times> ev_token_bucket" where
  "ev_token_bucket_update k c current_tick =
    (let n_ticks = unat (current_tick - last_updated k) in
     if n_ticks = 0 \<or> n_ticks > 2 ^ 31 - 1 then (0, k)
     else (1, \<lparr>read_limit = refill (read_limit k) (read_maximum c) (read_rate c) n_ticks,
               write_limit = refill (write_limit k) (write_maximum c) (write_rate c) n_ticks,
               last_updated = current_tick\<rparr>))"

text \<open>The time is given in seconds and microseconds.\<close>

definition ev_token_bucket_get_tick :: "int \<times> int \<Rightarrow> ev_token_bucket_cfg \<Rightarrow> u32 res" where
  "ev_token_bucket_get_tick tv c =
    (if msec_per_tick c = 0 then Inl DivByZero
     else let msec = word_of_int (fst tv * 1000 + snd tv div 1000) :: u64 in
          Inr (ucast (msec div ucast (msec_per_tick c))))"

definition EV_RATE_LIMIT_MAX :: nat where "EV_RATE_LIMIT_MAX = 2 ^ 63 - 1"
definition COMMON_TIMEOUT_MICROSECONDS_MASK :: u64 where "COMMON_TIMEOUT_MICROSECONDS_MASK = 0x000fffff"

definition ev_token_bucket_cfg_new ::
  "bool \<Rightarrow> nat \<Rightarrow> nat \<Rightarrow> nat \<Rightarrow> nat \<Rightarrow> (int \<times> int) option \<Rightarrow> ev_token_bucket_cfg option" where
  "ev_token_bucket_cfg_new alloc r_rate r_burst w_rate w_burst tick_len =
    (let tick_len = (case tick_len of None \<Rightarrow> (1, 0) | Some g \<Rightarrow> g) in
     if r_rate > r_burst \<or> w_rate > w_burst \<or> r_rate < 1 \<or> w_rate < 1 then None
     else if r_rate > EV_RATE_LIMIT_MAX \<or> w_rate > EV_RATE_LIMIT_MAX \<or>
             r_burst > EV_RATE_LIMIT_MAX \<or> w_burst > EV_RATE_LIMIT_MAX then None
     else if \<not> alloc then None
     else Some \<lparr>read_rate = r_rate, read_maximum = r_burst, write_rate = w_rate,
                write_maximum = w_burst,
                msec_per_tick = word_of_int (fst tick_len * 1000) +
                  ucast ((word_of_int (snd tick_len) AND COMMON_TIMEOUT_MICROSECONDS_MASK) div 1000)\<rparr>)"


section \<open>The obvious computation\<close>

lemma as_ssize_id: "- (2 ^ 63) \<le> n \<Longrightarrow> n < 2 ^ 63 \<Longrightarrow> as_ssize n = n"
  by (simp add: as_ssize_def sint_sbintrunc' signed_take_bit_int_eq_self)

definition bucket_range :: "int \<Rightarrow> nat \<Rightarrow> bool" where
  "bucket_range limit maximum \<longleftrightarrow> - (2 ^ 63) \<le> limit \<and> limit \<le> int maximum \<and> maximum < 2 ^ 63"

lemma refill_naive:
  assumes "bucket_range limit maximum" "0 < n"
  shows "refill limit maximum rate n = min (int maximum) (limit + int (n * rate))"
proof -
  have r: "0 \<le> int maximum - limit" "int maximum - limit < 2 ^ 64" "- (2 ^ 63) \<le> limit" "int maximum < 2 ^ 63"
    using assms(1) by (auto simp: bucket_range_def)
  define d where "d = nat (int maximum - limit)"
  have d: "int d = int maximum - limit"
    using r(1) by (simp add: d_def)
  have m: "nat ((int maximum - limit) mod 2 ^ 64) = d"
    using r(1,2) by (simp add: d_def)
  have c: "d div n < rate \<longleftrightarrow> d < n * rate"
    using assms(2) by (simp add: div_less_iff_less_mult mult.commute)
  have e: "refill limit maximum rate n =
      (if d < n * rate then as_ssize (int maximum) else as_ssize (limit + int (n * rate)))"
    unfolding refill_def m c ..
  show ?thesis
  proof (cases "d < n * rate")
    case True
    then have "int maximum < limit + int (n * rate)"
      using d by linarith
    then show ?thesis
      using r True by (simp add: e as_ssize_id min_def del: of_nat_mult)
  next
    case False
    then have le: "limit + int (n * rate) \<le> int maximum"
      using d by linarith
    then have "as_ssize (limit + int (n * rate)) = limit + int (n * rate)"
      using r by (intro as_ssize_id) linarith+
    then show ?thesis
      using False le by (simp add: e min_def del: of_nat_mult)
  qed
qed

lemma refill_range:
  assumes "bucket_range limit maximum" "0 < n"
  shows "bucket_range (refill limit maximum rate n) maximum" "limit \<le> refill limit maximum rate n"
  using assms by (auto simp: refill_naive bucket_range_def min_def simp del: of_nat_mult)

definition ticks :: "ev_token_bucket \<Rightarrow> u32 \<Rightarrow> nat" where
  "ticks k now = (let n = unat (now - last_updated k) in if n > 2 ^ 31 - 1 then 0 else n)"

text \<open>A bucket that its configuration can have filled.\<close>

definition bucket_ok :: "ev_token_bucket_cfg \<Rightarrow> ev_token_bucket \<Rightarrow> bool" where
  "bucket_ok c k \<longleftrightarrow> bucket_range (read_limit k) (read_maximum c) \<and> bucket_range (write_limit k) (write_maximum c)"

lemma update_ok:
  assumes "bucket_ok c k"
  shows "bucket_ok c (snd (ev_token_bucket_update k c tick))"
    "read_limit k \<le> read_limit (snd (ev_token_bucket_update k c tick))"
    "write_limit k \<le> write_limit (snd (ev_token_bucket_update k c tick))"
  using assms refill_range by (auto simp: ev_token_bucket_update_def bucket_ok_def Let_def)



section \<open>The rate\<close>

text \<open>
  A bucket in use: ticks pass, and bytes are read, as many as \<open>bufferevent_get_rlim_max_\<close> allows.
\<close>

datatype bucket_op = Tick u32 | Take int

fun bucket_step :: "ev_token_bucket_cfg \<Rightarrow> bucket_op \<Rightarrow> ev_token_bucket \<Rightarrow> ev_token_bucket" where
  "bucket_step c (Tick t) k = snd (ev_token_bucket_update k c t)"
| "bucket_step c (Take n) k = k\<lparr>read_limit := read_limit k - n\<rparr>"

fun takes_ok :: "ev_token_bucket_cfg \<Rightarrow> bucket_op list \<Rightarrow> ev_token_bucket \<Rightarrow> bool" where
  "takes_ok c [] k \<longleftrightarrow> True"
| "takes_ok c (x # xs) k \<longleftrightarrow>
    (case x of Tick t \<Rightarrow> True | Take n \<Rightarrow> 0 \<le> n \<and> n \<le> max 0 (read_limit k)) \<and> takes_ok c xs (bucket_step c x k)"

fun bytes_taken :: "bucket_op list \<Rightarrow> int" where
  "bytes_taken [] = 0"
| "bytes_taken (Tick t # xs) = bytes_taken xs"
| "bytes_taken (Take n # xs) = n + bytes_taken xs"

fun ticks_passed :: "ev_token_bucket_cfg \<Rightarrow> bucket_op list \<Rightarrow> ev_token_bucket \<Rightarrow> nat" where
  "ticks_passed c [] k = 0"
| "ticks_passed c (x # xs) k = (case x of Tick t \<Rightarrow> ticks k t | Take n \<Rightarrow> 0) + ticks_passed c xs (bucket_step c x k)"

lemma tick_limit:
  assumes "bucket_ok c k"
  shows "read_limit (snd (ev_token_bucket_update k c t)) \<le> read_limit k + int (ticks k t * read_rate c)"
proof -
  have "min (int (read_maximum c)) (read_limit k + int (ticks k t * read_rate c)) \<le> read_limit k + int (ticks k t * read_rate c)"
    by simp
  then show ?thesis
    using assms
    by (simp add: ev_token_bucket_update_def ticks_def bucket_ok_def refill_naive Let_def del: of_nat_mult)
qed

lemma taken_bound:
  "bucket_ok c k \<Longrightarrow> takes_ok c xs k \<Longrightarrow>
    bytes_taken xs \<le> max 0 (read_limit k) + int (ticks_passed c xs k * read_rate c)"
proof (induction xs arbitrary: k)
  case (Cons x xs)
  have "bucket_ok c (bucket_step c x k)"
  proof (cases x)
    case (Tick t)
    then show ?thesis
      using update_ok(1) [OF Cons.prems(1)] by simp
  next
    case (Take n)
    then show ?thesis
      using Cons.prems by (auto simp: bucket_ok_def bucket_range_def)
  qed
  then have IH: "bytes_taken xs \<le> max 0 (read_limit (bucket_step c x k))
      + int (ticks_passed c xs (bucket_step c x k) * read_rate c)"
    using Cons.IH Cons.prems(2) by simp
  show ?case
  proof (cases x)
    case (Tick t)
    have "max 0 (read_limit (bucket_step c x k)) \<le> max 0 (read_limit k) + int (ticks k t * read_rate c)"
      using tick_limit [OF Cons.prems(1), of t] of_nat_0_le_iff [of "ticks k t * read_rate c"]
      unfolding Tick bucket_step.simps by linarith
    moreover have "int (ticks_passed c (x # xs) k * read_rate c)
        = int (ticks k t * read_rate c) + int (ticks_passed c xs (bucket_step c x k) * read_rate c)"
      by (simp add: Tick add_mult_distrib)
    ultimately show ?thesis
      using IH unfolding Tick bytes_taken.simps by linarith
  next
    case (Take n)
    then show ?thesis
      using IH Cons.prems(2) by auto
  qed
qed simp



end
