(* ===== verification/Bufferevent.thy ===== *)
theory Bufferevent
  imports Evbuf_Script Token_Bucket
begin

text \<open>
  Bufferevents on sockets: \<open>bufferevent.c\<close>, \<open>bufferevent_sock.c\<close> and the rate limits of a single
  bufferevent in \<open>bufferevent_ratelim.c\<close>. A bufferevent has an input and an output buffer, and two
  events in the event base that are pending or not. The callbacks that a bufferevent puts on its
  buffers are run here, on the calls that the buffer has recorded; they do not touch the buffers.
  Locks, rate limit groups and connecting by name are left out.
\<close>

section \<open>The structure\<close>

definition EV_READ :: u16 where "EV_READ = 0x02"
definition EV_WRITE :: u16 where "EV_WRITE = 0x04"

definition BEV_EVENT_READING :: u16 where "BEV_EVENT_READING = 0x01"
definition BEV_EVENT_WRITING :: u16 where "BEV_EVENT_WRITING = 0x02"
definition BEV_EVENT_EOF :: u16 where "BEV_EVENT_EOF = 0x10"
definition BEV_EVENT_ERROR :: u16 where "BEV_EVENT_ERROR = 0x20"
definition BEV_EVENT_TIMEOUT :: u16 where "BEV_EVENT_TIMEOUT = 0x40"
definition BEV_EVENT_CONNECTED :: u16 where "BEV_EVENT_CONNECTED = 0x80"

definition BEV_SUSPEND_WM :: u16 where "BEV_SUSPEND_WM = 0x01"
definition BEV_SUSPEND_BW :: u16 where "BEV_SUSPEND_BW = 0x02"

definition BEV_OPT_CLOSE_ON_FREE :: u32 where "BEV_OPT_CLOSE_ON_FREE = 1"
definition BEV_OPT_DEFER_CALLBACKS :: u32 where "BEV_OPT_DEFER_CALLBACKS = 4"
definition BEV_OPT_UNLOCK_CALLBACKS :: u32 where "BEV_OPT_UNLOCK_CALLBACKS = 8"
definition BEV_TRIG_IGNORE_WATERMARKS :: u32 where "BEV_TRIG_IGNORE_WATERMARKS = 0x10000"

definition MAX_SINGLE_READ_DEFAULT :: int where "MAX_SINGLE_READ_DEFAULT = 16384"
definition MAX_SINGLE_WRITE_DEFAULT :: int where "MAX_SINGLE_WRITE_DEFAULT = 16384"

text \<open>The rate limit of one bufferevent; \<open>refill_pending\<close>: its refill event is pending.\<close>

record bufferevent_rate_limit =
  rl_limit :: ev_token_bucket
  rl_cfg :: "ev_token_bucket_cfg option"
  refill_pending :: bool

text \<open>
  \<open>ev_read\<close> and \<open>ev_write\<close> say whether the events are pending; \<open>finalizing\<close> that the last reference is
  gone, \<open>freed\<close> that \<open>bufferevent_finalize_cb_\<close> has run.
\<close>

record bufferevent =
  bev_input :: evbuffer
  bev_output :: evbuffer
  readcb :: bool
  writecb :: bool
  errorcb :: bool
  enabled :: u16
  read_suspended :: u16
  write_suspended :: u16
  ev_read :: bool
  ev_write :: bool
  wm_read_low :: nat
  wm_read_high :: nat
  wm_write_low :: nat
  wm_write_high :: nat
  read_watermarks_cb :: bool
  readcb_pending :: bool
  writecb_pending :: bool
  eventcb_pending :: u16
  deferred_scheduled :: bool
  connecting :: bool
  connection_refused :: bool
  bev_options :: u32
  bev_refcnt :: nat
  finalizing :: bool
  freed :: bool
  fd_closed :: bool
  max_single_read :: int
  max_single_write :: int
  rate_limiting :: "bufferevent_rate_limit option"

text \<open>
  What the environment gives: whether \<open>event_add\<close> succeeds, memory for the chains of buffers,
  whether the small structures are allocated, the time.
\<close>

record bev_env =
  adds :: bool
  mem_env :: malloc
  small_allocs :: bool
  now :: "int \<times> int"

section \<open>Events, suspension, enabling\<close>

definition be_socket_enable :: "bool \<Rightarrow> bufferevent \<Rightarrow> u16 \<Rightarrow> int \<times> bufferevent" where
  "be_socket_enable can b ev =
    (if ev AND EV_READ \<noteq> 0 \<and> \<not> can then (-1, b)
     else
       let b = (if ev AND EV_READ \<noteq> 0 then b\<lparr>ev_read := True\<rparr> else b) in
       if ev AND EV_WRITE \<noteq> 0 \<and> \<not> can then (-1, b)
       else (0, if ev AND EV_WRITE \<noteq> 0 then b\<lparr>ev_write := True\<rparr> else b))"

definition be_socket_disable :: "bufferevent \<Rightarrow> u16 \<Rightarrow> int \<times> bufferevent" where
  "be_socket_disable b ev =
    (let b = (if ev AND EV_READ \<noteq> 0 then b\<lparr>ev_read := False\<rparr> else b) in
     (0, if ev AND EV_WRITE \<noteq> 0 \<and> \<not> connecting b then b\<lparr>ev_write := False\<rparr> else b))"

definition bufferevent_suspend_read :: "bufferevent \<Rightarrow> u16 \<Rightarrow> bufferevent" where
  "bufferevent_suspend_read b what =
    (let b = (if read_suspended b = 0 then snd (be_socket_disable b EV_READ) else b) in
     b\<lparr>read_suspended := read_suspended b OR what\<rparr>)"

definition bufferevent_unsuspend_read :: "bool \<Rightarrow> bufferevent \<Rightarrow> u16 \<Rightarrow> bufferevent" where
  "bufferevent_unsuspend_read can b what =
    (let b = b\<lparr>read_suspended := read_suspended b AND NOT what\<rparr> in
     if read_suspended b = 0 \<and> enabled b AND EV_READ \<noteq> 0 then snd (be_socket_enable can b EV_READ)
     else b)"

definition bufferevent_suspend_write :: "bufferevent \<Rightarrow> u16 \<Rightarrow> bufferevent" where
  "bufferevent_suspend_write b what =
    (let b = (if write_suspended b = 0 then snd (be_socket_disable b EV_WRITE) else b) in
     b\<lparr>write_suspended := write_suspended b OR what\<rparr>)"

definition bufferevent_unsuspend_write :: "bool \<Rightarrow> bufferevent \<Rightarrow> u16 \<Rightarrow> bufferevent" where
  "bufferevent_unsuspend_write can b what =
    (let b = b\<lparr>write_suspended := write_suspended b AND NOT what\<rparr> in
     if write_suspended b = 0 \<and> enabled b AND EV_WRITE \<noteq> 0 then snd (be_socket_enable can b EV_WRITE)
     else b)"

definition bufferevent_enable :: "bool \<Rightarrow> bufferevent \<Rightarrow> u16 \<Rightarrow> int \<times> bufferevent" where
  "bufferevent_enable can b ev =
    (let impl = (if read_suspended b \<noteq> 0 then ev AND NOT EV_READ else ev);
         impl = (if write_suspended b \<noteq> 0 then impl AND NOT EV_WRITE else impl);
         b = b\<lparr>enabled := enabled b OR ev\<rparr> in
     if impl \<noteq> 0
     then let (r, b) = be_socket_enable can b impl in (if r < 0 then -1 else 0, b)
     else (0, b))"

definition bufferevent_disable :: "bufferevent \<Rightarrow> u16 \<Rightarrow> int \<times> bufferevent" where
  "bufferevent_disable b ev =
    (let (r, b) = be_socket_disable (b\<lparr>enabled := enabled b AND NOT ev\<rparr>) ev in
     (if r < 0 then -1 else 0, b))"

definition bufferevent_disable_hard :: "bufferevent \<Rightarrow> u16 \<Rightarrow> int \<times> bufferevent" where
  "bufferevent_disable_hard b ev =
    (let (r, b) = be_socket_disable (b\<lparr>enabled := enabled b AND NOT ev, connecting := False\<rparr>) ev in
     (if r < 0 then -1 else 0, b))"

definition bufferevent_get_enabled :: "bufferevent \<Rightarrow> u16" where
  "bufferevent_get_enabled b = enabled b"

definition bufferevent_setcb :: "bufferevent \<Rightarrow> bool \<Rightarrow> bool \<Rightarrow> bool \<Rightarrow> bufferevent" where
  "bufferevent_setcb b r w e = b\<lparr>readcb := r, writecb := w, errorcb := e\<rparr>"

section \<open>Callbacks of the buffers\<close>

definition bufferevent_socket_outbuf_cb :: "bool \<Rightarrow> nat \<Rightarrow> bufferevent \<Rightarrow> bufferevent" where
  "bufferevent_socket_outbuf_cb can n_add b =
    (if n_add \<noteq> 0 \<and> enabled b AND EV_WRITE \<noteq> 0 \<and> \<not> ev_write b \<and> write_suspended b = 0
     then (if can then b\<lparr>ev_write := True\<rparr> else b) else b)"

definition bufferevent_inbuf_wm_cb :: "bool \<Rightarrow> bufferevent \<Rightarrow> bufferevent" where
  "bufferevent_inbuf_wm_cb can b =
    (if evbuffer_get_length (bev_input b) \<ge> wm_read_high b then bufferevent_suspend_read b BEV_SUSPEND_WM
     else bufferevent_unsuspend_read can b BEV_SUSPEND_WM)"

text \<open>
  A call of an operation on one of the buffers, with the callbacks it makes. The entries of the
  callback lists have the numbers 0 (input) and 1 (output).
\<close>

fun outbuf_calls :: "bool \<Rightarrow> cb_call list \<Rightarrow> bufferevent \<Rightarrow> bufferevent" where
  "outbuf_calls can [] b = b"
| "outbuf_calls can (Cb i orig n d # cs) b =
     outbuf_calls can cs (if i = 1 then bufferevent_socket_outbuf_cb can n b else b)"
| "outbuf_calls can (CbObsolete i orig new # cs) b = outbuf_calls can cs b"

fun inbuf_calls :: "bool \<Rightarrow> cb_call list \<Rightarrow> bufferevent \<Rightarrow> bufferevent" where
  "inbuf_calls can [] b = b"
| "inbuf_calls can (Cb i orig n d # cs) b =
     inbuf_calls can cs (if i = 0 then bufferevent_inbuf_wm_cb can b else b)"
| "inbuf_calls can (CbObsolete i orig new # cs) b = inbuf_calls can cs b"

definition on_output :: "bool \<Rightarrow> (evbuffer \<Rightarrow> ('r \<times> evbuffer) res) \<Rightarrow> bufferevent \<Rightarrow> ('r \<times> bufferevent) res" where
  "on_output can f b = bindE (f (bev_output b)) (\<lambda>(r, buf).
     Inr (r, outbuf_calls can (drop (length (told (bev_output b))) (told buf)) (b\<lparr>bev_output := buf\<rparr>)))"

definition on_input :: "bool \<Rightarrow> (evbuffer \<Rightarrow> ('r \<times> evbuffer) res) \<Rightarrow> bufferevent \<Rightarrow> ('r \<times> bufferevent) res" where
  "on_input can f b = bindE (f (bev_input b)) (\<lambda>(r, buf).
     Inr (r, inbuf_calls can (drop (length (told (bev_input b))) (told buf)) (b\<lparr>bev_input := buf\<rparr>)))"

definition bufferevent_write :: "bev_env \<Rightarrow> bufferevent \<Rightarrow> byte list \<Rightarrow> (int \<times> bufferevent) res" where
  "bufferevent_write e b bs =
     bindE (on_output (adds e) (\<lambda>buf. evbuffer_add (mem_env e) buf bs) b) (\<lambda>(r, b).
     Inr (if r = -1 then -1 else 0, b))"

text \<open>The result is a \<open>size_t\<close>; what was copied comes with it.\<close>

definition bufferevent_read :: "bev_env \<Rightarrow> bufferevent \<Rightarrow> nat \<Rightarrow> (nat \<times> byte list \<times> bufferevent) res" where
  "bufferevent_read e b n =
     bindE (on_input (adds e) (\<lambda>buf. bindE (evbuffer_remove buf n) (\<lambda>(r, bs, buf). Inr ((r, bs), buf))) b)
       (\<lambda>((r, bs), b). Inr (to_size r, bs, b))"

definition bufferevent_setwatermark ::
  "bev_env \<Rightarrow> bufferevent \<Rightarrow> u16 \<Rightarrow> nat \<Rightarrow> nat \<Rightarrow> bufferevent res" where
  "bufferevent_setwatermark e b ev low high =
    (let b = (if ev AND EV_WRITE \<noteq> 0 then b\<lparr>wm_write_low := low, wm_write_high := high\<rparr> else b) in
     if ev AND EV_READ = 0 then Inr b
     else
       let b = b\<lparr>wm_read_low := low, wm_read_high := high\<rparr> in
       if high \<noteq> 0 then
         let b = (if read_watermarks_cb b then b
                  else case evbuffer_add_cb (small_allocs e) (bev_input b) 0 of
                    (None, buf) \<Rightarrow> b
                  | (Some _, buf) \<Rightarrow> b\<lparr>bev_input := buf, read_watermarks_cb := True\<rparr>) in
         if \<not> read_watermarks_cb b then Inl NullDeref
         else
           let b = b\<lparr>bev_input := evbuffer_cb_set_flags (bev_input b) 0 (EVBUFFER_CB_ENABLED OR EVBUFFER_CB_NODEFER)\<rparr> in
           Inr (if evbuffer_get_length (bev_input b) \<ge> high then bufferevent_suspend_read b BEV_SUSPEND_WM
                else bufferevent_unsuspend_read (adds e) b BEV_SUSPEND_WM)
       else
         let b = (if read_watermarks_cb b
                  then b\<lparr>bev_input := evbuffer_cb_clear_flags (bev_input b) 0 EVBUFFER_CB_ENABLED\<rparr> else b) in
         Inr (bufferevent_unsuspend_read (adds e) b BEV_SUSPEND_WM))"

section \<open>Rate limits\<close>

definition bufferevent_update_buckets :: "bev_env \<Rightarrow> bufferevent \<Rightarrow> bufferevent res" where
  "bufferevent_update_buckets e b =
    (case rate_limiting b of
       None \<Rightarrow> Inl NullDeref
     | Some rl \<Rightarrow>
         (case rl_cfg rl of
            None \<Rightarrow> Inl NullDeref
          | Some c \<Rightarrow>
              bindE (ev_token_bucket_get_tick (now e) c) (\<lambda>tick.
              Inr (if tick \<noteq> last_updated (rl_limit rl)
                   then b\<lparr>rate_limiting := Some (rl\<lparr>rl_limit := snd (ev_token_bucket_update (rl_limit rl) c tick)\<rparr>)\<rparr>
                   else b))))"

text \<open>How much may be read or written at once. There is no rate limit group.\<close>

definition bufferevent_get_rlim_max :: "bev_env \<Rightarrow> bool \<Rightarrow> bufferevent \<Rightarrow> (int \<times> bufferevent) res" where
  "bufferevent_get_rlim_max e is_write b =
    (let single = (if is_write then max_single_write b else max_single_read b);
         clip = (\<lambda>n. if n < 0 then 0 else n) in
     case rate_limiting b of
       None \<Rightarrow> Inr (single, b)
     | Some rl \<Rightarrow>
         if rl_cfg rl = None then Inr (clip single, b)
         else
           bindE (bufferevent_update_buckets e b) (\<lambda>b.
           case rate_limiting b of
             None \<Rightarrow> Inl NullDeref
           | Some rl \<Rightarrow> Inr (clip (if is_write then write_limit (rl_limit rl) else read_limit (rl_limit rl)), b)))"

definition bufferevent_get_max_to_read :: "bev_env \<Rightarrow> bufferevent \<Rightarrow> (int \<times> bufferevent) res" where
  "bufferevent_get_max_to_read e b = bufferevent_get_rlim_max e False b"

definition bufferevent_get_max_to_write :: "bev_env \<Rightarrow> bufferevent \<Rightarrow> (int \<times> bufferevent) res" where
  "bufferevent_get_max_to_write e b = bufferevent_get_rlim_max e True b"

definition has_cfg :: "bufferevent \<Rightarrow> bool" where
  "has_cfg b \<longleftrightarrow> (case rate_limiting b of None \<Rightarrow> False | Some rl \<Rightarrow> rl_cfg rl \<noteq> None)"

definition bufferevent_get_read_limit :: "bev_env \<Rightarrow> bufferevent \<Rightarrow> (int \<times> bufferevent) res" where
  "bufferevent_get_read_limit e b =
    (if has_cfg b
     then bindE (bufferevent_update_buckets e b) (\<lambda>b.
            case rate_limiting b of None \<Rightarrow> Inl NullDeref | Some rl \<Rightarrow> Inr (read_limit (rl_limit rl), b))
     else Inr (SSIZE_MAX, b))"

definition bufferevent_get_write_limit :: "bev_env \<Rightarrow> bufferevent \<Rightarrow> (int \<times> bufferevent) res" where
  "bufferevent_get_write_limit e b =
    (if has_cfg b
     then bindE (bufferevent_update_buckets e b) (\<lambda>b.
            case rate_limiting b of None \<Rightarrow> Inl NullDeref | Some rl \<Rightarrow> Inr (write_limit (rl_limit rl), b))
     else Inr (SSIZE_MAX, b))"

definition set_refill :: "bool \<Rightarrow> bufferevent \<Rightarrow> bufferevent" where
  "set_refill p b = b\<lparr>rate_limiting := map_option (\<lambda>rl. rl\<lparr>refill_pending := p\<rparr>) (rate_limiting b)\<rparr>"

definition set_limits :: "ev_token_bucket \<Rightarrow> bufferevent \<Rightarrow> bufferevent" where
  "set_limits k b = b\<lparr>rate_limiting := map_option (\<lambda>rl. rl\<lparr>rl_limit := k\<rparr>) (rate_limiting b)\<rparr>"

definition bufferevent_decrement_read_buckets :: "bev_env \<Rightarrow> bufferevent \<Rightarrow> int \<Rightarrow> int \<times> bufferevent" where
  "bufferevent_decrement_read_buckets e b bytes =
    (case rate_limiting b of
       None \<Rightarrow> (0, b)
     | Some rl \<Rightarrow>
         if rl_cfg rl = None then (0, b)
         else
           let k = (rl_limit rl)\<lparr>read_limit := read_limit (rl_limit rl) - bytes\<rparr>; b = set_limits k b in
           if read_limit k \<le> 0 then
             let b = bufferevent_suspend_read b BEV_SUSPEND_BW in
             if adds e then (0, set_refill True b) else (-1, b)
           else if read_suspended b AND BEV_SUSPEND_BW \<noteq> 0 then
             let b = (if write_suspended b AND BEV_SUSPEND_BW = 0 then set_refill False b else b) in
             (0, bufferevent_unsuspend_read (adds e) b BEV_SUSPEND_BW)
           else (0, b))"

definition bufferevent_decrement_write_buckets :: "bev_env \<Rightarrow> bufferevent \<Rightarrow> int \<Rightarrow> int \<times> bufferevent" where
  "bufferevent_decrement_write_buckets e b bytes =
    (case rate_limiting b of
       None \<Rightarrow> (0, b)
     | Some rl \<Rightarrow>
         if rl_cfg rl = None then (0, b)
         else
           let k = (rl_limit rl)\<lparr>write_limit := write_limit (rl_limit rl) - bytes\<rparr>; b = set_limits k b in
           if write_limit k \<le> 0 then
             let b = bufferevent_suspend_write b BEV_SUSPEND_BW in
             if adds e then (0, set_refill True b) else (-1, b)
           else if write_suspended b AND BEV_SUSPEND_BW \<noteq> 0 then
             let b = (if read_suspended b AND BEV_SUSPEND_BW = 0 then set_refill False b else b) in
             (0, bufferevent_unsuspend_write (adds e) b BEV_SUSPEND_BW)
           else (0, b))"

text \<open>The refill event has fired, so it is no longer pending.\<close>

definition bev_refill_callback :: "bev_env \<Rightarrow> bufferevent \<Rightarrow> bufferevent res" where
  "bev_refill_callback e b =
    (let b = set_refill False b in
     case rate_limiting b of
       None \<Rightarrow> Inr b
     | Some rl \<Rightarrow>
         (case rl_cfg rl of
            None \<Rightarrow> Inr b
          | Some c \<Rightarrow>
              bindE (ev_token_bucket_get_tick (now e) c) (\<lambda>tick.
              let k = snd (ev_token_bucket_update (rl_limit rl) c tick); b = set_limits k b;
                  again_r = (read_suspended b AND BEV_SUSPEND_BW \<noteq> 0 \<and> \<not> read_limit k > 0);
                  b = (if read_suspended b AND BEV_SUSPEND_BW \<noteq> 0 \<and> read_limit k > 0
                       then bufferevent_unsuspend_read (adds e) b BEV_SUSPEND_BW else b);
                  again_w = (write_suspended b AND BEV_SUSPEND_BW \<noteq> 0 \<and> \<not> write_limit k > 0);
                  b = (if write_suspended b AND BEV_SUSPEND_BW \<noteq> 0 \<and> write_limit k > 0
                       then bufferevent_unsuspend_write (adds e) b BEV_SUSPEND_BW else b) in
              Inr (if (again_r \<or> again_w) \<and> adds e then set_refill True b else b))))"

text \<open>
  \<open>same\<close> says whether the configuration is the very structure in use, which the code compares by
  address.
\<close>

definition bufferevent_set_rate_limit ::
  "bev_env \<Rightarrow> bool \<Rightarrow> bufferevent \<Rightarrow> ev_token_bucket_cfg option \<Rightarrow> (int \<times> bufferevent) res" where
  "bufferevent_set_rate_limit e same b cfg =
    (case cfg of
       None \<Rightarrow>
         if rate_limiting b = None then Inr (0, b)
         else
           let b = b\<lparr>rate_limiting := map_option (\<lambda>rl. rl\<lparr>rl_cfg := None\<rparr>) (rate_limiting b)\<rparr>;
               b = bufferevent_unsuspend_read (adds e) b BEV_SUSPEND_BW;
               b = bufferevent_unsuspend_write (adds e) b BEV_SUSPEND_BW in
           Inr (0, set_refill False b)
     | Some c \<Rightarrow>
         bindE (ev_token_bucket_get_tick (now e) c) (\<lambda>tick.
         if same \<and> rate_limiting b \<noteq> None \<and> rl_cfg (the (rate_limiting b)) = cfg then Inr (0, b)
         else if rate_limiting b = None \<and> \<not> small_allocs e then Inr (-1, b)
         else
           let rl = (case rate_limiting b of
                       None \<Rightarrow> \<lparr>rl_limit = \<lparr>read_limit = 0, write_limit = 0, last_updated = 0\<rparr>,
                                rl_cfg = None, refill_pending = False\<rparr>
                     | Some rl \<Rightarrow> rl);
               reinit = (rl_cfg rl \<noteq> None);
               k = ev_token_bucket_init (rl_limit rl) c tick reinit;
               b = b\<lparr>rate_limiting := Some (rl\<lparr>rl_cfg := cfg, rl_limit := k, refill_pending := False\<rparr>)\<rparr>;
               b = (if read_limit k > 0 then bufferevent_unsuspend_read (adds e) b BEV_SUSPEND_BW
                    else bufferevent_suspend_read b BEV_SUSPEND_BW);
               b = (if write_limit k > 0 then bufferevent_unsuspend_write (adds e) b BEV_SUSPEND_BW
                    else bufferevent_suspend_write b BEV_SUSPEND_BW) in
           Inr (0, if (\<not> read_limit k > 0 \<or> \<not> write_limit k > 0) \<and> adds e then set_refill True b else b)))"

definition bufferevent_decrement_read_limit :: "bev_env \<Rightarrow> bufferevent \<Rightarrow> int \<Rightarrow> (int \<times> bufferevent) res" where
  "bufferevent_decrement_read_limit e b decr =
    (case rate_limiting b of
       None \<Rightarrow> Inl AssertFailed
     | Some rl \<Rightarrow>
         if rl_cfg rl = None then Inl AssertFailed
         else
           let old = read_limit (rl_limit rl); new = old - decr;
               b = set_limits ((rl_limit rl)\<lparr>read_limit := new\<rparr>) b in
           if old > 0 \<and> new \<le> 0 then
             let b = bufferevent_suspend_read b BEV_SUSPEND_BW in
             Inr (if adds e then (0, set_refill True b) else (-1, b))
           else if old \<le> 0 \<and> new > 0 then
             let b = (if write_suspended b AND BEV_SUSPEND_BW = 0 then set_refill False b else b) in
             Inr (0, bufferevent_unsuspend_read (adds e) b BEV_SUSPEND_BW)
           else Inr (0, b))"

definition bufferevent_decrement_write_limit :: "bev_env \<Rightarrow> bufferevent \<Rightarrow> int \<Rightarrow> (int \<times> bufferevent) res" where
  "bufferevent_decrement_write_limit e b decr =
    (case rate_limiting b of
       None \<Rightarrow> Inl AssertFailed
     | Some rl \<Rightarrow>
         if rl_cfg rl = None then Inl AssertFailed
         else
           let old = write_limit (rl_limit rl); new = old - decr;
               b = set_limits ((rl_limit rl)\<lparr>write_limit := new\<rparr>) b in
           if old > 0 \<and> new \<le> 0 then
             let b = bufferevent_suspend_write b BEV_SUSPEND_BW in
             Inr (if adds e then (0, set_refill True b) else (-1, b))
           else if old \<le> 0 \<and> new > 0 then
             let b = (if read_suspended b AND BEV_SUSPEND_BW = 0 then set_refill False b else b) in
             Inr (0, bufferevent_unsuspend_write (adds e) b BEV_SUSPEND_BW)
           else Inr (0, b))"

definition bufferevent_set_max_single_read :: "bufferevent \<Rightarrow> nat \<Rightarrow> bufferevent" where
  "bufferevent_set_max_single_read b n =
     b\<lparr>max_single_read := (if n = 0 \<or> int n > SSIZE_MAX then MAX_SINGLE_READ_DEFAULT else int n)\<rparr>"

definition bufferevent_set_max_single_write :: "bufferevent \<Rightarrow> nat \<Rightarrow> bufferevent" where
  "bufferevent_set_max_single_write b n =
     b\<lparr>max_single_write := (if n = 0 \<or> int n > SSIZE_MAX then MAX_SINGLE_WRITE_DEFAULT else int n)\<rparr>"

section \<open>Running the callbacks of the application\<close>

text \<open>
  The functions given to \<open>bufferevent_setcb\<close>, on the bufferevent and the application's own state.
\<close>

record 'a bev_app =
  on_read :: "bufferevent \<Rightarrow> 'a \<Rightarrow> (bufferevent \<times> 'a) res"
  on_write :: "bufferevent \<Rightarrow> 'a \<Rightarrow> (bufferevent \<times> 'a) res"
  on_event :: "u16 \<Rightarrow> bufferevent \<Rightarrow> 'a \<Rightarrow> (bufferevent \<times> 'a) res"

text \<open>Scheduling takes a reference if the deferred callback is not already scheduled.\<close>

definition SCHEDULE_DEFERRED :: "bufferevent \<Rightarrow> bufferevent" where
  "SCHEDULE_DEFERRED b =
     (if deferred_scheduled b then b
      else b\<lparr>deferred_scheduled := True, bev_refcnt := Suc (bev_refcnt b)\<rparr>)"

definition deferred :: "bufferevent \<Rightarrow> u32 \<Rightarrow> bool" where
  "deferred b options \<longleftrightarrow> (bev_options b OR options) AND BEV_OPT_DEFER_CALLBACKS \<noteq> 0"

text \<open>It triggers the read callback, always deferred, and only from there can nothing recur.\<close>

definition bufferevent_inbuf_wm_check :: "bufferevent \<Rightarrow> bufferevent" where
  "bufferevent_inbuf_wm_check b =
    (if wm_read_high b = 0 \<or> enabled b AND EV_READ = 0 \<or>
        evbuffer_get_length (bev_input b) < wm_read_high b then b
     else if evbuffer_get_length (bev_input b) \<ge> wm_read_low b \<and> readcb b
     then SCHEDULE_DEFERRED (b\<lparr>readcb_pending := True\<rparr>)
     else b)"

definition bufferevent_run_readcb ::
  "'a bev_app \<Rightarrow> u32 \<Rightarrow> bufferevent \<Rightarrow> 'a \<Rightarrow> (bufferevent \<times> 'a) res" where
  "bufferevent_run_readcb app options b s =
    (if \<not> readcb b then Inr (b, s)
     else if deferred b options then Inr (SCHEDULE_DEFERRED (b\<lparr>readcb_pending := True\<rparr>), s)
     else bindE (on_read app b s) (\<lambda>(b, s). Inr (bufferevent_inbuf_wm_check b, s)))"

definition bufferevent_run_writecb ::
  "'a bev_app \<Rightarrow> u32 \<Rightarrow> bufferevent \<Rightarrow> 'a \<Rightarrow> (bufferevent \<times> 'a) res" where
  "bufferevent_run_writecb app options b s =
    (if \<not> writecb b then Inr (b, s)
     else if deferred b options then Inr (SCHEDULE_DEFERRED (b\<lparr>writecb_pending := True\<rparr>), s)
     else on_write app b s)"

definition bufferevent_run_eventcb ::
  "'a bev_app \<Rightarrow> u16 \<Rightarrow> u32 \<Rightarrow> bufferevent \<Rightarrow> 'a \<Rightarrow> (bufferevent \<times> 'a) res" where
  "bufferevent_run_eventcb app what options b s =
    (if \<not> errorcb b then Inr (b, s)
     else if deferred b options
     then Inr (SCHEDULE_DEFERRED (b\<lparr>eventcb_pending := eventcb_pending b OR what\<rparr>), s)
     else on_event app what b s)"

definition bufferevent_trigger_nolock ::
  "'a bev_app \<Rightarrow> u16 \<Rightarrow> u32 \<Rightarrow> bufferevent \<Rightarrow> 'a \<Rightarrow> (bufferevent \<times> 'a) res" where
  "bufferevent_trigger_nolock app iotype options b s =
     bindE (if iotype AND EV_READ \<noteq> 0 \<and> (options AND BEV_TRIG_IGNORE_WATERMARKS \<noteq> 0 \<or>
                 evbuffer_get_length (bev_input b) \<ge> wm_read_low b)
            then bufferevent_run_readcb app options b s else Inr (b, s)) (\<lambda>(b, s).
     if iotype AND EV_WRITE \<noteq> 0 \<and> (options AND BEV_TRIG_IGNORE_WATERMARKS \<noteq> 0 \<or>
          evbuffer_get_length (bev_output b) \<le> wm_write_low b)
     then bufferevent_run_writecb app options b s else Inr (b, s))"

section \<open>References\<close>

text \<open>
  When the last reference is dropped the events are removed and the finalizer scheduled; it runs
  as a step of the event loop.
\<close>

definition bufferevent_incref :: "bufferevent \<Rightarrow> bufferevent" where
  "bufferevent_incref b = b\<lparr>bev_refcnt := Suc (bev_refcnt b)\<rparr>"

definition bufferevent_decref :: "bufferevent \<Rightarrow> (int \<times> bufferevent) res" where
  "bufferevent_decref b =
    (if bev_refcnt b = 0 then Inl AssertFailed
     else
       let b = b\<lparr>bev_refcnt := bev_refcnt b - 1\<rparr> in
       if bev_refcnt b \<noteq> 0 then Inr (0, b)
       else Inr (1, set_refill False
              (b\<lparr>finalizing := True, ev_read := False, ev_write := False, deferred_scheduled := False\<rparr>)))"

definition bufferevent_free :: "bufferevent \<Rightarrow> bufferevent res" where
  "bufferevent_free b = bindE (bufferevent_decref (bufferevent_setcb b False False False)) (\<lambda>(_, b). Inr b)"

definition bufferevent_finalize_cb :: "bufferevent \<Rightarrow> bufferevent res" where
  "bufferevent_finalize_cb b =
     bindE (evbuffer_free (bev_input b)) (\<lambda>_.
     bindE (evbuffer_free (bev_output b)) (\<lambda>_.
     Inr (b\<lparr>freed := True, rate_limiting := None,
            fd_closed := (fd_closed b \<or> bev_options b AND BEV_OPT_CLOSE_ON_FREE \<noteq> 0)\<rparr>)))"

section \<open>The callbacks of the events\<close>

text \<open>What the system reports after a call that returned -1.\<close>

datatype sock_error = Retriable | Refused | OtherError

definition read_error ::
  "'a bev_app \<Rightarrow> u16 \<Rightarrow> bufferevent \<Rightarrow> 'a \<Rightarrow> (bufferevent \<times> 'a) res" where
  "read_error app what b s =
     bufferevent_run_eventcb app what 0 (snd (bufferevent_disable b EV_READ)) s"

definition readcb_body ::
  "'a bev_app \<Rightarrow> bev_env \<Rightarrow> bool \<Rightarrow> int \<Rightarrow> (nat \<Rightarrow> byte list option) \<Rightarrow> sock_error
    \<Rightarrow> bufferevent \<Rightarrow> 'a \<Rightarrow> (bufferevent \<times> 'a) res" where
  "readcb_body app e timeout avail readv err b s =
    (if timeout then read_error app (BEV_EVENT_READING OR BEV_EVENT_TIMEOUT) b s
     else
       let howmuch = (if wm_read_high b \<noteq> 0
                      then as_ssize (int (wm_read_high b) - int (evbuffer_get_length (bev_input b))) else -1) in
       if wm_read_high b \<noteq> 0 \<and> howmuch \<le> 0 then Inr (bufferevent_suspend_read b BEV_SUSPEND_WM, s)
       else
         bindE (bufferevent_get_rlim_max e False b) (\<lambda>(readmax, b).
         let howmuch = (if howmuch < 0 \<or> howmuch > readmax then readmax else howmuch) in
         if read_suspended b \<noteq> 0 then Inr (b, s)
         else
           bindE (on_input (adds e) (\<lambda>buf.
             evbuffer_read (mem_env e) avail readv (evbuffer_unfreeze buf False) (as_int howmuch)) b) (\<lambda>(res, b).
           let b = b\<lparr>bev_input := evbuffer_freeze (bev_input b) False\<rparr> in
           if res = -1 then
             (case err of
                Retriable \<Rightarrow> Inr (b, s)
              | Refused \<Rightarrow> Inr (b\<lparr>connection_refused := True\<rparr>, s)
              | OtherError \<Rightarrow> read_error app (BEV_EVENT_READING OR BEV_EVENT_ERROR) b s)
           else if res = 0 then read_error app (BEV_EVENT_READING OR BEV_EVENT_EOF) b s
           else
             bufferevent_trigger_nolock app EV_READ 0 (snd (bufferevent_decrement_read_buckets e b res)) s)))"

definition bufferevent_readcb ::
  "'a bev_app \<Rightarrow> bev_env \<Rightarrow> bool \<Rightarrow> int \<Rightarrow> (nat \<Rightarrow> byte list option) \<Rightarrow> sock_error
    \<Rightarrow> bufferevent \<Rightarrow> 'a \<Rightarrow> (bufferevent \<times> 'a) res" where
  "bufferevent_readcb app e timeout avail readv err b s =
     bindE (readcb_body app e timeout avail readv err (bufferevent_incref b) s) (\<lambda>(b, s).
     bindE (bufferevent_decref b) (\<lambda>(_, b). Inr (b, s)))"

definition write_error ::
  "'a bev_app \<Rightarrow> u16 \<Rightarrow> bufferevent \<Rightarrow> 'a \<Rightarrow> (bufferevent \<times> 'a) res" where
  "write_error app what b s =
     bufferevent_run_eventcb app what 0 (snd (bufferevent_disable b EV_WRITE)) s"

text \<open>The event is deleted when nothing is left to write.\<close>

definition stop_if_empty :: "bufferevent \<Rightarrow> bufferevent" where
  "stop_if_empty b = (if evbuffer_get_length (bev_output b) = 0 then b\<lparr>ev_write := False\<rparr> else b)"

definition write_out ::
  "'a bev_app \<Rightarrow> bev_env \<Rightarrow> (byte list \<Rightarrow> int) \<Rightarrow> sock_error \<Rightarrow> bool
    \<Rightarrow> bufferevent \<Rightarrow> 'a \<Rightarrow> (bufferevent \<times> 'a) res" where
  "write_out app e writev err connected b s =
     bindE (bufferevent_get_rlim_max e True b) (\<lambda>(atmost, b).
     if write_suspended b \<noteq> 0 then Inr (b, s)
     else if evbuffer_get_length (bev_output b) \<noteq> 0 then
       bindE (on_output (adds e) (\<lambda>buf. evbuffer_write_atmost writev (evbuffer_unfreeze buf True) atmost) b)
         (\<lambda>(res, b).
       let b = b\<lparr>bev_output := evbuffer_freeze (bev_output b) True\<rparr> in
       if res = -1 then
         (case err of
            Retriable \<Rightarrow> Inr (stop_if_empty b, s)
          | _ \<Rightarrow> write_error app (BEV_EVENT_WRITING OR BEV_EVENT_ERROR) b s)
       else if res = 0 then write_error app (BEV_EVENT_WRITING OR BEV_EVENT_EOF) b s
       else if res < 0 then write_error app BEV_EVENT_WRITING b s
       else
         let b = stop_if_empty (snd (bufferevent_decrement_write_buckets e b res)) in
         bufferevent_trigger_nolock app EV_WRITE 0 b s)
     else if \<not> connected then bufferevent_trigger_nolock app EV_WRITE 0 (stop_if_empty b) s
     else Inr (stop_if_empty b, s))"

text \<open>\<open>finished\<close> is the answer of \<open>evutil_socket_finished_connecting_\<close>.\<close>

definition writecb_body ::
  "'a bev_app \<Rightarrow> bev_env \<Rightarrow> bool \<Rightarrow> int \<Rightarrow> (byte list \<Rightarrow> int) \<Rightarrow> sock_error
    \<Rightarrow> bufferevent \<Rightarrow> 'a \<Rightarrow> (bufferevent \<times> 'a) res" where
  "writecb_body app e timeout finished writev err b s =
    (if timeout then write_error app (BEV_EVENT_WRITING OR BEV_EVENT_TIMEOUT) b s
     else if connecting b then
       let c = (if connection_refused b then -1 else finished);
           b = b\<lparr>connection_refused := False\<rparr> in
       if c = 0 then Inr (b, s)
       else
         let b = b\<lparr>connecting := False\<rparr> in
         if c < 0 then
           bufferevent_run_eventcb app BEV_EVENT_ERROR 0 (b\<lparr>ev_write := False, ev_read := False\<rparr>) s
         else
           bindE (bufferevent_run_eventcb app BEV_EVENT_CONNECTED 0 b s) (\<lambda>(b, s).
           if enabled b AND EV_WRITE = 0 \<or> write_suspended b \<noteq> 0 then Inr (b\<lparr>ev_write := False\<rparr>, s)
           else write_out app e writev err True b s)
     else write_out app e writev err False b s)"

definition bufferevent_writecb ::
  "'a bev_app \<Rightarrow> bev_env \<Rightarrow> bool \<Rightarrow> int \<Rightarrow> (byte list \<Rightarrow> int) \<Rightarrow> sock_error
    \<Rightarrow> bufferevent \<Rightarrow> 'a \<Rightarrow> (bufferevent \<times> 'a) res" where
  "bufferevent_writecb app e timeout finished writev err b s =
     bindE (writecb_body app e timeout finished writev err (bufferevent_incref b) s) (\<lambda>(b, s).
     bindE (bufferevent_decref b) (\<lambda>(_, b). Inr (b, s)))"

text \<open>The deferred callbacks, run by the event loop with the reference taken when they were scheduled.\<close>

definition bufferevent_run_deferred_callbacks ::
  "'a bev_app \<Rightarrow> bufferevent \<Rightarrow> 'a \<Rightarrow> (bufferevent \<times> 'a) res" where
  "bufferevent_run_deferred_callbacks app b s =
    (let b = b\<lparr>deferred_scheduled := False\<rparr> in
     bindE (if eventcb_pending b AND BEV_EVENT_CONNECTED \<noteq> 0 \<and> errorcb b
            then on_event app BEV_EVENT_CONNECTED
                   (b\<lparr>eventcb_pending := eventcb_pending b AND NOT BEV_EVENT_CONNECTED\<rparr>) s
            else Inr (b, s)) (\<lambda>(b, s).
     bindE (if readcb_pending b \<and> readcb b
            then bindE (on_read app (b\<lparr>readcb_pending := False\<rparr>) s) (\<lambda>(b, s).
                 Inr (bufferevent_inbuf_wm_check b, s))
            else Inr (b, s)) (\<lambda>(b, s).
     bindE (if writecb_pending b \<and> writecb b
            then on_write app (b\<lparr>writecb_pending := False\<rparr>) s else Inr (b, s)) (\<lambda>(b, s).
     bindE (if eventcb_pending b \<noteq> 0 \<and> errorcb b
            then on_event app (eventcb_pending b) (b\<lparr>eventcb_pending := 0\<rparr>) s
            else Inr (b, s)) (\<lambda>(b, s).
     bindE (bufferevent_decref b) (\<lambda>(_, b). Inr (b, s)))))))"

section \<open>Creation\<close>

text \<open>
  The allocations of the structure, the two buffers and the callback entry, whose failure the
  code does not look at.
\<close>

definition bufferevent_socket_new :: "bool \<Rightarrow> bool \<Rightarrow> u32 \<Rightarrow> bufferevent option" where
  "bufferevent_socket_new alloc cb_alloc options =
    (if \<not> alloc then None
     else if options AND (BEV_OPT_DEFER_CALLBACKS OR BEV_OPT_UNLOCK_CALLBACKS) = BEV_OPT_UNLOCK_CALLBACKS
     then None
     else
       Some \<lparr>bev_input = evbuffer_freeze evbuffer_new False,
             bev_output = evbuffer_freeze (snd (evbuffer_add_cb cb_alloc evbuffer_new 1)) True,
             readcb = False, writecb = False, errorcb = False, enabled = EV_WRITE,
             read_suspended = 0, write_suspended = 0, ev_read = False, ev_write = False,
             wm_read_low = 0, wm_read_high = 0, wm_write_low = 0, wm_write_high = 0,
             read_watermarks_cb = False, readcb_pending = False, writecb_pending = False,
             eventcb_pending = 0, deferred_scheduled = False, connecting = False,
             connection_refused = False, bev_options = options, bev_refcnt = 1, finalizing = False,
             freed = False, fd_closed = False, max_single_read = MAX_SINGLE_READ_DEFAULT,
             max_single_write = MAX_SINGLE_WRITE_DEFAULT, rate_limiting = None\<rparr>)"

end
