(* ===== verification/Bufferevent_Inv.thy ===== *)
theory Bufferevent_Inv
  imports Bufferevent Evbuf_Step
begin

text \<open>
  The invariant of a bufferevent and the operations that keep it: the buffers are in order and
  frozen at the ends that only the socket may touch, reading is suspended exactly while the high
  watermark is reached or the bucket is empty, and an event is pending exactly when its direction
  is enabled, not suspended and, for writing, has something to write.
\<close>

section \<open>What a call on a buffer does\<close>

text \<open>The bytes, and the callbacks told of the numbers added and deleted.\<close>

definition quiet :: "evbuffer \<Rightarrow> bool" where
  "quiet b \<longleftrightarrow> \<not> deferred_cbs b \<and> n_add_for_cb b = 0 \<and> n_del_for_cb b = 0 \<and> refcnt b = 1"

definition heard :: "nat \<Rightarrow> nat \<Rightarrow> evbuffer \<Rightarrow> evbuffer \<Rightarrow> bool" where
  "heard a d b b' \<longleftrightarrow> told b' = told b @
     (if a = 0 \<and> d = 0 then []
      else run_cbs EVBUFFER_CB_ENABLED EVBUFFER_CB_ENABLED
        (nat ((int (total_len b') + int d - int a) mod 2 ^ 64)) a d (total_len b') (callbacks b))"

definition effect :: "nat \<Rightarrow> nat \<Rightarrow> evbuffer \<Rightarrow> evbuf \<Rightarrow> evbuffer \<Rightarrow> bool" where
  "effect a d b bs b' \<longleftrightarrow> becomes b bs b' \<and> quiet b' \<and> callbacks b' = callbacks b \<and> heard a d b b'"

lemma effect_invoke:
  assumes b: "ev_inv b" "quiet b" and e: "ev_to b a d bs b''" and s: "a < 2 ^ 64" "d < 2 ^ 64"
  shows "effect a d b bs (evbuffer_invoke_callbacks b'')"
proof -
  have c: "callbacks b'' = callbacks b" "told b'' = told b" "n_add_for_cb b'' = a" "n_del_for_cb b'' = d"
    "\<not> deferred_cbs b''" "refcnt b'' = 1"
    using e b(2) s by (auto simp: ev_to_def quiet_def count_added_def count_deleted_def szadd_def)
  show ?thesis
    using ev_to_becomes(2) [OF b(1) e] c
    by (auto simp: effect_def quiet_def heard_def evbuffer_invoke_callbacks_def evbuffer_run_callbacks_def
        Let_def)
qed

lemma effect_none:
  "ev_inv b \<Longrightarrow> quiet b \<Longrightarrow> ev_to b 0 0 bs b' \<Longrightarrow> effect 0 0 b bs b'"
proof -
  assume b: "ev_inv b" "quiet b" and e: "ev_to b 0 0 bs b'"
  have "callbacks b' = callbacks b" "told b' = told b" "quiet b'"
    using e b(2) by (auto simp: ev_to_def quiet_def count_added_def count_deleted_def szadd_def)
  with ev_to_becomes(1) [OF b(1) e] show "effect 0 0 b bs b'"
    by (simp add: effect_def heard_def)
qed

lemma effect_refl: "ev_inv b \<Longrightarrow> quiet b \<Longrightarrow> effect 0 0 b (bytes_of b) b"
  using effect_none ev_to_refl by blast

lemma add_effect:
  assumes m: "malloc_sized m" and b: "ev_inv b" "quiet b" "\<not> freeze_end b"
    and s: "length (bytes_of b) + length bs < 2 ^ 64"
  shows "\<exists>r b'. evbuffer_add m b bs = Inr (r, b') \<and>
    (r = 0 \<and> effect (length bs) 0 b (bytes_of b @ bs) b'
     \<or> r = -1 \<and> effect 0 0 b (bytes_of b) b' \<and> (alloc_fails m \<or> length bs > CHAIN_MAX - CHAIN_SIZE))"
proof -
  obtain r b' where r: "evbuffer_add m b bs = Inr (r, b')" "add_spec m b bs (r, b')"
    using add_ok [OF m b(1), of bs] by auto
  show ?thesis
    using r b s effect_invoke [OF b(1,2)] effect_none [OF b(1,2)]
    by (fastforce simp: add_spec_def)
qed

lemma remove_effect:
  assumes b: "ev_inv b" "quiet b" "\<not> freeze_start b"
  shows "\<exists>b'. evbuffer_remove b n = Inr (as_int (int (min n (length (bytes_of b)))), take n (bytes_of b), b')
    \<and> effect 0 (min n (length (bytes_of b))) b (drop n (bytes_of b)) b'"
proof -
  have z: "as_int 0 = 0"
    by (simp add: as_int_def)
  have l: "length (bytes_of b) < 2 ^ 64"
    using b(1) by (simp add: ev_inv_def layout_def bytes_of_def)
  obtain r bs b' where r: "evbuffer_remove b n = Inr (r, bs, b')"
    "if bytes_of b = [] \<or> n = 0 then r = 0 \<and> bs = [] \<and> b' = b
     else if freeze_start b then r = -1 \<and> bs = [] \<and> b' = b
     else bs = take n (bytes_of b) \<and> r = as_int (int (length bs))
        \<and> (\<exists>b''. ev_to b 0 (length bs) (drop n (bytes_of b)) b'' \<and> b' = evbuffer_invoke_callbacks b'')"
    using remove_ok [OF b(1), of n] by blast
  show ?thesis
  proof (cases "bytes_of b = [] \<or> n = 0")
    case True
    then show ?thesis
      using r z effect_refl [OF b(1,2)] by auto
  next
    case False
    then obtain b'' where b'': "ev_to b 0 (length bs) (drop n (bytes_of b)) b''"
      "b' = evbuffer_invoke_callbacks b''" and bs: "bs = take n (bytes_of b)" "r = as_int (int (length bs))"
      using r(2) b(3) by auto
    have "effect 0 (length bs) b (drop n (bytes_of b)) b'"
      unfolding b''(2) by (rule effect_invoke [OF b(1,2) b''(1)]) (use l bs in auto)
    then show ?thesis
      using r(1) bs by (auto simp: min.commute)
  qed
qed

lemma read_fd_effect:
  assumes m: "malloc_sized m" and rv: "readv_fits readv" and b: "ev_inv b" "quiet b" "\<not> freeze_end b"
    and hm: "howmuch \<noteq> 0" and small: "length (bytes_of b) + 4096 < 2 ^ 64"
  shows "\<exists>r b'. evbuffer_read m avail readv b howmuch = Inr (r, b') \<and>
    (r = -1 \<and> effect 0 0 b (bytes_of b) b'
     \<or> (\<exists>bs. readv (asked avail howmuch) = Some bs \<and> length bs \<le> asked avail howmuch \<and> r = int (length bs)
          \<and> effect (length bs) 0 b (bytes_of b @ bs) b'))"
proof -
  obtain r b' where r: "evbuffer_read m avail readv b howmuch = Inr (r, b')"
    "read_effect m avail readv b howmuch (r, b')"
    using read_effect_ok [OF m rv b(1) hm small, of avail] by auto
  note e0 = effect_none [OF b(1,2), of "bytes_of b" b']
  show ?thesis
  proof (cases "readv (asked avail howmuch)")
    case None
    then show ?thesis
      using r b(3) e0 by (auto simp: read_effect_def)
  next
    case (Some bs)
    have l: "length bs \<le> asked avail howmuch" "length bs < 2 ^ 64"
      using rv Some asked_le [of avail howmuch] unfolding readv_fits_def by force+
    show ?thesis
      using r b(3) e0 Some l effect_invoke [OF b(1,2), of "length bs" 0]
      by (auto simp: read_effect_def)
  qed
qed

lemma write_fd_effect:
  assumes wv: "writev_fits writev" and b: "ev_inv b" "quiet b" "\<not> freeze_start b" "bytes_of b \<noteq> []"
    and hm: "0 < howmuch"
  shows "\<exists>r b'. evbuffer_write_atmost writev b howmuch = Inr (r, b') \<and> r \<le> howmuch \<and>
    (\<exists>j. r = writev (take j (bytes_of b)) \<and> r \<le> int (length (take j (bytes_of b)))) \<and>
    effect 0 (nat r) b (drop (nat r) (bytes_of b)) b'"
proof -
  obtain r b' where r: "evbuffer_write_atmost writev b howmuch = Inr (r, b')"
    "write_effect writev b howmuch (r, b')"
    using write_effect_ok [OF wv b(1), of howmuch] by auto
  then obtain j where j: "r = writev (take j (bytes_of b))" "int j \<le> howmuch"
    "r \<le> int (length (take j (bytes_of b)))"
    "if r \<le> 0 then b' = b
     else \<exists>b''. ev_to b 0 (nat r) (drop (nat r) (bytes_of b)) b'' \<and> b' = evbuffer_invoke_callbacks b''"
    using b(3,4) hm by (auto simp: write_effect_def)
  have le: "r \<le> howmuch"
    using j(2,3) by simp
  have l: "length (bytes_of b) < 2 ^ 64"
    using b(1) by (simp add: ev_inv_def layout_def bytes_of_def)
  have "effect 0 (nat r) b (drop (nat r) (bytes_of b)) b'"
  proof (cases "r \<le> 0")
    case True
    then show ?thesis
      using j(4) effect_refl [OF b(1,2)] by simp
  next
    case False
    then obtain b'' where e: "ev_to b 0 (nat r) (drop (nat r) (bytes_of b)) b''"
        "b' = evbuffer_invoke_callbacks b''"
      using j(4) by auto
    show ?thesis
      unfolding e(2) by (rule effect_invoke [OF b(1,2) e(1)]) (use l j(3) in auto)
  qed
  then show ?thesis
    using r(1) le j(1,3) by blast
qed

section \<open>The invariant\<close>

text \<open>The callbacks of the bufferevent on its buffers, and what only the socket may do.\<close>

definition wm_entry :: "bufferevent \<Rightarrow> bool" where
  "wm_entry b \<longleftrightarrow>
    (if read_watermarks_cb b
     then \<exists>fl. callbacks (bev_input b) = [\<lparr>cb_id = 0, cb_flags = fl\<rparr>] \<and> fl \<in> {2, 3}
        \<and> (fl AND 1 = 1 \<longleftrightarrow> wm_read_high b \<noteq> 0)
     else callbacks (bev_input b) = [] \<and> wm_read_high b = 0)"

text \<open>\<open>fe\<close> and \<open>fs\<close>: the end of the input and the start of the output are frozen.\<close>

definition io_st :: "bool \<Rightarrow> bool \<Rightarrow> bufferevent \<Rightarrow> bool" where
  "io_st fe fs b \<longleftrightarrow> ev_inv (bev_input b) \<and> quiet (bev_input b) \<and> freeze_end (bev_input b) = fe
     \<and> \<not> freeze_start (bev_input b)
     \<and> ev_inv (bev_output b) \<and> quiet (bev_output b) \<and> freeze_start (bev_output b) = fs
     \<and> \<not> freeze_end (bev_output b)
     \<and> callbacks (bev_output b) = [\<lparr>cb_id = 1, cb_flags = EVBUFFER_CB_ENABLED\<rparr>]
     \<and> wm_entry b \<and> wm_read_high b < 2 ^ 63
     \<and> 0 < max_single_read b \<and> max_single_read b < 2 ^ 31 \<and> 0 < max_single_write b"

definition over :: "bufferevent \<Rightarrow> bool" where
  "over b \<longleftrightarrow> wm_read_high b \<noteq> 0 \<and> wm_read_high b \<le> length (bytes_of (bev_input b))"

text \<open>The reasons for suspension: the watermark, the bandwidth.\<close>

definition susp :: "bool \<Rightarrow> bool \<Rightarrow> u16" where
  "susp m r = (if m then 1 else 0) OR (if r then 2 else 0)"

lemma susp_simps [simp]:
  "susp m r OR BEV_SUSPEND_WM = susp True r" "susp m r OR BEV_SUSPEND_BW = susp m True"
  "susp m r AND NOT BEV_SUSPEND_WM = susp False r" "susp m r AND NOT BEV_SUSPEND_BW = susp m False"
  "susp m r = 0 \<longleftrightarrow> \<not> m \<and> \<not> r" "susp m r AND BEV_SUSPEND_BW = 0 \<longleftrightarrow> \<not> r"
  by (cases m; cases r; simp add: susp_def BEV_SUSPEND_WM_def BEV_SUSPEND_BW_def)+

definition reads_on :: "bufferevent \<Rightarrow> bool" where "reads_on b \<longleftrightarrow> enabled b AND EV_READ \<noteq> 0"
definition writes_on :: "bufferevent \<Rightarrow> bool" where "writes_on b \<longleftrightarrow> enabled b AND EV_WRITE \<noteq> 0"

text \<open>
  What is pending, for given reasons of suspension. \<open>g\<close>: every \<open>event_add\<close> has succeeded; then
  nothing waits without an event.
\<close>

definition evs_ok :: "bool \<Rightarrow> bool \<Rightarrow> bool \<Rightarrow> bool \<Rightarrow> bufferevent \<Rightarrow> bool" where
  "evs_ok g m r w b \<longleftrightarrow> read_suspended b = susp m r \<and> write_suspended b = susp False w \<and> \<not> connecting b
     \<and> (ev_read b \<longrightarrow> reads_on b \<and> \<not> m \<and> \<not> r) \<and> (ev_write b \<longrightarrow> writes_on b \<and> \<not> w)
     \<and> (finalizing b \<longrightarrow> \<not> ev_read b \<and> \<not> ev_write b)
     \<and> (g \<and> \<not> finalizing b \<longrightarrow> (reads_on b \<and> \<not> m \<and> \<not> r \<longrightarrow> ev_read b)
          \<and> (writes_on b \<and> \<not> w \<and> bytes_of (bev_output b) \<noteq> [] \<longrightarrow> ev_write b))"

definition cfg_ok :: "ev_token_bucket_cfg \<Rightarrow> bool" where
  "cfg_ok c \<longleftrightarrow> 0 < read_rate c \<and> read_rate c \<le> read_maximum c \<and> read_maximum c < 2 ^ 31
     \<and> 0 < write_rate c \<and> write_rate c \<le> write_maximum c \<and> write_maximum c < 2 ^ 31 \<and> msec_per_tick c \<noteq> 0"

text \<open>An empty bucket suspends, and while it does its refill is pending.\<close>

definition lim_ok :: "bool \<Rightarrow> bool \<Rightarrow> bool \<Rightarrow> bufferevent \<Rightarrow> bool" where
  "lim_ok g r w b \<longleftrightarrow>
    (case rate_limiting b of
       None \<Rightarrow> freed b \<or> \<not> r \<and> \<not> w
     | Some rl \<Rightarrow> (finalizing b \<longrightarrow> \<not> refill_pending rl) \<and>
         (case rl_cfg rl of
            None \<Rightarrow> \<not> r \<and> \<not> w
          | Some c \<Rightarrow> cfg_ok c \<and> bucket_ok c (rl_limit rl)
              \<and> (read_limit (rl_limit rl) \<le> 0 \<longrightarrow> r) \<and> (write_limit (rl_limit rl) \<le> 0 \<longrightarrow> w)
              \<and> (g \<and> \<not> finalizing b \<and> (r \<or> w) \<longrightarrow> refill_pending rl)))"

text \<open>
  The references: the client's, that of a scheduled deferred callback and \<open>n\<close> more. Without the
  client's there are no functions of the client left to call.
\<close>

definition refs_ok :: "bool \<Rightarrow> nat \<Rightarrow> bufferevent \<Rightarrow> bool" where
  "refs_ok held n b \<longleftrightarrow> bev_refcnt b = of_bool held + of_bool (deferred_scheduled b) + n
     \<and> (finalizing b \<longleftrightarrow> bev_refcnt b = 0) \<and> (freed b \<longrightarrow> finalizing b)
     \<and> (\<not> held \<longrightarrow> \<not> readcb b \<and> \<not> writecb b \<and> \<not> errorcb b)"

definition core :: "bool \<Rightarrow> bool \<Rightarrow> nat \<Rightarrow> bool \<Rightarrow> bool \<Rightarrow> bool \<Rightarrow> bufferevent \<Rightarrow> bool" where
  "core g held n m r w b \<longleftrightarrow> io_st True True b \<and> evs_ok g m r w b \<and> lim_ok g r w b \<and> refs_ok held n b"

definition bev_inv :: "bool \<Rightarrow> bool \<Rightarrow> nat \<Rightarrow> bufferevent \<Rightarrow> bool" where
  "bev_inv g held n b \<longleftrightarrow> (\<exists>r w. core g held n (over b) r w b)"

section \<open>Suspension and enabling\<close>

lemmas event_ops = be_socket_enable_def be_socket_disable_def bufferevent_suspend_read_def
  bufferevent_unsuspend_read_def bufferevent_suspend_write_def bufferevent_unsuspend_write_def
  bufferevent_enable_def bufferevent_disable_def set_refill_def set_limits_def

text \<open>What these operations do not look at.\<close>

definition erase :: "bufferevent \<Rightarrow> bufferevent" where
  "erase b = b\<lparr>enabled := 0, read_suspended := 0, write_suspended := 0, ev_read := False, ev_write := False,
               rate_limiting := None\<rparr>"

lemma erase_sel:
    "bev_input (erase b) = bev_input b"
    "bev_output (erase b) = bev_output b"
    "finalizing (erase b) = finalizing b"
    "freed (erase b) = freed b"
    "readcb (erase b) = readcb b"
    "writecb (erase b) = writecb b"
    "errorcb (erase b) = errorcb b"
    "max_single_read (erase b) = max_single_read b"
    "max_single_write (erase b) = max_single_write b"
    "wm_read_high (erase b) = wm_read_high b"
    "connecting (erase b) = connecting b"
    "bev_refcnt (erase b) = bev_refcnt b"
    "deferred_scheduled (erase b) = deferred_scheduled b"
  by (simp_all add: erase_def)

lemma erase_inv: "io_st fe fs (erase b) = io_st fe fs b" "over (erase b) = over b" "refs_ok held n (erase b) = refs_ok held n b"
  by (simp_all add: erase_def io_st_def wm_entry_def over_def refs_ok_def)

lemma erase_cong: "(\<And>b. f (erase b) = f b) \<Longrightarrow> erase b' = erase b \<Longrightarrow> f b' = f b"
  by metis

lemma erase_eqD:
  assumes "erase b' = erase b"
  shows
    "io_st fe fs b' = io_st fe fs b"
    "over b' = over b"
    "refs_ok held n b' = refs_ok held n b"
    "bev_input b' = bev_input b"
    "bev_output b' = bev_output b"
    "finalizing b' = finalizing b"
    "freed b' = freed b"
    "readcb b' = readcb b"
    "writecb b' = writecb b"
    "errorcb b' = errorcb b"
    "max_single_read b' = max_single_read b"
    "max_single_write b' = max_single_write b"
    "wm_read_high b' = wm_read_high b"
    "connecting b' = connecting b"
    "bev_refcnt b' = bev_refcnt b"
    "deferred_scheduled b' = deferred_scheduled b"
  by ((rule erase_cong [OF _ assms], simp only: erase_sel erase_inv)+)

lemma socket_simps [simp]:
  "be_socket_disable b EV_READ = (0, b\<lparr>ev_read := False\<rparr>)"
  "be_socket_disable b EV_WRITE = (0, if connecting b then b else b\<lparr>ev_write := False\<rparr>)"
  "be_socket_enable can b EV_READ = (if can then (0, b\<lparr>ev_read := True\<rparr>) else (-1, b))"
  "be_socket_enable can b EV_WRITE = (if can then (0, b\<lparr>ev_write := True\<rparr>) else (-1, b))"
  by (simp_all add: be_socket_disable_def be_socket_enable_def EV_READ_def EV_WRITE_def)

lemma erase_ev [simp]:
  "erase (b\<lparr>ev_read := x\<rparr>) = erase b" "erase (b\<lparr>ev_write := x\<rparr>) = erase b"
  "erase (b\<lparr>enabled := ev\<rparr>) = erase b" "erase (b\<lparr>read_suspended := ev\<rparr>) = erase b"
  "erase (b\<lparr>write_suspended := ev\<rparr>) = erase b" "erase (b\<lparr>rate_limiting := rl\<rparr>) = erase b"
  by (simp_all add: erase_def)

lemma erase_socket [simp]:
  "erase (snd (be_socket_disable b ev)) = erase b" "erase (snd (be_socket_enable can b ev)) = erase b"
  unfolding be_socket_disable_def be_socket_enable_def Let_def by simp_all

lemma erase_ops [simp]:
  "erase (bufferevent_suspend_read b x) = erase b" "erase (bufferevent_unsuspend_read can b x) = erase b"
  "erase (bufferevent_suspend_write b x) = erase b" "erase (bufferevent_unsuspend_write can b x) = erase b"
  "erase (set_refill p b) = erase b" "erase (set_limits k b) = erase b"
  by (simp_all add: bufferevent_suspend_read_def bufferevent_unsuspend_read_def bufferevent_suspend_write_def
      bufferevent_unsuspend_write_def set_refill_def set_limits_def Let_def del: socket_simps)

lemma erase_enable [simp]:
  "erase (snd (bufferevent_enable can b x)) = erase b" "erase (snd (bufferevent_disable b x)) = erase b"
  unfolding bufferevent_enable_def bufferevent_disable_def Let_def
  by (simp_all add: case_prod_beta del: socket_simps)

lemma suspend_read_sel [simp]:
  "enabled (bufferevent_suspend_read b x) = enabled b" "rate_limiting (bufferevent_suspend_read b x) = rate_limiting b"
  "read_suspended (bufferevent_suspend_read b x) = (read_suspended b OR x)" "write_suspended (bufferevent_suspend_read b x) = write_suspended b"
  "ev_read (bufferevent_suspend_read b x) \<longleftrightarrow> (read_suspended b \<noteq> 0 \<and> ev_read b)"
  "ev_write (bufferevent_suspend_read b x) \<longleftrightarrow> ev_write b"
  by (simp_all add: bufferevent_suspend_read_def reads_on_def writes_on_def Let_def)

lemma unsuspend_read_sel [simp]:
  "enabled (bufferevent_unsuspend_read can b x) = enabled b" "rate_limiting (bufferevent_unsuspend_read can b x) = rate_limiting b"
  "read_suspended (bufferevent_unsuspend_read can b x) = (read_suspended b AND NOT x)" "write_suspended (bufferevent_unsuspend_read can b x) = write_suspended b"
  "ev_read (bufferevent_unsuspend_read can b x) \<longleftrightarrow> (read_suspended b AND NOT x = 0 \<and> reads_on b \<and> can \<or> ev_read b)"
  "ev_write (bufferevent_unsuspend_read can b x) \<longleftrightarrow> ev_write b"
  by (auto simp: bufferevent_unsuspend_read_def reads_on_def writes_on_def Let_def)

lemma suspend_write_sel [simp]:
  "enabled (bufferevent_suspend_write b x) = enabled b" "rate_limiting (bufferevent_suspend_write b x) = rate_limiting b"
  "read_suspended (bufferevent_suspend_write b x) = read_suspended b" "write_suspended (bufferevent_suspend_write b x) = (write_suspended b OR x)"
  "ev_read (bufferevent_suspend_write b x) \<longleftrightarrow> ev_read b"
  "ev_write (bufferevent_suspend_write b x) \<longleftrightarrow> ((write_suspended b \<noteq> 0 \<or> connecting b) \<and> ev_write b)"
  by (simp_all add: bufferevent_suspend_write_def reads_on_def writes_on_def Let_def)

lemma unsuspend_write_sel [simp]:
  "enabled (bufferevent_unsuspend_write can b x) = enabled b" "rate_limiting (bufferevent_unsuspend_write can b x) = rate_limiting b"
  "read_suspended (bufferevent_unsuspend_write can b x) = read_suspended b" "write_suspended (bufferevent_unsuspend_write can b x) = (write_suspended b AND NOT x)"
  "ev_read (bufferevent_unsuspend_write can b x) \<longleftrightarrow> ev_read b"
  "ev_write (bufferevent_unsuspend_write can b x) \<longleftrightarrow> (write_suspended b AND NOT x = 0 \<and> writes_on b \<and> can \<or> ev_write b)"
  by (auto simp: bufferevent_unsuspend_write_def reads_on_def writes_on_def Let_def)

lemmas erase_ops_sel [simp] = erase_eqD [OF erase_ops(1)] erase_eqD [OF erase_ops(2)]
  erase_eqD [OF erase_ops(3)] erase_eqD [OF erase_ops(4)] erase_eqD [OF erase_ops(5)]
  erase_eqD [OF erase_ops(6)] erase_eqD [OF erase_enable(1)] erase_eqD [OF erase_enable(2)]

lemma rd_ops [simp]:
  "reads_on (bufferevent_suspend_read b x) = reads_on b" "reads_on (bufferevent_unsuspend_read can b x) = reads_on b"
  "reads_on (bufferevent_suspend_write b x) = reads_on b" "reads_on (bufferevent_unsuspend_write can b x) = reads_on b"
  "writes_on (bufferevent_suspend_read b x) = writes_on b" "writes_on (bufferevent_unsuspend_read can b x) = writes_on b"
  "writes_on (bufferevent_suspend_write b x) = writes_on b" "writes_on (bufferevent_unsuspend_write can b x) = writes_on b"
  by (simp_all add: reads_on_def writes_on_def)

text \<open>The operations on the events, for one reason of suspension each.\<close>

lemma evs_okD:
  assumes "evs_ok g m r w b"
  shows "read_suspended b = susp m r" "write_suspended b = susp False w" "\<not> connecting b"
    "ev_read b \<Longrightarrow> reads_on b \<and> \<not> m \<and> \<not> r" "ev_write b \<Longrightarrow> writes_on b \<and> \<not> w"
    "finalizing b \<Longrightarrow> \<not> ev_read b" "finalizing b \<Longrightarrow> \<not> ev_write b"
    "g \<Longrightarrow> \<not> finalizing b \<Longrightarrow> reads_on b \<Longrightarrow> \<not> m \<Longrightarrow> \<not> r \<Longrightarrow> ev_read b"
    "g \<Longrightarrow> \<not> finalizing b \<Longrightarrow> writes_on b \<Longrightarrow> \<not> w \<Longrightarrow> bytes_of (bev_output b) \<noteq> [] \<Longrightarrow> ev_write b"
  using assms unfolding evs_ok_def by blast+

lemma evs_suspend:
  assumes "evs_ok g m r w b"
  shows "evs_ok g True r w (bufferevent_suspend_read b BEV_SUSPEND_WM)"
    "evs_ok g m True w (bufferevent_suspend_read b BEV_SUSPEND_BW)"
    "evs_ok g m r True (bufferevent_suspend_write b BEV_SUSPEND_BW)"
  using evs_okD(1-3) [OF assms]
  by (simp_all add: evs_ok_def) (use evs_okD(4-9) [OF assms] in blast)+

lemma evs_unsuspend:
  assumes "evs_ok g m r w b" "\<not> finalizing b" "g \<longrightarrow> can"
  shows "evs_ok g False r w (bufferevent_unsuspend_read can b BEV_SUSPEND_WM)"
    "evs_ok g m False w (bufferevent_unsuspend_read can b BEV_SUSPEND_BW)"
    "evs_ok g m r False (bufferevent_unsuspend_write can b BEV_SUSPEND_BW)"
  using evs_okD(1-3) [OF assms(1)]
  by (simp_all add: evs_ok_def assms(2)) (use evs_okD(4-9) [OF assms(1)] assms(2,3) in blast)+

lemma ev_bit: "ev AND EV_READ = 0 \<longleftrightarrow> \<not> bit ev 1" "ev AND EV_WRITE = 0 \<longleftrightarrow> \<not> bit ev 2" for ev :: u16
  using and_exp_eq_0_iff_not_bit [of ev 1] and_exp_eq_0_iff_not_bit [of ev 2]
  by (simp_all add: EV_READ_def EV_WRITE_def)

lemma ev_const_bit [simp]:
  "bit EV_READ n \<longleftrightarrow> n = 1" "bit EV_WRITE n \<longleftrightarrow> n = 2"
proof -
  have e: "EV_READ = 2 ^ 1" "EV_WRITE = 2 ^ 2"
    by (simp_all add: EV_READ_def EV_WRITE_def)
  show "bit EV_READ n \<longleftrightarrow> n = 1" "bit EV_WRITE n \<longleftrightarrow> n = 2"
    unfolding e bit_exp_iff by auto
qed

lemma socket_enable_sel:
  "enabled (snd (be_socket_enable can b ev)) = enabled b"
  "read_suspended (snd (be_socket_enable can b ev)) = read_suspended b"
  "write_suspended (snd (be_socket_enable can b ev)) = write_suspended b"
  "rate_limiting (snd (be_socket_enable can b ev)) = rate_limiting b"
  "ev_read (snd (be_socket_enable can b ev)) \<longleftrightarrow> ev_read b \<or> can \<and> bit ev 1"
  "ev_write (snd (be_socket_enable can b ev)) \<longleftrightarrow> ev_write b \<or> can \<and> bit ev 2"
  by (cases can; simp add: be_socket_enable_def ev_bit Let_def)+

lemma enable_sel [simp]:
  "enabled (snd (bufferevent_enable can b ev)) = enabled b OR ev"
  "read_suspended (snd (bufferevent_enable can b ev)) = read_suspended b"
  "write_suspended (snd (bufferevent_enable can b ev)) = write_suspended b"
  "rate_limiting (snd (bufferevent_enable can b ev)) = rate_limiting b"
  "ev_read (snd (bufferevent_enable can b ev)) \<longleftrightarrow> ev_read b \<or> can \<and> bit ev 1 \<and> read_suspended b = 0"
  "ev_write (snd (bufferevent_enable can b ev)) \<longleftrightarrow> ev_write b \<or> can \<and> bit ev 2 \<and> write_suspended b = 0"
proof -
  define i where "i = (if write_suspended b \<noteq> 0 then (if read_suspended b \<noteq> 0 then ev AND NOT EV_READ else ev) AND NOT EV_WRITE
      else if read_suspended b \<noteq> 0 then ev AND NOT EV_READ else ev)"
  have e: "snd (bufferevent_enable can b ev) =
      (if i \<noteq> 0 then snd (be_socket_enable can (b\<lparr>enabled := enabled b OR ev\<rparr>) i) else b\<lparr>enabled := enabled b OR ev\<rparr>)"
    by (simp add: bufferevent_enable_def i_def Let_def case_prod_beta)
  have i: "bit i 1 \<longleftrightarrow> bit ev 1 \<and> read_suspended b = 0" "bit i 2 \<longleftrightarrow> bit ev 2 \<and> write_suspended b = 0"
    by (simp_all add: i_def bit_simps)
  show "enabled (snd (bufferevent_enable can b ev)) = enabled b OR ev"
    "read_suspended (snd (bufferevent_enable can b ev)) = read_suspended b"
    "write_suspended (snd (bufferevent_enable can b ev)) = write_suspended b"
    "rate_limiting (snd (bufferevent_enable can b ev)) = rate_limiting b"
    "ev_read (snd (bufferevent_enable can b ev)) \<longleftrightarrow> ev_read b \<or> can \<and> bit ev 1 \<and> read_suspended b = 0"
    "ev_write (snd (bufferevent_enable can b ev)) \<longleftrightarrow> ev_write b \<or> can \<and> bit ev 2 \<and> write_suspended b = 0"
    by (cases "i = 0"; use i in \<open>auto simp: e socket_enable_sel\<close>)+
qed

lemma disable_sel [simp]:
  "enabled (snd (bufferevent_disable b ev)) = enabled b AND NOT ev"
  "read_suspended (snd (bufferevent_disable b ev)) = read_suspended b"
  "write_suspended (snd (bufferevent_disable b ev)) = write_suspended b"
  "rate_limiting (snd (bufferevent_disable b ev)) = rate_limiting b"
  "ev_read (snd (bufferevent_disable b ev)) \<longleftrightarrow> ev_read b \<and> ev AND EV_READ = 0"
  "ev_write (snd (bufferevent_disable b ev)) \<longleftrightarrow> ev_write b \<and> (ev AND EV_WRITE = 0 \<or> connecting b)"
  by (auto simp: bufferevent_disable_def be_socket_disable_def Let_def)

lemma rd_wr_bit: "reads_on b \<longleftrightarrow> bit (enabled b) 1" "writes_on b \<longleftrightarrow> bit (enabled b) 2"
  by (simp_all add: reads_on_def writes_on_def ev_bit)

lemma evs_enable:
  assumes "evs_ok g m r w b" "\<not> finalizing b" "g \<longrightarrow> can"
  shows "evs_ok g m r w (snd (bufferevent_enable can b ev))"
  using evs_okD(1-3) [OF assms(1)]
  by (simp add: evs_ok_def assms(2) rd_wr_bit bit_simps)
    (use evs_okD(4-9) [OF assms(1), unfolded rd_wr_bit One_nat_def] assms(2,3) in blast)

lemma evs_disable:
  assumes "evs_ok g m r w b"
  shows "evs_ok g m r w (snd (bufferevent_disable b ev))"
  using evs_okD(1-3) [OF assms]
  by (simp add: evs_ok_def rd_wr_bit bit_simps ev_bit)
    (use evs_okD(4-9) [OF assms, unfolded rd_wr_bit One_nat_def] in blast)

section \<open>Calls on the buffers\<close>

lemma one_cb: "run_cbs EVBUFFER_CB_ENABLED EVBUFFER_CB_ENABLED orig a d new [\<lparr>cb_id = i, cb_flags = fl\<rparr>] =
    (if fl AND 1 = 1 then [Cb i orig a d] else [])" if "fl \<in> {1, 2, 3}"
  using that by (auto simp: EVBUFFER_CB_ENABLED_def EVBUFFER_CB_OBSOLETE_def)

lemma wm_entry_frame:
  "wm_entry (b\<lparr>bev_output := buf\<rparr>) = wm_entry b"
  "callbacks buf = callbacks (bev_input b) \<Longrightarrow> wm_entry (b\<lparr>bev_input := buf\<rparr>) = wm_entry b"
  by (simp_all add: wm_entry_def)

lemma outbuf_cb_0 [simp]: "bufferevent_socket_outbuf_cb can 0 b = b"
  by (simp add: bufferevent_socket_outbuf_cb_def)

lemma outbuf_cb_sel [simp]:
  "erase (bufferevent_socket_outbuf_cb can n b) = erase b"
  "enabled (bufferevent_socket_outbuf_cb can n b) = enabled b"
  "rate_limiting (bufferevent_socket_outbuf_cb can n b) = rate_limiting b"
  "read_suspended (bufferevent_socket_outbuf_cb can n b) = read_suspended b"
  "write_suspended (bufferevent_socket_outbuf_cb can n b) = write_suspended b"
  "ev_read (bufferevent_socket_outbuf_cb can n b) = ev_read b"
  "ev_write (bufferevent_socket_outbuf_cb can n b) \<longleftrightarrow>
     ev_write b \<or> n \<noteq> 0 \<and> writes_on b \<and> write_suspended b = 0 \<and> can"
  by (auto simp: bufferevent_socket_outbuf_cb_def writes_on_def)

lemma outbuf_step:
  fixes can :: bool
  assumes io: "io_st True fs b" and x: "callbacks x = callbacks (bev_output b)" "told x = told (bev_output b)"
      "bytes_of x = bytes_of (bev_output b)" "\<not> freeze_end x"
    and e: "effect a d x bs buf"
  defines "b' \<equiv> outbuf_calls can (drop (length (told (bev_output b))) (told buf)) (b\<lparr>bev_output := buf\<rparr>)"
  shows "b' = bufferevent_socket_outbuf_cb can a (b\<lparr>bev_output := buf\<rparr>)" "io_st True (freeze_start x) b'"
proof -
  show *: "b' = bufferevent_socket_outbuf_cb can a (b\<lparr>bev_output := buf\<rparr>)"
    using io x e one_cb [of 1] unfolding b'_def effect_def heard_def
    by (simp add: io_st_def EVBUFFER_CB_ENABLED_def)
  have "io_st True (freeze_start x) (b\<lparr>bev_output := buf\<rparr>)"
    using io x e by (simp add: io_st_def effect_def becomes_def wm_entry_frame)
  then show "io_st True (freeze_start x) b'"
    unfolding * using erase_eqD(1) [OF outbuf_cb_sel(1)] by simp
qed

lemma erase_output_sel [simp]:
  "reads_on (bufferevent_socket_outbuf_cb can n b) = reads_on b" "writes_on (bufferevent_socket_outbuf_cb can n b) = writes_on b"
  "reads_on (b\<lparr>bev_output := buf\<rparr>) = reads_on b" "writes_on (b\<lparr>bev_output := buf\<rparr>) = writes_on b"
  "reads_on (b\<lparr>bev_input := buf\<rparr>) = reads_on b" "writes_on (b\<lparr>bev_input := buf\<rparr>) = writes_on b"
  by (simp_all add: reads_on_def writes_on_def)

lemmas outbuf_erase_sel [simp] = erase_eqD [OF outbuf_cb_sel(1)]

lemma evs_outbuf:
  assumes "evs_ok g m r w b" "\<not> finalizing b" "g \<longrightarrow> can"
    "n = 0 \<longrightarrow> bytes_of buf = [] \<or> bytes_of (bev_output b) \<noteq> []"
  shows "evs_ok g m r w (bufferevent_socket_outbuf_cb can n (b\<lparr>bev_output := buf\<rparr>))"
  using evs_okD(1-3) [OF assms(1)] assms(2)
  by (simp add: evs_ok_def) (use evs_okD(4-9) [OF assms(1)] assms(2-4) in blast)

lemma inbuf_wm_sel [simp]:
  "erase (bufferevent_inbuf_wm_cb can b) = erase b"
  "enabled (bufferevent_inbuf_wm_cb can b) = enabled b"
  "rate_limiting (bufferevent_inbuf_wm_cb can b) = rate_limiting b"
  by (auto simp: bufferevent_inbuf_wm_cb_def)

lemma length_bytes: "ev_inv b \<Longrightarrow> evbuffer_get_length b = length (bytes_of b)"
  by (simp add: evbuffer_get_length_def ev_inv_def)

lemma evs_over:
  assumes "evs_ok g m r w b" "\<not> finalizing b" "g \<longrightarrow> can" "ev_inv (bev_input b)" "wm_read_high b \<noteq> 0"
  shows "evs_ok g (over b) r w (bufferevent_inbuf_wm_cb can b)"
  using evs_suspend(1) [OF assms(1)] evs_unsuspend(1) [OF assms(1-3)] assms(4,5)
  by (cases "over b") (simp_all add: bufferevent_inbuf_wm_cb_def over_def length_bytes)

lemma evs_input: "evs_ok g m r w (b\<lparr>bev_input := buf\<rparr>) = evs_ok g m r w b"
  by (simp add: evs_ok_def reads_on_def writes_on_def)

lemma inbuf_step:
  fixes can :: bool
  assumes io: "io_st fe True b" and ev: "evs_ok g (over b) r w b" "\<not> finalizing b" "g \<longrightarrow> can"
    and x: "callbacks x = callbacks (bev_input b)" "told x = told (bev_input b)"
      "bytes_of x = bytes_of (bev_input b)" "\<not> freeze_start x"
    and e: "effect a d x bs buf" "a + d = 0 \<longrightarrow> bs = bytes_of x"
  defines "b' \<equiv> inbuf_calls can (drop (length (told (bev_input b))) (told buf)) (b\<lparr>bev_input := buf\<rparr>)"
  shows "erase b' = erase (b\<lparr>bev_input := buf\<rparr>)" "enabled b' = enabled b" "rate_limiting b' = rate_limiting b"
    "io_st (freeze_end x) True b'" "evs_ok g (over b') r w b'"
proof -
  let ?b = "b\<lparr>bev_input := buf\<rparr>"
  have io': "io_st (freeze_end x) True ?b"
    using io x e by (simp add: io_st_def effect_def becomes_def wm_entry_frame)
  have ev': "evs_ok g (over b) r w ?b"
    using ev(1) by (simp add: evs_input)
  have *: "b' = (if wm_read_high b \<noteq> 0 \<and> a + d \<noteq> 0 then bufferevent_inbuf_wm_cb can ?b else ?b)"
    using io x e one_cb [of _ _ _ _ _ 0] unfolding b'_def effect_def heard_def
    by (auto simp: io_st_def wm_entry_def split: if_splits)
  have "erase b' = erase ?b \<and> enabled b' = enabled b \<and> rate_limiting b' = rate_limiting b
    \<and> io_st (freeze_end x) True b' \<and> evs_ok g (over b') r w b'"
  proof (cases "wm_read_high b \<noteq> 0 \<and> a + d \<noteq> 0")
    case True
    then have b': "b' = bufferevent_inbuf_wm_cb can ?b"
      using * by simp
    have i: "ev_inv (bev_input ?b)" "wm_read_high ?b \<noteq> 0" "\<not> finalizing ?b"
      using io' True ev(2) by (simp_all add: io_st_def)
    show ?thesis
      using evs_over [OF ev' i(3) ev(3) i(1,2)] io'
      by (simp add: b' erase_eqD(1,2) [OF inbuf_wm_sel(1)])
  next
    case False
    then have b': "b' = ?b"
      using * by auto
    have "over ?b = over b"
      using False e x by (auto simp: over_def effect_def becomes_def)
    then show ?thesis
      using io' ev' by (simp add: b')
  qed
  then show "erase b' = erase ?b" "enabled b' = enabled b" "rate_limiting b' = rate_limiting b"
    "io_st (freeze_end x) True b'" "evs_ok g (over b') r w b'"
    by blast+
qed

end
