(* ===== verification/Bufferevent_Calls.thy ===== *)
theory Bufferevent_Calls
  imports Bufferevent_Inv
begin

text \<open>
  The calls that a client makes on a bufferevent: each keeps the invariant, and only writing and
  reading change what the buffers hold.
\<close>

section \<open>Parts of the invariant\<close>

lemma lim_cong:
  "rate_limiting b' = rate_limiting b \<Longrightarrow> finalizing b' = finalizing b \<Longrightarrow> freed b' = freed b \<Longrightarrow>
    lim_ok g r w b' = lim_ok g r w b"
  by (simp add: lim_ok_def split: option.split)

lemma refs_frame [simp]:
  "refs_ok held n (b\<lparr>bev_input := buf\<rparr>) = refs_ok held n b"
  "refs_ok held n (b\<lparr>bev_output := buf\<rparr>) = refs_ok held n b"
  by (simp_all add: refs_ok_def)

lemma bev_invI: "io_st True True b \<Longrightarrow> evs_ok g (over b) r w b \<Longrightarrow> lim_ok g r w b \<Longrightarrow> refs_ok held n b
    \<Longrightarrow> bev_inv g held n b"
  by (auto simp: bev_inv_def core_def)

lemma bev_invE:
  assumes "bev_inv g held n b"
  obtains r w where "io_st True True b" "evs_ok g (over b) r w b" "lim_ok g r w b" "refs_ok held n b"
  using assms by (auto simp: bev_inv_def core_def)

text \<open>The client's reference or that of a running callback keeps the bufferevent.\<close>

lemma alive: "bev_inv g held n b \<Longrightarrow> held \<or> n \<noteq> 0 \<Longrightarrow> \<not> finalizing b \<and> \<not> freed b"
  by (auto elim!: bev_invE simp: refs_ok_def)

text \<open>What a call leaves of a bufferevent.\<close>

definition leaves :: "bool \<Rightarrow> bool \<Rightarrow> nat \<Rightarrow> evbuf \<Rightarrow> evbuf \<Rightarrow> bufferevent \<Rightarrow> bool" where
  "leaves g held n ins outs b \<longleftrightarrow> bev_inv g held n b \<and> bytes_of (bev_input b) = ins \<and> bytes_of (bev_output b) = outs"

definition env_ok :: "bool \<Rightarrow> bev_env \<Rightarrow> bool" where
  "env_ok g e \<longleftrightarrow> malloc_sized (mem_env e) \<and> small_allocs e \<and> (g \<longrightarrow> adds e)"

section \<open>Data\<close>

lemma write_call:
  assumes b: "bev_inv g held n b" "held \<or> n \<noteq> 0" and e: "env_ok g e"
    and s: "length (bytes_of (bev_output b)) + length bs < 2 ^ 64"
  shows "\<exists>r b'. bufferevent_write e b bs = Inr (r, b') \<and>
    (r = 0 \<and> leaves g held n (bytes_of (bev_input b)) (bytes_of (bev_output b) @ bs) b'
     \<or> r = -1 \<and> leaves g held n (bytes_of (bev_input b)) (bytes_of (bev_output b)) b'
       \<and> (alloc_fails (mem_env e) \<or> length bs > CHAIN_MAX - CHAIN_SIZE))"
proof -
  obtain r w where c: "io_st True True b" "evs_ok g (over b) r w b" "lim_ok g r w b" "refs_ok held n b"
    using b(1) by (rule bev_invE)
  note al = alive [OF b]
  have o: "ev_inv (bev_output b)" "quiet (bev_output b)" "\<not> freeze_end (bev_output b)" "freeze_start (bev_output b)"
    using c(1) by (simp_all add: io_st_def)
  have m: "malloc_sized (mem_env e)" "g \<longrightarrow> adds e"
    using e by (simp_all add: env_ok_def)
  obtain q buf a d bs' where q: "evbuffer_add (mem_env e) (bev_output b) bs = Inr (q, buf)"
    "effect a d (bev_output b) bs' buf" "a = 0 \<longrightarrow> bs' = bytes_of (bev_output b)"
    "q = 0 \<and> bs' = bytes_of (bev_output b) @ bs \<or>
     q = -1 \<and> bs' = bytes_of (bev_output b) \<and> (alloc_fails (mem_env e) \<or> length bs > CHAIN_MAX - CHAIN_SIZE)"
    using add_effect [OF m(1) o(1-3) s] by fastforce
  let ?b = "bufferevent_socket_outbuf_cb (adds e) a (b\<lparr>bev_output := buf\<rparr>)"
  note st = outbuf_step [OF c(1) refl refl refl o(3) q(2), of "adds e"]
  have call: "bufferevent_write e b bs = Inr (if q = -1 then -1 else 0, ?b)"
    using q(1) st(1) by (simp add: bufferevent_write_def on_output_def)
  have bytes: "bytes_of (bev_output ?b) = bs'" "bev_input ?b = bev_input b" "over ?b = over b"
    using q(2) by (auto simp: effect_def becomes_def over_def)
  have "bev_inv g held n ?b"
  proof (rule bev_invI)
    show "io_st True True ?b"
      using st o(4) by simp
    show "evs_ok g (over ?b) r w ?b"
      unfolding bytes(3)
      by (rule evs_outbuf [OF c(2)]) (use al m q(2,3) in \<open>auto simp: effect_def becomes_def\<close>)
    show "lim_ok g r w ?b"
      using c(3) lim_cong [of ?b b] by simp
    show "refs_ok held n ?b"
      using c(4) by simp
  qed
  then show ?thesis
    using q(4) call bytes by (auto simp: leaves_def)
qed

lemma read_call:
  assumes b: "bev_inv g held n b" "held \<or> n \<noteq> 0" and e: "env_ok g e"
  shows "\<exists>r b'. bufferevent_read e b k = Inr (r, take k (bytes_of (bev_input b)), b')
    \<and> leaves g held n (drop k (bytes_of (bev_input b))) (bytes_of (bev_output b)) b'
    \<and> (length (take k (bytes_of (bev_input b))) < 2 ^ 31 \<longrightarrow> r = length (take k (bytes_of (bev_input b))))"
proof -
  obtain r w where c: "io_st True True b" "evs_ok g (over b) r w b" "lim_ok g r w b" "refs_ok held n b"
    using b(1) by (rule bev_invE)
  note al = alive [OF b]
  have i: "ev_inv (bev_input b)" "quiet (bev_input b)" "\<not> freeze_start (bev_input b)" "freeze_end (bev_input b)"
    using c(1) by (simp_all add: io_st_def)
  have m: "g \<longrightarrow> adds e"
    using e by (simp add: env_ok_def)
  define l where "l = min k (length (bytes_of (bev_input b)))"
  obtain buf where q: "evbuffer_remove (bev_input b) k = Inr (as_int (int l), take k (bytes_of (bev_input b)), buf)"
    "effect 0 l (bev_input b) (drop k (bytes_of (bev_input b))) buf"
    using remove_effect [OF i(1-3), of k] unfolding l_def by (auto simp: min.commute)
  define b' where "b' = inbuf_calls (adds e) (drop (length (told (bev_input b))) (told buf)) (b\<lparr>bev_input := buf\<rparr>)"
  have z: "0 + l = 0 \<longrightarrow> drop k (bytes_of (bev_input b)) = bytes_of (bev_input b)"
    by (auto simp: l_def min_def split: if_splits)
  have nf: "\<not> finalizing b"
    using al by simp
  note st = inbuf_step [OF c(1,2) nf m refl refl refl i(3) q(2) z, folded b'_def]
  note er = erase_eqD [OF st(1)]
  have call: "bufferevent_read e b k = Inr (to_size (as_int (int l)), take k (bytes_of (bev_input b)), b')"
    using q(1) by (simp add: bufferevent_read_def on_input_def b'_def)
  have "bev_inv g held n b'"
  proof (rule bev_invI)
    show "io_st True True b'"
      using st(4) i(4) by simp
    show "evs_ok g (over b') r w b'"
      by (rule st(5))
    show "lim_ok g r w b'"
      using c(3) lim_cong [of b' b] st(3) er by simp
    show "refs_ok held n b'"
      using c(4) er(3) by simp
  qed
  moreover have "bytes_of (bev_input b') = drop k (bytes_of (bev_input b))" "bev_output b' = bev_output b"
    using q(2) er by (simp_all add: effect_def becomes_def)
  moreover have "to_size (as_int (int l)) = l" if "l < 2 ^ 31"
    using that as_int_of_nat [of l] by simp
  moreover have "length (take k (bytes_of (bev_input b))) = l"
    by (simp add: l_def)
  ultimately show ?thesis
    using call by (auto simp: leaves_def)
qed

section \<open>Enabling, callbacks, sizes\<close>

lemma keeps_events:
  assumes b: "bev_inv g held n b" and e: "erase b' = erase b" and r: "rate_limiting b' = rate_limiting b"
    and ev: "\<And>r w. evs_ok g (over b) r w b \<Longrightarrow> evs_ok g (over b) r w b'"
  shows "leaves g held n (bytes_of (bev_input b)) (bytes_of (bev_output b)) b'"
proof -
  obtain r w where c: "io_st True True b" "evs_ok g (over b) r w b" "lim_ok g r w b" "refs_ok held n b"
    using b by (rule bev_invE)
  note er = erase_eqD [OF e]
  have "bev_inv g held n b'"
    by (rule bev_invI [of _ _ r w]) (use c er ev [OF c(2)] r lim_cong [of b' b g r w] in simp_all)
  then show ?thesis
    by (simp add: leaves_def er)
qed

lemma enable_call:
  assumes b: "bev_inv g held n b" "held \<or> n \<noteq> 0" and e: "env_ok g e"
  shows "leaves g held n (bytes_of (bev_input b)) (bytes_of (bev_output b)) (snd (bufferevent_enable (adds e) b ev))"
  using alive [OF b] e by (intro keeps_events [OF b(1)] evs_enable) (auto simp: env_ok_def)

lemma disable_call:
  assumes b: "bev_inv g held n b"
  shows "leaves g held n (bytes_of (bev_input b)) (bytes_of (bev_output b)) (snd (bufferevent_disable b ev))"
  by (intro keeps_events [OF b] evs_disable) simp_all

text \<open>Fields that only the client's choices change.\<close>

lemma evs_frame [simp]:
  "evs_ok g m r w (bufferevent_setcb b p q s) = evs_ok g m r w b"
  "evs_ok g m r w (b\<lparr>max_single_read := k\<rparr>) = evs_ok g m r w b"
  "evs_ok g m r w (b\<lparr>max_single_write := k\<rparr>) = evs_ok g m r w b"
  "evs_ok g m r w (b\<lparr>wm_write_low := low, wm_write_high := high\<rparr>) = evs_ok g m r w b"
  "evs_ok g m r w (b\<lparr>wm_read_low := low, wm_read_high := high\<rparr>) = evs_ok g m r w b"
  "evs_ok g m r w (b\<lparr>wm_read_low := low, wm_read_high := high, bev_input := buf, read_watermarks_cb := rw\<rparr>)
     = evs_ok g m r w b"
  "evs_ok g m r w (b\<lparr>bev_input := buf\<rparr>) = evs_ok g m r w b"
  by (simp_all add: evs_ok_def reads_on_def writes_on_def bufferevent_setcb_def)

lemma part_frames [simp]:
  "wm_entry (b\<lparr>max_single_read := k\<rparr>) = wm_entry b" "wm_entry (b\<lparr>max_single_write := k\<rparr>) = wm_entry b"
  "wm_entry (b\<lparr>wm_write_low := low, wm_write_high := high\<rparr>) = wm_entry b"
  "refs_ok held n (b\<lparr>max_single_read := k\<rparr>) = refs_ok held n b"
  "refs_ok held n (b\<lparr>max_single_write := k\<rparr>) = refs_ok held n b"
  "refs_ok held n (b\<lparr>wm_write_low := low, wm_write_high := high\<rparr>) = refs_ok held n b"
  "refs_ok held n (b\<lparr>wm_read_low := low, wm_read_high := high\<rparr>) = refs_ok held n b"
  "refs_ok held n (b\<lparr>read_watermarks_cb := rw\<rparr>) = refs_ok held n b"
  by (simp_all add: wm_entry_def refs_ok_def)

lemma refs_upd:
  "refs_ok held n (b\<lparr>wm_read_low := low, wm_read_high := high, bev_input := buf, read_watermarks_cb := rw\<rparr>)
     = refs_ok held n b"
  by (simp add: refs_ok_def)

lemma setcb_call:
  assumes "bev_inv g held n b" "held"
  shows "leaves g held n (bytes_of (bev_input b)) (bytes_of (bev_output b)) (bufferevent_setcb b p q s)"
proof -
  obtain r w where c: "io_st True True b" "evs_ok g (over b) r w b" "lim_ok g r w b" "refs_ok held n b"
    using assms(1) by (rule bev_invE)
  have s: "over (bufferevent_setcb b p q s) = over b" "io_st True True (bufferevent_setcb b p q s) = io_st True True b"
    by (simp_all add: bufferevent_setcb_def over_def io_st_def wm_entry_def)
  have "bev_inv g held n (bufferevent_setcb b p q s)"
  proof (rule bev_invI)
    show "lim_ok g r w (bufferevent_setcb b p q s)"
      using c(3) lim_cong [of "bufferevent_setcb b p q s" b] by (simp add: bufferevent_setcb_def)
    show "refs_ok held n (bufferevent_setcb b p q s)"
      using c(4) assms(2) unfolding refs_ok_def by (auto simp: bufferevent_setcb_def)
  qed (use c s in simp_all)
  then show ?thesis
    by (simp add: leaves_def bufferevent_setcb_def)
qed

lemma max_call:
  assumes "bev_inv g held n b"
  shows "k < 2 ^ 31 \<Longrightarrow> leaves g held n (bytes_of (bev_input b)) (bytes_of (bev_output b)) (bufferevent_set_max_single_read b k)"
    "leaves g held n (bytes_of (bev_input b)) (bytes_of (bev_output b)) (bufferevent_set_max_single_write b k)"
proof -
  obtain r w where c: "io_st True True b" "evs_ok g (over b) r w b" "lim_ok g r w b" "refs_ok held n b"
    using assms(1) by (rule bev_invE)
  have i: "bev_inv g held n (b\<lparr>max_single_read := v\<rparr>)" if "0 < v" "v < 2 ^ 31" for v
    by (rule bev_invI [of _ _ r w])
      (use c that lim_cong [of "b\<lparr>max_single_read := v\<rparr>" b]
       in \<open>simp_all add: io_st_def over_def\<close>)
  have o: "bev_inv g held n (b\<lparr>max_single_write := v\<rparr>)" if "0 < v" for v
    by (rule bev_invI [of _ _ r w])
      (use c that lim_cong [of "b\<lparr>max_single_write := v\<rparr>" b]
       in \<open>simp_all add: io_st_def over_def\<close>)
  show "k < 2 ^ 31 \<Longrightarrow> leaves g held n (bytes_of (bev_input b)) (bytes_of (bev_output b)) (bufferevent_set_max_single_read b k)"
    using i [of MAX_SINGLE_READ_DEFAULT] i [of "int k"]
    by (auto simp: bufferevent_set_max_single_read_def leaves_def MAX_SINGLE_READ_DEFAULT_def)
  show "leaves g held n (bytes_of (bev_input b)) (bytes_of (bev_output b)) (bufferevent_set_max_single_write b k)"
    using o [of MAX_SINGLE_WRITE_DEFAULT] o [of "int k"]
    by (auto simp: bufferevent_set_max_single_write_def leaves_def MAX_SINGLE_WRITE_DEFAULT_def)
qed

section \<open>Watermarks\<close>

text \<open>The entry of the watermark callback, put there once and enabled while there is a mark.\<close>

lemma callbacks_frame [simp]:
  "ev_inv (b\<lparr>callbacks := cbs\<rparr>) = ev_inv b" "quiet (b\<lparr>callbacks := cbs\<rparr>) = quiet b"
  "bytes_of (b\<lparr>callbacks := cbs\<rparr>) = bytes_of b"
  by (simp_all add: ev_inv_def quiet_def bytes_of_def)

lemma same_rw:
  assumes "read_watermarks_cb b = rw"
  shows "b\<lparr>wm_read_low := low, wm_read_high := high, bev_input := buf, read_watermarks_cb := rw\<rparr>
    = b\<lparr>wm_read_low := low, wm_read_high := high, bev_input := buf\<rparr>"
  using assms by (cases b) simp

lemma swap_rw:
  "b\<lparr>wm_read_low := low, wm_read_high := high, read_watermarks_cb := rw, bev_input := buf\<rparr>
    = b\<lparr>wm_read_low := low, wm_read_high := high, bev_input := buf, read_watermarks_cb := rw\<rparr>"
  by (cases b) simp

lemma same_input:
  "b\<lparr>wm_read_low := low, wm_read_high := high, bev_input := bev_input b\<rparr> = b\<lparr>wm_read_low := low, wm_read_high := high\<rparr>"
  by (cases b) simp

text \<open>The bufferevent with its marks and the entry of the callback set.\<close>

definition marked :: "bufferevent \<Rightarrow> nat \<Rightarrow> nat \<Rightarrow> cb_entry list \<Rightarrow> bool \<Rightarrow> bufferevent" where
  "marked b low high cbs rw = b\<lparr>wm_read_low := low, wm_read_high := high,
     bev_input := (bev_input b)\<lparr>callbacks := cbs\<rparr>, read_watermarks_cb := rw\<rparr>"

lemma set_mark:
  assumes "io_st True True b" "small_allocs e" "high \<noteq> 0" "ev AND EV_READ \<noteq> 0" "ev AND EV_WRITE = 0"
  shows "bufferevent_setwatermark e b ev low high
    = Inr (bufferevent_inbuf_wm_cb (adds e) (marked b low high [\<lparr>cb_id = 0, cb_flags = 3\<rparr>] True))"
proof (cases "read_watermarks_cb b")
  case True
  have fl3: "(EVBUFFER_CB_ENABLED OR EVBUFFER_CB_NODEFER) AND NOT EVBUFFER_CB_INTERNAL_FLAGS = 3"
    by (simp add: EVBUFFER_CB_ENABLED_def EVBUFFER_CB_NODEFER_def EVBUFFER_CB_INTERNAL_FLAGS_def)
  obtain fl where "callbacks (bev_input b) = [\<lparr>cb_id = 0, cb_flags = fl\<rparr>]" "fl \<in> {2, 3}"
    using assms(1) True by (auto simp: io_st_def wm_entry_def)
  then have "evbuffer_cb_set_flags (bev_input b) 0 (EVBUFFER_CB_ENABLED OR EVBUFFER_CB_NODEFER)
      = (bev_input b)\<lparr>callbacks := [\<lparr>cb_id = 0, cb_flags = 3\<rparr>]\<rparr>"
    by (auto simp: evbuffer_cb_set_flags_def fl3 Let_def)
  then show ?thesis
    using True assms(3-5) by (simp add: bufferevent_setwatermark_def marked_def bufferevent_inbuf_wm_cb_def same_rw Let_def)
next
  case no: False
  then have "callbacks (bev_input b) = []"
    using assms(1) by (auto simp: io_st_def wm_entry_def)
  then have "evbuffer_add_cb (small_allocs e) (bev_input b) 0 = (Some \<lparr>cb_id = 0, cb_flags = 1\<rparr>,
      (bev_input b)\<lparr>callbacks := [\<lparr>cb_id = 0, cb_flags = 1\<rparr>]\<rparr>)"
    "evbuffer_cb_set_flags ((bev_input b)\<lparr>callbacks := [\<lparr>cb_id = 0, cb_flags = 1\<rparr>]\<rparr>) 0
       (EVBUFFER_CB_ENABLED OR EVBUFFER_CB_NODEFER)
     = (bev_input b)\<lparr>callbacks := [\<lparr>cb_id = 0, cb_flags = 3\<rparr>]\<rparr>"
    using assms(2) by (simp_all add: evbuffer_add_cb_def evbuffer_cb_set_flags_def EVBUFFER_CB_ENABLED_def
        EVBUFFER_CB_NODEFER_def EVBUFFER_CB_INTERNAL_FLAGS_def Let_def)
  then show ?thesis
    using no assms(3-5) by (simp add: bufferevent_setwatermark_def marked_def bufferevent_inbuf_wm_cb_def swap_rw Let_def)
qed

lemma clear_mark:
  assumes "io_st True True b" "ev AND EV_READ \<noteq> 0" "ev AND EV_WRITE = 0"
  defines "cbs \<equiv> if read_watermarks_cb b then [\<lparr>cb_id = 0, cb_flags = 2 :: u32\<rparr>] else []"
  shows "bufferevent_setwatermark e b ev low 0
    = Inr (bufferevent_unsuspend_read (adds e) (marked b low 0 cbs (read_watermarks_cb b)) BEV_SUSPEND_WM)"
proof -
  have fl: "EVBUFFER_CB_ENABLED AND NOT EVBUFFER_CB_INTERNAL_FLAGS = 1"
    by (simp add: EVBUFFER_CB_ENABLED_def EVBUFFER_CB_INTERNAL_FLAGS_def)
  have "(if read_watermarks_cb b then evbuffer_cb_clear_flags (bev_input b) 0 EVBUFFER_CB_ENABLED else bev_input b)
      = (bev_input b)\<lparr>callbacks := cbs\<rparr>"
    using assms(1) by (auto simp: io_st_def wm_entry_def cbs_def evbuffer_cb_clear_flags_def fl Let_def)
  then have "marked b low 0 cbs (read_watermarks_cb b) = b\<lparr>wm_read_low := low, wm_read_high := 0,
      bev_input := if read_watermarks_cb b then evbuffer_cb_clear_flags (bev_input b) 0 EVBUFFER_CB_ENABLED else bev_input b\<rparr>"
    unfolding marked_def by (simp add: same_rw)
  then show ?thesis
    using assms(2,3) by (cases "read_watermarks_cb b") (simp_all add: bufferevent_setwatermark_def same_input Let_def)
qed

lemma marked_parts:
  "finalizing (marked b low high cbs rw) = finalizing b" "rate_limiting (marked b low high cbs rw) = rate_limiting b"
  "freed (marked b low high cbs rw) = freed b" "bev_output (marked b low high cbs rw) = bev_output b"
  "bytes_of (bev_input (marked b low high cbs rw)) = bytes_of (bev_input b)"
  "evs_ok g m r w (marked b low high cbs rw) = evs_ok g m r w b" "refs_ok held n (marked b low high cbs rw) = refs_ok held n b"
  by (simp_all add: marked_def refs_upd)

lemma marked_leaves:
  assumes b: "io_st True True b" "lim_ok g r w b" "refs_ok held n b"
    and m: "erase b' = erase (marked b low high cbs rw)" "rate_limiting b' = rate_limiting b"
      "io_st True True (marked b low high cbs rw)" "evs_ok g (over (marked b low high cbs rw)) r w b'"
  shows "leaves g held n (bytes_of (bev_input b)) (bytes_of (bev_output b)) b'"
proof -
  note er = erase_eqD [OF m(1)]
  have "bev_inv g held n b'"
    by (rule bev_invI [of _ _ r w]) (use b m er lim_cong [of b' b] marked_parts in simp_all)
  then show ?thesis
    by (simp add: leaves_def er marked_parts)
qed

text \<open>Marks for writing are set first, then those for reading as if they were set alone.\<close>

lemma setwatermark_split:
  "bufferevent_setwatermark e b ev low high =
    (let b = (if ev AND EV_WRITE \<noteq> 0 then b\<lparr>wm_write_low := low, wm_write_high := high\<rparr> else b) in
     if ev AND EV_READ = 0 then Inr b else bufferevent_setwatermark e b EV_READ low high)"
proof -
  have "(EV_READ AND EV_READ = 0) = False" "(EV_READ AND EV_WRITE \<noteq> 0) = False"
    by (simp_all add: EV_READ_def EV_WRITE_def)
  note rd = bufferevent_setwatermark_def [of e _ EV_READ, unfolded this if_False Let_def]
  show ?thesis
    unfolding rd bufferevent_setwatermark_def [of e b ev] Let_def by (rule refl)
qed

lemma setwatermark_call:
  assumes b: "bev_inv g held n b" "held \<or> n \<noteq> 0" and e: "env_ok g e" and h: "high < 2 ^ 63"
  shows "\<exists>b'. bufferevent_setwatermark e b ev low high = Inr b' \<and>
    leaves g held n (bytes_of (bev_input b)) (bytes_of (bev_output b)) b'"
proof -
  define b1 where "b1 = (if ev AND EV_WRITE \<noteq> 0 then b\<lparr>wm_write_low := low, wm_write_high := high\<rparr> else b)"
  obtain r w where "io_st True True b" "evs_ok g (over b) r w b" "lim_ok g r w b" "refs_ok held n b"
    using b(1) by (rule bev_invE)
  then have c: "io_st True True b1" "evs_ok g (over b1) r w b1" "lim_ok g r w b1" "refs_ok held n b1"
    using lim_cong [of b1 b] by (simp_all add: b1_def io_st_def over_def)
  have same: "bev_input b1 = bev_input b" "bev_output b1 = bev_output b" and nf: "\<not> finalizing b1"
    using alive [OF b] by (simp_all add: b1_def)
  have a: "g \<longrightarrow> adds e" "small_allocs e"
    using e by (simp_all add: env_ok_def)
  have rd: "EV_READ AND EV_READ \<noteq> 0" "EV_READ AND EV_WRITE = 0"
    by (simp_all add: EV_READ_def EV_WRITE_def)
  have ev: "evs_ok g (over b1) r w (marked b1 low high cbs rw)" "\<not> finalizing (marked b1 low high cbs rw)" for cbs rw
    using c(2) nf by (simp_all add: marked_parts)
  have read: "\<exists>b'. bufferevent_setwatermark e b1 EV_READ low high = Inr b' \<and>
      leaves g held n (bytes_of (bev_input b1)) (bytes_of (bev_output b1)) b'"
  proof (cases "high = 0")
    case False
    let ?m = "marked b1 low high [\<lparr>cb_id = 0, cb_flags = 3\<rparr>] True"
    have io: "io_st True True ?m" "ev_inv (bev_input ?m)" "wm_read_high ?m \<noteq> 0"
      using c(1) h False by (simp_all add: marked_def io_st_def wm_entry_def)
    show ?thesis
      unfolding set_mark [OF c(1) a(2) False rd]
      using marked_leaves [OF c(1,3,4) _ _ io(1)] evs_over [OF ev a(1), of "[\<lparr>cb_id = 0, cb_flags = 3\<rparr>]" True] io(2,3)
      by (simp add: marked_parts)
  next
    case True
    define cbs where "cbs = (if read_watermarks_cb b1 then [\<lparr>cb_id = 0, cb_flags = 2 :: u32\<rparr>] else [])"
    let ?m = "marked b1 low 0 cbs (read_watermarks_cb b1)"
    have io: "io_st True True ?m" "\<not> over ?m"
      using c(1) by (auto simp: marked_def io_st_def wm_entry_def cbs_def over_def)
    show ?thesis
      unfolding True clear_mark [OF c(1) rd] cbs_def [symmetric]
      using marked_leaves [OF c(1,3,4) _ _ io(1)] evs_unsuspend(1) [OF ev a(1), of cbs "read_watermarks_cb b1"] io(2)
      by (simp add: marked_parts True)
  qed
  show ?thesis
  proof (cases "ev AND EV_READ = 0")
    case True
    then show ?thesis
      using bev_invI [OF c] same by (simp add: setwatermark_split [of e b ev] b1_def [symmetric] leaves_def)
  next
    case False
    then show ?thesis
      using read same by (simp add: setwatermark_split [of e b ev] b1_def [symmetric])
  qed
qed

end
