(* ===== verification/Bufferevent_Rate.thy ===== *)
theory Bufferevent_Rate
  imports Bufferevent_Calls
begin

text \<open>
  Rate limits keep the invariant: an empty bucket suspends its direction, and whenever one is
  suspended for bandwidth the refill event is pending, which ends the suspension once there are
  tokens again.
\<close>

section \<open>Buckets with a configuration\<close>

definition rl_ok :: "bool \<Rightarrow> bool \<Rightarrow> bool \<Rightarrow> ev_token_bucket_cfg \<Rightarrow> ev_token_bucket \<Rightarrow> bool \<Rightarrow> bool" where
  "rl_ok g r w c k p \<longleftrightarrow> cfg_ok c \<and> bucket_ok c k \<and> (read_limit k \<le> 0 \<longrightarrow> r) \<and> (write_limit k \<le> 0 \<longrightarrow> w)
     \<and> (g \<and> (r \<or> w) \<longrightarrow> p)"

lemma lim_some:
  "rate_limiting b = Some rl \<Longrightarrow> rl_cfg rl = Some c \<Longrightarrow> \<not> finalizing b \<Longrightarrow>
    lim_ok g r w b \<longleftrightarrow> rl_ok g r w c (rl_limit rl) (refill_pending rl)"
  by (auto simp: lim_ok_def rl_ok_def)

lemma lim_none:
  "\<not> has_cfg b \<Longrightarrow> \<not> finalizing b \<Longrightarrow> \<not> freed b \<Longrightarrow> lim_ok g r w b \<longleftrightarrow> \<not> r \<and> \<not> w"
  by (auto simp: lim_ok_def has_cfg_def split: option.splits)

lemma has_cfgE:
  assumes "has_cfg b"
  obtains rl c where "rate_limiting b = Some rl" "rl_cfg rl = Some c"
  using assms by (auto simp: has_cfg_def split: option.splits)

lemma rl_sel [simp]:
  "rate_limiting (set_refill p b) = map_option (\<lambda>rl. rl\<lparr>refill_pending := p\<rparr>) (rate_limiting b)"
  "rate_limiting (set_limits k b) = map_option (\<lambda>rl. rl\<lparr>rl_limit := k\<rparr>) (rate_limiting b)"
  "read_suspended (set_refill p b) = read_suspended b" "write_suspended (set_refill p b) = write_suspended b"
  "read_suspended (set_limits k b) = read_suspended b" "write_suspended (set_limits k b) = write_suspended b"
  by (simp_all add: set_refill_def set_limits_def)

lemma evs_rl [simp]:
  "evs_ok g m r w (set_refill p b) = evs_ok g m r w b"
  "evs_ok g m r w (set_limits k b) = evs_ok g m r w b"
  "evs_ok g m r w (b\<lparr>rate_limiting := rl\<rparr>) = evs_ok g m r w b"
  by (simp_all add: evs_ok_def reads_on_def writes_on_def set_refill_def set_limits_def)

lemma get_tick_ok: "cfg_ok c \<Longrightarrow> \<exists>t. ev_token_bucket_get_tick tv c = Inr t"
  by (simp add: ev_token_bucket_get_tick_def cfg_ok_def Let_def)

lemma rl_more:
  assumes "rl_ok g r w c k p" "bucket_ok c k'" "read_limit k \<le> read_limit k'" "write_limit k \<le> write_limit k'"
  shows "rl_ok g r w c k' p"
  using assms by (auto simp: rl_ok_def)

lemma update_buckets_ok:
  assumes "has_cfg b" "\<not> finalizing b" "lim_ok g r w b"
  shows "\<exists>b'. bufferevent_update_buckets e b = Inr b' \<and> erase b' = erase b \<and> lim_ok g r w b' \<and> has_cfg b'
    \<and> (\<forall>m. evs_ok g m r w b' = evs_ok g m r w b) \<and> read_suspended b' = read_suspended b
    \<and> write_suspended b' = write_suspended b \<and> ev_write b' = ev_write b \<and> enabled b' = enabled b"
proof -
  obtain rl c where rl: "rate_limiting b = Some rl" "rl_cfg rl = Some c"
    using assms(1) by (rule has_cfgE)
  have ok: "rl_ok g r w c (rl_limit rl) (refill_pending rl)"
    using assms lim_some [OF rl] by simp
  obtain t where t: "ev_token_bucket_get_tick (now e) c = Inr t"
    using get_tick_ok [of c "now e"] ok unfolding rl_ok_def by blast
  define k where "k = snd (ev_token_bucket_update (rl_limit rl) c t)"
  have k: "rl_ok g r w c k (refill_pending rl)"
    using ok update_ok [of c "rl_limit rl" t] unfolding k_def
    by (intro rl_more [OF ok]) (auto simp: rl_ok_def)
  define b' where "b' = b\<lparr>rate_limiting := Some (rl\<lparr>rl_limit := k\<rparr>)\<rparr>"
  have "lim_ok g r w b'"
    using k rl assms(2) by (simp add: b'_def lim_some [of _ "rl\<lparr>rl_limit := k\<rparr>" c])
  moreover have "bufferevent_update_buckets e b = Inr b' \<or> bufferevent_update_buckets e b = Inr b"
    using rl t by (simp add: bufferevent_update_buckets_def b'_def k_def)
  ultimately show ?thesis
    using assms rl by (auto simp: b'_def has_cfg_def)
qed

definition limit_of :: "bool \<Rightarrow> bufferevent \<Rightarrow> int" where
  "limit_of is_write b = (if is_write then write_limit (rl_limit (the (rate_limiting b)))
                          else read_limit (rl_limit (the (rate_limiting b))))"

lemma rlim_max_ok:
  assumes "io_st fe fs b" "\<not> finalizing b" "\<not> freed b" "lim_ok g r w b"
  shows "\<exists>n b'. bufferevent_get_rlim_max e is_write b = Inr (n, b') \<and> erase b' = erase b \<and> lim_ok g r w b'
    \<and> (\<forall>m. evs_ok g m r w b' = evs_ok g m r w b) \<and> read_suspended b' = read_suspended b
    \<and> write_suspended b' = write_suspended b \<and> ev_write b' = ev_write b \<and> enabled b' = enabled b
    \<and> (\<not> (if is_write then w else r) \<longrightarrow> 0 < n) \<and> 0 \<le> n \<and> (\<not> is_write \<longrightarrow> n < 2 ^ 31)
    \<and> (has_cfg b' \<longrightarrow> n \<le> max 0 (limit_of is_write b'))"
proof (cases "has_cfg b")
  case False
  have s: "0 < max_single_read b" "max_single_read b < 2 ^ 31" "0 < max_single_write b"
    using assms(1) by (simp_all add: io_st_def)
  have "bufferevent_get_rlim_max e is_write b = Inr (if is_write then max_single_write b else max_single_read b, b)"
    using False s by (auto simp: bufferevent_get_rlim_max_def has_cfg_def split: option.splits)
  then show ?thesis
    using False s assms(4) by (cases is_write) auto
next
  case True
  then obtain rl c where rl: "rate_limiting b = Some rl" "rl_cfg rl = Some c"
    by (rule has_cfgE)
  obtain b' where b': "bufferevent_update_buckets e b = Inr b'" "erase b' = erase b" "lim_ok g r w b'" "has_cfg b'"
    "\<forall>m. evs_ok g m r w b' = evs_ok g m r w b" "read_suspended b' = read_suspended b"
    "write_suspended b' = write_suspended b" "ev_write b' = ev_write b" "enabled b' = enabled b"
    using update_buckets_ok [OF True assms(2,4)] by blast
  obtain rl' c' where rl': "rate_limiting b' = Some rl'" "rl_cfg rl' = Some c'"
    using b'(4) by (rule has_cfgE)
  have "rl_ok g r w c' (rl_limit rl') (refill_pending rl')"
    using b'(3) lim_some [OF rl'] erase_eqD(6) [OF b'(2)] assms(2) by simp
  then show ?thesis
    using b' rl rl'
    by (auto simp: bufferevent_get_rlim_max_def limit_of_def rl_ok_def cfg_ok_def bucket_ok_def bucket_range_def)
qed

section \<open>Spending tokens\<close>

text \<open>What a change of the limits leaves, with the reasons of suspension it ends in.\<close>

definition rated :: "bool \<Rightarrow> bufferevent \<Rightarrow> bufferevent \<Rightarrow> bool" where
  "rated g b b' \<longleftrightarrow> erase b' = erase b \<and> enabled b' = enabled b \<and>
    (\<forall>m r w. evs_ok g m r w b \<and> lim_ok g r w b \<longrightarrow> (\<exists>r' w'. evs_ok g m r' w' b' \<and> lim_ok g r' w' b'))"

lemma rated_refl: "rated g b b"
  by (auto simp: rated_def)

lemma erase_rate [simp]: "enabled (set_refill p b) = enabled b" "enabled (set_limits k b) = enabled b"
  by (simp_all add: set_refill_def set_limits_def)

text \<open>The direction is suspended, and the refill event added.\<close>

lemma stop_rated:
  assumes b: "evs_ok g m r w b" "rate_limiting b = Some rl" "rl_cfg rl = Some c" "\<not> finalizing b"
    and c: "cfg_ok c" "bucket_ok c (rl_limit rl)"
    and p: "g \<longrightarrow> can" "g \<and> (r \<or> w) \<longrightarrow> refill_pending rl"
  shows "write_limit (rl_limit rl) \<le> 0 \<longrightarrow> w \<Longrightarrow> b' = bufferevent_suspend_read b BEV_SUSPEND_BW \<Longrightarrow>
      evs_ok g m True w (if can then set_refill True b' else b') \<and> lim_ok g True w (if can then set_refill True b' else b')"
    "read_limit (rl_limit rl) \<le> 0 \<longrightarrow> r \<Longrightarrow> b' = bufferevent_suspend_write b BEV_SUSPEND_BW \<Longrightarrow>
      evs_ok g m r True (if can then set_refill True b' else b') \<and> lim_ok g r True (if can then set_refill True b' else b')"
  using evs_suspend(2,3) [OF b(1)] b c p by (auto simp: lim_ok_def)

text \<open>It goes on, and the refill event is not needed unless the other direction waits for it.\<close>

lemma go_rated:
  assumes b: "evs_ok g m r w b" "rate_limiting b = Some rl" "rl_cfg rl = Some c" "\<not> finalizing b"
    and c: "cfg_ok c" "bucket_ok c (rl_limit rl)"
    and p: "g \<longrightarrow> can" "g \<and> w \<longrightarrow> refill_pending rl"
  shows "write_limit (rl_limit rl) \<le> 0 \<longrightarrow> w \<Longrightarrow> 0 < read_limit (rl_limit rl) \<Longrightarrow>
      b' = (if write_suspended b AND BEV_SUSPEND_BW = 0 then set_refill False b else b) \<Longrightarrow>
      evs_ok g m False w (bufferevent_unsuspend_read can b' BEV_SUSPEND_BW)
      \<and> lim_ok g False w (bufferevent_unsuspend_read can b' BEV_SUSPEND_BW)"
proof -
  assume a: "write_limit (rl_limit rl) \<le> 0 \<longrightarrow> w" "0 < read_limit (rl_limit rl)"
    "b' = (if write_suspended b AND BEV_SUSPEND_BW = 0 then set_refill False b else b)"
  have ws: "write_suspended b = susp False w"
    using evs_okD(2) [OF b(1)] .
  have b': "evs_ok g m r w b'" "\<not> finalizing b'"
    using b by (auto simp: a(3))
  show ?thesis
    using evs_unsuspend(2) [OF b' p(1)] b c p a(1,2) ws by (auto simp: lim_ok_def a(3))
qed

lemma go_write_rated:
  assumes b: "evs_ok g m r w b" "rate_limiting b = Some rl" "rl_cfg rl = Some c" "\<not> finalizing b"
    and c: "cfg_ok c" "bucket_ok c (rl_limit rl)"
    and p: "g \<longrightarrow> can" "g \<and> r \<longrightarrow> refill_pending rl"
  shows "read_limit (rl_limit rl) \<le> 0 \<longrightarrow> r \<Longrightarrow> 0 < write_limit (rl_limit rl) \<Longrightarrow>
      b' = (if read_suspended b AND BEV_SUSPEND_BW = 0 then set_refill False b else b) \<Longrightarrow>
      evs_ok g m r False (bufferevent_unsuspend_write can b' BEV_SUSPEND_BW)
      \<and> lim_ok g r False (bufferevent_unsuspend_write can b' BEV_SUSPEND_BW)"
proof -
  assume a: "read_limit (rl_limit rl) \<le> 0 \<longrightarrow> r" "0 < write_limit (rl_limit rl)"
    "b' = (if read_suspended b AND BEV_SUSPEND_BW = 0 then set_refill False b else b)"
  have rs: "read_suspended b = susp m r"
    using evs_okD(1) [OF b(1)] .
  have b': "evs_ok g m r w b'" "\<not> finalizing b'"
    using b by (auto simp: a(3))
  show ?thesis
    using evs_unsuspend(3) [OF b' p(1)] b c p a(1,2) rs by (auto simp: lim_ok_def a(3))
qed

text \<open>Tokens taken for what was read or written; the limit stays within its type.\<close>

definition affordable :: "bool \<Rightarrow> bufferevent \<Rightarrow> int \<Rightarrow> bool" where
  "affordable is_write b n \<longleftrightarrow> (has_cfg b \<longrightarrow> 0 \<le> n \<and> - (2 ^ 63) \<le> limit_of is_write b - n)"

text \<open>The three ways a new limit for reading is dealt with.\<close>

lemma new_read_limit:
  assumes b: "rate_limiting b = Some rl" "rl_cfg rl = Some c" "\<not> finalizing b" "g \<longrightarrow> can"
    and k: "k = (rl_limit rl)\<lparr>read_limit := v\<rparr>" "- (2 ^ 63) \<le> v" "v \<le> read_limit (rl_limit rl)"
    and ok: "evs_ok g m r w b" "lim_ok g r w b"
  defines "b1 \<equiv> set_limits k b"
  shows "v \<le> 0 \<Longrightarrow> b' = bufferevent_suspend_read b1 BEV_SUSPEND_BW \<Longrightarrow>
      \<exists>r w. evs_ok g m r w (if can then set_refill True b' else b') \<and> lim_ok g r w (if can then set_refill True b' else b')"
    "0 < v \<Longrightarrow> b' = bufferevent_unsuspend_read can
        (if write_suspended b1 AND BEV_SUSPEND_BW = 0 then set_refill False b1 else b1) BEV_SUSPEND_BW \<Longrightarrow>
      \<exists>r w. evs_ok g m r w b' \<and> lim_ok g r w b'"
    "0 < v \<or> read_limit (rl_limit rl) \<le> 0 \<Longrightarrow> \<exists>r w. evs_ok g m r w b1 \<and> lim_ok g r w b1"
proof -
  have b1: "rate_limiting b1 = Some (rl\<lparr>rl_limit := k\<rparr>)" "rl_cfg (rl\<lparr>rl_limit := k\<rparr>) = Some c" "\<not> finalizing b1"
    using b by (simp_all add: b1_def)
  have ev: "evs_ok g m r w b1"
    using ok(1) by (simp add: b1_def)
  have l: "rl_ok g r w c (rl_limit rl) (refill_pending rl)"
    using ok(2) lim_some [OF b(1-3)] by simp
  then have c: "cfg_ok c" "bucket_ok c k"
    using k by (auto simp: rl_ok_def bucket_ok_def bucket_range_def)
  show "\<exists>r w. evs_ok g m r w (if can then set_refill True b' else b') \<and> lim_ok g r w (if can then set_refill True b' else b')"
    if "v \<le> 0" "b' = bufferevent_suspend_read b1 BEV_SUSPEND_BW"
    by (intro exI, rule stop_rated(1) [OF ev b1 _ _ b(4) _ _ that(2)]) (use c l k in \<open>simp_all add: rl_ok_def\<close>)
  show "\<exists>r w. evs_ok g m r w b' \<and> lim_ok g r w b'"
    if "0 < v" "b' = bufferevent_unsuspend_read can
        (if write_suspended b1 AND BEV_SUSPEND_BW = 0 then set_refill False b1 else b1) BEV_SUSPEND_BW"
    unfolding that(2)
    by (intro exI, rule go_rated [OF ev b1 _ _ b(4) _ _ _ refl]) (use c l k that(1) in \<open>simp_all add: rl_ok_def\<close>)
  show "\<exists>r w. evs_ok g m r w b1 \<and> lim_ok g r w b1" if "0 < v \<or> read_limit (rl_limit rl) \<le> 0"
  proof (intro exI conjI)
    show "lim_ok g r w b1"
      using l c k that by (auto simp: rl_ok_def lim_some [OF b1])
  qed (rule ev)
qed

lemma dec_read_rated:
  assumes "\<not> finalizing b" "g \<longrightarrow> adds e" "affordable False b n"
  shows "rated g b (snd (bufferevent_decrement_read_buckets e b n))"
proof (cases "has_cfg b")
  case False
  then have "snd (bufferevent_decrement_read_buckets e b n) = b"
    by (auto simp: bufferevent_decrement_read_buckets_def has_cfg_def split: option.splits)
  then show ?thesis
    by (simp add: rated_refl)
next
  case True
  then obtain rl c where rl: "rate_limiting b = Some rl" "rl_cfg rl = Some c"
    by (rule has_cfgE)
  define v where "v = read_limit (rl_limit rl) - n"
  define b1 where "b1 = set_limits ((rl_limit rl)\<lparr>read_limit := v\<rparr>) b"
  have v: "- (2 ^ 63) \<le> v" "v \<le> read_limit (rl_limit rl)"
    using assms(3) True rl by (simp_all add: affordable_def limit_of_def v_def)
  let ?r = "snd (bufferevent_decrement_read_buckets e b n)"
  have def: "?r = (if v \<le> 0 then
        (let b = bufferevent_suspend_read b1 BEV_SUSPEND_BW in if adds e then set_refill True b else b)
      else if read_suspended b1 AND BEV_SUSPEND_BW \<noteq> 0 then
        bufferevent_unsuspend_read (adds e)
          (if write_suspended b1 AND BEV_SUSPEND_BW = 0 then set_refill False b1 else b1) BEV_SUSPEND_BW
      else b1)"
    using rl by (simp add: bufferevent_decrement_read_buckets_def b1_def v_def Let_def)
  have "\<exists>r' w'. evs_ok g m r' w' ?r \<and> lim_ok g r' w' ?r" if ok: "evs_ok g m r w b" "lim_ok g r w b" for m r w
    using new_read_limit [OF rl assms(1,2) refl v ok, folded b1_def] by (auto simp: def Let_def)
  moreover have "erase ?r = erase b" "enabled ?r = enabled b"
    by (simp_all add: def Let_def b1_def)
  ultimately show ?thesis
    unfolding rated_def by blast
qed

lemma dec_read_limit_rated:
  assumes "\<not> finalizing b" "g \<longrightarrow> adds e" "affordable False b n" "has_cfg b"
  shows "\<exists>q b'. bufferevent_decrement_read_limit e b n = Inr (q, b') \<and> rated g b b'"
proof -
  obtain rl c where rl: "rate_limiting b = Some rl" "rl_cfg rl = Some c"
    using assms(4) by (rule has_cfgE)
  define v where "v = read_limit (rl_limit rl) - n"
  define b1 where "b1 = set_limits ((rl_limit rl)\<lparr>read_limit := v\<rparr>) b"
  have v: "- (2 ^ 63) \<le> v" "v \<le> read_limit (rl_limit rl)"
    using assms(3,4) rl by (simp_all add: affordable_def limit_of_def v_def)
  define b' where "b' = (if 0 < read_limit (rl_limit rl) \<and> v \<le> 0 then
        (let b = bufferevent_suspend_read b1 BEV_SUSPEND_BW in if adds e then set_refill True b else b)
      else b1)"
  have "\<exists>q. bufferevent_decrement_read_limit e b n = Inr (q, b')"
    using rl v(2) by (auto simp: bufferevent_decrement_read_limit_def b'_def b1_def v_def Let_def)
  moreover have "\<exists>r' w'. evs_ok g m r' w' b' \<and> lim_ok g r' w' b'" if ok: "evs_ok g m r w b" "lim_ok g r w b" for m r w
    using new_read_limit(1,3) [OF rl assms(1,2) refl v ok, folded b1_def] by (auto simp: b'_def Let_def)
  moreover have "erase b' = erase b" "enabled b' = enabled b"
    by (simp_all add: b'_def Let_def b1_def)
  ultimately show ?thesis
    unfolding rated_def by blast
qed

text \<open>The three ways a new limit for writing is dealt with.\<close>

lemma new_write_limit:
  assumes b: "rate_limiting b = Some rl" "rl_cfg rl = Some c" "\<not> finalizing b" "g \<longrightarrow> can"
    and k: "k = (rl_limit rl)\<lparr>write_limit := v\<rparr>" "- (2 ^ 63) \<le> v" "v \<le> write_limit (rl_limit rl)"
    and ok: "evs_ok g m r w b" "lim_ok g r w b"
  defines "b1 \<equiv> set_limits k b"
  shows "v \<le> 0 \<Longrightarrow> b' = bufferevent_suspend_write b1 BEV_SUSPEND_BW \<Longrightarrow>
      \<exists>r w. evs_ok g m r w (if can then set_refill True b' else b') \<and> lim_ok g r w (if can then set_refill True b' else b')"
    "0 < v \<Longrightarrow> b' = bufferevent_unsuspend_write can
        (if read_suspended b1 AND BEV_SUSPEND_BW = 0 then set_refill False b1 else b1) BEV_SUSPEND_BW \<Longrightarrow>
      \<exists>r w. evs_ok g m r w b' \<and> lim_ok g r w b'"
    "0 < v \<or> write_limit (rl_limit rl) \<le> 0 \<Longrightarrow> \<exists>r w. evs_ok g m r w b1 \<and> lim_ok g r w b1"
proof -
  have b1: "rate_limiting b1 = Some (rl\<lparr>rl_limit := k\<rparr>)" "rl_cfg (rl\<lparr>rl_limit := k\<rparr>) = Some c" "\<not> finalizing b1"
    using b by (simp_all add: b1_def)
  have ev: "evs_ok g m r w b1"
    using ok(1) by (simp add: b1_def)
  have l: "rl_ok g r w c (rl_limit rl) (refill_pending rl)"
    using ok(2) lim_some [OF b(1-3)] by simp
  then have c: "cfg_ok c" "bucket_ok c k"
    using k by (auto simp: rl_ok_def bucket_ok_def bucket_range_def)
  show "\<exists>r w. evs_ok g m r w (if can then set_refill True b' else b') \<and> lim_ok g r w (if can then set_refill True b' else b')"
    if "v \<le> 0" "b' = bufferevent_suspend_write b1 BEV_SUSPEND_BW"
    by (intro exI, rule stop_rated(2) [OF ev b1 _ _ b(4) _ _ that(2)]) (use c l k in \<open>simp_all add: rl_ok_def\<close>)
  show "\<exists>r w. evs_ok g m r w b' \<and> lim_ok g r w b'"
    if "0 < v" "b' = bufferevent_unsuspend_write can
        (if read_suspended b1 AND BEV_SUSPEND_BW = 0 then set_refill False b1 else b1) BEV_SUSPEND_BW"
    unfolding that(2)
    by (intro exI, rule go_write_rated [OF ev b1 _ _ b(4) _ _ _ refl]) (use c l k that(1) in \<open>simp_all add: rl_ok_def\<close>)
  show "\<exists>r w. evs_ok g m r w b1 \<and> lim_ok g r w b1" if "0 < v \<or> write_limit (rl_limit rl) \<le> 0"
  proof (intro exI conjI)
    show "lim_ok g r w b1"
      using l c k that by (auto simp: rl_ok_def lim_some [OF b1])
  qed (rule ev)
qed

lemma dec_write_rated:
  assumes "\<not> finalizing b" "g \<longrightarrow> adds e" "affordable True b n"
  shows "rated g b (snd (bufferevent_decrement_write_buckets e b n))"
proof (cases "has_cfg b")
  case False
  then have "snd (bufferevent_decrement_write_buckets e b n) = b"
    by (auto simp: bufferevent_decrement_write_buckets_def has_cfg_def split: option.splits)
  then show ?thesis
    by (simp add: rated_refl)
next
  case True
  then obtain rl c where rl: "rate_limiting b = Some rl" "rl_cfg rl = Some c"
    by (rule has_cfgE)
  define v where "v = write_limit (rl_limit rl) - n"
  define b1 where "b1 = set_limits ((rl_limit rl)\<lparr>write_limit := v\<rparr>) b"
  have v: "- (2 ^ 63) \<le> v" "v \<le> write_limit (rl_limit rl)"
    using assms(3) True rl by (simp_all add: affordable_def limit_of_def v_def)
  let ?r = "snd (bufferevent_decrement_write_buckets e b n)"
  have def: "?r = (if v \<le> 0 then
        (let b = bufferevent_suspend_write b1 BEV_SUSPEND_BW in if adds e then set_refill True b else b)
      else if write_suspended b1 AND BEV_SUSPEND_BW \<noteq> 0 then
        bufferevent_unsuspend_write (adds e)
          (if read_suspended b1 AND BEV_SUSPEND_BW = 0 then set_refill False b1 else b1) BEV_SUSPEND_BW
      else b1)"
    using rl by (simp add: bufferevent_decrement_write_buckets_def b1_def v_def Let_def)
  have "\<exists>r' w'. evs_ok g m r' w' ?r \<and> lim_ok g r' w' ?r" if ok: "evs_ok g m r w b" "lim_ok g r w b" for m r w
    using new_write_limit [OF rl assms(1,2) refl v ok, folded b1_def] by (auto simp: def Let_def)
  moreover have "erase ?r = erase b" "enabled ?r = enabled b"
    by (simp_all add: def Let_def b1_def)
  ultimately show ?thesis
    unfolding rated_def by blast
qed

lemma dec_write_limit_rated:
  assumes "\<not> finalizing b" "g \<longrightarrow> adds e" "affordable True b n" "has_cfg b"
  shows "\<exists>q b'. bufferevent_decrement_write_limit e b n = Inr (q, b') \<and> rated g b b'"
proof -
  obtain rl c where rl: "rate_limiting b = Some rl" "rl_cfg rl = Some c"
    using assms(4) by (rule has_cfgE)
  define v where "v = write_limit (rl_limit rl) - n"
  define b1 where "b1 = set_limits ((rl_limit rl)\<lparr>write_limit := v\<rparr>) b"
  have v: "- (2 ^ 63) \<le> v" "v \<le> write_limit (rl_limit rl)"
    using assms(3,4) rl by (simp_all add: affordable_def limit_of_def v_def)
  define b' where "b' = (if 0 < write_limit (rl_limit rl) \<and> v \<le> 0 then
        (let b = bufferevent_suspend_write b1 BEV_SUSPEND_BW in if adds e then set_refill True b else b)
      else b1)"
  have "\<exists>q. bufferevent_decrement_write_limit e b n = Inr (q, b')"
    using rl v(2) by (auto simp: bufferevent_decrement_write_limit_def b'_def b1_def v_def Let_def)
  moreover have "\<exists>r' w'. evs_ok g m r' w' b' \<and> lim_ok g r' w' b'" if ok: "evs_ok g m r w b" "lim_ok g r w b" for m r w
    using new_write_limit(1,3) [OF rl assms(1,2) refl v ok, folded b1_def] by (auto simp: b'_def Let_def)
  moreover have "erase b' = erase b" "enabled b' = enabled b"
    by (simp_all add: b'_def Let_def b1_def)
  ultimately show ?thesis
    unfolding rated_def by blast
qed

section \<open>Refilling\<close>

lemma ratedI:
  assumes "erase b' = erase b" "enabled b' = enabled b"
    "\<And>m r w. evs_ok g m r w b \<Longrightarrow> lim_ok g r w b \<Longrightarrow> \<exists>r' w'. evs_ok g m r' w' b' \<and> lim_ok g r' w' b'"
  shows "rated g b b'"
  using assms unfolding rated_def by blast

text \<open>Suspension for bandwidth ends for the directions whose limit is positive.\<close>

definition resume :: "bool \<Rightarrow> ev_token_bucket \<Rightarrow> bufferevent \<Rightarrow> bufferevent" where
  "resume can k b =
    (let b = (if read_suspended b AND BEV_SUSPEND_BW \<noteq> 0 \<and> 0 < read_limit k
              then bufferevent_unsuspend_read can b BEV_SUSPEND_BW else b) in
     if write_suspended b AND BEV_SUSPEND_BW \<noteq> 0 \<and> 0 < write_limit k
     then bufferevent_unsuspend_write can b BEV_SUSPEND_BW else b)"

lemma resume_sel [simp]:
  "erase (resume can k b) = erase b" "enabled (resume can k b) = enabled b"
  "rate_limiting (resume can k b) = rate_limiting b"
  by (simp_all add: resume_def Let_def)

lemmas resume_erase_sel [simp] = erase_eqD [OF resume_sel(1)]

lemma evs_resume:
  assumes "evs_ok g m r w b" "\<not> finalizing b" "g \<longrightarrow> can"
  shows "evs_ok g m (r \<and> \<not> 0 < read_limit k) (w \<and> \<not> 0 < write_limit k) (resume can k b)"
proof -
  define b1 where "b1 = (if read_suspended b AND BEV_SUSPEND_BW \<noteq> 0 \<and> 0 < read_limit k
      then bufferevent_unsuspend_read can b BEV_SUSPEND_BW else b)"
  have b1: "evs_ok g m (r \<and> \<not> 0 < read_limit k) w b1" "\<not> finalizing b1"
    using assms evs_unsuspend(2) [OF assms] evs_okD(1) [OF assms(1)]
    by (cases r; cases "0 < read_limit k"; simp add: b1_def)+
  have "resume can k b = (if w \<and> 0 < write_limit k then bufferevent_unsuspend_write can b1 BEV_SUSPEND_BW else b1)"
    using evs_okD(2) [OF b1(1)] by (simp add: resume_def b1_def [symmetric] Let_def)
  then show ?thesis
    using b1 evs_unsuspend(3) [OF b1 assms(3)] by (cases w; cases "0 < write_limit k"; simp)
qed

lemma refill_rated:
  assumes "\<not> finalizing b" "g \<longrightarrow> adds e" "lim_ok g r0 w0 b"
  shows "\<exists>b'. bev_refill_callback e b = Inr b' \<and> rated g b b'"
proof (cases "has_cfg b")
  case False
  have "bev_refill_callback e b = Inr (set_refill False b)"
    using False by (auto simp: bev_refill_callback_def has_cfg_def split: option.splits)
  moreover have "rated g b (set_refill False b)"
  proof (rule ratedI)
    fix m r w
    assume "evs_ok g m r w b" "lim_ok g r w b"
    then show "\<exists>r' w'. evs_ok g m r' w' (set_refill False b) \<and> lim_ok g r' w' (set_refill False b)"
      using False assms(1)
      by (intro exI [of _ r] exI [of _ w]) (auto simp: lim_ok_def has_cfg_def split: option.splits)
  qed simp_all
  ultimately show ?thesis
    by blast
next
  case True
  then obtain rl c where rl: "rate_limiting b = Some rl" "rl_cfg rl = Some c"
    by (rule has_cfgE)
  have l0: "rl_ok g r0 w0 c (rl_limit rl) (refill_pending rl)"
    using assms lim_some [OF rl] by simp
  then obtain t where t: "ev_token_bucket_get_tick (now e) c = Inr t"
    using get_tick_ok [of c "now e"] unfolding rl_ok_def by blast
  define k where "k = snd (ev_token_bucket_update (rl_limit rl) c t)"
  have k: "bucket_ok c k" "read_limit (rl_limit rl) \<le> read_limit k" "write_limit (rl_limit rl) \<le> write_limit k"
    using l0 update_ok [of c "rl_limit rl" t] unfolding k_def by (auto simp: rl_ok_def)
  define b1 where "b1 = set_limits k (set_refill False b)"
  have rl1: "rate_limiting b1 = Some (rl\<lparr>refill_pending := False, rl_limit := k\<rparr>)"
    using rl by (simp add: b1_def)
  define again where "again \<longleftrightarrow> read_suspended b1 AND BEV_SUSPEND_BW \<noteq> 0 \<and> \<not> 0 < read_limit k
    \<or> write_suspended b1 AND BEV_SUSPEND_BW \<noteq> 0 \<and> \<not> 0 < write_limit k"
  define b' where "b' = (if again \<and> adds e then set_refill True (resume (adds e) k b1) else resume (adds e) k b1)"
  have "bev_refill_callback e b = Inr b'"
    using rl t by (simp add: bev_refill_callback_def b'_def resume_def again_def b1_def k_def Let_def)
  moreover have "rated g b b'"
  proof (rule ratedI)
    fix m r w
    assume ok: "evs_ok g m r w b" "lim_ok g r w b"
    define r' w' where "r' = (r \<and> \<not> 0 < read_limit k)" and "w' = (w \<and> \<not> 0 < write_limit k)"
    have ev: "evs_ok g m r w b1" "\<not> finalizing b1"
      using ok(1) assms(1) by (simp_all add: b1_def)
    have "evs_ok g m r' w' b'"
    proof -
      have "evs_ok g m r' w' b' = evs_ok g m r' w' (resume (adds e) k b1)"
        by (simp add: b'_def)
      then show ?thesis
        using evs_resume [OF ev assms(2), of k] by (simp add: r'_def w'_def)
    qed
    moreover have "again \<longleftrightarrow> r' \<or> w'"
      using evs_okD(1,2) [OF ev(1)] by (simp add: again_def r'_def w'_def)
    moreover have "rl_ok g r w c (rl_limit rl) (refill_pending rl)"
      using ok(2) lim_some [OF rl assms(1)] by simp
    ultimately have "evs_ok g m r' w' b' \<and> lim_ok g r' w' b'"
      using rl1 rl(2) k assms(1,2) ev(2) by (auto simp: lim_ok_def b'_def rl_ok_def r'_def w'_def)
    then show "\<exists>r' w'. evs_ok g m r' w' b' \<and> lim_ok g r' w' b'"
      by blast
  qed (simp_all add: b'_def b1_def)
  ultimately show ?thesis
    by blast
qed

lemma init_ok:
  assumes "cfg_ok c" "reinit \<Longrightarrow> bucket_ok c0 k0"
  shows "bucket_ok c (ev_token_bucket_init k0 c t reinit)"
  using assms
  by (cases reinit) (auto simp: ev_token_bucket_init_def bucket_ok_def bucket_range_def cfg_ok_def as_ssize_id)

text \<open>Each direction is suspended exactly when its limit is not positive.\<close>

definition restart :: "bool \<Rightarrow> ev_token_bucket \<Rightarrow> bufferevent \<Rightarrow> bufferevent" where
  "restart can k b =
    (let b = (if 0 < read_limit k then bufferevent_unsuspend_read can b BEV_SUSPEND_BW
              else bufferevent_suspend_read b BEV_SUSPEND_BW) in
     if 0 < write_limit k then bufferevent_unsuspend_write can b BEV_SUSPEND_BW
     else bufferevent_suspend_write b BEV_SUSPEND_BW)"

lemma restart_sel [simp]:
  "erase (restart can k b) = erase b" "enabled (restart can k b) = enabled b"
  "rate_limiting (restart can k b) = rate_limiting b"
  by (simp_all add: restart_def Let_def)

lemmas restart_erase_sel [simp] = erase_eqD [OF restart_sel(1)]

lemma evs_restart:
  assumes "evs_ok g m r w b" "\<not> finalizing b" "g \<longrightarrow> can"
  shows "evs_ok g m (\<not> 0 < read_limit k) (\<not> 0 < write_limit k) (restart can k b)"
proof -
  define b1 where "b1 = (if 0 < read_limit k then bufferevent_unsuspend_read can b BEV_SUSPEND_BW
      else bufferevent_suspend_read b BEV_SUSPEND_BW)"
  have b1: "evs_ok g m (\<not> 0 < read_limit k) w b1" "\<not> finalizing b1"
    using assms(2) evs_unsuspend(2) [OF assms] evs_suspend(2) [OF assms(1)]
    by (cases "0 < read_limit k"; simp add: b1_def)+
  show ?thesis
    using evs_unsuspend(3) [OF b1 assms(3)] evs_suspend(3) [OF b1(1)]
    by (cases "0 < write_limit k"; simp add: restart_def b1_def [symmetric] Let_def)
qed

lemma drop_rate_rated:
  assumes "\<not> finalizing b" "\<not> freed b" "g \<longrightarrow> adds e"
  shows "\<exists>b'. bufferevent_set_rate_limit e same b None = Inr (0, b') \<and> rated g b b'"
proof (cases "rate_limiting b")
  case None
  then show ?thesis
    by (simp add: bufferevent_set_rate_limit_def rated_refl)
next
  case (Some rl)
  define b1 where "b1 = b\<lparr>rate_limiting := Some (rl\<lparr>rl_cfg := None\<rparr>)\<rparr>"
  define b' where "b' = set_refill False (bufferevent_unsuspend_write (adds e)
      (bufferevent_unsuspend_read (adds e) b1 BEV_SUSPEND_BW) BEV_SUSPEND_BW)"
  have "bufferevent_set_rate_limit e same b None = Inr (0, b')"
    using Some by (simp add: bufferevent_set_rate_limit_def b'_def b1_def Let_def)
  moreover have "rated g b b'"
  proof (rule ratedI)
    fix m r w
    assume "evs_ok g m r w b" "lim_ok g r w b"
    then have "evs_ok g m False False b'"
      using evs_unsuspend(3) [OF evs_unsuspend(2) [of g m r w b1 "adds e"] _ assms(3)] assms
      by (simp add: b'_def b1_def)
    then show "\<exists>r' w'. evs_ok g m r' w' b' \<and> lim_ok g r' w' b'"
      using assms(1) by (intro exI [of _ False]) (simp add: lim_ok_def b'_def b1_def)
  qed (simp_all add: b'_def b1_def)
  ultimately show ?thesis
    by blast
qed

lemma set_rate_rated:
  assumes "\<not> finalizing b" "g \<longrightarrow> adds e" "lim_ok g r0 w0 b" "cfg_ok c"
  shows "\<exists>q b'. bufferevent_set_rate_limit e same b (Some c) = Inr (q, b') \<and> rated g b b'"
proof -
  obtain t where t: "ev_token_bucket_get_tick (now e) c = Inr t"
    using get_tick_ok [OF assms(4)] by blast
  show ?thesis
  proof (cases "same \<and> rate_limiting b \<noteq> None \<and> rl_cfg (the (rate_limiting b)) = Some c
      \<or> rate_limiting b = None \<and> \<not> small_allocs e")
    case True
    then have "\<exists>q. bufferevent_set_rate_limit e same b (Some c) = Inr (q, b)"
      using t by (auto simp: bufferevent_set_rate_limit_def)
    then show ?thesis
      using rated_refl by blast
  next
    case False
    define rl where "rl = (case rate_limiting b of
        None \<Rightarrow> \<lparr>rl_limit = \<lparr>read_limit = 0, write_limit = 0, last_updated = 0\<rparr>, rl_cfg = None, refill_pending = False\<rparr>
      | Some rl \<Rightarrow> rl)"
    define k where "k = ev_token_bucket_init (rl_limit rl) c t (rl_cfg rl \<noteq> None)"
    define b1 where "b1 = b\<lparr>rate_limiting := Some (rl\<lparr>rl_cfg := Some c, rl_limit := k, refill_pending := False\<rparr>)\<rparr>"
    define b' where "b' = (if (\<not> 0 < read_limit k \<or> \<not> 0 < write_limit k) \<and> adds e
        then set_refill True (restart (adds e) k b1) else restart (adds e) k b1)"
    have k: "bucket_ok c k"
    proof (unfold k_def, rule init_ok [OF assms(4), of _ "the (rl_cfg rl)"])
      assume "rl_cfg rl \<noteq> None"
      then show "bucket_ok (the (rl_cfg rl)) (rl_limit rl)"
        using assms(3) by (auto simp: lim_ok_def rl_def split: option.splits)
    qed
    have "bufferevent_set_rate_limit e same b (Some c) = Inr (0, b')"
    proof -
      have f: "(same \<and> rate_limiting b \<noteq> None \<and> rl_cfg (the (rate_limiting b)) = Some c) = False"
        "(rate_limiting b = None \<and> \<not> small_allocs e) = False"
        using False by blast+
      show ?thesis
        unfolding bufferevent_set_rate_limit_def option.case t bindE_simps f if_False Let_def rl_def [symmetric]
          k_def [symmetric] b1_def [symmetric] b'_def restart_def
        by (rule refl)
    qed
    moreover have "rated g b b'"
    proof (rule ratedI)
      fix m r w
      assume "evs_ok g m r w b"
      then have ev: "evs_ok g m r w b1" "\<not> finalizing b1"
        using assms(1) by (simp_all add: b1_def)
      have "evs_ok g m (\<not> 0 < read_limit k) (\<not> 0 < write_limit k) b'"
      proof -
        have "evs_ok g m p q b' = evs_ok g m p q (restart (adds e) k b1)" for p q
          by (simp add: b'_def)
        then show ?thesis
          using evs_restart [OF ev assms(2), of k] by simp
      qed
      moreover have "lim_ok g (\<not> 0 < read_limit k) (\<not> 0 < write_limit k) b'"
        using k assms(1,2,4) by (auto simp: lim_ok_def b'_def b1_def)
      ultimately show "\<exists>r' w'. evs_ok g m r' w' b' \<and> lim_ok g r' w' b'"
        by blast
    qed (simp_all add: b'_def b1_def)
    ultimately show ?thesis
      by blast
  qed
qed

end
