(* ===== verification/Bufferevent_Run.thy ===== *)
theory Bufferevent_Run
  imports Bufferevent_Rate
begin

text \<open>
  The callbacks of the two events, whoever the client is: what they do to the buffers before they
  call the client, and which of its functions they call.
\<close>

section \<open>Reading from the socket\<close>

text \<open>How a callback ends: it returns, reports an event, or triggers the client's callback.\<close>

datatype ending = Returns | Reports u16 | Triggers u16

definition ends_in :: "ending \<Rightarrow> 'a bev_app \<Rightarrow> bufferevent \<Rightarrow> 'a \<Rightarrow> (bufferevent \<times> 'a) res" where
  "ends_in k app b s = (case k of
     Returns \<Rightarrow> Inr (b, s)
   | Reports what \<Rightarrow> bufferevent_run_eventcb app what 0 b s
   | Triggers iotype \<Rightarrow> bufferevent_trigger_nolock app iotype 0 b s)"

text \<open>What the client sees of a bufferevent, apart from its data.\<close>

definition client_part :: "bufferevent \<Rightarrow> bool \<times> bool \<times> bool \<times> nat \<times> nat \<times> u32 \<times> bool \<times> nat" where
  "client_part b = (readcb b, writecb b, errorcb b, wm_read_low b, wm_write_low b, bev_options b, deferred_scheduled b, bev_refcnt b)"

lemma client_part_erase: "erase b' = erase b \<Longrightarrow> client_part b' = client_part b"
proof -
  have "client_part (erase b) = client_part b" for b
    by (simp add: client_part_def erase_def)
  then show "erase b' = erase b \<Longrightarrow> client_part b' = client_part b"
    by (rule erase_cong)
qed

lemma client_part_frame [simp]:
  "client_part (b\<lparr>bev_input := buf\<rparr>) = client_part b" "client_part (b\<lparr>bev_output := buf\<rparr>) = client_part b"
  "client_part (b\<lparr>connection_refused := k\<rparr>) = client_part b" "client_part (b\<lparr>ev_write := k\<rparr>) = client_part b"
  by (simp_all add: client_part_def)

text \<open>What a callback of a running event leaves to its end.\<close>

definition ready :: "bool \<Rightarrow> bool \<Rightarrow> nat \<Rightarrow> bufferevent \<Rightarrow> evbuf \<Rightarrow> evbuf \<Rightarrow> bufferevent \<Rightarrow> bool" where
  "ready g held n b ins outs b' \<longleftrightarrow> leaves g held n ins outs b' \<and> client_part b' = client_part b"

lemma readyI:
  assumes "leaves g held n ins outs b'" "erase b' = erase b"
  shows "ready g held n b ins outs b'"
  using assms(1) client_part_erase [OF assms(2)] by (simp add: ready_def)

lemma rated_ready:
  assumes b: "bev_inv g held n b" and r: "rated g b b'"
  shows "ready g held n b (bytes_of (bev_input b)) (bytes_of (bev_output b)) b'"
proof (rule readyI)
  show e: "erase b' = erase b"
    using r by (simp add: rated_def)
  obtain r w where c: "io_st True True b" "evs_ok g (over b) r w b" "lim_ok g r w b" "refs_ok held n b"
    using b by (rule bev_invE)
  then obtain r' w' where "evs_ok g (over b) r' w' b'" "lim_ok g r' w' b'"
    using r unfolding rated_def by blast
  then have "bev_inv g held n b'"
    using c erase_eqD [OF e] by (intro bev_invI) auto
  then show "leaves g held n (bytes_of (bev_input b)) (bytes_of (bev_output b)) b'"
    by (simp add: leaves_def erase_eqD [OF e])
qed

lemma suspend_wm_ready:
  assumes b: "bev_inv g held n b" "over b"
  shows "ready g held n b (bytes_of (bev_input b)) (bytes_of (bev_output b)) (bufferevent_suspend_read b BEV_SUSPEND_WM)"
proof (rule readyI)
  show "leaves g held n (bytes_of (bev_input b)) (bytes_of (bev_output b)) (bufferevent_suspend_read b BEV_SUSPEND_WM)"
    using b(2) by (intro keeps_events [OF b(1)]) (auto dest: evs_suspend(1))
qed simp

lemma disable_ready:
  assumes b: "bev_inv g held n b"
  shows "ready g held n b (bytes_of (bev_input b)) (bytes_of (bev_output b)) (snd (bufferevent_disable b ev))"
  by (rule readyI [OF disable_call [OF b]]) simp

lemma leaves_inv: "leaves g held n ins outs b \<Longrightarrow> bev_inv g held n b"
  "leaves g held n ins outs b \<Longrightarrow> bytes_of (bev_input b) = ins"
  "leaves g held n ins outs b \<Longrightarrow> bytes_of (bev_output b) = outs"
  by (simp_all add: leaves_def)

lemma ready_trans: "ready g held n b ins outs b1 \<Longrightarrow> ready g held n b1 ins' outs' b2 \<Longrightarrow> ready g held n b ins' outs' b2"
  by (simp add: ready_def)

text \<open>What the socket delivers: bytes, at most as many as were asked for.\<close>

definition delivered :: "(nat \<Rightarrow> byte list option) \<Rightarrow> byte list \<Rightarrow> bool" where
  "delivered readv bs \<longleftrightarrow> bs = [] \<or> length bs \<le> 4096 \<and> (\<exists>k. readv k = Some bs)"

lemma asked_le_how: "0 < h \<Longrightarrow> int (asked avail h) \<le> h"
  by (auto simp: asked_def EVBUFFER_MAX_READ_def Let_def)

lemma unfreeze_end:
  assumes "ev_inv b" "quiet b" "\<not> freeze_start b"
  shows "ev_inv (evbuffer_unfreeze b False)" "quiet (evbuffer_unfreeze b False)"
    "\<not> freeze_end (evbuffer_unfreeze b False)" "\<not> freeze_start (evbuffer_unfreeze b False)"
    "callbacks (evbuffer_unfreeze b False) = callbacks b" "told (evbuffer_unfreeze b False) = told b"
    "bytes_of (evbuffer_unfreeze b False) = bytes_of b"
  using assms by (simp_all add: evbuffer_unfreeze_def ev_inv_def quiet_def bytes_of_def)

lemma freeze_end_again:
  assumes "io_st fe True b"
  shows "io_st True True (b\<lparr>bev_input := evbuffer_freeze (bev_input b) False\<rparr>)"
    "bytes_of (evbuffer_freeze (bev_input b) False) = bytes_of (bev_input b)"
    "over (b\<lparr>bev_input := evbuffer_freeze (bev_input b) False\<rparr>) = over b"
  using assms
  by (simp_all add: io_st_def evbuffer_freeze_def ev_inv_def quiet_def bytes_of_def wm_entry_frame over_def)

lemma fill_ok:
  assumes b: "bev_inv g held n b" "held \<or> n \<noteq> 0" and e: "env_ok g e" and rv: "readv_fits readv" and h: "0 < h"
    and s: "length (bytes_of (bev_input b)) + 4096 < 2 ^ 64"
  shows "\<exists>res b2 bs.
    on_input (adds e) (\<lambda>buf. evbuffer_read (mem_env e) avail readv (evbuffer_unfreeze buf False) h) b = Inr (res, b2)
    \<and> (res = -1 \<and> bs = [] \<or> res = int (length bs) \<and> res \<le> h \<and> delivered readv bs)
    \<and> ready g held n b (bytes_of (bev_input b) @ bs) (bytes_of (bev_output b))
        (b2\<lparr>bev_input := evbuffer_freeze (bev_input b2) False\<rparr>)
    \<and> rate_limiting b2 = rate_limiting b"
proof -
  obtain r w where c: "io_st True True b" "evs_ok g (over b) r w b" "lim_ok g r w b" "refs_ok held n b"
    using b(1) by (rule bev_invE)
  have nf: "\<not> finalizing b"
    using alive [OF b] by simp
  have m: "malloc_sized (mem_env e)" "g \<longrightarrow> adds e"
    using e by (simp_all add: env_ok_def)
  define x where "x = evbuffer_unfreeze (bev_input b) False"
  have "ev_inv (bev_input b)" "quiet (bev_input b)" "\<not> freeze_start (bev_input b)"
    using c(1) by (simp_all add: io_st_def)
  note x = unfreeze_end [OF this, folded x_def]
  obtain res buf bs where f: "evbuffer_read (mem_env e) avail readv x h = Inr (res, buf)"
    "res = -1 \<and> bs = [] \<or> res = int (length bs) \<and> length bs \<le> asked avail h \<and> readv (asked avail h) = Some bs"
    "effect (length bs) 0 x (bytes_of x @ bs) buf"
    using read_fd_effect [OF m(1) rv x(1-3) _ s [folded x(7)], of h avail] h by fastforce
  define b2 where "b2 = inbuf_calls (adds e) (drop (length (told (bev_input b))) (told buf)) (b\<lparr>bev_input := buf\<rparr>)"
  note st = inbuf_step [OF c(1,2) nf m(2) x(5-7) x(4) f(3), folded b2_def, simplified]
  note er = erase_eqD [OF st(1)]
  define b3 where "b3 = b2\<lparr>bev_input := evbuffer_freeze (bev_input b2) False\<rparr>"
  have io2: "io_st False True b2"
    using st(4) x(3) by simp
  note fz = freeze_end_again [OF io2, folded b3_def]
  have "bev_inv g held n b3"
  proof (rule bev_invI)
    show "evs_ok g (over b3) r w b3"
      using st(5) fz(3) by (simp add: b3_def evs_input)
    show "lim_ok g r w b3"
      using c(3) lim_cong [of b3 b] st(3) er by (simp add: b3_def)
    show "refs_ok held n b3"
      using c(4) er(3) by (simp add: b3_def)
  qed (rule fz(1))
  moreover have "bytes_of (bev_input b3) = bytes_of (bev_input b) @ bs" "bytes_of (bev_output b3) = bytes_of (bev_output b)"
    using fz(2) er f(3) x(7) by (simp_all add: b3_def effect_def becomes_def)
  moreover have "client_part b3 = client_part b"
    using client_part_erase [OF st(1)] by (simp add: b3_def)
  ultimately have rdy: "ready g held n b (bytes_of (bev_input b) @ bs) (bytes_of (bev_output b)) b3"
    by (simp add: ready_def leaves_def)
  have "res = -1 \<and> bs = [] \<or> res = int (length bs) \<and> res \<le> h \<and> delivered readv bs"
    using f(2) asked_le_how [OF h, of avail] asked_le [of avail h] by (auto simp: delivered_def)
  then show ?thesis
    using f(1) rdy st(3) by (auto simp: on_input_def x_def b2_def b3_def)
qed

lemma refused_frame [simp]:
  "io_st fe fs (b\<lparr>connection_refused := k\<rparr>) = io_st fe fs b"
  "evs_ok g m r w (b\<lparr>connection_refused := k\<rparr>) = evs_ok g m r w b"
  "refs_ok held n (b\<lparr>connection_refused := k\<rparr>) = refs_ok held n b"
  "over (b\<lparr>connection_refused := k\<rparr>) = over b"
  by (simp_all add: io_st_def wm_entry_def evs_ok_def reads_on_def writes_on_def refs_ok_def over_def)

lemma refused_ready:
  assumes "ready g held n b0 ins outs b"
  shows "ready g held n b0 ins outs (b\<lparr>connection_refused := k\<rparr>)"
proof -
  have bi: "bev_inv g held n b" and o: "bytes_of (bev_input b) = ins" "bytes_of (bev_output b) = outs"
    using assms by (simp_all add: ready_def leaves_def)
  obtain r w where c: "io_st True True b" "evs_ok g (over b) r w b" "lim_ok g r w b" "refs_ok held n b"
    using bi by (rule bev_invE)
  have "bev_inv g held n (b\<lparr>connection_refused := k\<rparr>)"
    by (rule bev_invI [of _ _ r w]) (use c lim_cong [of "b\<lparr>connection_refused := k\<rparr>" b] in simp_all)
  then show ?thesis
    using assms o by (simp add: ready_def leaves_def)
qed

lemma rlim_ready:
  assumes b: "bev_inv g held n b" "held \<or> n \<noteq> 0"
  shows "\<exists>lim b'. bufferevent_get_rlim_max e is_write b = Inr (lim, b')
    \<and> ready g held n b (bytes_of (bev_input b)) (bytes_of (bev_output b)) b'
    \<and> ((if is_write then write_suspended b' else read_suspended b') = 0 \<longrightarrow> 0 < lim)
    \<and> (\<not> is_write \<longrightarrow> lim < 2 ^ 31) \<and> (has_cfg b' \<longrightarrow> lim \<le> max 0 (limit_of is_write b'))
    \<and> erase b' = erase b \<and> ev_write b' = ev_write b \<and> enabled b' = enabled b"
proof -
  obtain r w where c: "io_st True True b" "evs_ok g (over b) r w b" "lim_ok g r w b" "refs_ok held n b"
    using b(1) by (rule bev_invE)
  have al: "\<not> finalizing b" "\<not> freed b"
    using alive [OF b] by simp_all
  obtain lim b' where l: "bufferevent_get_rlim_max e is_write b = Inr (lim, b')" "erase b' = erase b" "lim_ok g r w b'"
    "\<forall>m. evs_ok g m r w b' = evs_ok g m r w b" "read_suspended b' = read_suspended b"
    "write_suspended b' = write_suspended b" "\<not> (if is_write then w else r) \<longrightarrow> 0 < lim"
    "\<not> is_write \<longrightarrow> lim < 2 ^ 31" "has_cfg b' \<longrightarrow> lim \<le> max 0 (limit_of is_write b')"
    "ev_write b' = ev_write b" "enabled b' = enabled b"
    using rlim_max_ok [OF c(1) al c(3), of e is_write] by blast
  note er = erase_eqD [OF l(2)]
  have "bev_inv g held n b'"
    by (rule bev_invI [of _ _ r w]) (use c er l in simp_all)
  then have "ready g held n b (bytes_of (bev_input b)) (bytes_of (bev_output b)) b'"
    using er client_part_erase [OF l(2)] by (simp add: ready_def leaves_def)
  moreover have "(if is_write then write_suspended b' else read_suspended b') = 0 \<longrightarrow> 0 < lim"
    using l(5-7) evs_okD(1,2) [OF c(2)] by auto
  ultimately show ?thesis
    using l by blast
qed

text \<open>How many bytes are asked for: up to the watermark and the limit.\<close>

definition howmuch :: "bufferevent \<Rightarrow> int" where
  "howmuch b = (if wm_read_high b \<noteq> 0
     then as_ssize (int (wm_read_high b) - int (evbuffer_get_length (bev_input b))) else -1)"

lemma howmuch_eq:
  assumes "io_st True True b" "length (bytes_of (bev_input b)) < 2 ^ 63"
  shows "wm_read_high b \<noteq> 0 \<Longrightarrow> howmuch b = int (wm_read_high b) - int (length (bytes_of (bev_input b)))"
    "wm_read_high b \<noteq> 0 \<and> howmuch b \<le> 0 \<longleftrightarrow> over b"
proof -
  have l: "evbuffer_get_length (bev_input b) = length (bytes_of (bev_input b))" "wm_read_high b < 2 ^ 63"
    using assms(1) by (simp_all add: io_st_def length_bytes)
  show *: "howmuch b = int (wm_read_high b) - int (length (bytes_of (bev_input b)))" if "wm_read_high b \<noteq> 0"
    unfolding howmuch_def l(1) using that l(2) assms(2) by (simp add: as_ssize_id)
  then show "wm_read_high b \<noteq> 0 \<and> howmuch b \<le> 0 \<longleftrightarrow> over b"
    by (auto simp: over_def)
qed

text \<open>The end of the callback for reading, by the result of the read.\<close>

definition read_ending :: "int \<Rightarrow> sock_error \<Rightarrow> ending" where
  "read_ending res err =
    (if res = -1 then if err = OtherError then Reports (BEV_EVENT_READING OR BEV_EVENT_ERROR) else Returns
     else if res = 0 then Reports (BEV_EVENT_READING OR BEV_EVENT_EOF)
     else Triggers EV_READ)"

definition read_done ::
  "'a bev_app \<Rightarrow> bev_env \<Rightarrow> int \<Rightarrow> sock_error \<Rightarrow> bufferevent \<Rightarrow> 'a \<Rightarrow> (bufferevent \<times> 'a) res" where
  "read_done app e res err b s =
    (if res = -1 then
       (case err of
          Retriable \<Rightarrow> Inr (b, s)
        | Refused \<Rightarrow> Inr (b\<lparr>connection_refused := True\<rparr>, s)
        | OtherError \<Rightarrow> read_error app (BEV_EVENT_READING OR BEV_EVENT_ERROR) b s)
     else if res = 0 then read_error app (BEV_EVENT_READING OR BEV_EVENT_EOF) b s
     else bufferevent_trigger_nolock app EV_READ 0 (snd (bufferevent_decrement_read_buckets e b res)) s)"

lemma read_done_ends:
  assumes rdy: "ready g held n b0 ins outs b" and h: "held \<or> n \<noteq> 0" and ge: "g \<longrightarrow> adds e"
    and a: "res \<noteq> -1 \<Longrightarrow> res \<noteq> 0 \<Longrightarrow> 0 < res \<and> affordable False b res"
  shows "\<exists>b'. (\<forall>(app :: 'a bev_app) s. read_done app e res err b s = ends_in (read_ending res err) app b' s)
    \<and> ready g held n b0 ins outs b'"
proof -
  have i: "bev_inv g held n b" "bytes_of (bev_input b) = ins" "bytes_of (bev_output b) = outs"
    using rdy by (simp_all add: ready_def leaves_def)
  define b' where "b' = (if res = -1 then
       (case err of Retriable \<Rightarrow> b | Refused \<Rightarrow> b\<lparr>connection_refused := True\<rparr>
        | OtherError \<Rightarrow> snd (bufferevent_disable b EV_READ))
     else if res = 0 then snd (bufferevent_disable b EV_READ)
     else snd (bufferevent_decrement_read_buckets e b res))"
  have "read_done app e res err b s = ends_in (read_ending res err) app b' s" for app :: "'a bev_app" and s
    by (cases err) (simp_all add: read_done_def read_ending_def b'_def ends_in_def read_error_def)
  moreover have "ready g held n b0 ins outs b'"
  proof (cases "res = -1 \<or> res = 0")
    case True
    then show ?thesis
      using rdy refused_ready [OF rdy, of True] ready_trans [OF rdy disable_ready [OF i(1), of EV_READ]] i(2,3)
      by (auto simp: b'_def split: sock_error.split)
  next
    case False
    then have "rated g b (snd (bufferevent_decrement_read_buckets e b res))"
      using alive [OF i(1) h] a by (intro dec_read_rated ge) simp_all
    from ready_trans [OF rdy rated_ready [OF i(1) this]] show ?thesis
      using False i(2,3) by (simp add: b'_def)
  qed
  ultimately show ?thesis
    by blast
qed

lemma read_in_some:
  assumes b: "bev_inv g held n b" "held \<or> n \<noteq> 0" and e: "env_ok g e" and rv: "readv_fits readv"
    and s: "length (bytes_of (bev_input b)) + 4096 < 2 ^ 63" and no: "\<not> over b"
    and l: "bufferevent_get_rlim_max e False b = Inr (lim, b1)" "read_suspended b1 = 0" "0 < lim" "lim < 2 ^ 31"
      "has_cfg b1 \<longrightarrow> lim \<le> max 0 (limit_of False b1)"
      "ready g held n b (bytes_of (bev_input b)) (bytes_of (bev_output b)) b1"
  shows "\<exists>res b' bs. (\<forall>(app :: 'a bev_app) s. readcb_body app e False avail readv err b s
        = ends_in (read_ending res err) app b' s)
    \<and> delivered readv bs \<and> (bs \<noteq> [] \<longrightarrow> 0 < res)
    \<and> ready g held n b (bytes_of (bev_input b) @ bs) (bytes_of (bev_output b)) b'"
proof -
  have b1: "bev_inv g held n b1" "bytes_of (bev_input b1) = bytes_of (bev_input b)"
      "bytes_of (bev_output b1) = bytes_of (bev_output b)" and ge: "g \<longrightarrow> adds e"
    using l(6) e by (simp_all add: ready_def leaves_def env_ok_def)
  have io: "io_st True True b"
    using b(1) by (rule bev_invE)
  have hm: "(wm_read_high b \<noteq> 0 \<and> howmuch b \<le> 0) = False"
    using howmuch_eq(2) [OF io] s no by simp
  define h where "h = (if howmuch b < 0 \<or> howmuch b > lim then lim else howmuch b)"
  have "howmuch b \<noteq> 0"
    using hm by (cases "wm_read_high b = 0") (auto simp: howmuch_def)
  then have h: "0 < h" "h \<le> lim" "h < 2 ^ 31"
    using l(3,4) by (auto simp: h_def)
  then have ah: "as_int h = h"
    using as_int_of_nat [of "nat h"] by simp
  obtain res b2 bs where f: "on_input (adds e) (\<lambda>buf. evbuffer_read (mem_env e) avail readv
        (evbuffer_unfreeze buf False) h) b1 = Inr (res, b2)"
      "res = -1 \<and> bs = [] \<or> res = int (length bs) \<and> res \<le> h \<and> delivered readv bs"
      "ready g held n b1 (bytes_of (bev_input b1) @ bs) (bytes_of (bev_output b1))
         (b2\<lparr>bev_input := evbuffer_freeze (bev_input b2) False\<rparr>)"
      "rate_limiting b2 = rate_limiting b1"
    using fill_ok [OF b1(1) b(2) e rv h(1), of avail] s b1(2) by auto
  define b3 where "b3 = b2\<lparr>bev_input := evbuffer_freeze (bev_input b2) False\<rparr>"
  have body: "readcb_body app e False avail readv err b s = read_done app e res err b3 s"
    for app :: "'a bev_app" and s
  proof -
    have f0: "(read_suspended b1 \<noteq> 0) = False"
      using l(2) by simp
    show ?thesis
      unfolding readcb_body_def Let_def howmuch_def [symmetric] hm l(1) f0 bindE_simps prod.case if_False
        h_def [symmetric] ah f(1) b3_def [symmetric] read_done_def
      by (rule refl)
  qed
  have rdy: "ready g held n b (bytes_of (bev_input b) @ bs) (bytes_of (bev_output b)) b3"
    using ready_trans [OF l(6) f(3)] b1 by (simp add: b3_def)
  have "0 < res \<and> affordable False b3 res" if "res \<noteq> -1" "res \<noteq> 0"
    using f(2,4) that h(1,2) l(5) by (auto simp: affordable_def has_cfg_def limit_of_def b3_def)
  from read_done_ends [OF rdy b(2) ge this] body f(2) show ?thesis
    by (fastforce simp: delivered_def)
qed

lemma readcb_ends:
  assumes b: "bev_inv g held n b" "held \<or> n \<noteq> 0" and e: "env_ok g e" and rv: "readv_fits readv"
    and s: "length (bytes_of (bev_input b)) + 4096 < 2 ^ 63"
  shows "\<exists>k b' bs. (\<forall>(app :: 'a bev_app) s. readcb_body app e timeout avail readv err b s = ends_in k app b' s)
    \<and> delivered readv bs \<and> (bs \<noteq> [] \<longrightarrow> k = Triggers EV_READ) \<and> k \<noteq> Triggers EV_WRITE
    \<and> ready g held n b (bytes_of (bev_input b) @ bs) (bytes_of (bev_output b)) b'"
proof -
  have io: "io_st True True b"
    using b(1) by (rule bev_invE)
  have hm: "wm_read_high b \<noteq> 0 \<and> howmuch b \<le> 0 \<longleftrightarrow> over b"
    using howmuch_eq(2) [OF io] s by simp
  note def = readcb_body_def [where b = b, folded howmuch_def, unfolded Let_def]
  have stop: ?thesis if "\<And>(app :: 'a bev_app) s. readcb_body app e timeout avail readv err b s = ends_in k app b' s"
      "ready g held n b (bytes_of (bev_input b)) (bytes_of (bev_output b)) b'" "k = Returns \<or> k = Reports what"
    for k b' what
    using that by (intro exI [of _ k] exI [of _ b'] exI [of _ "[]"]) (auto simp: delivered_def)
  obtain lim b1 where l: "bufferevent_get_rlim_max e False b = Inr (lim, b1)"
    "ready g held n b (bytes_of (bev_input b)) (bytes_of (bev_output b)) b1"
    "read_suspended b1 = 0 \<longrightarrow> 0 < lim" "lim < 2 ^ 31" "has_cfg b1 \<longrightarrow> lim \<le> max 0 (limit_of False b1)"
    using rlim_ready [OF b, of e False] by auto
  consider "timeout" | "\<not> timeout" "over b" | "\<not> timeout" "\<not> over b" "read_suspended b1 \<noteq> 0"
    | "\<not> timeout" "\<not> over b" "read_suspended b1 = 0"
    by blast
  then show ?thesis
  proof cases
    case 1
    then show ?thesis
      using disable_ready [OF b(1), of EV_READ]
      by (intro stop [of "Reports (BEV_EVENT_READING OR BEV_EVENT_TIMEOUT)"])
        (simp_all add: def read_error_def ends_in_def)
  next
    case 2
    then show ?thesis
      using suspend_wm_ready [OF b(1)] hm by (intro stop [of Returns]) (simp_all add: def ends_in_def)
  next
    case 3
    then show ?thesis
      using hm l(1,2) by (intro stop [of Returns b1]) (auto simp: def ends_in_def)
  next
    case 4
    have rw: "EV_READ \<noteq> EV_WRITE"
      by (simp add: EV_READ_def EV_WRITE_def)
    obtain res b' bs where r: "\<forall>(app :: 'a bev_app) s. readcb_body app e False avail readv err b s
          = ends_in (read_ending res err) app b' s"
      "delivered readv bs" "bs \<noteq> [] \<longrightarrow> 0 < res"
      "ready g held n b (bytes_of (bev_input b) @ bs) (bytes_of (bev_output b)) b'"
      using read_in_some [OF b e rv s 4(2) l(1) 4(3) _ l(4,5,2), where 'a = 'a and err = err and avail = avail] l(3) 4(3)
      by blast
    have "(bs \<noteq> [] \<longrightarrow> read_ending res err = Triggers EV_READ) \<and> read_ending res err \<noteq> Triggers EV_WRITE"
      using r(3) rw by (auto simp: read_ending_def)
    then show ?thesis
      using r(1,2,4) 4(1) by (intro exI [of _ "read_ending res err"] exI [of _ b'] exI [of _ bs]) simp
  qed
qed

section \<open>Writing to the socket\<close>

lemma unfreeze_start:
  assumes "ev_inv b" "quiet b" "\<not> freeze_end b"
  shows "ev_inv (evbuffer_unfreeze b True)" "quiet (evbuffer_unfreeze b True)"
    "\<not> freeze_start (evbuffer_unfreeze b True)" "\<not> freeze_end (evbuffer_unfreeze b True)"
    "callbacks (evbuffer_unfreeze b True) = callbacks b" "told (evbuffer_unfreeze b True) = told b"
    "bytes_of (evbuffer_unfreeze b True) = bytes_of b"
  using assms by (simp_all add: evbuffer_unfreeze_def ev_inv_def quiet_def bytes_of_def)

lemma freeze_start_again:
  assumes "io_st True fs b"
  shows "io_st True True (b\<lparr>bev_output := evbuffer_freeze (bev_output b) True\<rparr>)"
    "bytes_of (evbuffer_freeze (bev_output b) True) = bytes_of (bev_output b)"
    "over (b\<lparr>bev_output := evbuffer_freeze (bev_output b) True\<rparr>) = over b"
  using assms
  by (simp_all add: io_st_def evbuffer_freeze_def ev_inv_def quiet_def bytes_of_def wm_entry_frame over_def)

lemma evs_output:
  "bytes_of buf = bytes_of (bev_output b) \<Longrightarrow> evs_ok g m r w (b\<lparr>bev_output := buf\<rparr>) = evs_ok g m r w b"
  by (simp add: evs_ok_def reads_on_def writes_on_def)

lemma empty_out_ok:
  assumes b: "bev_inv g held n b" "held \<or> n \<noteq> 0" and wv: "writev_fits writev" and h: "0 < h"
    and ne: "bytes_of (bev_output b) \<noteq> []"
  shows "\<exists>res b2.
    on_output can (\<lambda>buf. evbuffer_write_atmost writev (evbuffer_unfreeze buf True) h) b = Inr (res, b2)
    \<and> res \<le> h \<and> (\<exists>j. res = writev (take j (bytes_of (bev_output b))) \<and> res \<le> int (length (take j (bytes_of (bev_output b)))))
    \<and> ready g held n b (bytes_of (bev_input b)) (drop (nat res) (bytes_of (bev_output b)))
        (b2\<lparr>bev_output := evbuffer_freeze (bev_output b2) True\<rparr>)
    \<and> rate_limiting b2 = rate_limiting b"
proof -
  obtain r w where c: "io_st True True b" "evs_ok g (over b) r w b" "lim_ok g r w b" "refs_ok held n b"
    using b(1) by (rule bev_invE)
  have nf: "\<not> finalizing b"
    using alive [OF b] by simp
  define x where "x = evbuffer_unfreeze (bev_output b) True"
  have "ev_inv (bev_output b)" "quiet (bev_output b)" "\<not> freeze_end (bev_output b)"
    using c(1) by (simp_all add: io_st_def)
  note x = unfreeze_start [OF this, folded x_def]
  obtain res buf where f: "evbuffer_write_atmost writev x h = Inr (res, buf)" "res \<le> h"
    "\<exists>j. res = writev (take j (bytes_of x)) \<and> res \<le> int (length (take j (bytes_of x)))"
    "effect 0 (nat res) x (drop (nat res) (bytes_of x)) buf"
    using write_fd_effect [OF wv x(1-3) _ h] ne x(7) by auto
  define b2 where "b2 = outbuf_calls can (drop (length (told (bev_output b))) (told buf)) (b\<lparr>bev_output := buf\<rparr>)"
  note st = outbuf_step [OF c(1) x(5-7) x(4) f(4), of can, folded b2_def, simplified]
  define b3 where "b3 = b2\<lparr>bev_output := evbuffer_freeze (bev_output b2) True\<rparr>"
  note fz = freeze_start_again [OF st(2), folded b3_def]
  have "bev_inv g held n b3"
  proof (rule bev_invI)
    have "evs_ok g (over b) r w b2"
      using evs_outbuf [OF c(2) nf, of True 0 buf] ne st(1) by simp
    moreover have "over b2 = over b"
      by (simp add: st(1) over_def)
    ultimately show "evs_ok g (over b3) r w b3"
      using evs_output [OF fz(2), of g "over b" r w] fz(3) by (simp add: b3_def)
    show "lim_ok g r w b3"
      using c(3) lim_cong [of b3 b] st(1) by (simp add: b3_def)
    show "refs_ok held n b3"
      using c(4) by (simp add: b3_def st(1))
  qed (rule fz(1))
  moreover have "bytes_of (bev_output b3) = drop (nat res) (bytes_of (bev_output b))" "bev_input b3 = bev_input b"
    using fz(2) f(4) x(7) st(1) by (simp_all add: b3_def effect_def becomes_def)
  moreover have "client_part b3 = client_part b"
    using st(1) by (simp add: b3_def)
  ultimately have "ready g held n b (bytes_of (bev_input b)) (drop (nat res) (bytes_of (bev_output b))) b3"
    by (simp add: ready_def leaves_def)
  then show ?thesis
    using f(1-3) x(7) st(1) by (auto simp: on_output_def x_def b2_def b3_def)
qed

lemma stop_ready:
  assumes "ready g held n b0 ins outs b"
  shows "ready g held n b0 ins outs (stop_if_empty b)"
proof (cases "bytes_of (bev_output b) = []")
  case False
  have "bev_inv g held n b"
    using assms by (simp add: ready_def leaves_def)
  then have "ev_inv (bev_output b)"
    by (auto elim!: bev_invE simp: io_st_def)
  then show ?thesis
    using False assms by (simp add: stop_if_empty_def length_bytes)
next
  case True
  have bi: "bev_inv g held n b"
    using assms by (simp add: ready_def leaves_def)
  obtain r w where c: "io_st True True b" "evs_ok g (over b) r w b" "lim_ok g r w b" "refs_ok held n b"
    using bi by (rule bev_invE)
  have s: "stop_if_empty b = b\<lparr>ev_write := False\<rparr>"
    using True c(1) by (simp add: stop_if_empty_def length_bytes io_st_def)
  have "evs_ok g (over b) r w (b\<lparr>ev_write := False\<rparr>)"
  proof -
    have "reads_on (b\<lparr>ev_write := False\<rparr>) = reads_on b" "writes_on (b\<lparr>ev_write := False\<rparr>) = writes_on b"
      by (simp_all add: reads_on_def writes_on_def)
    then show ?thesis
      using evs_okD(1-3) [OF c(2)] True
      by (simp add: evs_ok_def) (use evs_okD(4-9) [OF c(2)] in blast)
  qed
  then have "bev_inv g held n (b\<lparr>ev_write := False\<rparr>)"
    using c erase_eqD [OF erase_ev(2) [where b = b and x = False]] lim_cong [of "b\<lparr>ev_write := False\<rparr>" b]
    by (intro bev_invI [of _ _ r w]) simp_all
  then show ?thesis
    using assms by (simp add: s ready_def leaves_def)
qed

text \<open>What the socket accepts: some bytes of those at the front.\<close>

definition accepted :: "(byte list \<Rightarrow> int) \<Rightarrow> evbuf \<Rightarrow> nat \<Rightarrow> bool" where
  "accepted writev outs m \<longleftrightarrow> m = 0 \<or> (\<exists>j. int m = writev (take j outs)) \<and> m \<le> length outs"

text \<open>The end of the callback for writing, by the result of the write.\<close>

definition wrote_ending :: "int \<Rightarrow> sock_error \<Rightarrow> ending" where
  "wrote_ending res err =
    (if res = -1 then if err = Retriable then Returns else Reports (BEV_EVENT_WRITING OR BEV_EVENT_ERROR)
     else if res = 0 then Reports (BEV_EVENT_WRITING OR BEV_EVENT_EOF)
     else if res < 0 then Reports BEV_EVENT_WRITING
     else Triggers EV_WRITE)"

lemma write_out_some:
  assumes b: "bev_inv g held n b" "held \<or> n \<noteq> 0" and ge: "g \<longrightarrow> adds e" and wv: "writev_fits writev"
    and l: "bufferevent_get_rlim_max e True b = Inr (lim, b1)" "write_suspended b1 = 0" "0 < lim"
      "has_cfg b1 \<longrightarrow> lim \<le> max 0 (limit_of True b1)"
      "ready g held n b (bytes_of (bev_input b)) (bytes_of (bev_output b)) b1"
    and ne: "bytes_of (bev_output b) \<noteq> []"
  shows "\<exists>res b' m. (\<forall>(app :: 'a bev_app) s. write_out app e writev err connected b s
        = ends_in (wrote_ending res err) app b' s)
    \<and> accepted writev (bytes_of (bev_output b)) m
    \<and> ready g held n b (bytes_of (bev_input b)) (drop m (bytes_of (bev_output b))) b'"
proof -
  have b1: "bev_inv g held n b1" "bytes_of (bev_input b1) = bytes_of (bev_input b)"
      "bytes_of (bev_output b1) = bytes_of (bev_output b)"
    using l(5) by (simp_all add: ready_def leaves_def)
  obtain res b2 where f: "on_output (adds e) (\<lambda>buf. evbuffer_write_atmost writev (evbuffer_unfreeze buf True) lim) b1
        = Inr (res, b2)" "res \<le> lim"
      "\<exists>j. res = writev (take j (bytes_of (bev_output b1))) \<and> res \<le> int (length (take j (bytes_of (bev_output b1))))"
      "ready g held n b1 (bytes_of (bev_input b1)) (drop (nat res) (bytes_of (bev_output b1)))
         (b2\<lparr>bev_output := evbuffer_freeze (bev_output b2) True\<rparr>)" "rate_limiting b2 = rate_limiting b1"
    using empty_out_ok [OF b1(1) b(2) wv l(3), of "adds e"] ne b1(3) by auto
  define b3 where "b3 = b2\<lparr>bev_output := evbuffer_freeze (bev_output b2) True\<rparr>"
  have len: "(evbuffer_get_length (bev_output b1) \<noteq> 0) = True" "(write_suspended b1 \<noteq> 0) = False"
    using b1 ne l(2) by (auto elim!: bev_invE simp: io_st_def length_bytes)
  have rdy: "ready g held n b (bytes_of (bev_input b)) (drop (nat res) (bytes_of (bev_output b))) b3"
    using ready_trans [OF l(5) f(4)] b1 by (simp add: b3_def)
  then have i3: "bev_inv g held n b3" and bb: "bytes_of (bev_input b3) = bytes_of (bev_input b)"
      "bytes_of (bev_output b3) = drop (nat res) (bytes_of (bev_output b))"
    by (simp_all add: ready_def leaves_def)
  have acc: "accepted writev (bytes_of (bev_output b)) (nat res)"
    using f(3) b1(3) by (cases "res \<le> 0") (auto simp: accepted_def)
  define b4 where "b4 = snd (bufferevent_decrement_write_buckets e b3 res)"
  have body: "write_out app e writev err connected b s =
      (if res = -1 then
         (case err of
            Retriable \<Rightarrow> Inr (stop_if_empty b3, s)
          | _ \<Rightarrow> write_error app (BEV_EVENT_WRITING OR BEV_EVENT_ERROR) b3 s)
       else if res = 0 then write_error app (BEV_EVENT_WRITING OR BEV_EVENT_EOF) b3 s
       else if res < 0 then write_error app BEV_EVENT_WRITING b3 s
       else bufferevent_trigger_nolock app EV_WRITE 0 (stop_if_empty b4) s)"
    for app :: "'a bev_app" and s
    unfolding write_out_def l(1) bindE_simps prod.case len if_True if_False f(1) Let_def b3_def [symmetric]
      b4_def [symmetric] by (rule refl)
  define b' where "b' = (if 0 < res then stop_if_empty b4
      else if res = -1 \<and> err = Retriable then stop_if_empty b3 else snd (bufferevent_disable b3 EV_WRITE))"
  have "ready g held n b (bytes_of (bev_input b)) (drop (nat res) (bytes_of (bev_output b))) b'"
  proof (cases "0 < res")
    case True
    have "affordable True b3 res"
      using True f(2,5) l(3,4) by (auto simp: affordable_def has_cfg_def limit_of_def b3_def)
    then have "rated g b3 b4"
      unfolding b4_def using alive [OF i3 b(2)] by (intro dec_write_rated ge) simp_all
    from stop_ready [OF ready_trans [OF rdy rated_ready [OF i3 this]]]
    show ?thesis
      using True bb by (simp add: b'_def)
  next
    case False
    then show ?thesis
      using stop_ready [OF rdy] ready_trans [OF rdy disable_ready [OF i3, of EV_WRITE]] bb by (simp add: b'_def)
  qed
  moreover have "write_out app e writev err connected b s = ends_in (wrote_ending res err) app b' s"
    for app :: "'a bev_app" and s
    unfolding body
    by (cases err) (simp_all add: wrote_ending_def ends_in_def b'_def write_error_def)
  ultimately show ?thesis
    using acc by blast
qed

lemma writecb_ends:
  assumes b: "bev_inv g held n b" "held \<or> n \<noteq> 0" and ge: "g \<longrightarrow> adds e" and wv: "writev_fits writev"
  shows "\<exists>k b' m. (\<forall>(app :: 'a bev_app) s. writecb_body app e timeout finished writev err b s = ends_in k app b' s)
    \<and> k \<noteq> Triggers EV_READ \<and> accepted writev (bytes_of (bev_output b)) m
    \<and> ready g held n b (bytes_of (bev_input b)) (drop m (bytes_of (bev_output b))) b'"
proof -
  obtain r w where c: "io_st True True b" "evs_ok g (over b) r w b" "lim_ok g r w b" "refs_ok held n b"
    using b(1) by (rule bev_invE)
  have nc: "\<not> connecting b"
    by (rule evs_okD(3) [OF c(2)])
  have rw: "EV_WRITE \<noteq> EV_READ"
    by (simp add: EV_READ_def EV_WRITE_def)
  have none: ?thesis if "\<And>(app :: 'a bev_app) s. writecb_body app e timeout finished writev err b s = ends_in k app b' s"
      "ready g held n b (bytes_of (bev_input b)) (bytes_of (bev_output b)) b'" "k \<noteq> Triggers EV_READ" for k b'
    using that by (intro exI [of _ k] exI [of _ b'] exI [of _ 0]) (auto simp: accepted_def)
  show ?thesis
  proof (cases timeout)
    case True
    then show ?thesis
      using disable_ready [OF b(1), of EV_WRITE]
      by (intro none [of "Reports (BEV_EVENT_WRITING OR BEV_EVENT_TIMEOUT)"])
        (simp_all add: writecb_body_def write_error_def ends_in_def)
  next
    case False
    obtain lim b1 where l: "bufferevent_get_rlim_max e True b = Inr (lim, b1)"
      "ready g held n b (bytes_of (bev_input b)) (bytes_of (bev_output b)) b1"
      "write_suspended b1 = 0 \<longrightarrow> 0 < lim" "has_cfg b1 \<longrightarrow> lim \<le> max 0 (limit_of True b1)"
      using rlim_ready [OF b, of e True] by auto
    have wb: "writecb_body app e timeout finished writev err b s = write_out app e writev err False b s"
      for app :: "'a bev_app" and s
      using False nc by (simp add: writecb_body_def)
    have len: "evbuffer_get_length (bev_output b1) = length (bytes_of (bev_output b))"
      using l(2) by (auto simp: ready_def leaves_def io_st_def length_bytes elim!: bev_invE)
    consider "write_suspended b1 \<noteq> 0" | "write_suspended b1 = 0" "bytes_of (bev_output b) = []"
      | "write_suspended b1 = 0" "bytes_of (bev_output b) \<noteq> []"
      by blast
    then show ?thesis
    proof cases
      case 1
      then show ?thesis
        using l(1,2) by (intro none [of Returns b1]) (simp_all add: wb write_out_def ends_in_def)
    next
      case 2
      then show ?thesis
        using l(1) stop_ready [OF l(2)] len rw
        by (intro none [of "Triggers EV_WRITE" "stop_if_empty b1"]) (simp_all add: wb write_out_def ends_in_def)
    next
      case 3
      have k: "wrote_ending res err \<noteq> Triggers EV_READ" for res
        using rw by (auto simp: wrote_ending_def)
      show ?thesis
        unfolding wb using write_out_some [OF b ge wv l(1) 3(1) _ l(4,2) 3(2), of err False] l(3) 3(1) k
        by blast
    qed
  qed
qed

end
