(* ===== verification/Bufferevent_Client.thy ===== *)
theory Bufferevent_Client
  imports Bufferevent_Run
begin

text \<open>
  Bufferevents with their clients. A client is any program that makes calls on the bufferevent,
  from the functions it gave to \<open>bufferevent_setcb\<close> or from elsewhere in the event loop. The locale
  is the interface between the two: what the callbacks of a bufferevent need of the client's
  functions, and what they guarantee then.
\<close>

section \<open>Effects on a bufferevent and its client\<close>

text \<open>
  The client's own state, whether it still holds the bufferevent, and all the bytes it has taken
  from the input and put into the output so far.
\<close>

record 'a client_link =
  client :: 'a
  holds :: bool
  took :: "byte list"
  wrote :: "byte list"

text \<open>
  \<open>bs\<close> has arrived, \<open>m\<close> bytes have gone out, and the client has written at most \<open>k\<close> bytes; what it
  keeps of its own state, \<open>J\<close>, is kept.
\<close>

definition moved ::
  "('a client_link \<Rightarrow> bool) \<Rightarrow> bool \<Rightarrow> nat \<Rightarrow> nat \<Rightarrow> byte list \<Rightarrow> nat \<Rightarrow> bufferevent \<times> 'a client_link \<Rightarrow> bufferevent \<times> 'a client_link \<Rightarrow> bool" where
  "moved J g n k bs m x y \<longleftrightarrow>
     bev_inv g (holds (snd y)) n (fst y) \<and> (holds (snd y) \<longrightarrow> holds (snd x))
     \<and> (J (snd x) \<longrightarrow> J (snd y)) \<and> (\<exists>t. took (snd y) = took (snd x) @ t)
     \<and> took (snd y) @ bytes_of (bev_input (fst y)) = took (snd x) @ bytes_of (bev_input (fst x)) @ bs
     \<and> (\<exists>w. length w \<le> k \<and> wrote (snd y) = wrote (snd x) @ w
          \<and> bytes_of (bev_output (fst y)) = drop m (bytes_of (bev_output (fst x))) @ w)"

lemma movedI:
  "bev_inv g (holds s') n b' \<Longrightarrow> holds s' \<longrightarrow> holds s \<Longrightarrow> (J s \<Longrightarrow> J s') \<Longrightarrow> took s' = took s @ t \<Longrightarrow>
    took s' @ bytes_of (bev_input b') = took s @ bytes_of (bev_input b) @ bs \<Longrightarrow>
    length w \<le> k \<Longrightarrow> wrote s' = wrote s @ w \<Longrightarrow>
    bytes_of (bev_output b') = drop m (bytes_of (bev_output b)) @ w \<Longrightarrow> moved J g n k bs m (b, s) (b', s')"
  by (auto simp: moved_def)

lemma moved_refl: "bev_inv g (holds s) n b \<Longrightarrow> moved J g n k [] 0 (b, s) (b, s)"
  by (simp add: moved_def)

text \<open>Turns of the client after what the socket has done add up.\<close>

lemma moved_trans:
  assumes "moved J g n' k bs m x y" "moved J g n k' [] 0 y z"
  shows "moved J g n (k + k') bs m x z"
proof -
  obtain w where w: "length w \<le> k" "wrote (snd y) = wrote (snd x) @ w"
    "bytes_of (bev_output (fst y)) = drop m (bytes_of (bev_output (fst x))) @ w"
    using assms(1) by (auto simp: moved_def)
  obtain w' where w': "length w' \<le> k'" "wrote (snd z) = wrote (snd y) @ w'"
    "bytes_of (bev_output (fst z)) = bytes_of (bev_output (fst y)) @ w'"
    using assms(2) by (auto simp: moved_def)
  obtain t t' where t: "took (snd y) = took (snd x) @ t" "took (snd z) = took (snd y) @ t'"
    using assms by (auto simp: moved_def)
  have "moved J g n (k + k') bs m (fst x, snd x) (fst z, snd z)"
    by (rule movedI [where w = "w @ w'" and t = "t @ t'"]) (use assms w w' t in \<open>auto simp: moved_def\<close>)
  then show ?thesis
    by simp
qed

lemma moved_mono: "moved J g n k bs m x y \<Longrightarrow> k \<le> k' \<Longrightarrow> moved J g n k' bs m x y"
  unfolding moved_def using le_trans by blast

lemma moved_inv: "moved J g n k bs m x (b', s') \<Longrightarrow> bev_inv g (holds s') n b'"
  by (simp add: moved_def)

lemma moved_out:
  "moved J g n k bs m (b, s) (b', s') \<Longrightarrow> length (bytes_of (bev_output b')) \<le> length (bytes_of (bev_output b)) + k"
  by (auto simp: moved_def)

text \<open>What changes neither data nor references is a move.\<close>

lemma ready_moved:
  assumes "ready g (holds s) n b (bytes_of (bev_input b) @ bs) (drop m (bytes_of (bev_output b))) b'"
  shows "moved J g n k bs m (b, s) (b', s)"
  using assms by (simp add: ready_def leaves_def moved_def)

section \<open>References and deferred callbacks\<close>

lemma refs_parts:
  assumes "bev_inv g held n b" "refs_ok held' n' b'" "io_st True True b' = io_st True True b"
    "over b' = over b" "\<And>m r w. evs_ok g m r w b' = evs_ok g m r w b"
    "rate_limiting b' = rate_limiting b" "finalizing b' = finalizing b" "freed b' = freed b"
  shows "bev_inv g held' n' b'"
proof -
  obtain r w where c: "io_st True True b" "evs_ok g (over b) r w b" "lim_ok g r w b" "refs_ok held n b"
    using assms(1) by (rule bev_invE)
  then show ?thesis
    using assms lim_cong [of b' b g r w] by (intro bev_invI [of _ _ r w]) simp_all
qed

lemma frame_refs [simp]:
  "io_st fe fs (b\<lparr>bev_refcnt := k\<rparr>) = io_st fe fs b" "over (b\<lparr>bev_refcnt := k\<rparr>) = over b"
  "evs_ok g m r w (b\<lparr>bev_refcnt := k\<rparr>) = evs_ok g m r w b"
  "io_st fe fs (b\<lparr>deferred_scheduled := p, bev_refcnt := k\<rparr>) = io_st fe fs b"
  "over (b\<lparr>deferred_scheduled := p, bev_refcnt := k\<rparr>) = over b"
  "evs_ok g m r w (b\<lparr>deferred_scheduled := p, bev_refcnt := k\<rparr>) = evs_ok g m r w b"
  "io_st fe fs (b\<lparr>deferred_scheduled := p\<rparr>) = io_st fe fs b" "over (b\<lparr>deferred_scheduled := p\<rparr>) = over b"
  "evs_ok g m r w (b\<lparr>deferred_scheduled := p\<rparr>) = evs_ok g m r w b"
  "io_st fe fs (b\<lparr>readcb_pending := p\<rparr>) = io_st fe fs b" "over (b\<lparr>readcb_pending := p\<rparr>) = over b"
  "evs_ok g m r w (b\<lparr>readcb_pending := p\<rparr>) = evs_ok g m r w b"
  "io_st fe fs (b\<lparr>writecb_pending := p\<rparr>) = io_st fe fs b" "over (b\<lparr>writecb_pending := p\<rparr>) = over b"
  "evs_ok g m r w (b\<lparr>writecb_pending := p\<rparr>) = evs_ok g m r w b"
  "io_st fe fs (b\<lparr>eventcb_pending := v\<rparr>) = io_st fe fs b" "over (b\<lparr>eventcb_pending := v\<rparr>) = over b"
  "evs_ok g m r w (b\<lparr>eventcb_pending := v\<rparr>) = evs_ok g m r w b"
  by (simp_all add: io_st_def wm_entry_def over_def evs_ok_def reads_on_def writes_on_def)

lemma bev_refs: "bev_inv g held n b \<Longrightarrow> refs_ok held n b"
  by (auto elim: bev_invE)

lemma refs_pending [simp]:
  "refs_ok held n (b\<lparr>readcb_pending := p\<rparr>) = refs_ok held n b"
  "refs_ok held n (b\<lparr>writecb_pending := p\<rparr>) = refs_ok held n b"
  "refs_ok held n (b\<lparr>eventcb_pending := v\<rparr>) = refs_ok held n b"
  by (simp_all add: refs_ok_def)

lemma pending_inv:
  assumes "bev_inv g held n b"
  shows "bev_inv g held n (b\<lparr>readcb_pending := p\<rparr>)" "bev_inv g held n (b\<lparr>writecb_pending := p\<rparr>)"
    "bev_inv g held n (b\<lparr>eventcb_pending := v\<rparr>)"
  by (rule refs_parts [OF assms]; simp add: bev_refs [OF assms])+

lemma refs_okD:
  assumes "bev_inv g held n b"
  shows "bev_refcnt b = of_bool held + of_bool (deferred_scheduled b) + n"
    "finalizing b \<longleftrightarrow> bev_refcnt b = 0" "freed b \<longrightarrow> finalizing b"
    "\<not> held \<Longrightarrow> \<not> readcb b \<and> \<not> writecb b \<and> \<not> errorcb b"
  using assms by (auto elim!: bev_invE simp: refs_ok_def)

lemma incref_inv:
  assumes "bev_inv g held n b" "\<not> finalizing b"
  shows "bev_inv g held (Suc n) (bufferevent_incref b)"
  using refs_okD [OF assms(1)] assms(2)
  by (intro refs_parts [OF assms(1)]) (auto simp: bufferevent_incref_def refs_ok_def)

lemma schedule_inv:
  assumes "bev_inv g held n b" "held \<or> n \<noteq> 0"
  shows "bev_inv g held n (SCHEDULE_DEFERRED b)" "bev_input (SCHEDULE_DEFERRED b) = bev_input b"
    "bev_output (SCHEDULE_DEFERRED b) = bev_output b"
proof -
  show "bev_inv g held n (SCHEDULE_DEFERRED b)"
    using refs_okD [OF assms(1)] assms(2) alive [OF assms]
    by (intro refs_parts [OF assms(1)]) (auto simp: SCHEDULE_DEFERRED_def refs_ok_def)
qed (simp_all add: SCHEDULE_DEFERRED_def)

text \<open>The last reference gone, nothing is pending any more, only the finalizer.\<close>

lemma decref_inv:
  assumes "bev_inv g held (Suc n) b"
  shows "\<exists>r b'. bufferevent_decref b = Inr (r, b') \<and> bev_inv g held n b' \<and> bev_input b' = bev_input b
    \<and> bev_output b' = bev_output b"
proof -
  note rf = refs_okD [OF assms]
  have al: "\<not> finalizing b" "\<not> freed b"
    using alive [OF assms] by simp_all
  define b1 where "b1 = b\<lparr>bev_refcnt := bev_refcnt b - 1\<rparr>"
  show ?thesis
  proof (cases "bev_refcnt b1 = 0")
    case False
    have "bev_inv g held n b1"
      by (rule refs_parts [OF assms]) (use rf al False in \<open>simp_all add: b1_def refs_ok_def\<close>)
    then show ?thesis
      using rf False by (auto simp: bufferevent_decref_def b1_def)
  next
    case True
    define b' where "b' = set_refill False
      (b1\<lparr>finalizing := True, ev_read := False, ev_write := False, deferred_scheduled := False\<rparr>)"
    have z: "\<not> held" "n = 0" "\<not> deferred_scheduled b"
      using True rf(1) by (simp_all add: b1_def split: if_splits)
    obtain r w where c: "io_st True True b" "evs_ok g (over b) r w b" "lim_ok g r w b" "refs_ok held (Suc n) b"
      using assms by (rule bev_invE)
    have "bev_inv g held n b'"
    proof (rule bev_invI)
      have "io_st True True b' = io_st True True b"
        by (simp add: b'_def b1_def io_st_def wm_entry_def set_refill_def)
      then show "io_st True True b'"
        using c(1) by simp
      have "over b' = over b"
        by (simp add: b'_def b1_def over_def)
      then show "evs_ok g (over b') r w b'"
        using evs_okD(1-3) [OF c(2)] by (simp add: b'_def b1_def evs_ok_def set_refill_def)
      show "lim_ok g r w b'"
        using c(3) al by (auto simp: b'_def b1_def lim_ok_def split: option.splits)
      show "refs_ok held n b'"
        using z True rf(4) by (simp add: b'_def b1_def refs_ok_def set_refill_def)
    qed
    moreover have "bufferevent_decref b = Inr (1, b')"
      using True rf(1) by (simp add: bufferevent_decref_def b1_def b'_def Let_def)
    ultimately show ?thesis
      by (simp add: b'_def b1_def set_refill_def)
  qed
qed

lemma free_call:
  assumes "bev_inv g True n b"
  shows "\<exists>b'. bufferevent_free b = Inr b' \<and>
    leaves g False n (bytes_of (bev_input b)) (bytes_of (bev_output b)) b'"
proof -
  note rf = refs_okD [OF assms]
  have "bev_inv g False (Suc n) (bufferevent_setcb b False False False)"
    by (rule refs_parts [OF assms])
      (use rf in \<open>simp_all add: bufferevent_setcb_def refs_ok_def io_st_def wm_entry_def over_def evs_ok_def reads_on_def writes_on_def\<close>)
  from decref_inv [OF this] show ?thesis
    by (auto simp: bufferevent_free_def leaves_def bufferevent_setcb_def)
qed

lemma moved_same:
  "bev_inv g (holds s) n b' \<Longrightarrow> bev_input b' = bev_input b \<Longrightarrow> bev_output b' = bev_output b \<Longrightarrow>
    moved J g n 0 [] 0 (b, s) (b', s)"
  by (simp add: moved_def)

section \<open>The interface\<close>

definition room :: "nat \<Rightarrow> bufferevent \<Rightarrow> bool" where
  "room k b \<longleftrightarrow> length (bytes_of (bev_output b)) + k < 2 ^ 64"

lemma room_less: "room (k + k') b \<Longrightarrow> room k b" "room (k + k') b \<Longrightarrow> room k' b"
  by (simp_all add: room_def)

lemma room_moved: "moved J g n k bs m (b, s) (b', s') \<Longrightarrow> room (k + k') b \<Longrightarrow> room k' b'"
  using moved_out by (fastforce simp: room_def)

text \<open>\<open>j\<close> turns of a client that writes at most \<open>k\<close> bytes in each of them.\<close>

definition turn ::
  "('a client_link \<Rightarrow> bool) \<Rightarrow> bool \<Rightarrow> nat \<Rightarrow> nat \<Rightarrow> nat \<Rightarrow> bufferevent \<Rightarrow> 'a client_link \<Rightarrow> (bufferevent \<times> 'a client_link) res \<Rightarrow> bool" where
  "turn J g k n j b s res \<longleftrightarrow> (\<exists>y. res = Inr y \<and> moved J g n (j * k) [] 0 (b, s) y)"

lemma turnI: "res = Inr (b', s') \<Longrightarrow> moved J g n (j * k) [] 0 (b, s) (b', s') \<Longrightarrow> turn J g k n j b s res"
  by (auto simp: turn_def)

lemma turnE:
  assumes "turn J g k n j b s res"
  obtains b' s' where "res = Inr (b', s')" "moved J g n (j * k) [] 0 (b, s) (b', s')"
  using assms by (auto simp: turn_def)

lemma turn_same: "bev_inv g (holds s) n b \<Longrightarrow> turn J g k n j b s (Inr (b, s))"
  by (rule turnI [OF refl moved_refl])

lemma turn_mono: "turn J g k n i b s res \<Longrightarrow> i \<le> j \<Longrightarrow> turn J g k n j b s res"
  unfolding turn_def using moved_mono mult_le_mono1 by blast

lemma turn_bind:
  assumes "turn J g k n i b s res" "\<And>b' s'. moved J g n (i * k) [] 0 (b, s) (b', s') \<Longrightarrow> turn J g k n j b' s' (f (b', s'))"
  shows "turn J g k n (i + j) b s (bindE res f)"
proof -
  obtain b' s' where r: "res = Inr (b', s')" "moved J g n (i * k) [] 0 (b, s) (b', s')"
    using assms(1) by (auto simp: turn_def)
  then obtain b'' s'' where "f (b', s') = Inr (b'', s'')" "moved J g n (j * k) [] 0 (b', s') (b'', s'')"
    using assms(2) by (fastforce simp: turn_def)
  then show ?thesis
    using r moved_trans [OF r(2)] by (auto simp: turn_def add_mult_distrib)
qed

lemma callbacks_held: "bev_inv g (holds s) n b \<Longrightarrow> readcb b \<or> writecb b \<or> errorcb b \<Longrightarrow> holds s"
  using refs_okD(4) by blast

lemma scheduled_turn:
  assumes "bev_inv g (holds s) n b'" "n \<noteq> 0" "bev_input b' = bev_input b" "bev_output b' = bev_output b"
  shows "turn J g k n j b s (Inr (SCHEDULE_DEFERRED b', s))"
  by (rule turnI [OF refl], rule moved_mono [OF moved_same])
    (use schedule_inv [OF assms(1)] assms in auto)

lemma wm_check_moved:
  assumes "moved J g n (j * k) [] 0 (b, s) (b', s')" "n \<noteq> 0"
  shows "moved J g n (j * k) [] 0 (b, s) (bufferevent_inbuf_wm_check b', s')"
  using moved_trans [OF assms(1) moved_same [of g s' n "bufferevent_inbuf_wm_check b'" b']]
    schedule_inv [OF pending_inv(1) [OF moved_inv [OF assms(1)]], of True] assms moved_inv [OF assms(1)]
  by (auto simp: bufferevent_inbuf_wm_check_def)

text \<open>A callback of the client runs, is scheduled, or is not there.\<close>

lemma callback_turn:
  assumes "bev_inv g (holds s) n b" "n \<noteq> 0" "cb \<Longrightarrow> readcb b \<or> writecb b \<or> errorcb b"
    "bev_inv g (holds s) n b1" "bev_input b1 = bev_input b" "bev_output b1 = bev_output b"
    "holds s \<Longrightarrow> turn J g k n 1 b s res"
  shows "turn J g k n 1 b s (if \<not> cb then Inr (b, s) else if later then Inr (SCHEDULE_DEFERRED b1, s) else res)"
  using turn_same [OF assms(1)] scheduled_turn [OF assms(4,2,5,6)] callbacks_held [OF assms(1)] assms(3,7)
  by simp

lemma wm_check_turn:
  "turn J g k n j b s res \<Longrightarrow> n \<noteq> 0 \<Longrightarrow>
    turn J g k n j b s (bindE res (\<lambda>(b, s). Inr (bufferevent_inbuf_wm_check b, s)))"
  by (auto elim!: turnE intro!: turnI [OF refl] wm_check_moved)

locale bev_user =
  fixes app :: "'x \<Rightarrow> 'a client_link bev_app"
    and fits :: "'x \<Rightarrow> ('a client_link \<Rightarrow> bool) \<Rightarrow> bool \<Rightarrow> nat \<Rightarrow> bool"
  assumes on_read_ok: "fits x J g k \<Longrightarrow> bev_inv g True n b \<Longrightarrow> n \<noteq> 0 \<Longrightarrow> holds s \<Longrightarrow> room k b \<Longrightarrow>
      turn J g k n 1 b s (on_read (app x) b s)"
    and on_write_ok: "fits x J g k \<Longrightarrow> bev_inv g True n b \<Longrightarrow> n \<noteq> 0 \<Longrightarrow> holds s \<Longrightarrow> room k b \<Longrightarrow>
      turn J g k n 1 b s (on_write (app x) b s)"
    and on_event_ok: "fits x J g k \<Longrightarrow> bev_inv g True n b \<Longrightarrow> n \<noteq> 0 \<Longrightarrow> holds s \<Longrightarrow> room k b \<Longrightarrow>
      turn J g k n 1 b s (on_event (app x) what b s)"
begin

lemma run_cb_turn:
  assumes fx: "fits x J g k" and b: "bev_inv g (holds s) n b" "n \<noteq> 0" and r: "room k b"
  shows "turn J g k n 1 b s (bufferevent_run_readcb (app x) opts b s)"
    "turn J g k n 1 b s (bufferevent_run_writecb (app x) opts b s)"
    "turn J g k n 1 b s (bufferevent_run_eventcb (app x) what opts b s)"
  unfolding bufferevent_run_readcb_def bufferevent_run_writecb_def bufferevent_run_eventcb_def
proof -
  note user = on_read_ok [OF fx] on_write_ok [OF fx] on_event_ok [OF fx]
  show "turn J g k n 1 b s (if \<not> readcb b then Inr (b, s)
     else if deferred b opts then Inr (SCHEDULE_DEFERRED (b\<lparr>readcb_pending := True\<rparr>), s)
     else bindE (on_read (app x) b s) (\<lambda>(b, s). Inr (bufferevent_inbuf_wm_check b, s)))"
    by (rule callback_turn [OF b _ pending_inv(1) [OF b(1)]]) (use b r user in \<open>simp_all add: wm_check_turn del: One_nat_def\<close>)
  show "turn J g k n 1 b s (if \<not> writecb b then Inr (b, s)
     else if deferred b opts then Inr (SCHEDULE_DEFERRED (b\<lparr>writecb_pending := True\<rparr>), s) else on_write (app x) b s)"
    by (rule callback_turn [OF b _ pending_inv(2) [OF b(1)]]) (use b r user in \<open>simp_all del: One_nat_def\<close>)
  show "turn J g k n 1 b s (if \<not> errorcb b then Inr (b, s)
     else if deferred b opts then Inr (SCHEDULE_DEFERRED (b\<lparr>eventcb_pending := eventcb_pending b OR what\<rparr>), s)
     else on_event (app x) what b s)"
    by (rule callback_turn [OF b _ pending_inv(3) [OF b(1)]]) (use b r user in \<open>simp_all del: One_nat_def\<close>)
qed

lemma trigger_turn:
  assumes fx: "fits x J g k" and b: "bev_inv g (holds s) n b" "n \<noteq> 0" and r: "room (2 * k) b"
  shows "turn J g k n 2 b s (bufferevent_trigger_nolock (app x) iotype opts b s)"
proof -
  have rm: "room k b" "room (k + k) b"
    using r by (simp_all add: room_def)
  show ?thesis
    unfolding bufferevent_trigger_nolock_def one_add_one [symmetric]
  proof (rule turn_bind)
    show "turn J g k n 1 b s (if iotype AND EV_READ \<noteq> 0 \<and> (opts AND BEV_TRIG_IGNORE_WATERMARKS \<noteq> 0 \<or>
        wm_read_low b \<le> evbuffer_get_length (bev_input b)) then bufferevent_run_readcb (app x) opts b s else Inr (b, s))"
      using run_cb_turn(1) [OF fx b rm(1)] turn_same [OF b(1)] by simp
  next
    fix b' s'
    assume m: "moved J g n (1 * k) [] 0 (b, s) (b', s')"
    have "turn J g k n 1 b' s' (bufferevent_run_writecb (app x) opts b' s')" "turn J g k n 1 b' s' (Inr (b', s'))"
      using run_cb_turn(2) [OF fx moved_inv [OF m] b(2)] room_moved [OF m] rm turn_same [OF moved_inv [OF m]]
      by simp_all
    then show "turn J g k n 1 b' s' (case (b', s') of (b, s) \<Rightarrow>
        if iotype AND EV_WRITE \<noteq> 0 \<and> (opts AND BEV_TRIG_IGNORE_WATERMARKS \<noteq> 0 \<or>
            evbuffer_get_length (bev_output b) \<le> wm_write_low b)
        then bufferevent_run_writecb (app x) opts b s else Inr (b, s))"
      by simp
  qed
qed

lemma ending_turn:
  assumes fx: "fits x J g k" and b: "bev_inv g (holds s) n b" "n \<noteq> 0" and r: "room (2 * k) b"
  shows "turn J g k n 2 b s (ends_in e (app x) b s)"
proof -
  have "room k b"
    using r by (simp add: room_def)
  then show ?thesis
    using turn_same [OF b(1)] turn_mono [OF run_cb_turn(3) [OF fx b]] trigger_turn [OF fx b r]
    by (simp add: ends_in_def split: ending.split)
qed

text \<open>The callbacks of the events: a reference is held while the client runs.\<close>

lemma finish_turn:
  assumes fx: "fits x J g k" and m: "moved J g (Suc n) 0 bs m (b, s) (b1, s)" and r: "room (2 * k) b1"
  shows "\<exists>b' s'. bindE (ends_in ed (app x) b1 s) (\<lambda>(b, s). bindE (bufferevent_decref b) (\<lambda>(_, b). Inr (b, s)))
      = Inr (b', s') \<and> moved J g n (2 * k) bs m (b, s) (b', s')"
proof -
  have "turn J g k (Suc n) 2 b1 s (ends_in ed (app x) b1 s)"
    by (rule ending_turn [OF fx moved_inv [OF m] _ r]) simp
  then obtain b2 s' where t: "ends_in ed (app x) b1 s = Inr (b2, s')"
    "moved J g (Suc n) (2 * k) [] 0 (b1, s) (b2, s')"
    by (rule turnE)
  note m2 = moved_trans [OF m t(2)]
  from decref_inv [OF moved_inv [OF m2]] obtain r b3 where d: "bufferevent_decref b2 = Inr (r, b3)"
    "bev_inv g (holds s') n b3" "bev_input b3 = bev_input b2" "bev_output b3 = bev_output b2"
    by blast
  have "moved J g n (2 * k) bs m (b, s) (b3, s')"
    using m2 d(2-4) by (simp add: moved_def)
  then show ?thesis
    using t(1) d(1) by simp
qed

lemma incref_ready:
  assumes "ready g (holds s) n (bufferevent_incref b) (bytes_of (bev_input (bufferevent_incref b)) @ bs)
      (drop m (bytes_of (bev_output (bufferevent_incref b)))) b1"
  shows "moved J g n 0 bs m (b, s) (b1, s)"
  using ready_moved [OF assms, where k = 0] by (simp add: moved_def bufferevent_incref_def)

lemma readcb_turn:
  assumes fx: "fits x J g k" and b: "bev_inv g (holds s) n b" "\<not> finalizing b" and r: "room (2 * k) b"
    and e: "env_ok g e" and rv: "readv_fits readv" and l: "length (bytes_of (bev_input b)) + 4096 < 2 ^ 63"
  shows "\<exists>b' s' bs. bufferevent_readcb (app x) e timeout avail readv err b s = Inr (b', s')
    \<and> delivered readv bs \<and> moved J g n (2 * k) bs 0 (b, s) (b', s')"
proof -
  let ?b = "bufferevent_incref b"
  have io: "bev_input ?b = bev_input b" "bev_output ?b = bev_output b"
    by (simp_all add: bufferevent_incref_def)
  have l': "length (bytes_of (bev_input ?b)) + 4096 < 2 ^ 63" "holds s \<or> Suc n \<noteq> 0"
    using l io by simp_all
  obtain ed b1 bs where ed: "\<forall>(app :: 'a client_link bev_app) s. readcb_body app e timeout avail readv err ?b s = ends_in ed app b1 s"
    "delivered readv bs" "ready g (holds s) (Suc n) ?b (bytes_of (bev_input ?b) @ bs) (bytes_of (bev_output ?b)) b1"
    using readcb_ends [OF incref_inv [OF b] l'(2) e rv l'(1), where 'a = "'a client_link"] by blast
  have "room (2 * k) b1"
    using ed(3) r io by (simp add: room_def ready_def leaves_def)
  from finish_turn [OF fx incref_ready [where m = 0] this, of s n b bs ed] ed show ?thesis
    by (auto simp: bufferevent_readcb_def)
qed

lemma writecb_turn:
  assumes fx: "fits x J g k" and b: "bev_inv g (holds s) n b" "\<not> finalizing b" and r: "room (2 * k) b"
    and e: "env_ok g e" and wv: "writev_fits writev"
  shows "\<exists>b' s' m. bufferevent_writecb (app x) e timeout finished writev err b s = Inr (b', s')
    \<and> accepted writev (bytes_of (bev_output b)) m \<and> moved J g n (2 * k) [] m (b, s) (b', s')"
proof -
  let ?b = "bufferevent_incref b"
  have io: "bev_input ?b = bev_input b" "bev_output ?b = bev_output b"
    by (simp_all add: bufferevent_incref_def)
  have ge: "g \<longrightarrow> adds e" "holds s \<or> Suc n \<noteq> 0"
    using e by (simp_all add: env_ok_def)
  obtain ed b1 m where ed: "\<forall>(app :: 'a client_link bev_app) s. writecb_body app e timeout finished writev err ?b s = ends_in ed app b1 s"
    "accepted writev (bytes_of (bev_output ?b)) m"
    "ready g (holds s) (Suc n) ?b (bytes_of (bev_input ?b)) (drop m (bytes_of (bev_output ?b))) b1"
    using writecb_ends [OF incref_inv [OF b] ge(2,1) wv, where 'a = "'a client_link"] by blast
  have "room (2 * k) b1"
    using ed(3) r io by (simp add: room_def ready_def leaves_def)
  from finish_turn [OF fx incref_ready [where bs = "[]"] this, of s n b m ed] ed io show ?thesis
    by (auto simp: bufferevent_writecb_def)
qed

text \<open>The deferred callbacks, up to the end of their reference.\<close>

lemma pending_turn:
  assumes fx: "fits x J g k" and b: "bev_inv g (holds s) n b" "n \<noteq> 0" and r: "room k b"
  shows "turn J g k n 1 b s (if p \<and> errorcb b then on_event (app x) what (b\<lparr>eventcb_pending := v\<rparr>) s else Inr (b, s))"
    "turn J g k n 1 b s (if p \<and> readcb b
       then bindE (on_read (app x) (b\<lparr>readcb_pending := False\<rparr>) s) (\<lambda>(b, s). Inr (bufferevent_inbuf_wm_check b, s))
       else Inr (b, s))"
    "turn J g k n 1 b s (if p \<and> writecb b then on_write (app x) (b\<lparr>writecb_pending := False\<rparr>) s else Inr (b, s))"
proof -
  have same: "turn J g k n 1 b s res" if "turn J g k n 1 b1 s res" "bev_input b1 = bev_input b" "bev_output b1 = bev_output b"
    for b1 :: bufferevent and res :: "(bufferevent \<times> 'a client_link) res"
    using that by (simp add: turn_def moved_def)
  have run: "turn J g k n 1 b s (if c then res else Inr (b, s))" if "c \<Longrightarrow> holds s \<Longrightarrow> turn J g k n 1 b s res"
      "c \<Longrightarrow> readcb b \<or> writecb b \<or> errorcb b" for c and res :: "(bufferevent \<times> 'a client_link) res"
    using that callbacks_held [OF b(1)] turn_same [OF b(1)] by simp
  have held: "bev_inv g True n b" if "holds s"
    using b(1) that by simp
  have rm: "room k (b\<lparr>eventcb_pending := v\<rparr>)" "room k (b\<lparr>readcb_pending := q\<rparr>)" "room k (b\<lparr>writecb_pending := q\<rparr>)" for q
    using r by (simp_all add: room_def)
  show "turn J g k n 1 b s (if p \<and> errorcb b then on_event (app x) what (b\<lparr>eventcb_pending := v\<rparr>) s else Inr (b, s))"
    by (rule run, rule same [OF on_event_ok [OF fx pending_inv(3) [OF held] b(2) _ rm(1)]]) auto
  show "turn J g k n 1 b s (if p \<and> readcb b
       then bindE (on_read (app x) (b\<lparr>readcb_pending := False\<rparr>) s) (\<lambda>(b, s). Inr (bufferevent_inbuf_wm_check b, s))
       else Inr (b, s))"
    by (rule run, rule same [OF wm_check_turn [OF on_read_ok [OF fx pending_inv(1) [OF held] b(2) _ rm(2)] b(2)]]) auto
  show "turn J g k n 1 b s (if p \<and> writecb b then on_write (app x) (b\<lparr>writecb_pending := False\<rparr>) s else Inr (b, s))"
    by (rule run, rule same [OF on_write_ok [OF fx pending_inv(2) [OF held] b(2) _ rm(3)]]) auto
qed

lemma deferred_turn:
  assumes fx: "fits x J g k" and b: "bev_inv g (holds s) n b" "deferred_scheduled b" and r: "room (4 * k) b"
  shows "\<exists>b' s'. bufferevent_run_deferred_callbacks (app x) b s = Inr (b', s') \<and> moved J g n (4 * k) [] 0 (b, s) (b', s')"
proof -
  define b0 where "b0 = b\<lparr>deferred_scheduled := False\<rparr>"
  have i0: "bev_inv g (holds s) (Suc n) b0"
    unfolding b0_def by (rule refs_parts [OF b(1)]) (use refs_okD [OF b(1)] b(2) in \<open>simp_all add: refs_ok_def\<close>)
  have n: "Suc n \<noteq> 0" and r0: "room (k + (k + (k + k))) b0"
    using r by (simp_all add: b0_def room_def)
  note rm0 = room_less(1) [OF r0]
  obtain b1 s1 where t1: "(if eventcb_pending b0 AND BEV_EVENT_CONNECTED \<noteq> 0 \<and> errorcb b0
        then on_event (app x) BEV_EVENT_CONNECTED
               (b0\<lparr>eventcb_pending := eventcb_pending b0 AND NOT BEV_EVENT_CONNECTED\<rparr>) s
        else Inr (b0, s)) = Inr (b1, s1)" "moved J g (Suc n) (1 * k) [] 0 (b0, s) (b1, s1)"
    by (rule turnE [OF pending_turn(1) [OF fx i0 n rm0]])
  note m1 = t1(2) [unfolded mult_1]
  have r1: "room (k + (k + k)) b1"
    by (rule room_moved [OF m1 r0])
  note rm1 = room_less(1) [OF r1]
  obtain b2 s2 where t2: "(if readcb_pending b1 \<and> readcb b1
        then bindE (on_read (app x) (b1\<lparr>readcb_pending := False\<rparr>) s1) (\<lambda>(b, s). Inr (bufferevent_inbuf_wm_check b, s))
        else Inr (b1, s1)) = Inr (b2, s2)" "moved J g (Suc n) (1 * k) [] 0 (b1, s1) (b2, s2)"
    by (rule turnE [OF pending_turn(2) [OF fx moved_inv [OF m1] n rm1]])
  note m2 = t2(2) [unfolded mult_1]
  have r2: "room (k + k) b2"
    by (rule room_moved [OF m2 r1])
  obtain b3 s3 where t3: "(if writecb_pending b2 \<and> writecb b2
        then on_write (app x) (b2\<lparr>writecb_pending := False\<rparr>) s2 else Inr (b2, s2)) = Inr (b3, s3)"
      "moved J g (Suc n) (1 * k) [] 0 (b2, s2) (b3, s3)"
    by (rule turnE [OF pending_turn(3) [OF fx moved_inv [OF m2] n room_less(1) [OF r2]]])
  note m3 = t3(2) [unfolded mult_1]
  have r3: "room k b3"
    by (rule room_moved [OF m3 r2])
  obtain b4 s4 where t4: "(if eventcb_pending b3 \<noteq> 0 \<and> errorcb b3
        then on_event (app x) (eventcb_pending b3) (b3\<lparr>eventcb_pending := 0\<rparr>) s3 else Inr (b3, s3)) = Inr (b4, s4)"
      "moved J g (Suc n) (1 * k) [] 0 (b3, s3) (b4, s4)"
    by (rule turnE [OF pending_turn(1) [OF fx moved_inv [OF m3] n r3]])
  have four: "k + k + k + 1 * k = 4 * k"
    by simp
  have m: "moved J g (Suc n) (4 * k) [] 0 (b, s) (b4, s4)"
    using moved_trans [OF moved_trans [OF moved_trans [OF m1 m2] m3] t4(2), unfolded four]
    by (simp add: moved_def b0_def)
  from decref_inv [OF moved_inv [OF m]] obtain q b5 where d: "bufferevent_decref b4 = Inr (q, b5)"
    "bev_inv g (holds s4) n b5" "bev_input b5 = bev_input b4" "bev_output b5 = bev_output b4"
    by blast
  have "bufferevent_run_deferred_callbacks (app x) b s = Inr (b5, s4)"
    unfolding bufferevent_run_deferred_callbacks_def Let_def b0_def [symmetric]
    by (simp only: t1(1) t2(1) t3(1) t4(1) d(1) bindE_simps prod.case)
  moreover have "moved J g n (4 * k) [] 0 (b, s) (b5, s4)"
    using m d(2-4) by (simp add: moved_def)
  ultimately show ?thesis
    by blast
qed

end

end
