(* ===== verification/Bufferevent_Program.thy ===== *)
theory Bufferevent_Program
  imports Bufferevent_Client
begin

text \<open>
  Clients of a bufferevent as programs: trees of calls, each call chosen by the results of those
  before it. The functions that a client gives to \<open>bufferevent_setcb\<close> are such programs; whatever
  they are, they keep to the interface that the callbacks of the bufferevent need.
\<close>

section \<open>Calls\<close>

datatype bev_call =
    WriteC "byte list" | ReadC nat | EnableC u16 | DisableC u16 | SetWatermarkC u16 nat nat
  | SetRateLimitC bool "ev_token_bucket_cfg option" | MaxReadC nat | MaxWriteC nat
  | SetCbC bool bool bool | FreeC

datatype bev_result = Code int | Data nat "byte list"

fun exec_call :: "bev_env \<Rightarrow> bev_call \<Rightarrow> bufferevent \<Rightarrow> (bev_result \<times> bufferevent) res" where
  "exec_call e (WriteC bs) b = bindE (bufferevent_write e b bs) (\<lambda>(r, b). Inr (Code r, b))"
| "exec_call e (ReadC n) b = bindE (bufferevent_read e b n) (\<lambda>(r, bs, b). Inr (Data r bs, b))"
| "exec_call e (EnableC ev) b = (let (r, b) = bufferevent_enable (adds e) b ev in Inr (Code r, b))"
| "exec_call e (DisableC ev) b = (let (r, b) = bufferevent_disable b ev in Inr (Code r, b))"
| "exec_call e (SetWatermarkC ev low high) b =
     bindE (bufferevent_setwatermark e b ev low high) (\<lambda>b. Inr (Code 0, b))"
| "exec_call e (SetRateLimitC same cfg) b =
     bindE (bufferevent_set_rate_limit e same b cfg) (\<lambda>(r, b). Inr (Code r, b))"
| "exec_call e (MaxReadC n) b = Inr (Code 0, bufferevent_set_max_single_read b n)"
| "exec_call e (MaxWriteC n) b = Inr (Code 0, bufferevent_set_max_single_write b n)"
| "exec_call e (SetCbC r w ev) b = Inr (Code 0, bufferevent_setcb b r w ev)"
| "exec_call e FreeC b = bindE (bufferevent_free b) (\<lambda>b. Inr (Code 0, b))"

text \<open>
  What a client may not do: marks of 2^63 bytes or more, configurations that
  \<open>ev_token_bucket_cfg_new\<close> refuses or whose tick is empty, single reads of 2^31 bytes or more.
\<close>

fun call_ok :: "bev_call \<Rightarrow> bool" where
  "call_ok (SetWatermarkC ev low high) \<longleftrightarrow> high < 2 ^ 63"
| "call_ok (SetRateLimitC same (Some c)) \<longleftrightarrow> cfg_ok c"
| "call_ok (MaxReadC n) \<longleftrightarrow> n < 2 ^ 31"
| "call_ok _ \<longleftrightarrow> True"

fun call_bytes :: "bev_call \<Rightarrow> nat" where
  "call_bytes (WriteC bs) = length bs"
| "call_bytes _ = 0"

text \<open>The record of what a client has read and written.\<close>

fun note_call :: "bev_call \<Rightarrow> bev_result \<Rightarrow> 'a client_link \<Rightarrow> 'a client_link" where
  "note_call (WriteC bs) (Code r) s = (if r = 0 then s\<lparr>wrote := wrote s @ bs\<rparr> else s)"
| "note_call (ReadC n) (Data r bs) s = s\<lparr>took := took s @ bs\<rparr>"
| "note_call FreeC r s = s\<lparr>holds := False\<rparr>"
| "note_call _ r s = s"

text \<open>The results a call can have: writing fails only without memory.\<close>

fun possible :: "bev_env \<Rightarrow> bev_call \<Rightarrow> bev_result \<Rightarrow> bool" where
  "possible e (WriteC bs) (Code r) \<longleftrightarrow>
     r = 0 \<or> r = -1 \<and> (alloc_fails (mem_env e) \<or> length bs > CHAIN_MAX - CHAIN_SIZE)"
| "possible e (WriteC bs) (Data m ds) \<longleftrightarrow> False"
| "possible e (ReadC n) (Data m ds) \<longleftrightarrow> length ds \<le> n \<and> (length ds < 2 ^ 31 \<longrightarrow> m = length ds)"
| "possible e (ReadC n) (Code r) \<longleftrightarrow> False"
| "possible e c r \<longleftrightarrow> True"

definition called ::
  "bool \<Rightarrow> nat \<Rightarrow> bev_env \<Rightarrow> bev_call \<Rightarrow> bufferevent \<Rightarrow> 'a client_link \<Rightarrow> (bev_result \<times> bufferevent) res \<Rightarrow> bool" where
  "called g n e c b s res \<longleftrightarrow> (\<exists>r b'. res = Inr (r, b')
     \<and> moved (\<lambda>_. True) g n (call_bytes c) [] 0 (b, s) (b', note_call c r s)
     \<and> (holds (note_call c r s) \<longleftrightarrow> c \<noteq> FreeC) \<and> possible e c r)"

lemma called_leaves:
  assumes "leaves g True n (bytes_of (bev_input b)) (bytes_of (bev_output b)) b'" "holds s"
    "\<And>r. note_call c r s = s" "c \<noteq> FreeC" "possible e c r"
  shows "called g n e c b s (Inr (r, b'))"
  using assms by (auto simp: called_def leaves_def moved_def)

lemma rated_leaves:
  assumes "bev_inv g held n b" "rated g b b'"
  shows "leaves g held n (bytes_of (bev_input b)) (bytes_of (bev_output b)) b'"
  using rated_ready [OF assms] by (simp add: ready_def)

lemma exec_call_ok:
  assumes b: "bev_inv g True n b" "holds s" and e: "env_ok g e" and c: "call_ok c" "room (call_bytes c) b"
  shows "called g n e c b s (exec_call e c b)"
proof -
  have h: "True \<or> n \<noteq> 0"
    by simp
  have al: "\<not> finalizing b" "\<not> freed b" and ge: "g \<longrightarrow> adds e"
    using alive [OF b(1) h] e by (simp_all add: env_ok_def)
  obtain r0 w0 where lim: "lim_ok g r0 w0 b"
    using b(1) by (rule bev_invE)
  show ?thesis
  proof (cases c)
    case (WriteC bs)
    obtain r b' where "bufferevent_write e b bs = Inr (r, b')"
      "r = 0 \<and> leaves g True n (bytes_of (bev_input b)) (bytes_of (bev_output b) @ bs) b'
       \<or> r = -1 \<and> leaves g True n (bytes_of (bev_input b)) (bytes_of (bev_output b)) b'
         \<and> (alloc_fails (mem_env e) \<or> length bs > CHAIN_MAX - CHAIN_SIZE)"
      using write_call [OF b(1) h e, of bs] c(2) WriteC by (auto simp: room_def)
    then show ?thesis
      using b(2) by (auto simp: WriteC called_def leaves_def moved_def)
  next
    case (ReadC k)
    then show ?thesis
      using read_call [OF b(1) h e, of k] b(2) by (auto simp: called_def leaves_def moved_def)
  next
    case (EnableC ev)
    then show ?thesis
      using called_leaves [OF enable_call [OF b(1) h e] b(2)] by (simp add: case_prod_beta)
  next
    case (DisableC ev)
    then show ?thesis
      using called_leaves [OF disable_call [OF b(1)] b(2)] by (simp add: case_prod_beta)
  next
    case (SetWatermarkC ev low high)
    then have "high < 2 ^ 63"
      using c(1) by simp
    from setwatermark_call [OF b(1) h e this, of ev low] obtain b' where
      "bufferevent_setwatermark e b ev low high = Inr b'"
      "leaves g True n (bytes_of (bev_input b)) (bytes_of (bev_output b)) b'"
      by blast
    then show ?thesis
      using called_leaves [OF _ b(2)] SetWatermarkC by simp
  next
    case (SetRateLimitC same cfg)
    have "\<exists>q b'. bufferevent_set_rate_limit e same b cfg = Inr (q, b') \<and> rated g b b'"
    proof (cases cfg)
      case None
      then show ?thesis
        using drop_rate_rated [OF al ge, of same] by blast
    next
      case (Some tb)
      then have "cfg_ok tb"
        using c(1) SetRateLimitC by simp
      then show ?thesis
        using set_rate_rated [OF al(1) ge lim, of tb same] Some by blast
    qed
    then show ?thesis
      using called_leaves [OF rated_leaves [OF b(1)] b(2)] SetRateLimitC by auto
  next
    case (MaxReadC k)
    then show ?thesis
      using called_leaves [OF max_call(1) [OF b(1)] b(2)] c(1) by simp
  next
    case (MaxWriteC k)
    then show ?thesis
      using called_leaves [OF max_call(2) [OF b(1)] b(2)] by simp
  next
    case (SetCbC p q v)
    then show ?thesis
      using called_leaves [OF setcb_call [OF b(1)] b(2)] by simp
  next
    case FreeC
    then show ?thesis
      using free_call [OF b(1)] by (auto simp: called_def leaves_def moved_def)
  qed
qed

section \<open>Programs\<close>

datatype 'a prog = Return 'a | Call bev_call "bev_result \<Rightarrow> 'a prog"

primrec run_prog :: "bev_env \<Rightarrow> 'a prog \<Rightarrow> bufferevent \<Rightarrow> 'a client_link \<Rightarrow> (bufferevent \<times> 'a client_link) res" where
  "run_prog e (Return a) = (\<lambda>b s. Inr (b, s\<lparr>client := a\<rparr>))"
| "run_prog e (Call c f) = (\<lambda>b s. bindE (exec_call e c b) (\<lambda>(r, b). run_prog e (f r) b (note_call c r s)))"

text \<open>
  Every call is allowed, there is none after \<open>bufferevent_free\<close>, and on no path more than \<open>k\<close> bytes
  are written.
\<close>

primrec prog_ok :: "'a prog \<Rightarrow> bool \<Rightarrow> nat \<Rightarrow> bool" where
  "prog_ok (Return a) = (\<lambda>held k. True)"
| "prog_ok (Call c f) = (\<lambda>held k. held \<and> call_ok c \<and> call_bytes c \<le> k
     \<and> (\<forall>e r. possible e c r \<longrightarrow> prog_ok (f r) (c \<noteq> FreeC) (k - call_bytes c)))"

text \<open>A program that keeps \<open>J\<close>, whatever the results of its calls.\<close>

primrec prog_keeps :: "('a client_link \<Rightarrow> bool) \<Rightarrow> bev_env \<Rightarrow> 'a prog \<Rightarrow> 'a client_link \<Rightarrow> bool" where
  "prog_keeps J e (Return a) = (\<lambda>s. J (s\<lparr>client := a\<rparr>))"
| "prog_keeps J e (Call c f) = (\<lambda>s. \<forall>r. possible e c r \<longrightarrow> prog_keeps J e (f r) (note_call c r s))"

lemma keeps_any: "prog_keeps (\<lambda>_. True) e p s"
  by (induction p arbitrary: s) simp_all

lemma run_prog_moved:
  "bev_inv g (holds s) n b \<Longrightarrow> env_ok g e \<Longrightarrow> prog_ok p (holds s) k \<Longrightarrow> prog_keeps J e p s \<Longrightarrow> room k b \<Longrightarrow>
    \<exists>y. run_prog e p b s = Inr y \<and> moved (\<lambda>_. True) g n k [] 0 (b, s) y \<and> J (snd y)"
proof (induction p arbitrary: b s k)
  case (Return a)
  then show ?case
    by (simp add: moved_def)
next
  case (Call c f)
  have c: "holds s" "call_ok c" "call_bytes c \<le> k"
    "\<And>e r. possible e c r \<Longrightarrow> prog_ok (f r) (c \<noteq> FreeC) (k - call_bytes c)"
    using Call.prems(3) by auto
  have "bev_inv g True n b"
    using Call.prems(1) c(1) by simp
  moreover have r: "room (call_bytes c + (k - call_bytes c)) b"
    using Call.prems(5) c(3) by simp
  ultimately obtain r b' where call: "exec_call e c b = Inr (r, b')"
    "moved (\<lambda>_. True) g n (call_bytes c) [] 0 (b, s) (b', note_call c r s)" "holds (note_call c r s) \<longleftrightarrow> c \<noteq> FreeC"
    "possible e c r"
    using exec_call_ok [OF _ c(1) Call.prems(2) c(2) room_less(1)] unfolding called_def by blast
  have "prog_ok (f r) (holds (note_call c r s)) (k - call_bytes c)" "prog_keeps J e (f r) (note_call c r s)"
    using c(4) [OF call(4)] call(3,4) Call.prems(4) by simp_all
  from Call.IH [OF _ moved_inv [OF call(2)] Call.prems(2) this room_moved [OF call(2) r]]
  obtain y where f: "run_prog e (f r) b' (note_call c r s) = Inr y"
    "moved (\<lambda>_. True) g n (k - call_bytes c) [] 0 (b', note_call c r s) y" "J (snd y)"
    by auto
  have "moved (\<lambda>_. True) g n k [] 0 (b, s) y"
    using moved_trans [OF call(2) f(2)] c(3) by simp
  then show ?case
    using call(1) f by auto
qed

lemma run_prog_turn:
  assumes "bev_inv g (holds s) n b" "env_ok g e" "prog_ok p (holds s) k" "J s \<Longrightarrow> prog_keeps J e p s" "room k b"
  shows "turn J g k n 1 b s (run_prog e p b s)"
proof -
  have "prog_keeps (\<lambda>s'. J s \<longrightarrow> J s') e p s"
    by (cases "J s") (use assms(4) keeps_any [of e p s] in simp_all)
  from run_prog_moved [OF assms(1-3) this assms(5)] show ?thesis
    by (auto simp: turn_def moved_def)
qed

section \<open>Clients\<close>

record 'a handlers =
  read_h :: "'a \<Rightarrow> 'a prog"
  write_h :: "'a \<Rightarrow> 'a prog"
  event_h :: "u16 \<Rightarrow> 'a \<Rightarrow> 'a prog"

definition client_app :: "bev_env \<times> 'a handlers \<Rightarrow> 'a client_link bev_app" where
  "client_app x = \<lparr>on_read = \<lambda>b s. run_prog (fst x) (read_h (snd x) (client s)) b s,
     on_write = \<lambda>b s. run_prog (fst x) (write_h (snd x) (client s)) b s,
     on_event = \<lambda>what b s. run_prog (fst x) (event_h (snd x) what (client s)) b s\<rparr>"

definition handlers_ok :: "nat \<Rightarrow> 'a handlers \<Rightarrow> bool" where
  "handlers_ok k h \<longleftrightarrow> (\<forall>a. prog_ok (read_h h a) True k) \<and> (\<forall>a. prog_ok (write_h h a) True k)
     \<and> (\<forall>what a. prog_ok (event_h h what a) True k)"

text \<open>The handlers keep \<open>J\<close> when they run with the bufferevent in their hands.\<close>

definition handlers_keep :: "('a client_link \<Rightarrow> bool) \<Rightarrow> bev_env \<Rightarrow> 'a handlers \<Rightarrow> bool" where
  "handlers_keep J e h \<longleftrightarrow> (\<forall>s. J s \<and> holds s \<longrightarrow>
     prog_keeps J e (read_h h (client s)) s \<and> prog_keeps J e (write_h h (client s)) s
     \<and> (\<forall>what. prog_keeps J e (event_h h what (client s)) s))"

definition client_fits :: "bev_env \<times> 'a handlers \<Rightarrow> ('a client_link \<Rightarrow> bool) \<Rightarrow> bool \<Rightarrow> nat \<Rightarrow> bool" where
  "client_fits x J g k \<longleftrightarrow> env_ok g (fst x) \<and> handlers_ok k (snd x) \<and> handlers_keep J (fst x) (snd x)"

interpretation user: bev_user client_app client_fits
proof unfold_locales
  fix x :: "bev_env \<times> 'a handlers" and J g k n b and s :: "'a client_link" and what
  assume x: "client_fits x J g k" and b: "bev_inv g True n b" and s: "holds s" and r: "room k b"
  have b': "bev_inv g (holds s) n b" and e: "env_ok g (fst x)"
    using b s x by (simp_all add: client_fits_def)
  have p: "prog_ok (read_h (snd x) a) (holds s) k" "prog_ok (write_h (snd x) a) (holds s) k"
    "prog_ok (event_h (snd x) what a) (holds s) k" for a
    using x s by (simp_all add: client_fits_def handlers_ok_def)
  have keep: "J s \<Longrightarrow> prog_keeps J (fst x) (read_h (snd x) (client s)) s"
    "J s \<Longrightarrow> prog_keeps J (fst x) (write_h (snd x) (client s)) s"
    "J s \<Longrightarrow> prog_keeps J (fst x) (event_h (snd x) what (client s)) s"
    using x s by (simp_all add: client_fits_def handlers_keep_def)
  show "turn J g k n 1 b s (on_read (client_app x) b s)" "turn J g k n 1 b s (on_write (client_app x) b s)"
    "turn J g k n 1 b s (on_event (client_app x) what b s)"
    unfolding client_app_def bev_app.simps
    by (rule run_prog_turn [OF b' e p(1) keep(1) r], assumption, rule run_prog_turn [OF b' e p(2) keep(2) r], assumption,
        rule run_prog_turn [OF b' e p(3) keep(3) r], assumption)
qed

end
