(* ===== verification/Bufferevent_Loop.thy ===== *)
theory Bufferevent_Loop
  imports Bufferevent_Program "HOL-Library.Sublist"
begin

text \<open>
  A bufferevent in its event loop: the callbacks that are pending run in any order, and between
  them the client makes calls. The whole is a machine, and it refines two byte streams.
\<close>

section \<open>Events\<close>

datatype 'a bev_event =
    Readable bev_env bool int "nat \<Rightarrow> byte list option" sock_error
  | Writable bev_env bool "byte list \<Rightarrow> int" sock_error
  | Deferred bev_env | Refill bev_env | Finalize
  | Client bev_env "'a prog"

text \<open>What is not pending does not run; a client that has freed the bufferevent makes no calls.\<close>

definition refill_due :: "bufferevent \<Rightarrow> bool" where
  "refill_due b \<longleftrightarrow> (case rate_limiting b of None \<Rightarrow> False | Some rl \<Rightarrow> refill_pending rl)"

fun bev_fire :: "'a handlers \<Rightarrow> 'a bev_event \<Rightarrow> bufferevent \<times> 'a client_link \<Rightarrow> (unit \<times> bufferevent \<times> 'a client_link) res" where
  "bev_fire h (Readable e timeout avail readv err) (b, s) =
     (if ev_read b then bindE (bufferevent_readcb (client_app (e, h)) e timeout avail readv err b s) (\<lambda>y. Inr ((), y))
      else Inr ((), b, s))"
| "bev_fire h (Writable e timeout writev err) (b, s) =
     (if ev_write b then bindE (bufferevent_writecb (client_app (e, h)) e timeout 1 writev err b s) (\<lambda>y. Inr ((), y))
      else Inr ((), b, s))"
| "bev_fire h (Deferred e) (b, s) =
     (if deferred_scheduled b then bindE (bufferevent_run_deferred_callbacks (client_app (e, h)) b s) (\<lambda>y. Inr ((), y))
      else Inr ((), b, s))"
| "bev_fire h (Refill e) (b, s) =
     (if refill_due b then bindE (bev_refill_callback e b) (\<lambda>b. Inr ((), b, s)) else Inr ((), b, s))"
| "bev_fire h Finalize (b, s) =
     (if finalizing b \<and> \<not> freed b then bindE (bufferevent_finalize_cb b) (\<lambda>b. Inr ((), b, s)) else Inr ((), b, s))"
| "bev_fire h (Client e p) (b, s) =
     (if holds s then bindE (run_prog e p b s) (\<lambda>y. Inr ((), y)) else Inr ((), b, s))"

text \<open>The system answers as it does: no more bytes than there is room for.\<close>

fun event_ok :: "bool \<Rightarrow> nat \<Rightarrow> 'a bev_event \<Rightarrow> bool" where
  "event_ok g k (Readable e timeout avail readv err) \<longleftrightarrow> env_ok g e \<and> readv_fits readv"
| "event_ok g k (Writable e timeout writev err) \<longleftrightarrow> env_ok g e \<and> writev_fits writev"
| "event_ok g k (Deferred e) \<longleftrightarrow> env_ok g e"
| "event_ok g k (Refill e) \<longleftrightarrow> env_ok g e"
| "event_ok g k Finalize \<longleftrightarrow> True"
| "event_ok g k (Client e p) \<longleftrightarrow> env_ok g e \<and> prog_ok p True k"

text \<open>The client keeps \<open>J\<close> in what an event lets it do.\<close>

fun event_keeps :: "('a client_link \<Rightarrow> bool) \<Rightarrow> 'a handlers \<Rightarrow> 'a bev_event \<Rightarrow> bool" where
  "event_keeps J h (Readable e timeout avail readv err) \<longleftrightarrow> handlers_keep J e h"
| "event_keeps J h (Writable e timeout writev err) \<longleftrightarrow> handlers_keep J e h"
| "event_keeps J h (Deferred e) \<longleftrightarrow> handlers_keep J e h"
| "event_keeps J h (Client e p) \<longleftrightarrow> (\<forall>s. J s \<and> holds s \<longrightarrow> prog_keeps J e p s)"
| "event_keeps J h _ \<longleftrightarrow> True"

lemma event_keeps_any: "event_keeps (\<lambda>_. True) h ev"
  by (cases ev) (simp_all add: handlers_keep_def keeps_any)

section \<open>Byte streams\<close>

record streams =
  arrived :: "byte list"
  taken :: "byte list"
  written :: "byte list"
  sent :: "byte list"

text \<open>What has been sent is what was written less what is still in the output.\<close>

definition streams_of :: "bufferevent \<times> 'a client_link \<Rightarrow> streams" where
  "streams_of x = \<lparr>arrived = took (snd x) @ bytes_of (bev_input (fst x)), taken = took (snd x),
     written = wrote (snd x),
     sent = take (length (wrote (snd x)) - length (bytes_of (bev_output (fst x)))) (wrote (snd x))\<rparr>"

fun from_socket :: "'a bev_event \<Rightarrow> byte list \<Rightarrow> bool" where
  "from_socket (Readable e timeout avail readv err) bs \<longleftrightarrow> bs = [] \<or> (\<exists>n. readv n = Some bs)"
| "from_socket _ bs \<longleftrightarrow> bs = []"

fun to_socket :: "'a bev_event \<Rightarrow> byte list \<Rightarrow> byte list \<Rightarrow> bool" where
  "to_socket (Writable e timeout writev err) waiting bs \<longleftrightarrow>
     bs = [] \<or> (\<exists>j. int (length bs) = writev (take j waiting)) \<and> bs = take (length bs) waiting"
| "to_socket _ waiting bs \<longleftrightarrow> bs = []"

definition streams_step :: "'a bev_event \<Rightarrow> streams \<Rightarrow> unit \<Rightarrow> streams \<Rightarrow> bool" where
  "streams_step ev x r y \<longleftrightarrow>
     (\<exists>bs. arrived y = arrived x @ bs \<and> from_socket ev bs)
     \<and> (\<exists>bs. taken y = taken x @ bs) \<and> prefix (taken y) (arrived y)
     \<and> (\<exists>bs. written y = written x @ bs) \<and> prefix (sent y) (written y)
     \<and> (\<exists>bs. sent y = sent x @ bs \<and> to_socket ev (drop (length (sent x)) (written x)) bs)"

section \<open>The machine\<close>

definition loop_inv :: "bool \<Rightarrow> bufferevent \<times> 'a client_link \<Rightarrow> bool" where
  "loop_inv g x \<longleftrightarrow> bev_inv g (holds (snd x)) 0 (fst x) \<and> suffix (bytes_of (bev_output (fst x))) (wrote (snd x))"

definition traffic :: "bufferevent \<times> 'a client_link \<Rightarrow> nat" where
  "traffic x = length (wrote (snd x)) + length (took (snd x)) + length (bytes_of (bev_input (fst x)))"

text \<open>Every event costs as much as it may transfer.\<close>

definition event_cost :: "nat \<Rightarrow> 'a bev_event \<Rightarrow> nat" where
  "event_cost k ev = 4 * k + 4096"

definition fired :: "('a client_link \<Rightarrow> bool) \<Rightarrow> bool \<Rightarrow> nat \<Rightarrow> 'a bev_event \<Rightarrow> bufferevent \<times> 'a client_link \<Rightarrow> (unit \<times> bufferevent \<times> 'a client_link) res \<Rightarrow> bool" where
  "fired J g k ev x res \<longleftrightarrow> (\<exists>y. res = Inr ((), y) \<and> loop_inv g y \<and> traffic y \<le> traffic x + event_cost k ev
     \<and> (J (snd x) \<longrightarrow> J (snd y))
     \<and> streams_step ev (streams_of x) () (streams_of y))"

lemma moved_fired:
  assumes i: "loop_inv g (b, s)" and m: "moved J g 0 k' bs m (b, s) y" "k' \<le> 4 * k" "length bs \<le> 4096"
    and f: "from_socket ev bs" and t: "m \<le> length (bytes_of (bev_output b))"
      "to_socket ev (bytes_of (bev_output b)) (take m (bytes_of (bev_output b)))"
  shows "fired J g k ev (b, s) (Inr ((), y))"
proof -
  obtain b' s' where y: "y = (b', s')"
    by fastforce
  obtain out where out: "wrote s = out @ bytes_of (bev_output b)"
    using i by (auto simp: loop_inv_def suffix_def)
  obtain w where w: "length w \<le> k'" "wrote s' = wrote s @ w"
    "bytes_of (bev_output b') = drop m (bytes_of (bev_output b)) @ w"
    using m(1) by (auto simp: moved_def y)
  obtain t' where tk: "took s' = took s @ t'"
    using m(1) by (auto simp: moved_def y)
  have arr: "took s' @ bytes_of (bev_input b') = took s @ bytes_of (bev_input b) @ bs"
    using m(1) by (simp add: moved_def y)
  have wr: "wrote s' = (out @ take m (bytes_of (bev_output b))) @ bytes_of (bev_output b')"
    by (simp add: w out)
  have "loop_inv g y"
    using m(1) wr by (auto simp: loop_inv_def moved_def y suffix_def)
  moreover have "traffic y \<le> traffic (b, s) + event_cost k ev"
    using w(1,2) m(2,3) arg_cong [OF arr, of length] by (simp add: traffic_def event_cost_def y)
  moreover have "J s \<longrightarrow> J (snd y)"
    using m(1) by (simp add: moved_def y)
  moreover have "streams_step ev (streams_of (b, s)) () (streams_of y)"
  proof -
    have st: "streams_of (b, s) = \<lparr>arrived = took s @ bytes_of (bev_input b), taken = took s, written = wrote s, sent = out\<rparr>"
      "streams_of y = \<lparr>arrived = took s @ bytes_of (bev_input b) @ bs, taken = took s', written = wrote s',
        sent = out @ take m (bytes_of (bev_output b))\<rparr>"
      using out wr arr t(1) by (simp_all add: streams_of_def y min_absorb2)
    have p: "prefix (took s') (took s @ bytes_of (bev_input b) @ bs)"
      "prefix (out @ take m (bytes_of (bev_output b))) (wrote s')"
      using arr [symmetric] wr by (auto intro: prefixI)
    show ?thesis
      unfolding streams_step_def st streams.simps using f t(2) tk w(2) p out by auto
  qed
  ultimately show ?thesis
    by (auto simp: fired_def)
qed

lemma nothing [simp]: "to_socket ev bs []" "from_socket ev []"
  by (cases ev; simp)+

lemma moved_none:
  assumes "loop_inv g (b, s)" "moved J g 0 k' [] 0 (b, s) y" "k' \<le> 4 * k"
  shows "fired J g k ev (b, s) (Inr ((), y))"
  by (rule moved_fired [OF assms(1,2,3)]) simp_all

lemma leaves_fired:
  assumes "loop_inv g (b, s)" "leaves g (holds s) 0 (bytes_of (bev_input b)) (bytes_of (bev_output b)) b'"
  shows "fired J g k ev (b, s) (Inr ((), b', s))"
  by (rule moved_none [OF assms(1), where k' = 0]) (use assms(2) in \<open>simp_all add: moved_def leaves_def\<close>)

lemma idle_fired: "loop_inv g (b, s) \<Longrightarrow> fired J g k ev (b, s) (Inr ((), b, s))"
  by (rule leaves_fired) (simp_all add: leaves_def loop_inv_def)

lemma traffic_room:
  assumes "loop_inv g (b, s)" "traffic (b, s) + event_cost k ev < 2 ^ 63"
  shows "room (4 * k) b" "room (2 * k) b" "room k b" "length (bytes_of (bev_input b)) + 4096 < 2 ^ 63"
proof -
  have "length (bytes_of (bev_output b)) \<le> length (wrote s)"
    using assms(1) by (auto simp: loop_inv_def suffix_def)
  then show "room (4 * k) b" "room (2 * k) b" "room k b" "length (bytes_of (bev_input b)) + 4096 < 2 ^ 63"
    using assms(2) by (simp_all add: room_def traffic_def event_cost_def)
qed

text \<open>The finalizer frees both buffers, which only the bufferevent holds.\<close>

lemma finalize_ok:
  assumes "bev_inv g held n b" "finalizing b"
  shows "\<exists>b'. bufferevent_finalize_cb b = Inr b' \<and>
    leaves g held n (bytes_of (bev_input b)) (bytes_of (bev_output b)) b'"
proof -
  obtain r w where c: "io_st True True b" "evs_ok g (over b) r w b" "lim_ok g r w b" "refs_ok held n b"
    using assms(1) by (rule bev_invE)
  define b' where "b' = b\<lparr>freed := True, rate_limiting := None,
            fd_closed := (fd_closed b \<or> bev_options b AND BEV_OPT_CLOSE_ON_FREE \<noteq> 0)\<rparr>"
  have q: "quiet (bev_input b)" "quiet (bev_output b)"
    using c(1) by (simp_all add: io_st_def)
  have call: "bufferevent_finalize_cb b = Inr b'"
    using q by (simp add: bufferevent_finalize_cb_def evbuffer_free_def evbuffer_decref_and_unlock_def b'_def quiet_def)
  have "bev_inv g held n b'"
  proof (rule bev_invI)
    have "io_st True True b' = io_st True True b"
      by (simp add: b'_def io_st_def wm_entry_def)
    then show "io_st True True b'"
      using c(1) by simp
    have "over b' = over b" "evs_ok g (over b) r w b' = evs_ok g (over b) r w b"
      by (simp_all add: b'_def over_def evs_ok_def reads_on_def writes_on_def)
    then show "evs_ok g (over b') r w b'"
      using c(2) by simp
    show "lim_ok g r w b'"
      by (simp add: b'_def lim_ok_def)
    show "refs_ok held n b'"
      using c(4) assms(2) by (cases held; cases "deferred_scheduled b") (simp_all add: b'_def refs_ok_def)
  qed
  then show ?thesis
    using call by (simp add: leaves_def b'_def)
qed

lemma pending_alive:
  assumes "bev_inv g held n b"
  shows "ev_read b \<or> ev_write b \<Longrightarrow> \<not> finalizing b" "deferred_scheduled b \<Longrightarrow> \<not> finalizing b"
    "refill_due b \<Longrightarrow> \<not> finalizing b"
proof -
  obtain r w where c: "io_st True True b" "evs_ok g (over b) r w b" "lim_ok g r w b" "refs_ok held n b"
    using assms by (rule bev_invE)
  show "ev_read b \<or> ev_write b \<Longrightarrow> \<not> finalizing b"
    using evs_okD(4-9) [OF c(2)] by blast
  show "deferred_scheduled b \<Longrightarrow> \<not> finalizing b"
    using c(4) by (simp add: refs_ok_def)
  show "refill_due b \<Longrightarrow> \<not> finalizing b"
    using c(3) by (auto simp: lim_ok_def refill_due_def split: option.splits)
qed

lemma loop_bev: "loop_inv g (b, s) \<Longrightarrow> bev_inv g (holds s) 0 b"
  by (simp add: loop_inv_def)

lemma fire_readable:
  assumes fits: "client_fits (e, h) J g k" and e: "env_ok g e" "readv_fits readv" and i: "loop_inv g (b, s)"
    and room: "traffic (b, s) + event_cost k (Readable e timeout avail readv err) < 2 ^ 63"
  shows "fired J g k (Readable e timeout avail readv err) (b, s) (bev_fire h (Readable e timeout avail readv err) (b, s))"
proof (cases "ev_read b")
  case True
  note rm = traffic_room [OF i room]
  note b = loop_bev [OF i]
  obtain y bs where y: "bufferevent_readcb (client_app (e, h)) e timeout avail readv err b s = Inr y"
    "delivered readv bs" "moved J g 0 (2 * k) bs 0 (b, s) y"
    using user.readcb_turn [OF fits b _ rm(2) e rm(4), of timeout avail err] pending_alive(1) [OF b] True
    by blast
  have "fired J g k (Readable e timeout avail readv err) (b, s) (Inr ((), y))"
    by (rule moved_fired [OF i y(3)]) (use y(2) in \<open>auto simp: delivered_def\<close>)
  then show ?thesis
    using y(1) True by simp
qed (use idle_fired [OF i] in simp)

lemma fire_writable:
  assumes fits: "client_fits (e, h) J g k" and e: "env_ok g e" "writev_fits writev" and i: "loop_inv g (b, s)"
    and room: "traffic (b, s) + event_cost k (Writable e timeout writev err) < 2 ^ 63"
  shows "fired J g k (Writable e timeout writev err) (b, s) (bev_fire h (Writable e timeout writev err) (b, s))"
proof (cases "ev_write b")
  case True
  note rm = traffic_room [OF i room]
  note b = loop_bev [OF i]
  obtain y m where y: "bufferevent_writecb (client_app (e, h)) e timeout 1 writev err b s = Inr y"
    "accepted writev (bytes_of (bev_output b)) m" "moved J g 0 (2 * k) [] m (b, s) y"
    using user.writecb_turn [OF fits b _ rm(2) e, of timeout 1 err] pending_alive(1) [OF b] True
    by blast
  have "fired J g k (Writable e timeout writev err) (b, s) (Inr ((), y))"
    by (rule moved_fired [OF i y(3)]) (use y(2) in \<open>auto simp: accepted_def\<close>)
  then show ?thesis
    using y(1) True by simp
qed (use idle_fired [OF i] in simp)

lemma fire_deferred:
  assumes fits: "client_fits (e, h) J g k" and i: "loop_inv g (b, s)"
    and room: "traffic (b, s) + event_cost k (Deferred e) < 2 ^ 63"
  shows "fired J g k (Deferred e) (b, s) (bev_fire h (Deferred e) (b, s))"
proof (cases "deferred_scheduled b")
  case True
  then obtain y where "bufferevent_run_deferred_callbacks (client_app (e, h)) b s = Inr y"
    "moved J g 0 (4 * k) [] 0 (b, s) y"
    using user.deferred_turn [OF fits loop_bev [OF i] _ traffic_room(1) [OF i room]] by blast
  then show ?thesis
    using True moved_none [OF i _ order.refl] by simp
qed (use idle_fired [OF i] in simp)

lemma fire_refill:
  assumes ge: "g \<longrightarrow> adds e" and i: "loop_inv g (b, s)"
  shows "fired J g k (Refill e) (b, s) (bev_fire h (Refill e) (b, s))"
proof (cases "refill_due b")
  case True
  note b = loop_bev [OF i]
  obtain r w where "lim_ok g r w b"
    using b by (rule bev_invE)
  from refill_rated [OF pending_alive(3) [OF b True] ge this] obtain b' where
    b': "bev_refill_callback e b = Inr b'" "rated g b b'"
    by blast
  then show ?thesis
    using True leaves_fired [OF i rated_leaves [OF b b'(2)]] by simp
qed (use idle_fired [OF i] in simp)

lemma fire_finalize:
  assumes i: "loop_inv g (b, s)"
  shows "fired J g k Finalize (b, s) (bev_fire h Finalize (b, s))"
proof (cases "finalizing b \<and> \<not> freed b")
  case True
  then obtain b' where "bufferevent_finalize_cb b = Inr b'"
    "leaves g (holds s) 0 (bytes_of (bev_input b)) (bytes_of (bev_output b)) b'"
    using finalize_ok [OF loop_bev [OF i]] by blast
  then show ?thesis
    using True leaves_fired [OF i] by simp
next
  case False
  then show ?thesis
    using idle_fired [OF i] by auto
qed

lemma fire_client:
  assumes e: "env_ok g e" "prog_ok p True k" and j: "J s \<Longrightarrow> holds s \<Longrightarrow> prog_keeps J e p s" and i: "loop_inv g (b, s)"
    and room: "traffic (b, s) + event_cost k (Client e p) < 2 ^ 63"
  shows "fired J g k (Client e p) (b, s) (bev_fire h (Client e p) (b, s))"
proof (cases "holds s")
  case True
  then have "turn J g k 0 1 b s (run_prog e p b s)"
    using run_prog_turn [OF loop_bev [OF i] e(1) _ j traffic_room(3) [OF i room]] e(2) by simp
  then obtain y where "run_prog e p b s = Inr y" "moved J g 0 (1 * k) [] 0 (b, s) y"
    by (auto elim: turnE)
  then show ?thesis
    using True moved_none [OF i, where k' = "1 * k"] by simp
qed (use idle_fired [OF i] in simp)

lemma fire_ok:
  assumes h: "handlers_ok k h" and i: "loop_inv g x" and ev: "event_ok g k ev" "event_keeps J h ev"
    and room: "traffic x + event_cost k ev < 2 ^ 63"
  shows "fired J g k ev x (bev_fire h ev x)"
proof -
  obtain b s where x: "x = (b, s)"
    by fastforce
  have fits: "client_fits (e, h) J g k" if "env_ok g e" "handlers_keep J e h" for e
    using h that by (simp add: client_fits_def)
  note hyps = i [unfolded x] room [unfolded x]
  show ?thesis
    unfolding x
  proof (cases ev)
    case (Readable e timeout avail readv err)
    show "fired J g k ev (b, s) (bev_fire h ev (b, s))"
      unfolding Readable by (rule fire_readable [OF fits _ _ hyps(1)]) (use ev hyps(2) Readable in simp_all)
  next
    case (Writable e timeout writev err)
    show "fired J g k ev (b, s) (bev_fire h ev (b, s))"
      unfolding Writable by (rule fire_writable [OF fits _ _ hyps(1)]) (use ev hyps(2) Writable in simp_all)
  next
    case (Deferred e)
    show "fired J g k ev (b, s) (bev_fire h ev (b, s))"
      unfolding Deferred by (rule fire_deferred [OF fits hyps(1)]) (use ev hyps(2) Deferred in simp_all)
  next
    case (Refill e)
    show "fired J g k ev (b, s) (bev_fire h ev (b, s))"
      unfolding Refill by (rule fire_refill [OF _ hyps(1)]) (use ev Refill in \<open>simp add: env_ok_def\<close>)
  next
    case Finalize
    show "fired J g k ev (b, s) (bev_fire h ev (b, s))"
      unfolding Finalize by (rule fire_finalize [OF hyps(1)])
  next
    case (Client e p)
    show "fired J g k ev (b, s) (bev_fire h ev (b, s))"
      unfolding Client by (rule fire_client [OF _ _ _ hyps(1)]) (use ev hyps(2) Client in simp_all)
  qed
qed

interpretation loop: bounded_refinement "bev_fire h" "\<lambda>x. handlers_ok k h \<and> loop_inv g x \<and> J (snd x)"
  "\<lambda>ev. event_ok g k ev \<and> event_keeps J h ev" traffic "event_cost k" "2 ^ 63 - 1" streams_of streams_step for h k g J
proof unfold_locales
  fix x :: "bufferevent \<times> 'a client_link" and ev
  assume i: "handlers_ok k h \<and> loop_inv g x \<and> J (snd x)" and ev: "event_ok g k ev \<and> event_keeps J h ev"
    and room: "traffic x + event_cost k ev \<le> 2 ^ 63 - 1"
  have "traffic x + event_cost k ev < 2 ^ 63"
    using room by simp
  then have f: "fired J g k ev x (bev_fire h ev x)"
    using fire_ok [of k h g x ev J] i ev by simp
  then show "\<exists>r t. bev_fire h ev x = Inr (r, t) \<and> (handlers_ok k h \<and> loop_inv g t \<and> J (snd t))
      \<and> traffic t \<le> traffic x + event_cost k ev"
    using i unfolding fired_def by auto
  show "bev_fire h ev x = Inr (r, t) \<Longrightarrow> streams_step ev (streams_of x) r (streams_of t)" for r t
    using f unfolding fired_def by auto
qed

section \<open>A new bufferevent\<close>

definition new_link :: "'a \<Rightarrow> 'a client_link" where
  "new_link a = \<lparr>client = a, holds = True, took = [], wrote = []\<rparr>"

definition bev_run :: "'a handlers \<Rightarrow> 'a bev_event list \<Rightarrow> bufferevent \<Rightarrow> 'a \<Rightarrow> (unit list \<times> bufferevent \<times> 'a client_link) res" where
  "bev_run h evs b a = run_calls (bev_fire h) evs (b, new_link a)"

lemma new_fields:
  assumes "bufferevent_socket_new True True opts = Some b"
  shows "bev_input b = evbuffer_freeze evbuffer_new False" "rate_limiting b = None" "freed b = False"
    "bev_output b = evbuffer_freeze (snd (evbuffer_add_cb True evbuffer_new 1)) True"
    "enabled b = EV_WRITE" "read_suspended b = 0" "write_suspended b = 0" "\<not> ev_read b" "\<not> ev_write b"
    "wm_read_high b = 0" "\<not> read_watermarks_cb b" "\<not> deferred_scheduled b" "\<not> connecting b" "bev_refcnt b = 1"
    "\<not> finalizing b" "max_single_read b = MAX_SINGLE_READ_DEFAULT" "max_single_write b = MAX_SINGLE_WRITE_DEFAULT"
  using assms by (auto simp: bufferevent_socket_new_def split: if_splits)

lemma new_inv:
  assumes "bufferevent_socket_new True True opts = Some b"
  shows "loop_inv g (b, new_link a)" "traffic (b, new_link a) = 0"
    "streams_of (b, new_link a) = \<lparr>arrived = [], taken = [], written = [], sent = []\<rparr>"
proof -
  note b = new_fields [OF assms]
  have io: "io_st True True b" "bytes_of (bev_input b) = []" "bytes_of (bev_output b) = []"
    by (simp_all add: io_st_def wm_entry_def quiet_def b evbuffer_freeze_def evbuffer_add_cb_def evbuffer_new_def
        ev_inv_def layout_def lwd_ok_def bytes_of_def MAX_SINGLE_READ_DEFAULT_def MAX_SINGLE_WRITE_DEFAULT_def Let_def)
  have ev: "evs_ok g (over b) False False b" "lim_ok g False False b" "refs_ok True 0 b"
    using b io by (auto simp: evs_ok_def over_def reads_on_def writes_on_def lim_ok_def refs_ok_def EV_READ_def EV_WRITE_def susp_def)
  show "loop_inv g (b, new_link a)"
    using bev_invI [OF io(1) ev] io by (simp add: loop_inv_def new_link_def)
  show "traffic (b, new_link a) = 0"
    "streams_of (b, new_link a) = \<lparr>arrived = [], taken = [], written = [], sent = []\<rparr>"
    by (simp_all add: traffic_def streams_of_def new_link_def io)
qed

text \<open>A bufferevent without options.\<close>

definition plain_bev :: bufferevent where
  "plain_bev = the (bufferevent_socket_new True True 0)"

lemma plain_new: "bufferevent_socket_new True True 0 = Some plain_bev"
  by (simp add: plain_bev_def bufferevent_socket_new_def BEV_OPT_UNLOCK_CALLBACKS_def)

text \<open>Events that transfer less than 2^63 bytes in all.\<close>

definition events_ok :: "bool \<Rightarrow> nat \<Rightarrow> 'a bev_event list \<Rightarrow> bool" where
  "events_ok g k evs \<longleftrightarrow> (\<forall>ev\<in>set evs. event_ok g k ev) \<and> length evs * (4 * k + 4096) < 2 ^ 63"

lemma sum_cost: "sum_list (map (event_cost k) evs) = length evs * (4 * k + 4096)"
  by (induction evs) (simp_all add: event_cost_def algebra_simps)

lemma run_from_new_keeps:
  assumes "bufferevent_socket_new True True opts = Some b" "handlers_ok k h" "events_ok g k evs"
    "J (new_link a)" "\<forall>ev\<in>set evs. event_keeps J h ev"
  shows "\<exists>rs y. bev_run h evs b a = Inr (rs, y) \<and> loop_inv g y \<and> J (snd y)
    \<and> spec_run streams_step evs \<lparr>arrived = [], taken = [], written = [], sent = []\<rparr> rs (streams_of y)"
proof -
  have c: "traffic (b, new_link a) + sum_list (map (event_cost k) evs) \<le> 2 ^ 63 - 1"
    using assms(3) new_inv(2) [OF assms(1), of a]
    by (simp add: events_ok_def sum_cost)
  show ?thesis
    using loop.run_refines [of k h g "(b, new_link a)" J evs, OF _ _ c] new_inv(1) [OF assms(1), of g a] assms(2-5)
    unfolding bev_run_def events_ok_def new_inv(3) [OF assms(1), of a, symmetric] by fastforce
qed

lemma run_from_new:
  assumes "bufferevent_socket_new True True opts = Some b" "handlers_ok k h" "events_ok g k evs"
  shows "\<exists>rs y. bev_run h evs b a = Inr (rs, y) \<and> loop_inv g y
    \<and> spec_run streams_step evs \<lparr>arrived = [], taken = [], written = [], sent = []\<rparr> rs (streams_of y)"
  using run_from_new_keeps [OF assms, of "\<lambda>_. True" a] event_keeps_any by blast

section \<open>Reading the invariant\<close>

lemma evs_pending:
  assumes "evs_ok g m r w b"
  shows "ev_read b \<Longrightarrow> enabled b AND EV_READ \<noteq> 0 \<and> read_suspended b = 0"
    "ev_write b \<Longrightarrow> enabled b AND EV_WRITE \<noteq> 0 \<and> write_suspended b = 0"
    "finalizing b \<Longrightarrow> \<not> ev_read b \<and> \<not> ev_write b"
  using evs_okD(1,2) [OF assms] evs_okD(4-9) [OF assms] by (auto simp: reads_on_def writes_on_def)

lemma wm_bit:
  assumes "io_st True True b" "evs_ok g (over b) r w b"
  shows "read_suspended b AND BEV_SUSPEND_WM \<noteq> 0 \<longleftrightarrow>
    wm_read_high b \<noteq> 0 \<and> wm_read_high b \<le> evbuffer_get_length (bev_input b)"
proof -
  have "susp m r AND BEV_SUSPEND_WM \<noteq> 0 \<longleftrightarrow> m" for m
    by (cases m; cases r; simp add: susp_def BEV_SUSPEND_WM_def)
  moreover have "evbuffer_get_length (bev_input b) = length (bytes_of (bev_input b))"
    using assms(1) by (simp add: io_st_def length_bytes)
  ultimately show ?thesis
    unfolding evs_okD(1) [OF assms(2)] by (simp only: over_def)
qed

lemma waits:
  assumes "io_st True True b" "evs_ok True m r w b" "\<not> finalizing b"
  shows "enabled b AND EV_READ \<noteq> 0 \<and> read_suspended b = 0 \<Longrightarrow> ev_read b"
    "enabled b AND EV_WRITE \<noteq> 0 \<and> write_suspended b = 0 \<and> evbuffer_get_length (bev_output b) \<noteq> 0 \<Longrightarrow> ev_write b"
proof -
  have l: "evbuffer_get_length (bev_output b) = length (bytes_of (bev_output b))"
    using assms(1) by (simp add: io_st_def length_bytes)
  have s: "read_suspended b = 0 \<longleftrightarrow> \<not> m \<and> \<not> r" "write_suspended b = 0 \<longleftrightarrow> \<not> w"
    unfolding evs_okD(1,2) [OF assms(2)] by simp_all
  show "enabled b AND EV_READ \<noteq> 0 \<and> read_suspended b = 0 \<Longrightarrow> ev_read b"
    using evs_okD(8) [OF assms(2) TrueI assms(3)] unfolding s reads_on_def by blast
  show "enabled b AND EV_WRITE \<noteq> 0 \<and> write_suspended b = 0 \<and> evbuffer_get_length (bev_output b) \<noteq> 0 \<Longrightarrow> ev_write b"
    using evs_okD(9) [OF assms(2) TrueI assms(3)] unfolding s writes_on_def l by auto
qed

lemma refills:
  assumes "evs_ok True m r w b" "lim_ok True r w b" "\<not> finalizing b" "\<not> freed b"
  shows "read_suspended b AND BEV_SUSPEND_BW \<noteq> 0 \<or> write_suspended b AND BEV_SUSPEND_BW \<noteq> 0 \<Longrightarrow>
      has_cfg b \<and> refill_due b"
    "has_cfg b \<Longrightarrow> limit_of False b \<le> 0 \<Longrightarrow> read_suspended b AND BEV_SUSPEND_BW \<noteq> 0"
    "has_cfg b \<Longrightarrow> limit_of True b \<le> 0 \<Longrightarrow> write_suspended b AND BEV_SUSPEND_BW \<noteq> 0"
  using evs_okD(1,2) [OF assms(1)] assms(2-4)
  by (auto simp: lim_ok_def has_cfg_def refill_due_def limit_of_def split: option.splits)

end
