(* ===== verification/Bufferevent_Thms.thy ===== *)
theory Bufferevent_Thms
  imports Bufferevent_Loop
begin

text \<open>
  Properties of bufferevents and of their rate limits, for every client, every order of events and
  everything that the system may answer.
\<close>

section \<open>Safety\<close>


text \<open>A client that echoes what it reads and frees the bufferevent at the end of the stream.\<close>

definition sized_env :: bev_env where
  "sized_env = \<lparr>adds = True, mem_env = (\<lambda>n. Some (replicate n 0)), small_allocs = True, now = (0, 0)\<rparr>"

definition echo_client :: "nat handlers" where
  "echo_client = \<lparr>read_h = (\<lambda>n. Call (ReadC 100) (\<lambda>r. case r of
       Data m bs \<Rightarrow> Call (WriteC (take 100 bs)) (\<lambda>_. Return (Suc n)) | Code c \<Rightarrow> Return n)),
     write_h = (\<lambda>n. Return n), event_h = (\<lambda>what n. Call FreeC (\<lambda>_. Return n))\<rparr>"

definition echo_events :: "nat bev_event list" where
  "echo_events =
    [Client sized_env (Call (SetCbC True True True) (\<lambda>_. Call (EnableC EV_READ) (\<lambda>_. Return 0))),
     Readable sized_env False 1000 (\<lambda>n. Some (take n [1, 2, 3])) Retriable,
     Writable sized_env False (\<lambda>bs. min 2 (int (length bs))) Retriable,
     Readable sized_env False 1000 (\<lambda>n. Some []) Retriable, Finalize]"

lemma echo_ok: "handlers_ok 100 echo_client" "events_ok g 100 echo_events"
proof -
  have e: "env_ok g sized_env" for g
    by (auto simp: env_ok_def sized_env_def malloc_sized_def)
  show "handlers_ok 100 echo_client"
    by (simp add: handlers_ok_def echo_client_def split: bev_result.split)
  show "events_ok g 100 echo_events"
    using e by (simp add: events_ok_def echo_events_def readv_fits_def writev_fits_def)
qed




text \<open>C9: Nothing gets stuck: as long as the event base accepts the events, then after any sequence of
  events and calls a bufferevent that still has a reference waits for its socket whenever it
  is enabled and not suspended, for writing only while there is something to write; a
  direction that the rate limit suspends has a limit, and the refill of its bucket is pending;
  a direction whose bucket is empty is suspended.
\<close>

theorem bufferevent_not_stuck:
  assumes "bufferevent_socket_new True True opts = Some b" "handlers_ok k h" "events_ok True k evs"
  shows "\<exists>rs b' s. bev_run h evs b a = Inr (rs, b', s) \<and> (bev_refcnt b' \<noteq> 0 \<longrightarrow>
      (enabled b' AND EV_READ \<noteq> 0 \<and> read_suspended b' = 0 \<longrightarrow> ev_read b')
    \<and> (enabled b' AND EV_WRITE \<noteq> 0 \<and> write_suspended b' = 0 \<and> evbuffer_get_length (bev_output b') \<noteq> 0
         \<longrightarrow> ev_write b')
    \<and> (read_suspended b' AND BEV_SUSPEND_BW \<noteq> 0 \<or> write_suspended b' AND BEV_SUSPEND_BW \<noteq> 0 \<longrightarrow>
         has_cfg b' \<and> refill_due b')
    \<and> (has_cfg b' \<and> limit_of False b' \<le> 0 \<longrightarrow> read_suspended b' AND BEV_SUSPEND_BW \<noteq> 0)
    \<and> (has_cfg b' \<and> limit_of True b' \<le> 0 \<longrightarrow> write_suspended b' AND BEV_SUSPEND_BW \<noteq> 0))"
proof -
  obtain rs b' s where r: "bev_run h evs b a = Inr (rs, b', s)" and i: "bev_inv True (holds s) 0 b'"
    using run_from_new [OF assms, of a] by (auto simp: loop_inv_def)
  obtain r w where c: "io_st True True b'" "evs_ok True (over b') r w b'" "lim_ok True r w b'" "refs_ok (holds s) 0 b'"
    using i by (rule bev_invE)
  show ?thesis
  proof (intro exI [of _ rs] exI [of _ b'] exI [of _ s] conjI impI r)
    assume "bev_refcnt b' \<noteq> 0"
    then have nf: "\<not> finalizing b'" "\<not> freed b'"
      using refs_okD(2,3) [OF i] by simp_all
    note w = waits [OF c(1,2) nf(1)] refills [OF c(2,3) nf]
    show "enabled b' AND EV_READ \<noteq> 0 \<and> read_suspended b' = 0 \<Longrightarrow> ev_read b'"
      "enabled b' AND EV_WRITE \<noteq> 0 \<and> write_suspended b' = 0 \<and> evbuffer_get_length (bev_output b') \<noteq> 0 \<Longrightarrow> ev_write b'"
      "read_suspended b' AND BEV_SUSPEND_BW \<noteq> 0 \<or> write_suspended b' AND BEV_SUSPEND_BW \<noteq> 0 \<Longrightarrow> has_cfg b'"
      "read_suspended b' AND BEV_SUSPEND_BW \<noteq> 0 \<or> write_suspended b' AND BEV_SUSPEND_BW \<noteq> 0 \<Longrightarrow> refill_due b'"
      "has_cfg b' \<and> limit_of False b' \<le> 0 \<Longrightarrow> read_suspended b' AND BEV_SUSPEND_BW \<noteq> 0"
      "has_cfg b' \<and> limit_of True b' \<le> 0 \<Longrightarrow> write_suspended b' AND BEV_SUSPEND_BW \<noteq> 0"
      using w by blast+
  qed
qed

theorem bufferevent_not_stuck_witness:
  "\<exists>rs b' s. bev_run echo_client echo_events plain_bev 0 = Inr (rs, b', s) \<and> (bev_refcnt b' \<noteq> 0 \<longrightarrow>
      enabled b' AND EV_READ \<noteq> 0 \<and> read_suspended b' = 0 \<longrightarrow> ev_read b')"
  using bufferevent_not_stuck [OF plain_new echo_ok, of 0] by auto

end
