(* ===== verification/Libevent_Server.thy ===== *)
theory Libevent_Server
  imports Bufferevent_Loop Net_Prelude
begin

text \<open>
  The echo server and client on libevent, \<open>libevent/server.c\<close> and \<open>libevent/client.c\<close>. The server's
  handlers are programs over its bufferevents; what holds of every client of a bufferevent holds
  of it. The listener accepts connections, each of which gets a bufferevent of its own.
\<close>

section \<open>The server\<close>

definition BUFLEN_lev :: nat where "BUFLEN_lev = 1024"
definition EV_PERSIST :: u16 where "EV_PERSIST = 0x10"

text \<open>The pointer \<open>ConnectStat *\<close>: null, to a structure with its array, or to memory that has been freed.\<close>

datatype connect_stat = Null | Stat "byte list" | Freed

text \<open>
  The function ends without a \<open>return\<close>; \<open>left\<close> is what its caller takes for the result, a value that
  C leaves indeterminate.
\<close>

definition stat_init_lev :: "bool \<Rightarrow> (connect_stat \<Rightarrow> connect_stat res) \<Rightarrow> connect_stat res" where
  "stat_init_lev alloc left = (if \<not> alloc then Inr Null else left (Stat (replicate BUFLEN_lev 0)))"

text \<open>The handlers' argument: once a step had no meaning, its fault stays.\<close>

type_synonym server_state = "connect_stat res"

definition do_echo_request :: "server_state \<Rightarrow> server_state prog" where
  "do_echo_request st =
    (case st of
       Inl f \<Rightarrow> Return (Inl f)
     | Inr stat \<Rightarrow> Call (ReadC BUFLEN_lev) (\<lambda>r.
         case (r, stat) of
           (Data len bs, Stat buf) \<Rightarrow>
             let msg = bs @ drop (length bs) buf in
             if len \<ge> BUFLEN_lev then Return (Inl OutOfBounds)
             else
               let msg = msg[len := 0] in
               Call (WriteC (cstr msg)) (\<lambda>_. Return (Inr (Stat msg)))
         | _ \<Rightarrow> Return (Inl NullDeref)))"

definition event_cb :: "u16 \<Rightarrow> server_state \<Rightarrow> server_state prog" where
  "event_cb what st =
    Call FreeC (\<lambda>_. Return (case st of
       Inl f \<Rightarrow> Inl f
     | Inr Null \<Rightarrow> Inr Null
     | Inr (Stat buf) \<Rightarrow> Inr Freed
     | Inr Freed \<Rightarrow> Inl BadFree))"

definition server_handlers :: "server_state handlers" where
  "server_handlers = \<lparr>read_h = do_echo_request, write_h = Return, event_h = event_cb\<rparr>"

text \<open>A new connection: a bufferevent whose creation the code does not check, then the two calls on it.\<close>

definition listener_cb :: "server_state \<Rightarrow> server_state prog" where
  "listener_cb stat = Call (SetCbC True False True) (\<lambda>_.
     Call (EnableC (EV_READ OR EV_PERSIST)) (\<lambda>_. Return stat))"

definition server_conn :: "bev_env \<Rightarrow> bool \<Rightarrow> bool \<Rightarrow> (connect_stat \<Rightarrow> connect_stat res)
    \<Rightarrow> server_state bev_event list \<Rightarrow> (bufferevent \<times> server_state client_link) res" where
  "server_conn e sock alloc left evs =
    (case bufferevent_socket_new sock (small_allocs e) BEV_OPT_CLOSE_ON_FREE of
       None \<Rightarrow> Inl NullDeref
     | Some b \<Rightarrow>
         bindE (run_calls (bev_fire server_handlers) (Client e (listener_cb (stat_init_lev alloc left)) # evs)
           (b, new_link (stat_init_lev alloc left))) (\<lambda>(_, y). Inr y))"

section \<open>The client\<close>

text \<open>
  A line from the terminal: what \<open>read\<close> gave, at most 1023 bytes, nothing for an error. The newline
  is overwritten by a zero byte, and as many bytes are sent as were read.
\<close>

definition cmd_read_data :: "byte list option \<Rightarrow> byte list option" where
  "cmd_read_data inp =
    (case inp of
       None \<Rightarrow> None
     | Some bs \<Rightarrow>
         if bs = [] then None
         else
           let ret = length bs;
               msg = (if bs ! (ret - 1) = 10 then bs[ret - 1 := 0] else bs @ [0]) in
           Some (take ret msg))"

text \<open>What the client does with what it receives: it ends, goes on, or shows a text.\<close>

datatype client_outcome = Exits | Returns_on_error | Shows "byte list"

definition socket_read_data :: "byte list option \<Rightarrow> client_outcome" where
  "socket_read_data inp =
    (case inp of
       None \<Rightarrow> Returns_on_error
     | Some bs \<Rightarrow> if bs = [] then Exits else Shows (cstr (bs @ [0])))"

text \<open>The steps of \<open>connect_server\<close> and their outcomes: the address text, the socket, the connection.\<close>

definition connect_server :: "bool \<Rightarrow> int \<Rightarrow> bool \<Rightarrow> int \<times> int list" where
  "connect_server addr_ok sockfd connected =
    (if \<not> addr_ok then (-1, [])
     else if sockfd = -1 then (sockfd, [])
     else if \<not> connected then (-1, [sockfd])
     else (sockfd, []))"

section \<open>One request\<close>

lemma cstr_put: "cstr ((ds @ xs)[length ds := 0]) = cstr ds"
proof (cases xs)
  case (Cons x ys)
  have "takeWhile (\<lambda>c. c \<noteq> 0) (ds @ 0 # ys) = takeWhile (\<lambda>c. c \<noteq> 0) ds"
    by (induction ds) simp_all
  then show ?thesis
    by (simp add: cstr_def Cons)
qed (simp add: list_update_beyond)

lemma cstr_all: "0 \<notin> set ds \<Longrightarrow> cstr ds = ds"
  unfolding cstr_def by (rule takeWhile_eq_all_conv [THEN iffD2]) auto

lemma cstr_length: "length (cstr ds) \<le> length ds"
  by (simp add: cstr_def length_takeWhile_le)

text \<open>What reading at most \<open>BUFLEN_lev\<close> bytes can give.\<close>

lemma possible_read:
  assumes "possible e (ReadC BUFLEN_lev) r"
  obtains ds where "r = Data (length ds) ds" "length ds \<le> BUFLEN_lev"
  using assms by (cases r) (auto simp: BUFLEN_lev_def)

lemma request_ok: "prog_ok (do_echo_request st) True 1024"
proof (cases st)
  case (Inr stat)
  have "prog_ok (case (Data (length ds) ds, stat) of
           (Data len bs, Stat buf) \<Rightarrow>
             let msg = bs @ drop (length bs) buf in
             if len \<ge> BUFLEN_lev then Return (Inl OutOfBounds)
             else
               let msg = msg[len := 0] in
               Call (WriteC (cstr msg)) (\<lambda>_. Return (Inr (Stat msg)))
         | _ \<Rightarrow> Return (Inl NullDeref)) True 1024" if "length ds \<le> BUFLEN_lev" for ds
    using cstr_length [of ds] that by (cases stat) (simp_all add: cstr_put BUFLEN_lev_def Let_def)
  then show ?thesis
    by (auto simp: do_echo_request_def Inr elim!: possible_read)
qed (simp add: do_echo_request_def)

lemma server_ok: "handlers_ok 1024 server_handlers"
  by (auto simp: handlers_ok_def server_handlers_def request_ok event_cb_def)

section \<open>Connections\<close>

text \<open>
  The connection's structure, and what the server has echoed: everything that it took, as long as
  there are no zero bytes in it.
\<close>

definition serves :: "server_state client_link \<Rightarrow> bool" where
  "serves s \<longleftrightarrow> (case client s of
     Inl f \<Rightarrow> f = OutOfBounds
   | Inr Null \<Rightarrow> False
   | Inr (Stat buf) \<Rightarrow> holds s \<and> length buf = BUFLEN_lev \<and> (0 \<notin> set (took s) \<longrightarrow> wrote s = took s)
   | Inr Freed \<Rightarrow> \<not> holds s \<and> (0 \<notin> set (took s) \<longrightarrow> wrote s = took s))"

definition has_memory :: "bev_env \<Rightarrow> bool" where
  "has_memory e \<longleftrightarrow> \<not> alloc_fails (mem_env e)"

lemma request_keeps:
  assumes "has_memory e" "serves s" "holds s"
  shows "prog_keeps serves e (do_echo_request (client s)) s"
proof (cases "client s")
  case (Inl f)
  then show ?thesis
    using assms(2) by (simp add: do_echo_request_def serves_def)
next
  case (Inr stat)
  then obtain buf where b: "stat = Stat buf" "length buf = BUFLEN_lev" "0 \<notin> set (took s) \<Longrightarrow> wrote s = took s"
    using assms(2,3) by (cases stat) (auto simp: serves_def)
  have cm: "length ds \<le> CHAIN_MAX - CHAIN_SIZE" if "length ds \<le> 1024" for ds :: "byte list"
    using that by (simp add: CHAIN_MAX_def CHAIN_SIZE_def)
  have echo: "prog_keeps serves e (Call (WriteC (cstr ds)) (\<lambda>_. Return (Inr (Stat msg)))) (s\<lparr>took := took s @ ds\<rparr>)"
    if "length ds < BUFLEN_lev" "length msg = BUFLEN_lev" for ds msg
  proof -
    have code: "r = Code 0" if "possible e (WriteC (cstr ds)) r" for r
      using that cm [of "cstr ds"] cstr_length [of ds] \<open>length ds < BUFLEN_lev\<close> assms(1)
      by (cases r) (auto simp: has_memory_def BUFLEN_lev_def)
    have after: "serves (s\<lparr>took := took s @ ds, wrote := wrote s @ cstr ds, client := Inr (Stat msg)\<rparr>)"
      using that b(3) assms(3) by (auto simp: serves_def cstr_all)
    show ?thesis
      unfolding prog_keeps.simps
    proof (intro allI impI)
      fix r
      assume "possible e (WriteC (cstr ds)) r"
      then have "r = Code 0"
        by (rule code)
      then show "serves ((note_call (WriteC (cstr ds)) r (s\<lparr>took := took s @ ds\<rparr>))\<lparr>client := Inr (Stat msg)\<rparr>)"
        using after by simp
    qed
  qed
  show ?thesis
    unfolding do_echo_request_def Inr b(1) sum.case prog_keeps.simps(2) [of serves e "ReadC BUFLEN_lev"]
    by (auto simp: Let_def cstr_put serves_def b(2) BUFLEN_lev_def [symmetric]
        simp del: prog_keeps.simps(2) intro!: echo elim!: possible_read)
qed

lemma server_keeps:
  assumes "has_memory e"
  shows "handlers_keep serves e server_handlers"
proof -
  have "prog_keeps serves e (event_cb what (client s)) s" if "serves s" "holds s" for what s
    using that by (cases "client s") (auto simp: event_cb_def serves_def split: connect_stat.splits)
  moreover have "prog_keeps serves e (Return (client s)) s" if "serves s" for s
    using that by simp
  ultimately show ?thesis
    using request_keeps [OF assms] by (simp add: handlers_keep_def server_handlers_def)
qed

text \<open>The events of a connection once it is set up: the server makes no calls outside its handlers.\<close>

fun server_event :: "server_state bev_event \<Rightarrow> bool" where
  "server_event (Readable e timeout avail readv err) \<longleftrightarrow> has_memory e"
| "server_event (Writable e timeout writev err) \<longleftrightarrow> has_memory e"
| "server_event (Deferred e) \<longleftrightarrow> has_memory e"
| "server_event (Client e p) \<longleftrightarrow> False"
| "server_event _ \<longleftrightarrow> True"

lemma server_event_keeps: "server_event ev \<Longrightarrow> event_keeps serves server_handlers ev"
  by (cases ev) (simp_all add: server_keeps)

text \<open>After \<open>listener_cb\<close> the connection is served.\<close>

lemma listener_serves:
  assumes "bufferevent_socket_new True True opts = Some b" "env_ok g e"
  shows "\<exists>y. bev_fire server_handlers (Client e (listener_cb (Inr (Stat (replicate BUFLEN_lev 0)))))
      (b, new_link (Inr (Stat (replicate BUFLEN_lev 0)))) = Inr ((), y)
    \<and> loop_inv g y \<and> serves (snd y) \<and> traffic y = 0"
proof -
  let ?st = "Inr (Stat (replicate BUFLEN_lev 0)) :: server_state"
  note new = new_inv(1) [OF assms(1), of g ?st] new_inv(2) [OF assms(1), of ?st]
  have p: "prog_ok (listener_cb ?st) (holds (new_link ?st)) 0" "prog_keeps serves e (listener_cb ?st) (new_link ?st)"
    by (simp_all add: listener_cb_def serves_def new_link_def)
  have b: "bev_inv g (holds (new_link ?st)) 0 b"
    using new(1) by (simp add: loop_inv_def)
  have rm: "room 0 b"
    using traffic_room(3) [OF new(1), where k = 0 and ev = Finalize] new(2) by (simp add: event_cost_def)
  obtain y where y: "run_prog e (listener_cb ?st) b (new_link ?st) = Inr y"
    "moved (\<lambda>_. True) g 0 0 [] 0 (b, new_link ?st) y" "serves (snd y)"
    using run_prog_moved [OF b assms(2) p rm] by blast
  have "bytes_of (bev_input b) = []" "bytes_of (bev_output b) = []"
    using new by (simp_all add: traffic_def loop_inv_def new_link_def)
  then have "wrote (snd y) = []" "took (snd y) @ bytes_of (bev_input (fst y)) = []"
    "bytes_of (bev_output (fst y)) = []"
    using y(2) by (simp_all add: moved_def new_link_def)
  then have "loop_inv g y" "traffic y = 0"
    using y(2) by (auto simp: loop_inv_def traffic_def moved_def)
  then show ?thesis
    using y(1,3) by (simp add: new_link_def)
qed

lemma server_run:
  assumes "events_ok False 1024 evs" "\<forall>ev\<in>set evs. server_event ev" "env_ok False e"
    "left (Stat (replicate BUFLEN_lev 0)) = Inr (Stat (replicate BUFLEN_lev 0))"
  shows "\<exists>y. server_conn e True True left evs = Inr y \<and> loop_inv False y \<and> serves (snd y)"
proof -
  obtain b where b: "bufferevent_socket_new True True BEV_OPT_CLOSE_ON_FREE = Some b"
    by (simp add: bufferevent_socket_new_def BEV_OPT_CLOSE_ON_FREE_def BEV_OPT_UNLOCK_CALLBACKS_def
        BEV_OPT_DEFER_CALLBACKS_def)
  obtain y where y: "bev_fire server_handlers (Client e (listener_cb (Inr (Stat (replicate BUFLEN_lev 0)))))
      (b, new_link (Inr (Stat (replicate BUFLEN_lev 0)))) = Inr ((), y)" "loop_inv False y" "serves (snd y)" "traffic y = 0"
    using listener_serves [OF b assms(3)] by blast
  have "traffic y + sum_list (map (event_cost 1024) evs) \<le> 2 ^ 63 - 1"
    using assms(1) y(4) by (simp add: events_ok_def sum_cost)
  then obtain rs z where z: "run_calls (bev_fire server_handlers) evs y = Inr (rs, z)" "loop_inv False z" "serves (snd z)"
    using loop.run_ok [of 1024 server_handlers False y serves evs] y(2,3) server_ok assms(1,2) server_event_keeps
    by (fastforce simp: events_ok_def)
  have "small_allocs e"
    using assms(3) by (simp add: env_ok_def)
  then show ?thesis
    using b y(1) z assms(4) by (simp add: server_conn_def stat_init_lev_def)
qed

lemma echo_sound:
  assumes "bev_inv g True n b" "holds s" "env_ok g e" "has_memory e" "room 1024 b"
  shows "\<exists>b' s'. run_prog e (do_echo_request (Inr (Stat buf))) b s = Inr (b', s')
    \<and> (if BUFLEN_lev \<le> length (bytes_of (bev_input b)) then client s' = Inl OutOfBounds
       else bytes_of (bev_input b') = [] \<and> wrote s' = wrote s @ cstr (bytes_of (bev_input b)))"
proof -
  define bs where "bs = take BUFLEN_lev (bytes_of (bev_input b))"
  have bl: "length bs \<le> 1024" "length bs < 2 ^ 31" "BUFLEN_lev \<le> length bs \<longleftrightarrow> BUFLEN_lev \<le> length (bytes_of (bev_input b))"
    by (auto simp: bs_def BUFLEN_lev_def)
  obtain r b1 where r: "bufferevent_read e b BUFLEN_lev = Inr (r, bs, b1)" "r = length bs"
    "leaves g True n (drop BUFLEN_lev (bytes_of (bev_input b))) (bytes_of (bev_output b)) b1"
    using read_call [OF assms(1) _ assms(3), of BUFLEN_lev] bl(2) unfolding bs_def by fastforce
  show ?thesis
  proof (cases "BUFLEN_lev \<le> length (bytes_of (bev_input b))")
    case True
    then show ?thesis
      using r bl(3) by (simp add: do_echo_request_def Let_def)
  next
    case False
    have out: "length (bytes_of (bev_output b1)) + length (cstr bs) < 2 ^ 64"
      using r(3) assms(5) bl(1) cstr_length [of bs] by (simp add: leaves_def room_def)
    have cm: "\<not> CHAIN_MAX - CHAIN_SIZE < length (cstr bs)"
      using bl(1) cstr_length [of bs] by (simp add: CHAIN_MAX_def CHAIN_SIZE_def)
    have b1: "bev_inv g True n b1"
      using r(3) by (simp add: leaves_def)
    obtain b2 where w: "bufferevent_write e b1 (cstr bs) = Inr (0, b2)" "bytes_of (bev_input b2) = bytes_of (bev_input b1)"
      using write_call [OF b1 _ assms(3) out] cm assms(4) by (auto simp: has_memory_def leaves_def)
    have "run_prog e (do_echo_request (Inr (Stat buf))) b s
        = Inr (b2, s\<lparr>took := took s @ bs, wrote := wrote s @ cstr bs,
            client := Inr (Stat ((bs @ drop (length bs) buf)[length bs := 0]))\<rparr>)"
      using r(1,2) w(1) bl(3) False by (simp add: do_echo_request_def Let_def cstr_put)
    then show ?thesis
      using False w(2) r(3) by (simp add: leaves_def bs_def)
  qed
qed

text \<open>
  The client ends each line with a zero byte. When two lines have arrived before the server's
  callback runs, only the first comes back.
\<close>

lemma second_line_lost:
  assumes "bev_inv g True n b" "holds s" "env_ok g e" "has_memory e" "room 1024 b"
    "cmd_read_data (Some (l1 @ [10])) = Some m1" "cmd_read_data (Some (l2 @ [10])) = Some m2"
    "bytes_of (bev_input b) = m1 @ m2" "length (m1 @ m2) < BUFLEN_lev" "0 \<notin> set l1"
  shows "\<exists>b' s'. run_prog e (do_echo_request (Inr (Stat buf))) b s = Inr (b', s')
    \<and> bytes_of (bev_input b') = [] \<and> wrote s' = wrote s @ l1"
proof -
  have m: "m1 = l1 @ [0]" "m2 = l2 @ [0]"
    using assms(6,7) by (simp_all add: cmd_read_data_def Let_def)
  have "bytes_of (bev_input b) = l1 @ 0 # m2"
    using assms(8) m by simp
  then have "cstr (bytes_of (bev_input b)) = l1"
    using cstr_put [of l1 "1 # m2"] cstr_all [OF assms(10)] by simp
  then show ?thesis
    using echo_sound [OF assms(1-5), of buf] assms(8,9) by auto
qed

section \<open>Properties\<close>


definition full_env :: bev_env where
  "full_env = \<lparr>adds = True, mem_env = (\<lambda>n. Some (replicate n 0)), small_allocs = True, now = (0, 0)\<rparr>"

lemma full_env_ok: "env_ok g full_env" "has_memory full_env"
  by (auto simp: env_ok_def has_memory_def full_env_def malloc_sized_def alloc_fails_def evbuffer_chain_new_def
      Let_def split: if_splits)


text \<open>C38: One request: the callback of the libevent server takes up to 1024 bytes. When 1024 or more are
  waiting it stores the final zero behind its array, in memory that is not its own; otherwise
  it leaves none waiting and writes back what is before the first zero byte, nothing after it.
\<close>

theorem echo_request_result:
  assumes "bev_inv g True n b" "holds s" "env_ok g e" "has_memory e" "room 1024 b"
  shows "\<exists>b' s'. run_prog e (do_echo_request (Inr (Stat buf))) b s = Inr (b', s')
    \<and> (if BUFLEN_lev \<le> length (bytes_of (bev_input b)) then client s' = Inl OutOfBounds
       else bytes_of (bev_input b') = [] \<and> wrote s' = wrote s @ cstr (bytes_of (bev_input b)))"
  using assms by (rule echo_sound)

text \<open>Four bytes are waiting, the last two after a zero byte.\<close>

definition waiting_bev :: bufferevent where
  "waiting_bev = plain_bev\<lparr>bev_input := (bev_input plain_bev)\<lparr>chains :=
     [\<lparr>buffer_len = 4, misalign = 0, off = 4, flags = 0, mem = [72, 105, 0, 89]\<rparr>],
     last_at := 1, last_with_datap := 0, total_len := 4\<rparr>\<rparr>"

lemma waiting_ok: "bev_inv g True 0 waiting_bev" "bytes_of (bev_input waiting_bev) = [72, 105, 0, 89]"
proof -
  note b = new_fields [OF plain_new]
  have io: "io_st True True waiting_bev" "bytes_of (bev_input waiting_bev) = [72, 105, 0, 89]"
    "bytes_of (bev_output waiting_bev) = []"
    by (simp_all add: waiting_bev_def io_st_def wm_entry_def quiet_def b evbuffer_freeze_def evbuffer_add_cb_def
        evbuffer_new_def ev_inv_def layout_def lwd_ok_def bytes_of_def datas_def chain_data_def chain_ok_def
        CHAIN_MAX_def CHAIN_SIZE_def CHAIN_PINNED_def IMMUTABLE_def MAX_SINGLE_READ_DEFAULT_def
        MAX_SINGLE_WRITE_DEFAULT_def Let_def)
  have "evs_ok g (over waiting_bev) False False waiting_bev" "lim_ok g False False waiting_bev" "refs_ok True 0 waiting_bev"
    using b io(3) by (auto simp: waiting_bev_def evs_ok_def over_def reads_on_def writes_on_def lim_ok_def refs_ok_def
        EV_READ_def EV_WRITE_def susp_def)
  then show "bev_inv g True 0 waiting_bev"
    using bev_invI [OF io(1)] by blast
  show "bytes_of (bev_input waiting_bev) = [72, 105, 0, 89]"
    by (rule io(2))
qed

theorem echo_request_result_witness:
  "\<exists>b' s'. run_prog full_env (do_echo_request (Inr (Stat (replicate BUFLEN_lev 0)))) waiting_bev (new_link (Inr Null))
      = Inr (b', s') \<and> bytes_of (bev_input b') = [] \<and> wrote s' = [72, 105]"
proof -
  have r: "room 1024 waiting_bev"
    using new_fields(4) [OF plain_new]
    by (simp add: room_def waiting_bev_def bytes_of_def evbuffer_freeze_def evbuffer_add_cb_def evbuffer_new_def Let_def)
  have l: "\<not> BUFLEN_lev \<le> length (bytes_of (bev_input waiting_bev))" "cstr (bytes_of (bev_input waiting_bev)) = [72, 105]"
    by (simp_all add: waiting_ok(2) BUFLEN_lev_def cstr_def)
  show ?thesis
    using echo_request_result [OF waiting_ok(1) [of True] _ full_env_ok r, of "new_link (Inr Null)" "replicate BUFLEN_lev 0"] l
    by (auto simp: new_link_def)
qed

end
